(* ===== verification/Prelude.thy ===== *)
theory Prelude
  imports Main "HOL-Library.Word" "HOL-Library.AList" "HOL-Library.Multiset"
begin

text \<open>
  Shared vocabulary of the development: fallible computations (Rust's \<open>Result\<close> with the
  question-mark operator), the collection of a fallible map into a result, the loop of a fallible
  body over a vector, arithmetic of machine words, and the named collections into which the
  component theories put their rewrite rules.
\<close>

named_theorems ring_simps \<open>abstraction laws of the ring buffer\<close>
named_theorems wq_simps \<open>field laws of the intrusive wait queue\<close>
named_theorems chan_simps \<open>unfolding rules of the channel operations\<close>
named_theorems res_simps \<open>unfolding rules of the result combinators\<close>

section \<open>Results\<close>

text \<open>\<open>Result<T, E>\<close> is the sum type with the error on the left.\<close>

type_synonym ('e, 'a) res = "'e + 'a"

abbreviation Err :: "'e \<Rightarrow> ('e, 'a) res" where
  "Err \<equiv> Inl"

abbreviation Ok :: "'a \<Rightarrow> ('e, 'a) res" where
  "Ok \<equiv> Inr"

text \<open>The question-mark operator: continue with the value or return the error.\<close>

fun rbind :: "('e, 'a) res \<Rightarrow> ('a \<Rightarrow> ('e, 'b) res) \<Rightarrow> ('e, 'b) res" where
  "rbind (Inl e) f = Inl e"
| "rbind (Inr x) f = f x"

fun rmap :: "('a \<Rightarrow> 'b) \<Rightarrow> ('e, 'a) res \<Rightarrow> ('e, 'b) res" where
  "rmap f (Inl e) = Inl e"
| "rmap f (Inr x) = Inr (f x)"

text \<open>\<open>iter.map(f).collect::<Result<Vec<_>, _>>()\<close>: stops at the first error.\<close>

fun rcollect :: "('a \<Rightarrow> ('e, 'b) res) \<Rightarrow> 'a list \<Rightarrow> ('e, 'b list) res" where
  "rcollect f [] = Inr []"
| "rcollect f (x # xs) = rbind (f x) (\<lambda>y. rbind (rcollect f xs) (\<lambda>ys. Inr (y # ys)))"

text \<open>A \<open>for\<close> loop whose body may return an error, with the loop state threaded through.\<close>

fun rfold :: "('s \<Rightarrow> 'a \<Rightarrow> ('e, 's) res) \<Rightarrow> 's \<Rightarrow> 'a list \<Rightarrow> ('e, 's) res" where
  "rfold f s [] = Inr s"
| "rfold f s (x # xs) = rbind (f s x) (\<lambda>s'. rfold f s' xs)"

definition is_ok :: "('e, 'a) res \<Rightarrow> bool" where
  "is_ok r \<longleftrightarrow> (case r of Inl _ \<Rightarrow> False | Inr _ \<Rightarrow> True)"

lemma is_ok_simps [simp]: "is_ok (Inl e) = False" "is_ok (Inr x) = True"
  by (simp_all add: is_ok_def)

lemma is_ok_iff: "is_ok r \<longleftrightarrow> (\<exists>x. r = Inr x)"
  by (cases r) auto

lemma rbind_Inr_iff [simp]: "rbind r f = Inr y \<longleftrightarrow> (\<exists>x. r = Inr x \<and> f x = Inr y)"
  by (cases r) auto

lemma rbind_Inl_iff: "rbind r f = Inl e \<longleftrightarrow> r = Inl e \<or> (\<exists>x. r = Inr x \<and> f x = Inl e)"
  by (cases r) auto

lemma rmap_Inr_iff [simp]: "rmap f r = Inr y \<longleftrightarrow> (\<exists>x. r = Inr x \<and> y = f x)"
  by (cases r) auto

lemma rcollect_Inr_iff:
  "rcollect f xs = Inr ys \<longleftrightarrow> list_all2 (\<lambda>x y. f x = Inr y) xs ys"
  by (induction xs arbitrary: ys) (auto simp: list_all2_Cons1)

lemma rcollect_ok_iff: "is_ok (rcollect f xs) \<longleftrightarrow> (\<forall>x \<in> set xs. is_ok (f x))"
  by (induction xs) (auto simp: is_ok_iff)

lemma rcollect_member: "rcollect f xs = Inr ys \<Longrightarrow> y \<in> set ys \<Longrightarrow> \<exists>x \<in> set xs. f x = Inr y"
  by (induction xs arbitrary: ys) auto

lemma rcollect_length: "rcollect f xs = Inr ys \<Longrightarrow> length ys = length xs"
  by (auto simp: rcollect_Inr_iff dest: list_all2_lengthD)

lemma rfold_append:
  "rfold f s (xs @ ys) = rbind (rfold f s xs) (\<lambda>s'. rfold f s' ys)"
proof (induction xs arbitrary: s)
  case Nil
  then show ?case by simp
next
  case (Cons x xs)
  then show ?case by (cases "f s x") auto
qed

text \<open>Invariants of a fallible loop: if the body keeps \<open>P\<close>, so does the loop.\<close>

lemma rfold_invariant:
  assumes "rfold f s xs = Inr s'" and "P s"
    and "\<And>s x s'. P s \<Longrightarrow> x \<in> set xs \<Longrightarrow> f s x = Inr s' \<Longrightarrow> P s'"
  shows "P s'"
  using assms
proof (induction xs arbitrary: s)
  case Nil
  then show ?case by simp
next
  case (Cons x xs)
  from Cons.prems(1) obtain t where t: "f s x = Inr t" "rfold f t xs = Inr s'"
    by auto
  have "P t" using Cons.prems(2,3) t(1) by auto
  show ?case
  proof (rule Cons.IH [OF t(2) \<open>P t\<close>])
    fix u y v
    assume "P u" "y \<in> set xs" "f u y = Inr v"
    then show "P v" using Cons.prems(3) [of u y v] by simp
  qed
qed

text \<open>A loop that only checks.\<close>

lemma rfold_unit: "rfold (\<lambda>_ x. f x) () xs = Inr () \<longleftrightarrow> (\<forall>x \<in> set xs. f x = Inr ())"
proof (induction xs)
  case (Cons x xs)
  then show ?case by (cases "f x") auto
qed simp

section \<open>Options and association lists\<close>

lemma map_of_update: "map_of (AList.update k v xs) = (map_of xs)(k \<mapsto> v)"
  by (rule update_conv')

lemma map_of_delete: "map_of (AList.delete k xs) = (map_of xs)(k := None)"
  by (rule delete_conv')

lemma filter_neq_id [simp]: "p \<notin> set xs \<Longrightarrow> List.filter (\<lambda>q. q \<noteq> p) xs = xs"
  by (induction xs) auto

text \<open>Splitting a list by a key loses and duplicates nothing.\<close>

lemma mset_concat_filters:
  "distinct ks \<Longrightarrow> mset (concat (map (\<lambda>k. List.filter (\<lambda>x. f x = k) xs) ks)) = filter_mset (\<lambda>x. f x \<in> set ks) (mset xs)"
proof (induction ks)
  case Nil
  then show ?case by simp
next
  case (Cons k ks)
  then have "k \<notin> set ks" by simp
  have "filter_mset (\<lambda>x. f x \<in> set (k # ks)) (mset xs)
      = filter_mset (\<lambda>x. f x = k) (mset xs) + filter_mset (\<lambda>x. f x \<in> set ks) (mset xs)"
    using \<open>k \<notin> set ks\<close> by (induction xs) auto
  with Cons show ?case by simp
qed

text \<open>A list of distinct numbers below \<open>N\<close> that misses one of them is shorter than \<open>N\<close>.\<close>

lemma distinct_missing_length:
  assumes "distinct xs" and "\<And>j. j \<in> set xs \<Longrightarrow> j < N" and "i < N" and "i \<notin> set xs"
  shows "length xs < N"
proof -
  have "set (i # xs) \<subseteq> {..<N}" using assms(2,3) by auto
  then have "card (set (i # xs)) \<le> N" using card_mono [of "{..<N}"] by fastforce
  with assms(1,4) show ?thesis by (simp add: distinct_card)
qed

section \<open>Machine words\<close>

text \<open>The index of the \<open>i\<close>-th cell of a window that starts at \<open>r\<close>, read as a number.\<close>

lemma unat_add_of_nat:
  fixes r :: "'w::len word"
  shows "unat (r + of_nat i) = (unat r + i) mod 2 ^ LENGTH('w)"
  by (simp add: unat_word_ariths unat_of_nat mod_add_right_eq)

lemma unat_mod_word:
  fixes a b :: "'w::len word"
  shows "unat (a mod b) = unat a mod unat b"
  by (simp add: unat_mod)

lemma unat_of_nat_small: "n < 2 ^ LENGTH('w) \<Longrightarrow> unat (of_nat n :: 'w::len word) = n"
  by (simp add: unat_of_nat)

lemma unat_minus_one_eq: "unat (- 1 :: 'w::len word) = 2 ^ LENGTH('w) - 1"
  by (simp add: unat_eq_nat_uint unsigned_minus_1_eq_mask mask_eq_exp_minus_1 nat_diff_distrib nat_power_eq)

lemma mod_window_inj:
  fixes a b r d :: nat
  assumes "(r + a) mod d = (r + b) mod d" and "a < d" and "b < d"
  shows "a = b"
proof -
  have "(int r + int a) mod int d = (int r + int b) mod int d"
    using assms(1) by (metis of_nat_add zmod_int)
  then have "int a mod int d = int b mod int d"
    by (simp add: mod_eq_dvd_iff)
  with assms(2,3) show ?thesis by simp
qed

end
