(* ===== verification/Spsc.thy ===== *)
theory Spsc
  imports Prelude
begin

text \<open>
  The single-producer single-consumer ring buffer of \<open>rticx-spsc/src/lib.rs\<close>, used for the task
  input queues and the ready queues of the software-task and async passes.  \<open>usize\<close> is a word of
  any width \<open>'w\<close> with the wrapping arithmetic of release builds; a cell of the
  \<open>[MaybeUninit<T>; DEPTH]\<close> buffer is \<open>None\<close> until it has been written, so that reading
  uninitialised memory is a visible value.  The interface locale \<open>bounded_fifo\<close> states what the
  generated dispatchers rely on; the ring buffer interprets it.
\<close>

section \<open>The code\<close>

record (overloaded) ('a, 'w) queue =
  buffer :: "'a option list"
  read_idx :: "'w word"
  write_idx :: "'w word"

abbreviation depth :: "('a, 'w::len, 'z) queue_scheme \<Rightarrow> nat" where
  "depth q \<equiv> length (buffer q)"

text \<open>\<open>DEPTH\<close> as the \<open>usize\<close> the index arithmetic uses.\<close>

definition DEPTH :: "('a, 'w::len) queue \<Rightarrow> 'w word" where
  "DEPTH q = of_nat (depth q)"

definition queue_new :: "nat \<Rightarrow> ('a, 'w::len) queue" where
  "queue_new d = \<lparr>buffer = replicate d None, read_idx = 0, write_idx = 0\<rparr>"

text \<open>The write of a value at the producer's cell, then the increment of the write index.\<close>

definition enqueue_unchecked :: "('a, 'w::len) queue \<Rightarrow> 'a \<Rightarrow> ('a, 'w) queue" where
  "enqueue_unchecked q data =
     q\<lparr>buffer := (buffer q)[unat (write_idx q mod DEPTH q) := Some data],
       write_idx := write_idx q + 1\<rparr>"

definition enqueue :: "('a, 'w::len) queue \<Rightarrow> 'a \<Rightarrow> ('a, 'w) queue \<times> ('a, unit) res" where
  "enqueue q data =
     (let w = write_idx q
      in if (w + 1) mod DEPTH q \<noteq> read_idx q mod DEPTH q
         then (q\<lparr>buffer := (buffer q)[unat (w mod DEPTH q) := Some data], write_idx := w + 1\<rparr>, Ok ())
         else (q, Err data))"

text \<open>The value read is \<open>None\<close> when the cell was never written.\<close>

definition dequeue_unchecked :: "('a, 'w::len) queue \<Rightarrow> ('a, 'w) queue \<times> 'a option" where
  "dequeue_unchecked q =
     (q\<lparr>read_idx := read_idx q + 1\<rparr>, buffer q ! unat (read_idx q mod DEPTH q))"

definition dequeue :: "('a, 'w::len) queue \<Rightarrow> ('a, 'w) queue \<times> 'a option option" where
  "dequeue q =
     (let w = write_idx q mod DEPTH q; r = read_idx q mod DEPTH q
      in if r = w then (q, None)
         else (q\<lparr>read_idx := read_idx q + 1\<rparr>, Some (buffer q ! unat r)))"

section \<open>The interface the dispatchers use\<close>

text \<open>
  A bounded queue seen through its contents.  \<open>inv k q\<close> says that \<open>q\<close> is well formed and that at
  least \<open>k\<close> more elements may be enqueued before the laws stop holding (for a ring buffer whose
  depth does not divide the index range, the index wrap-around ends them).
\<close>

locale bounded_fifo =
  fixes enq :: "'q \<Rightarrow> 'a \<Rightarrow> 'q \<times> ('a, unit) res"
    and enq_unchecked :: "'q \<Rightarrow> 'a \<Rightarrow> 'q"
    and deq :: "'q \<Rightarrow> 'q \<times> 'a option option"
    and deq_unchecked :: "'q \<Rightarrow> 'q \<times> 'a option"
    and contents :: "'q \<Rightarrow> 'a list"
    and cap :: "'q \<Rightarrow> nat"
    and inv :: "nat \<Rightarrow> 'q \<Rightarrow> bool"
  assumes inv_antimono: "inv (Suc k) q \<Longrightarrow> inv k q"
    and bounded: "inv k q \<Longrightarrow> length (contents q) \<le> cap q"
    and enq_room: "inv (Suc k) q \<Longrightarrow> length (contents q) < cap q \<Longrightarrow> enq q x = (enq_unchecked q x, Ok ())"
    and enq_full: "inv (Suc k) q \<Longrightarrow> length (contents q) = cap q \<Longrightarrow> enq q x = (q, Err x)"
    and enq_contents: "inv (Suc k) q \<Longrightarrow> length (contents q) < cap q \<Longrightarrow>
      contents (enq_unchecked q x) = contents q @ [x]"
    and enq_inv: "inv (Suc k) q \<Longrightarrow> length (contents q) < cap q \<Longrightarrow> inv k (enq_unchecked q x)"
    and enq_cap: "cap (enq_unchecked q x) = cap q"
    and deq_empty: "inv k q \<Longrightarrow> contents q = [] \<Longrightarrow> deq q = (q, None)"
    and deq_some: "inv k q \<Longrightarrow> contents q = y # ys \<Longrightarrow>
      deq q = (fst (deq_unchecked q), Some (snd (deq_unchecked q)))"
    and deq_value: "inv k q \<Longrightarrow> contents q = y # ys \<Longrightarrow> snd (deq_unchecked q) = Some y"
    and deq_contents: "inv k q \<Longrightarrow> contents q = y # ys \<Longrightarrow> contents (fst (deq_unchecked q)) = ys"
    and deq_inv: "inv k q \<Longrightarrow> contents q = y # ys \<Longrightarrow> inv k (fst (deq_unchecked q))"
    and deq_cap: "cap (fst (deq_unchecked q)) = cap q"
begin

lemma inv_le: "inv k q \<Longrightarrow> j \<le> k \<Longrightarrow> inv j q"
proof (induction k)
  case 0
  then show ?case by simp
next
  case (Suc k)
  then show ?case by (cases "j = Suc k") (auto intro: inv_antimono)
qed

text \<open>What \<open>enqueue\<close> does, on both branches.\<close>

lemma enq_cases:
  assumes "inv (Suc k) q"
  obtains (room) "length (contents q) < cap q" "enq q x = (enq_unchecked q x, Ok ())"
      "contents (enq_unchecked q x) = contents q @ [x]" "inv k (enq_unchecked q x)"
  | (full) "length (contents q) = cap q" "enq q x = (q, Err x)"
  using bounded [OF assms] enq_room [OF assms] enq_full [OF assms] enq_contents [OF assms]
    enq_inv [OF assms] by fastforce

lemma deq_Some_iff: "inv k q \<Longrightarrow> snd (deq q) = Some v \<longleftrightarrow> (\<exists>y ys. contents q = y # ys \<and> v = Some y)"
  by (cases "contents q") (auto simp: deq_empty deq_some deq_value)

lemma deq_never_uninit: "inv k q \<Longrightarrow> snd (deq q) \<noteq> Some None"
  by (auto simp: deq_Some_iff)

end

section \<open>The ring buffer implements the interface\<close>

text \<open>The number of elements between the two indices, and the elements themselves.\<close>

definition pending :: "('a, 'w::len) queue \<Rightarrow> nat" where
  "pending q = unat (write_idx q - read_idx q)"

definition cell :: "('a, 'w::len) queue \<Rightarrow> nat \<Rightarrow> 'a option" where
  "cell q i = buffer q ! ((unat (read_idx q) + i) mod depth q)"

definition contents :: "('a, 'w::len) queue \<Rightarrow> 'a list" where
  "contents q = map (\<lambda>i. the (cell q i)) [0..<pending q]"

definition capacity :: "('a, 'w::len) queue \<Rightarrow> nat" where
  "capacity q = depth q - 1"

text \<open>
  Either the depth divides the index range, and wrapping indices is harmless, or the write index
  stays in range for \<open>k\<close> more elements.
\<close>

definition ring_inv :: "nat \<Rightarrow> ('a, 'w::len) queue \<Rightarrow> bool" where
  "ring_inv k q \<longleftrightarrow>
     0 < depth q \<and> depth q < 2 ^ LENGTH('w) \<and> pending q < depth q \<and>
     (\<forall>i < pending q. cell q i \<noteq> None) \<and>
     (depth q dvd 2 ^ LENGTH('w) \<or> unat (read_idx q) + pending q + k < 2 ^ LENGTH('w))"

lemma write_idx_eq: "write_idx q = read_idx q + of_nat (pending q)"
  by (simp add: pending_def)

lemma length_contents [simp]: "length (contents q) = pending q"
  by (simp add: contents_def)

lemma window_index:
  fixes q :: "('a, 'w::len) queue"
  assumes "ring_inv k q" and "i \<le> pending q + k"
  shows "unat ((read_idx q + of_nat i) mod DEPTH q) = (unat (read_idx q) + i) mod depth q"
proof -
  have d: "unat (DEPTH q) = depth q"
    using assms(1) by (simp add: ring_inv_def DEPTH_def unat_of_nat_small)
  have "(unat (read_idx q) + i) mod 2 ^ LENGTH('w) mod depth q = (unat (read_idx q) + i) mod depth q"
  proof (cases "depth q dvd 2 ^ LENGTH('w)")
    case True
    then show ?thesis by (rule mod_mod_cancel)
  next
    case False
    with assms have "unat (read_idx q) + i < 2 ^ LENGTH('w)"
      by (auto simp: ring_inv_def)
    then show ?thesis by simp
  qed
  then show ?thesis by (simp add: unat_mod_word d unat_add_of_nat)
qed

lemma read_cell: "ring_inv k q \<Longrightarrow> unat (read_idx q mod DEPTH q) = unat (read_idx q) mod depth q"
  using window_index [of k q 0] by simp

lemma write_cell:
  "ring_inv k q \<Longrightarrow> unat (write_idx q mod DEPTH q) = (unat (read_idx q) + pending q) mod depth q"
  using window_index [of k q "pending q"] by (simp add: write_idx_eq)

lemma next_cell:
  assumes "ring_inv (Suc k) q"
  shows "unat ((write_idx q + 1) mod DEPTH q) = (unat (read_idx q) + Suc (pending q)) mod depth q"
  using window_index [OF assms, of "Suc (pending q)"] by (simp add: write_idx_eq ac_simps)

text \<open>Two cells of one window are the same cell only at the same offset.\<close>

lemma cells_distinct:
  assumes "ring_inv k q" and "i < depth q" and "j < depth q"
  shows "(unat (read_idx q) + i) mod depth q = (unat (read_idx q) + j) mod depth q \<longleftrightarrow> i = j"
  using assms mod_window_inj by blast

lemma full_test:
  assumes "ring_inv (Suc k) q"
  shows "(write_idx q + 1) mod DEPTH q = read_idx q mod DEPTH q \<longleftrightarrow> Suc (pending q) = depth q"
proof -
  have "(write_idx q + 1) mod DEPTH q = read_idx q mod DEPTH q \<longleftrightarrow>
      (unat (read_idx q) + Suc (pending q)) mod depth q = unat (read_idx q) mod depth q"
    by (simp add: word_unat_eq_iff next_cell [OF assms] read_cell [OF assms])
  also have "\<dots> \<longleftrightarrow> Suc (pending q) = depth q"
  proof (cases "Suc (pending q) = depth q")
    case True
    then show ?thesis by simp
  next
    case False
    with assms have "Suc (pending q) < depth q" "0 < depth q" by (auto simp: ring_inv_def)
    then show ?thesis using cells_distinct [OF assms, of "Suc (pending q)" 0] False by simp
  qed
  finally show ?thesis .
qed

lemma empty_test:
  assumes "ring_inv k q"
  shows "read_idx q mod DEPTH q = write_idx q mod DEPTH q \<longleftrightarrow> pending q = 0"
proof -
  have b: "pending q < depth q" "0 < depth q" using assms by (auto simp: ring_inv_def)
  have "read_idx q mod DEPTH q = write_idx q mod DEPTH q \<longleftrightarrow>
      unat (read_idx q) mod depth q = (unat (read_idx q) + pending q) mod depth q"
    by (simp add: word_unat_eq_iff write_cell [OF assms] read_cell [OF assms])
  also have "\<dots> \<longleftrightarrow> pending q = 0"
    using cells_distinct [OF assms b(2) b(1)] by auto
  finally show ?thesis .
qed

subsection \<open>Enqueueing\<close>

lemma depth_enqueue [simp]: "depth (enqueue_unchecked q x) = depth q"
  by (simp add: enqueue_unchecked_def)

lemma read_idx_enqueue [simp]: "read_idx (enqueue_unchecked q x) = read_idx q"
  by (simp add: enqueue_unchecked_def)

lemma pending_enqueue:
  assumes "ring_inv k q"
  shows "pending (enqueue_unchecked q x) = Suc (pending q)"
proof -
  have "write_idx (enqueue_unchecked q x) - read_idx q = of_nat (Suc (pending q))"
    by (simp add: enqueue_unchecked_def write_idx_eq [of q])
  moreover have "Suc (pending q) < 2 ^ LENGTH('b)"
    using assms by (simp add: ring_inv_def)
  ultimately show ?thesis by (simp add: pending_def unat_of_nat_small del: of_nat_Suc)
qed

lemma cell_enqueue:
  assumes "ring_inv k q" and "i \<le> pending q"
  shows "cell (enqueue_unchecked q x) i = (if i = pending q then Some x else cell q i)"
proof -
  have b: "i < depth q" "pending q < depth q" "0 < depth q"
    using assms by (auto simp: ring_inv_def)
  have "(unat (read_idx q) + i) mod depth q = (unat (read_idx q) + pending q) mod depth q
      \<longleftrightarrow> i = pending q"
    by (rule cells_distinct [OF assms(1) b(1,2)])
  then show ?thesis
    using b by (auto simp: cell_def enqueue_unchecked_def write_cell [OF assms(1)] nth_list_update)
qed

lemma contents_enqueue:
  assumes "ring_inv k q"
  shows "contents (enqueue_unchecked q x) = contents q @ [x]"
proof -
  have "map (\<lambda>i. the (cell (enqueue_unchecked q x) i)) [0..<pending q] = contents q"
    unfolding contents_def by (rule map_cong) (auto simp: cell_enqueue [OF assms])
  then show ?thesis
    by (simp add: contents_def pending_enqueue [OF assms] cell_enqueue [OF assms])
qed

lemma ring_inv_enqueue:
  assumes "ring_inv (Suc k) q" and "Suc (pending q) < depth q"
  shows "ring_inv k (enqueue_unchecked q x)"
proof -
  have "\<forall>i < Suc (pending q). cell (enqueue_unchecked q x) i \<noteq> None"
    using assms(1) by (auto simp: cell_enqueue [OF assms(1)] ring_inv_def less_Suc_eq)
  then show ?thesis
    using assms by (auto simp: ring_inv_def pending_enqueue [OF assms(1)])
qed

lemma enqueue_eq:
  "ring_inv (Suc k) q \<Longrightarrow>
     enqueue q x = (if Suc (pending q) = depth q then (q, Err x) else (enqueue_unchecked q x, Ok ()))"
  using full_test [of k q] by (simp add: enqueue_def enqueue_unchecked_def Let_def)

subsection \<open>Dequeueing\<close>

lemma depth_dequeue [simp]: "depth (fst (dequeue_unchecked q)) = depth q"
  by (simp add: dequeue_unchecked_def)

lemma read_idx_dequeue:
  fixes q :: "('a, 'w::len) queue"
  assumes "ring_inv k q" and "0 < pending q"
  shows "unat (read_idx (fst (dequeue_unchecked q))) = Suc (unat (read_idx q)) mod 2 ^ LENGTH('w)"
  using unat_add_of_nat [of "read_idx q" 1] by (simp add: dequeue_unchecked_def)

lemma pending_dequeue:
  assumes "0 < pending q"
  shows "pending (fst (dequeue_unchecked q)) = pending q - 1"
proof -
  have "write_idx q - (read_idx q + 1) = of_nat (pending q) - 1"
    by (simp add: write_idx_eq)
  also have "\<dots> = of_nat (pending q - 1)"
    using assms by (simp add: of_nat_diff)
  finally have "write_idx q - (read_idx q + 1) = of_nat (pending q - 1)" .
  moreover have "pending q - 1 < 2 ^ LENGTH('b)"
    by (metis diff_le_self order_le_less_trans pending_def unsigned_less)
  ultimately show ?thesis by (simp add: pending_def dequeue_unchecked_def unat_of_nat_small)
qed

lemma cell_dequeue:
  fixes q :: "('a, 'w::len) queue"
  assumes "ring_inv k q" and "0 < pending q"
  shows "cell (fst (dequeue_unchecked q)) i = cell q (Suc i)"
proof -
  have d: "depth q dvd 2 ^ LENGTH('w) \<or> Suc (unat (read_idx q)) < 2 ^ LENGTH('w)"
    using assms by (auto simp: ring_inv_def)
  have "(Suc (unat (read_idx q)) mod 2 ^ LENGTH('w) + i) mod depth q
      = (Suc (unat (read_idx q)) + i) mod depth q"
    using d
  proof
    assume "depth q dvd 2 ^ LENGTH('w)"
    then have "Suc (unat (read_idx q)) mod 2 ^ LENGTH('w) mod depth q = Suc (unat (read_idx q)) mod depth q"
      by (rule mod_mod_cancel)
    then show ?thesis by (rule mod_add_cong) simp
  next
    assume "Suc (unat (read_idx q)) < 2 ^ LENGTH('w)"
    then show ?thesis by simp
  qed
  then show ?thesis
    by (simp add: cell_def read_idx_dequeue [OF assms]) (simp add: dequeue_unchecked_def)
qed

lemma contents_dequeue:
  assumes "ring_inv k q" and "0 < pending q"
  shows "contents (fst (dequeue_unchecked q)) = tl (contents q)"
proof -
  have "[0..<pending q] = 0 # map Suc [0..<pending q - 1]"
    using assms(2) by (simp add: map_Suc_upt upt_conv_Cons)
  then show ?thesis
    using assms(2) by (simp add: contents_def pending_dequeue cell_dequeue [OF assms] comp_def)
qed

lemma ring_inv_dequeue:
  fixes q :: "('a, 'w::len) queue"
  assumes "ring_inv k q" and "0 < pending q"
  shows "ring_inv k (fst (dequeue_unchecked q))"
proof -
  have "depth q dvd 2 ^ LENGTH('w) \<or>
      unat (read_idx (fst (dequeue_unchecked q))) + (pending q - 1) + k < 2 ^ LENGTH('w)"
    using assms read_idx_dequeue [OF assms] by (auto simp: ring_inv_def)
  then show ?thesis
    using assms by (auto simp: ring_inv_def pending_dequeue cell_dequeue [OF assms])
qed

lemma dequeue_value:
  assumes "ring_inv k q" and "0 < pending q"
  shows "snd (dequeue_unchecked q) = Some (hd (contents q))"
proof -
  have "cell q 0 \<noteq> None" using assms by (auto simp: ring_inv_def)
  then have "snd (dequeue_unchecked q) = Some (the (cell q 0))"
    by (simp add: dequeue_unchecked_def read_cell [OF assms(1)] cell_def)
  also have "the (cell q 0) = hd (contents q)"
    using assms(2) by (simp add: contents_def hd_map)
  finally show ?thesis .
qed

lemma dequeue_eq:
  "ring_inv k q \<Longrightarrow>
     dequeue q = (if pending q = 0 then (q, None)
                  else (fst (dequeue_unchecked q), Some (snd (dequeue_unchecked q))))"
  using empty_test [of k q] by (simp add: dequeue_def dequeue_unchecked_def Let_def)

lemma ring_inv_antimono: "ring_inv (Suc k) q \<Longrightarrow> ring_inv k q"
  by (auto simp: ring_inv_def)

lemma contents_Cons:
  "contents q = y # ys \<Longrightarrow> 0 < pending q \<and> hd (contents q) = y \<and> tl (contents q) = ys"
  by (metis length_contents length_greater_0_conv list.distinct(1) list.sel(1) list.sel(3))

lemma ring_inv_room: "ring_inv k q \<Longrightarrow> pending q < capacity q \<longleftrightarrow> Suc (pending q) < depth q"
  by (auto simp: capacity_def ring_inv_def)

lemma ring_inv_full: "ring_inv k q \<Longrightarrow> pending q = capacity q \<longleftrightarrow> Suc (pending q) = depth q"
  by (auto simp: capacity_def ring_inv_def)

lemma capacity_enqueue [simp]: "capacity (enqueue_unchecked q x) = capacity q"
  by (simp add: capacity_def)

lemma capacity_dequeue [simp]: "capacity (fst (dequeue_unchecked q)) = capacity q"
  by (simp add: capacity_def)

interpretation ring: bounded_fifo enqueue enqueue_unchecked dequeue dequeue_unchecked
  contents capacity ring_inv
proof (unfold_locales, goal_cases)
  case (2 k q)
  then show ?case by (auto simp: capacity_def ring_inv_def)
next
  case (8 k q)
  then have "pending q = 0" by (metis length_contents list.size(3))
  with 8 show ?case by (simp add: dequeue_eq)
qed (auto simp: ring_inv_antimono ring_inv_room ring_inv_full enqueue_eq contents_enqueue
    ring_inv_enqueue contents_dequeue ring_inv_dequeue dequeue_value dequeue_eq dest!: contents_Cons)

section \<open>Runs of operations\<close>

datatype 'a queue_op = Enq 'a | Deq

datatype 'a queue_out = EnqOk | EnqFull 'a | DeqEmpty | DeqSome "'a option"

text \<open>The ring buffer driven by a sequence of producer and consumer calls.\<close>

fun run_queue :: "('a, 'w::len) queue \<Rightarrow> 'a queue_op list \<Rightarrow> 'a queue_out list" where
  "run_queue q [] = []"
| "run_queue q (Enq x # ops) =
     (case enqueue q x of
        (q', Inr _) \<Rightarrow> EnqOk # run_queue q' ops
      | (q', Inl y) \<Rightarrow> EnqFull y # run_queue q' ops)"
| "run_queue q (Deq # ops) =
     (case dequeue q of
        (q', None) \<Rightarrow> DeqEmpty # run_queue q' ops
      | (q', Some v) \<Rightarrow> DeqSome v # run_queue q' ops)"

text \<open>The specification: a list of at most \<open>c\<close> elements.\<close>

fun run_list :: "nat \<Rightarrow> 'a list \<Rightarrow> 'a queue_op list \<Rightarrow> 'a queue_out list" where
  "run_list c xs [] = []"
| "run_list c xs (Enq x # ops) =
     (if length xs < c then EnqOk # run_list c (xs @ [x]) ops else EnqFull x # run_list c xs ops)"
| "run_list c xs (Deq # ops) =
     (case xs of [] \<Rightarrow> DeqEmpty # run_list c [] ops
      | y # ys \<Rightarrow> DeqSome (Some y) # run_list c ys ops)"

fun enqs :: "'a queue_op list \<Rightarrow> nat" where
  "enqs [] = 0"
| "enqs (Enq x # ops) = Suc (enqs ops)"
| "enqs (Deq # ops) = enqs ops"

lemma run_queue_eq:
  "ring_inv (enqs ops) q \<Longrightarrow> run_queue q ops = run_list (capacity q) (contents q) ops"
proof (induction ops arbitrary: q rule: enqs.induct)
  case 1
  then show ?case by simp
next
  case (2 x ops)
  then have inv: "ring_inv (Suc (enqs ops)) q" by simp
  then show ?case
  proof (cases rule: ring.enq_cases [where x = x])
    case room
    have "run_queue (enqueue_unchecked q x) ops = run_list (capacity q) (contents q @ [x]) ops"
      using 2(1) [OF room(4)] by (simp add: room(3))
    with room(1,2) show ?thesis by simp
  next
    case full
    have "run_queue q ops = run_list (capacity q) (contents q) ops"
      by (rule 2(1)) (rule ring_inv_antimono [OF inv])
    with full show ?thesis by simp
  qed
next
  case (3 ops)
  then have inv: "ring_inv (enqs ops) q" by simp
  show ?case
  proof (cases "contents q")
    case Nil
    with 3(1) [OF inv] show ?thesis by (simp add: ring.deq_empty [OF inv])
  next
    case (Cons y ys)
    have "run_queue (fst (dequeue_unchecked q)) ops = run_list (capacity q) ys ops"
      using 3(1) [OF ring.deq_inv [OF inv Cons]] by (simp add: ring.deq_contents [OF inv Cons])
    then show ?thesis
      by (simp add: ring.deq_some [OF inv Cons] ring.deq_value [OF inv Cons] Cons)
  qed
qed

lemma queue_new_props [simp]:
  "pending (queue_new d :: ('a, 'w::len) queue) = 0"
  "contents (queue_new d :: ('a, 'w::len) queue) = []"
  "capacity (queue_new d :: ('a, 'w::len) queue) = d - 1"
  "depth (queue_new d :: ('a, 'w::len) queue) = d"
  "read_idx (queue_new d :: ('a, 'w::len) queue) = 0"
  by (simp_all add: queue_new_def pending_def contents_def capacity_def)

lemma ring_inv_new:
  "0 < d \<Longrightarrow> d < 2 ^ LENGTH('w) \<Longrightarrow> d dvd 2 ^ LENGTH('w) \<or> k < 2 ^ LENGTH('w) \<Longrightarrow>
     ring_inv k (queue_new d :: ('a, 'w::len) queue)"
  by (auto simp: ring_inv_def)

text \<open>
  (C1) A ring buffer of \<open>DEPTH\<close> cells behaves as a bounded FIFO list of \<open>DEPTH - 1\<close> elements
  under every sequence of \<open>enqueue\<close> and \<open>dequeue\<close> calls: same results, values in order, rejected
  values handed back, no uninitialised read.  Sequences may be of any length when \<open>DEPTH\<close> divides the
  range of \<open>usize\<close>; otherwise the number of \<open>enqueue\<close> calls must stay below that range.
\<close>

theorem spsc_refines_bounded_list:
  fixes d :: nat
  assumes "0 < d" and "d < 2 ^ LENGTH('w::len)"
    and "d dvd 2 ^ LENGTH('w) \<or> enqs ops < 2 ^ LENGTH('w)"
  shows "run_queue (queue_new d :: ('a, 'w) queue) ops = run_list (d - 1) [] ops"
  using run_queue_eq [OF ring_inv_new [OF assms]] by simp

lemma spsc_refines_bounded_list_witness:
  "run_queue (queue_new 3 :: (nat, 32) queue) [Enq 1, Enq 2, Enq 3, Deq, Deq, Deq]
     = [EnqOk, EnqOk, EnqFull 3, DeqSome (Some 1), DeqSome (Some 2), DeqEmpty]"
  by (simp add: spsc_refines_bounded_list del: run_queue.simps)

section \<open>The end of the index range\<close>

text \<open>One element through the queue: \<open>enqueue\<close> followed by \<open>dequeue\<close>.\<close>

definition cycle :: "'a \<Rightarrow> ('a, 'w::len) queue \<Rightarrow> ('a, 'w) queue" where
  "cycle x q = fst (dequeue (fst (enqueue q x)))"

lemma cycle_step:
  assumes "ring_inv (Suc k) q" and "pending q = 0" and "2 \<le> depth q"
  shows "ring_inv k (cycle x q)" "pending (cycle x q) = 0" "depth (cycle x q) = depth q"
    "read_idx (cycle x q) = read_idx q + 1"
proof -
  let ?e = "enqueue_unchecked q x"
  have e: "fst (enqueue q x) = ?e" using assms by (simp add: enqueue_eq)
  have inv: "ring_inv k ?e" using assms by (simp add: ring_inv_enqueue)
  have p: "pending ?e = 1" using pending_enqueue [OF assms(1)] assms(2) by simp
  have c: "cycle x q = fst (dequeue_unchecked ?e)"
    using p by (simp add: cycle_def e dequeue_eq [OF inv])
  show "ring_inv k (cycle x q)" using p by (simp add: c ring_inv_dequeue [OF inv])
  show "pending (cycle x q) = 0" using p by (simp add: c pending_dequeue)
  show "depth (cycle x q) = depth q" by (simp add: c)
  show "read_idx (cycle x q) = read_idx q + 1"
    by (simp add: c dequeue_unchecked_def)
qed

lemma cycles:
  fixes q :: "('a, 'w::len) queue"
  assumes "ring_inv (k + n) q" and "pending q = 0" and "2 \<le> depth q"
  shows "ring_inv k ((cycle x ^^ n) q) \<and> pending ((cycle x ^^ n) q) = 0 \<and>
    depth ((cycle x ^^ n) q) = depth q \<and> read_idx ((cycle x ^^ n) q) = read_idx q + of_nat n"
  using assms(1)
proof (induction n arbitrary: k)
  case 0
  with assms show ?case by simp
next
  case (Suc n)
  from Suc.IH [of "Suc k"] Suc.prems have IH: "ring_inv (Suc k) ((cycle x ^^ n) q)"
    "pending ((cycle x ^^ n) q) = 0" "depth ((cycle x ^^ n) q) = depth q"
    "read_idx ((cycle x ^^ n) q) = read_idx q + of_nat n"
    by simp_all
  with cycle_step [OF IH(1,2), of x] assms(3) show ?case
    by (simp add: add.assoc add.commute)
qed

text \<open>
  (C3) A queue whose \<open>DEPTH\<close> is at least 2 and divides \<open>usize::MAX\<close> (3 or 5 on a 32-bit target)
  stops working after \<open>usize::MAX\<close> elements have passed through it: in a release build it is then
  empty, refuses every \<open>enqueue\<close> as full and stays in that state.
\<close>

theorem spsc_wraparound_stuck:
  fixes x y :: 'a
  assumes "2 \<le> d" and "d < 2 ^ LENGTH('w::len)" and "d dvd 2 ^ LENGTH('w) - 1"
  defines "q \<equiv> (cycle x ^^ (2 ^ LENGTH('w) - 1)) (queue_new d :: ('a, 'w) queue)"
  shows "enqueue q y = (q, Err y) \<and> dequeue q = (q, None)"
proof -
  let ?n = "2 ^ LENGTH('w) - 1 :: nat"
  have inv: "ring_inv (0 + ?n) (queue_new d :: ('a, 'w) queue)"
    using assms by (auto intro!: ring_inv_new)
  have q: "ring_inv 0 q" "pending q = 0" "depth q = d" "read_idx q = - 1"
    unfolding q_def using cycles [OF inv, of x] assms(1) by simp_all
  have w: "write_idx q = read_idx q" using write_idx_eq [of q] q(2) by simp
  have "unat (read_idx q mod DEPTH q) = 0"
    using read_cell [OF q(1)] q(3,4) assms(3) by (simp add: unat_minus_one_eq mod_eq_0_iff_dvd)
  then have "read_idx q mod DEPTH q = 0" by (simp add: unat_eq_zero)
  with q(4) w have "enqueue q y = (q, Err y)" by (simp add: enqueue_def)
  moreover have "dequeue q = (q, None)" using q(1,2) by (simp add: dequeue_eq)
  ultimately show ?thesis ..
qed

lemma spsc_wraparound_stuck_witness:
  "let q = (cycle () ^^ (2 ^ 32 - 1)) (queue_new 3 :: (unit, 32) queue)
   in enqueue q () = (q, Err ()) \<and> dequeue q = (q, None)"
  using spsc_wraparound_stuck [where 'w = 32 and d = 3] by (simp add: Let_def)

end
