(* ===== verification/SpscSplit.thy ===== *)
theory SpscSplit
  imports Spsc
begin

text \<open>
  \<open>Queue::split\<close>: the producer and the consumer of \<open>rticx-spsc/src/lib.rs\<close> share one queue through two mutable
  references, and run in contexts that preempt each other.  Each method is cut into its accesses to the memory of the
  queue, in the order of the source; an execution is any interleaving of the accesses of the two endpoints, on a
  sequentially consistent memory.  The comment of \<open>split\<close> claims that this is safe because the producer changes only
  the buffer and the write index and the consumer only the read index.
\<close>

section \<open>The endpoints\<close>

text \<open>Where the producer is in \<open>enqueue\<close>: before the read of \<open>read_idx\<close>, before the write of the cell, before the
  increment of \<open>write_idx\<close>; \<open>w\<close> is its local copy of the write index, a value of the index type \<open>'i\<close>.\<close>

datatype ('a, 'i) producer_pc =
    PIdle
  | PLoaded 'i 'a
  | PStore 'i 'a
  | PPublish 'a

text \<open>Where the consumer is in \<open>dequeue\<close>: before the read of \<open>read_idx\<close>, before the read of the cell, before the
  increment of \<open>read_idx\<close>.\<close>

datatype ('a, 'i) consumer_pc =
    CIdle
  | CLoaded 'i
  | CRead 'i
  | CAdvance "'a option"

text \<open>The queue and its two endpoints, with the history: the values of the completed \<open>enqueue\<close> calls, the values that
  \<open>dequeue\<close> returned (\<open>None\<close> for uninitialised memory), the number of elements in the queue at the test of each
  \<open>enqueue\<close> that failed, and at the read of \<open>write_idx\<close> of each \<open>dequeue\<close> that found it empty.\<close>

record (overloaded) ('a, 'w) split =
  sp_queue :: "('a, 'w) queue"
  sp_producer :: "('a, 'w word) producer_pc"
  sp_consumer :: "('a, 'w word) consumer_pc"
  sp_sent :: "'a list"
  sp_received :: "'a option list"
  sp_seen :: nat
  sp_full :: "nat list"
  sp_empty :: "nat list"

definition split_queue :: "('a, 'w::len) queue \<Rightarrow> ('a, 'w) split" where
  "split_queue q = \<lparr>sp_queue = q, sp_producer = PIdle, sp_consumer = CIdle, sp_sent = [], sp_received = [],
     sp_seen = 0, sp_full = [], sp_empty = []\<rparr>"

text \<open>\<open>Producer::enqueue\<close>, one access per step.\<close>

definition producer_call :: "'a \<Rightarrow> ('a, 'w::len) split \<Rightarrow> ('a, 'w) split option" where
  "producer_call x s =
     (case sp_producer s of
        PIdle \<Rightarrow> Some (s\<lparr>sp_producer := PLoaded (write_idx (sp_queue s)) x\<rparr>)
      | _ \<Rightarrow> None)"

definition producer_step :: "('a, 'w::len) split \<Rightarrow> ('a, 'w) split option" where
  "producer_step s =
     (let q = sp_queue s in
      case sp_producer s of
        PIdle \<Rightarrow> None
      | PLoaded w x \<Rightarrow>
          Some (if (w + 1) mod DEPTH q \<noteq> read_idx q mod DEPTH q then s\<lparr>sp_producer := PStore w x\<rparr>
                else s\<lparr>sp_producer := PIdle, sp_full := sp_full s @ [length (sp_sent s) - length (sp_received s)]\<rparr>)
      | PStore w x \<Rightarrow>
          Some (s\<lparr>sp_queue := q\<lparr>buffer := (buffer q)[unat (w mod DEPTH q) := Some x]\<rparr>, sp_producer := PPublish x\<rparr>)
      | PPublish x \<Rightarrow>
          Some (s\<lparr>sp_queue := q\<lparr>write_idx := write_idx q + 1\<rparr>, sp_producer := PIdle, sp_sent := sp_sent s @ [x]\<rparr>))"

text \<open>\<open>Consumer::dequeue\<close>, one access per step.\<close>

definition consumer_call :: "('a, 'w::len) split \<Rightarrow> ('a, 'w) split option" where
  "consumer_call s =
     (case sp_consumer s of
        CIdle \<Rightarrow> Some (s\<lparr>sp_consumer := CLoaded (write_idx (sp_queue s) mod DEPTH (sp_queue s)),
          sp_seen := length (sp_sent s)\<rparr>)
      | _ \<Rightarrow> None)"

definition consumer_step :: "('a, 'w::len) split \<Rightarrow> ('a, 'w) split option" where
  "consumer_step s =
     (let q = sp_queue s in
      case sp_consumer s of
        CIdle \<Rightarrow> None
      | CLoaded w \<Rightarrow>
          (let r = read_idx q mod DEPTH q in
           Some (if r = w
             then s\<lparr>sp_consumer := CIdle, sp_empty := sp_empty s @ [sp_seen s - length (sp_received s)]\<rparr>
             else s\<lparr>sp_consumer := CRead r\<rparr>))
      | CRead r \<Rightarrow> Some (s\<lparr>sp_consumer := CAdvance (buffer q ! unat r)\<rparr>)
      | CAdvance v \<Rightarrow>
          Some (s\<lparr>sp_queue := q\<lparr>read_idx := read_idx q + 1\<rparr>, sp_consumer := CIdle,
            sp_received := sp_received s @ [v]\<rparr>))"

datatype 'a access = Call_enqueue 'a | Next_enqueue | Call_dequeue | Next_dequeue

fun access_step :: "'a access \<Rightarrow> ('a, 'w::len) split \<Rightarrow> ('a, 'w) split option" where
  "access_step (Call_enqueue x) s = producer_call x s"
| "access_step Next_enqueue s = producer_step s"
| "access_step Call_dequeue s = consumer_call s"
| "access_step Next_dequeue s = consumer_step s"

fun run_split :: "'a access list \<Rightarrow> ('a, 'w::len) split \<Rightarrow> ('a, 'w) split option" where
  "run_split [] s = Some s"
| "run_split (a # as) s = Option.bind (access_step a s) (run_split as)"

fun calls :: "'a access list \<Rightarrow> nat" where
  "calls [] = 0"
| "calls (a # as) = (case a of Call_enqueue x \<Rightarrow> Suc (calls as) | _ \<Rightarrow> calls as)"

text \<open>Without interleaving the accesses are the methods.\<close>

lemma producer_alone:
  "sp_producer s = PIdle \<Longrightarrow>
     (\<exists>s'. run_split (if snd (enqueue (sp_queue s) x) = Ok () then [Call_enqueue x, Next_enqueue, Next_enqueue, Next_enqueue]
         else [Call_enqueue x, Next_enqueue]) s = Some s' \<and> sp_producer s' = PIdle \<and>
       sp_queue s' = fst (enqueue (sp_queue s) x))"
  by (auto simp: producer_call_def producer_step_def enqueue_def Let_def)

lemma consumer_alone:
  "sp_consumer s = CIdle \<Longrightarrow>
     (\<exists>s'. run_split (if snd (dequeue (sp_queue s)) \<noteq> None then [Call_dequeue, Next_dequeue, Next_dequeue, Next_dequeue]
         else [Call_dequeue, Next_dequeue]) s = Some s' \<and> sp_consumer s' = CIdle \<and>
       sp_queue s' = fst (dequeue (sp_queue s)) \<and>
       sp_received s' = sp_received s @ (case snd (dequeue (sp_queue s)) of Some v \<Rightarrow> [v] | None \<Rightarrow> []))"
  by (auto simp: consumer_call_def consumer_step_def dequeue_def Let_def)

section \<open>The invariant\<close>

text \<open>\<open>k\<close> is the number of \<open>enqueue\<close> calls still to come.\<close>

fun producer_ok :: "('a, 'w word) producer_pc \<Rightarrow> ('a, 'w::len) queue \<Rightarrow> bool" where
  "producer_ok PIdle q = True"
| "producer_ok (PLoaded w x) q = (w = write_idx q)"
| "producer_ok (PStore w x) q = (w = write_idx q \<and> Suc (pending q) < depth q)"
| "producer_ok (PPublish x) q =
     (Suc (pending q) < depth q \<and> buffer q ! unat (write_idx q mod DEPTH q) = Some x)"

text \<open>\<open>seen\<close> counts the values sent when the consumer read the write index, \<open>m\<close> the values received.\<close>

fun consumer_ok :: "('a, 'w word) consumer_pc \<Rightarrow> ('a, 'w::len) queue \<Rightarrow> nat \<Rightarrow> nat \<Rightarrow> bool" where
  "consumer_ok CIdle q seen m = True"
| "consumer_ok (CLoaded w) q seen m =
     (\<exists>p \<le> pending q. w = (read_idx q + of_nat p) mod DEPTH q \<and> seen = m + p)"
| "consumer_ok (CRead r) q seen m = (r = read_idx q mod DEPTH q \<and> 0 < pending q)"
| "consumer_ok (CAdvance v) q seen m = (v = Some (hd (contents q)) \<and> 0 < pending q)"

definition split_inv :: "nat \<Rightarrow> ('a, 'w::len) split \<Rightarrow> bool" where
  "split_inv k s \<longleftrightarrow>
     ring_inv (if sp_producer s = PIdle then k else Suc k) (sp_queue s) \<and>
     map Some (sp_sent s) = sp_received s @ map Some (contents (sp_queue s)) \<and>
     producer_ok (sp_producer s) (sp_queue s) \<and>
     consumer_ok (sp_consumer s) (sp_queue s) (sp_seen s) (length (sp_received s)) \<and>
     set (sp_full s) \<subseteq> {depth (sp_queue s) - 1} \<and> set (sp_empty s) \<subseteq> {0}"

lemma split_invD:
  assumes "split_inv k s"
  shows "ring_inv k (sp_queue s)" "map Some (sp_sent s) = sp_received s @ map Some (contents (sp_queue s))"
    "length (sp_sent s) = length (sp_received s) + pending (sp_queue s)"
proof -
  show "ring_inv k (sp_queue s)" using assms by (auto simp: split_inv_def split: if_splits dest: ring_inv_antimono)
  show m: "map Some (sp_sent s) = sp_received s @ map Some (contents (sp_queue s))" using assms by (simp add: split_inv_def)
  have "length (map Some (sp_sent s)) = length (sp_received s @ map Some (contents (sp_queue s)))" using m by (rule arg_cong)
  then show "length (sp_sent s) = length (sp_received s) + pending (sp_queue s)" by simp
qed

section \<open>The accesses keep the invariant\<close>

definition put_cell :: "('a, 'w::len) queue \<Rightarrow> 'a \<Rightarrow> ('a, 'w) queue" where
  "put_cell q x = q\<lparr>buffer := (buffer q)[unat (write_idx q mod DEPTH q) := Some x]\<rparr>"

lemma put_cell_simps [simp]:
  "depth (put_cell q x) = depth q" "read_idx (put_cell q x) = read_idx q" "write_idx (put_cell q x) = write_idx q"
  "pending (put_cell q x) = pending q" "DEPTH (put_cell q x) = DEPTH q"
  by (simp_all add: put_cell_def pending_def DEPTH_def)

lemma put_cell_cell:
  assumes "ring_inv k q" and "i < pending q"
  shows "cell (put_cell q x) i = cell q i"
proof -
  have "cell (put_cell q x) i = cell (enqueue_unchecked q x) i" by (simp add: cell_def put_cell_def enqueue_unchecked_def)
  then show ?thesis using cell_enqueue [OF assms(1), of i x] assms(2) by simp
qed

lemma put_cell_contents: "ring_inv k q \<Longrightarrow> contents (put_cell q x) = contents q"
  unfolding contents_def put_cell_simps by (rule map_cong) (simp_all add: put_cell_cell)

lemma put_cell_inv: "ring_inv k q \<Longrightarrow> ring_inv j (put_cell q x) = ring_inv j q"
  using put_cell_cell [of k q _ x] by (simp add: ring_inv_def)

lemma put_cell_written:
  assumes "ring_inv k q"
  shows "buffer (put_cell q x) ! unat (write_idx q mod DEPTH q) = Some x"
proof -
  have "0 < depth q" using assms by (simp add: ring_inv_def)
  then have "unat (write_idx q mod DEPTH q) < depth q" by (simp add: write_cell [OF assms])
  then show ?thesis by (simp add: put_cell_def)
qed

lemma publish_eq:
  assumes "buffer q ! unat (write_idx q mod DEPTH q) = Some x"
  shows "q\<lparr>write_idx := write_idx q + 1\<rparr> = enqueue_unchecked q x"
proof -
  have "(buffer q)[unat (write_idx q mod DEPTH q) := Some x] = buffer q"
    using assms by (metis list_update_id)
  then show ?thesis by (simp add: enqueue_unchecked_def)
qed

lemma advance_eq: "q\<lparr>read_idx := read_idx q + 1\<rparr> = fst (dequeue_unchecked q)"
  by (simp add: dequeue_unchecked_def)

lemma DEPTH_simps [simp]:
  "DEPTH (enqueue_unchecked q x) = DEPTH q" "DEPTH (fst (dequeue_unchecked q)) = DEPTH q"
  by (simp_all add: DEPTH_def)

lemma write_idx_simps [simp]:
  "write_idx (enqueue_unchecked q x) = write_idx q + 1" "write_idx (fst (dequeue_unchecked q)) = write_idx q"
  "buffer (fst (dequeue_unchecked q)) = buffer q"
  by (simp_all add: enqueue_unchecked_def dequeue_unchecked_def)

lemma consumer_ok_put_cell:
  "ring_inv k q \<Longrightarrow> consumer_ok pc q n m \<Longrightarrow> consumer_ok pc (put_cell q x) n m"
  by (cases pc) (simp_all add: put_cell_contents)

lemma consumer_ok_publish:
  assumes "ring_inv k q" and "consumer_ok pc q n m"
  shows "consumer_ok pc (enqueue_unchecked q x) n m"
proof -
  have h: "hd (contents q @ [x]) = hd (contents q)" if "0 < pending q"
    using that by (metis hd_append2 length_contents length_greater_0_conv)
  show ?thesis
    using assms by (cases pc) (auto simp: contents_enqueue pending_enqueue h le_SucI)
qed

lemma producer_ok_advance:
  "0 < pending q \<Longrightarrow> producer_ok pc q \<Longrightarrow> producer_ok pc (fst (dequeue_unchecked q))"
  by (cases pc) (auto simp: pending_dequeue)

lemma inv_producer_call:
  assumes "split_inv (Suc k) s" and "producer_call x s = Some s'"
  shows "split_inv k s'"
proof -
  have p: "sp_producer s = PIdle" "s' = s\<lparr>sp_producer := PLoaded (write_idx (sp_queue s)) x\<rparr>"
    using assms(2) by (auto simp: producer_call_def split: producer_pc.splits)
  show ?thesis using assms(1) unfolding split_inv_def p(2) by (simp add: p(1))
qed

lemma inv_producer_step:
  assumes "split_inv k s" and "producer_step s = Some s'"
  shows "split_inv k s'"
proof (cases "sp_producer s")
  case PIdle
  then show ?thesis using assms(2) by (simp add: producer_step_def)
next
  case (PLoaded w x)
  let ?q = "sp_queue s"
  have inv: "ring_inv (Suc k) ?q" and w: "w = write_idx ?q" using assms(1) PLoaded by (simp_all add: split_inv_def)
  have len: "length (sp_sent s) - length (sp_received s) = pending ?q" using split_invD(3) [OF assms(1)] by simp
  show ?thesis
  proof (cases "Suc (pending ?q) = depth ?q")
    case True
    then have "pending ?q = depth ?q - 1" by simp
    then have s': "s' = s\<lparr>sp_producer := PIdle, sp_full := sp_full s @ [depth ?q - 1]\<rparr>"
      using assms(2) PLoaded w full_test [OF inv] len True by (simp add: producer_step_def)
    show ?thesis using assms(1) ring_inv_antimono [OF inv] unfolding split_inv_def s' by (simp add: PLoaded)
  next
    case False
    then have s': "s' = s\<lparr>sp_producer := PStore w x\<rparr>"
      using assms(2) PLoaded w full_test [OF inv] by (simp add: producer_step_def)
    have "Suc (pending ?q) < depth ?q" using False inv by (simp add: ring_inv_def)
    then show ?thesis using assms(1) unfolding split_inv_def s' by (simp add: PLoaded)
  qed
next
  case (PStore w x)
  let ?q = "sp_queue s"
  have inv: "ring_inv (Suc k) ?q" and w: "w = write_idx ?q" "Suc (pending ?q) < depth ?q"
    using assms(1) PStore by (simp_all add: split_inv_def)
  have s': "s' = s\<lparr>sp_queue := put_cell ?q x, sp_producer := PPublish x\<rparr>"
    using assms(2) PStore w by (simp add: producer_step_def put_cell_def Let_def)
  show ?thesis using assms(1) w unfolding split_inv_def s'
    by (simp add: PStore put_cell_inv [OF inv] put_cell_contents [OF inv] put_cell_written [OF inv]
        consumer_ok_put_cell [OF inv])
next
  case (PPublish x)
  let ?q = "sp_queue s"
  have inv: "ring_inv (Suc k) ?q" and w: "Suc (pending ?q) < depth ?q"
      "buffer ?q ! unat (write_idx ?q mod DEPTH ?q) = Some x"
    using assms(1) PPublish by (simp_all add: split_inv_def)
  have s': "s' = s\<lparr>sp_queue := enqueue_unchecked ?q x, sp_producer := PIdle, sp_sent := sp_sent s @ [x]\<rparr>"
    using assms(2) PPublish publish_eq [OF w(2)] by (simp add: producer_step_def)
  have c: "contents (enqueue_unchecked ?q x) = contents ?q @ [x]" by (rule contents_enqueue [OF inv])
  show ?thesis using assms(1) ring_inv_enqueue [OF inv w(1), of x] unfolding split_inv_def s'
    by (simp add: PPublish c consumer_ok_publish [OF inv])
qed

lemma inv_consumer_call:
  assumes "split_inv k s" and "consumer_call s = Some s'"
  shows "split_inv k s'"
proof -
  have p: "sp_consumer s = CIdle" "s' = s\<lparr>sp_consumer := CLoaded (write_idx (sp_queue s) mod DEPTH (sp_queue s)),
      sp_seen := length (sp_sent s)\<rparr>"
    using assms(2) by (auto simp: consumer_call_def split: consumer_pc.splits)
  have "\<exists>n \<le> pending (sp_queue s). write_idx (sp_queue s) mod DEPTH (sp_queue s) =
      (read_idx (sp_queue s) + of_nat n) mod DEPTH (sp_queue s) \<and> length (sp_sent s) = length (sp_received s) + n"
    using split_invD(3) [OF assms(1)] write_idx_eq [of "sp_queue s"] by (intro exI [of _ "pending (sp_queue s)"]) simp
  then show ?thesis using assms(1) unfolding split_inv_def p(2) by simp
qed

lemma inv_consumer_step:
  assumes "split_inv k s" and "consumer_step s = Some s'"
  shows "split_inv k s'"
proof (cases "sp_consumer s")
  case CIdle
  then show ?thesis using assms(2) by (simp add: consumer_step_def)
next
  case (CLoaded w)
  let ?q = "sp_queue s"
  note inv = split_invD(1) [OF assms(1)]
  obtain n where n: "n \<le> pending ?q" "w = (read_idx ?q + of_nat n) mod DEPTH ?q" "sp_seen s = length (sp_received s) + n"
    using assms(1) CLoaded by (auto simp: split_inv_def)
  have b: "n < depth ?q" "0 < depth ?q" using inv n(1) by (auto simp: ring_inv_def)
  have "read_idx ?q mod DEPTH ?q = w \<longleftrightarrow> n = 0"
    using window_index [OF inv, of n] read_cell [OF inv] cells_distinct [OF inv b(2) b(1)] n
    by (auto simp: word_unat_eq_iff)
  then show ?thesis
    using assms CLoaded n by (cases "n = 0") (auto simp: consumer_step_def split_inv_def Let_def)
next
  case (CRead r)
  let ?q = "sp_queue s"
  note inv = split_invD(1) [OF assms(1)]
  have r: "r = read_idx ?q mod DEPTH ?q" "0 < pending ?q" using assms(1) CRead by (simp_all add: split_inv_def)
  have "buffer ?q ! unat r = Some (hd (contents ?q))"
    using dequeue_value [OF inv r(2)] by (simp add: dequeue_unchecked_def r(1))
  then show ?thesis using assms CRead r by (auto simp: consumer_step_def split_inv_def Let_def)
next
  case (CAdvance v)
  let ?q = "sp_queue s"
  have v: "v = Some (hd (contents ?q))" "0 < pending ?q" using assms(1) CAdvance by (simp_all add: split_inv_def)
  have s': "s' = s\<lparr>sp_queue := fst (dequeue_unchecked ?q), sp_consumer := CIdle, sp_received := sp_received s @ [v]\<rparr>"
    using assms(2) CAdvance by (simp add: consumer_step_def advance_eq)
  have inv: "ring_inv j (fst (dequeue_unchecked ?q))" if "ring_inv j ?q" for j
    by (rule ring_inv_dequeue [OF that v(2)])
  have c: "contents (fst (dequeue_unchecked ?q)) = tl (contents ?q)"
    by (rule contents_dequeue [OF split_invD(1) [OF assms(1)] v(2)])
  have "contents ?q \<noteq> []" using v(2) by (metis length_contents length_greater_0_conv)
  then have m: "map Some (contents ?q) = v # map Some (tl (contents ?q))" using v(1) by (cases "contents ?q") auto
  show ?thesis using assms(1) inv v pending_dequeue [OF v(2)] unfolding split_inv_def s'
    by (auto simp: c m producer_ok_advance)
qed

lemma run_split_inv:
  assumes "run_split as s = Some s'" and "split_inv (calls as) s"
  shows "split_inv 0 s'"
  using assms
proof (induction as arbitrary: s)
  case (Cons a as)
  obtain t where t: "access_step a s = Some t" "run_split as t = Some s'"
    using Cons(2) by (auto simp: bind_eq_Some_conv)
  have "split_inv (calls as) t"
    using t(1) Cons(3) inv_producer_call inv_producer_step inv_consumer_call inv_consumer_step
    by (cases a) auto
  then show ?case using Cons(1) t(2) by blast
qed simp

lemma access_depth:
  "access_step a s = Some t \<Longrightarrow> depth (sp_queue t) = depth (sp_queue s)"
  by (cases a)
    (auto simp: producer_call_def producer_step_def consumer_call_def consumer_step_def Let_def
      split: producer_pc.splits consumer_pc.splits if_splits)

lemma run_depth: "run_split as s = Some s' \<Longrightarrow> depth (sp_queue s') = depth (sp_queue s)"
  by (induction as arbitrary: s) (auto simp: bind_eq_Some_conv dest: access_depth)

text \<open>(C2) The two endpoints of a split queue may run in contexts that preempt each other: under every interleaving of
  their memory accesses the values that \<open>dequeue\<close> returned are, in order, a prefix of the values whose \<open>enqueue\<close>
  succeeded, no uninitialised or overwritten cell is read, at most \<open>DEPTH - 1\<close> values are in the queue, an \<open>enqueue\<close>
  fails only when \<open>DEPTH - 1\<close> values are in it at its test, and a \<open>dequeue\<close> returns \<open>None\<close> only when none is at its
  first access.  The number of \<open>enqueue\<close> calls is bounded as for the sequential queue.\<close>

theorem split_interleaving_fifo:
  fixes d :: nat
  assumes "0 < d" and "d < 2 ^ LENGTH('w::len)"
    and "d dvd 2 ^ LENGTH('w) \<or> calls as < 2 ^ LENGTH('w)"
    and "run_split as (split_queue (queue_new d :: ('a, 'w) queue)) = Some s"
  shows "\<exists>rest. map Some (sp_sent s) = sp_received s @ map Some rest \<and> length rest \<le> d - 1 \<and>
    set (sp_full s) \<subseteq> {d - 1} \<and> set (sp_empty s) \<subseteq> {0}"
proof -
  have start: "split_inv (calls as) (split_queue (queue_new d :: ('a, 'w) queue))"
    using ring_inv_new [OF assms(1-3)] by (simp add: split_inv_def split_queue_def)
  note inv = run_split_inv [OF assms(4) start]
  have d: "depth (sp_queue s) = d" using run_depth [OF assms(4)] by (simp add: split_queue_def)
  have "pending (sp_queue s) < d" using split_invD(1) [OF inv] d by (simp add: ring_inv_def)
  then show ?thesis using inv d
    by (intro exI [of _ "contents (sp_queue s)"]) (auto simp: split_inv_def)
qed

lemma split_demo:
  "run_split [Call_enqueue 1, Next_enqueue, Call_dequeue, Next_enqueue, Next_dequeue, Next_enqueue, Call_dequeue,
      Call_enqueue 2, Next_dequeue, Next_enqueue, Next_dequeue, Next_dequeue]
     (split_queue (queue_new 2 :: (nat, 8) queue)) \<noteq> None"
  by code_simp

theorem split_interleaving_fifo_witness:
  "\<exists>s rest. run_split [Call_enqueue 1, Next_enqueue, Call_dequeue, Next_enqueue, Next_dequeue, Next_enqueue, Call_dequeue,
      Call_enqueue 2, Next_dequeue, Next_enqueue, Next_dequeue, Next_dequeue]
     (split_queue (queue_new 2 :: (nat, 8) queue)) = Some s \<and>
     map Some (sp_sent s) = sp_received s @ map Some rest \<and> length rest \<le> 2 - 1 \<and>
     set (sp_full s) \<subseteq> {2 - 1} \<and> set (sp_empty s) \<subseteq> {0}"
proof -
  obtain s where s: "run_split [Call_enqueue 1, Next_enqueue, Call_dequeue, Next_enqueue, Next_dequeue, Next_enqueue, Call_dequeue,
      Call_enqueue 2, Next_dequeue, Next_enqueue, Next_dequeue, Next_dequeue]
     (split_queue (queue_new 2 :: (nat, 8) queue)) = Some s" using split_demo by blast
  from split_interleaving_fifo [OF _ _ _ s] show ?thesis using s by simp
qed

end
