(* ===== verification/Executor.thy ===== *)
theory Executor
  imports Prelude
begin

text \<open>
  The executor slot of \<open>rticx-async/src/executor.rs\<close> and the \<open>YieldNow\<close> future of
  \<open>rticx-async/src/yield_now.rs\<close>.  A future is a state of type \<open>'f\<close> together with a poll function:
  one call of \<open>Future::poll\<close> returns the new state, the \<open>Poll\<close> value and how often the waker in the
  context was called meanwhile.  The waker of a slot calls the generated \<open>wake\<close> function, which sets
  the slot's pending flag (and pends the dispatcher interrupt), so the calls made during a poll are
  the flag's writes during that poll.
\<close>

section \<open>The slot\<close>

datatype 'a poll = Ready 'a | Pending

type_synonym 'f fut = "'f \<Rightarrow> 'f \<times> unit poll \<times> nat"

text \<open>\<open>es_future\<close> is \<open>None\<close> while the \<open>MaybeUninit\<close> holds no live future.\<close>

record 'f exec_slot =
  es_future :: "'f option"
  es_running :: bool
  es_pending :: bool

definition slot_new :: "'f exec_slot" where
  "slot_new = \<lparr>es_future = None, es_running = False, es_pending = False\<rparr>"

definition is_running :: "'f exec_slot \<Rightarrow> bool" where
  "is_running s = es_running s"

text \<open>\<open>compare_exchange(false, true)\<close> on the running flag.\<close>

definition try_allocate :: "'f exec_slot \<Rightarrow> 'f exec_slot \<times> bool" where
  "try_allocate s = (if es_running s = False then (s\<lparr>es_running := True\<rparr>, True) else (s, False))"

definition set_pending :: "'f exec_slot \<Rightarrow> 'f exec_slot" where
  "set_pending s = s\<lparr>es_pending := True\<rparr>"

definition spawn :: "'f exec_slot \<Rightarrow> 'f \<Rightarrow> 'f exec_slot" where
  "spawn s f = set_pending (s\<lparr>es_future := Some f\<rparr>)"

definition check_and_clear_pending :: "'f exec_slot \<Rightarrow> 'f exec_slot \<times> bool" where
  "check_and_clear_pending s =
     (if es_pending s = True then (s\<lparr>es_pending := False\<rparr>, True) else (s, False))"

text \<open>What one call of \<open>poll\<close> did: the number of waker calls made by the future, or undefined
  behaviour because the slot holds no future.\<close>

datatype poll_effect = NotPolled | Polled nat | PolledUninit

definition poll_slot :: "'f fut \<Rightarrow> 'f exec_slot \<Rightarrow> 'f exec_slot \<times> bool \<times> poll_effect" where
  "poll_slot F s =
     (if \<not> is_running s then (s, False, NotPolled)
      else case check_and_clear_pending s of
        (s1, False) \<Rightarrow> (s1, True, NotPolled)
      | (s1, True) \<Rightarrow>
          (case es_future s1 of
             None \<Rightarrow> (s1, True, PolledUninit)
           | Some f \<Rightarrow>
               (case F f of (f', r, wakes) \<Rightarrow>
                  (let s2 = (set_pending ^^ wakes) (s1\<lparr>es_future := Some f'\<rparr>)
                   in case r of
                        Ready _ \<Rightarrow> (s2\<lparr>es_future := None, es_running := False\<rparr>, False, Polled wakes)
                      | Pending \<Rightarrow> (s2, True, Polled wakes)))))"

section \<open>Laws of the operations\<close>

lemma set_pending_iter:
  "(set_pending ^^ n) s = (if n = 0 then s else s\<lparr>es_pending := True\<rparr>)"
  by (induction n) (auto simp: set_pending_def)

text \<open>A slot holds a future exactly while it is running; the flag alone never causes a poll.\<close>

definition slot_inv :: "'f exec_slot \<Rightarrow> bool" where
  "slot_inv s \<longleftrightarrow> (es_running s \<longleftrightarrow> es_future s \<noteq> None)"

lemma poll_slot_cases:
  assumes "slot_inv s"
  obtains (idle) "\<not> es_running s" "poll_slot F s = (s, False, NotPolled)"
  | (quiet) "es_running s" "\<not> es_pending s" "poll_slot F s = (s, True, NotPolled)"
  | (ready) f f' u n where "es_running s" "es_pending s" "es_future s = Some f" "F f = (f', Ready u, n)"
      "poll_slot F s = (s\<lparr>es_future := None, es_running := False, es_pending := 0 < n\<rparr>, False, Polled n)"
  | (pending) f f' n where "es_running s" "es_pending s" "es_future s = Some f" "F f = (f', Pending, n)"
      "poll_slot F s = (s\<lparr>es_future := Some f', es_pending := 0 < n\<rparr>, True, Polled n)"
proof -
  show thesis
  proof (cases "es_running s \<and> es_pending s")
    case False
    then show ?thesis
      using idle quiet by (auto simp: poll_slot_def is_running_def check_and_clear_pending_def)
  next
    case True
    with assms obtain f where f: "es_future s = Some f" by (auto simp: slot_inv_def)
    obtain f' r n where F: "F f = (f', r, n)" by (cases "F f") auto
    show ?thesis
    proof (cases r)
      case (Ready u)
      with True f F show ?thesis
        by (intro ready [of f f' u n])
          (auto simp: poll_slot_def is_running_def check_and_clear_pending_def set_pending_iter Let_def)
    next
      case Pending
      with True f F show ?thesis
        by (intro pending [of f f' n])
          (auto simp: poll_slot_def is_running_def check_and_clear_pending_def set_pending_iter Let_def)
    qed
  qed
qed

lemma slot_inv_poll:
  assumes "slot_inv s"
  shows "slot_inv (fst (poll_slot F s))"
  using assms by (cases rule: poll_slot_cases [where F = F]) (use assms in \<open>auto simp: slot_inv_def\<close>)

lemma slot_inv_new: "slot_inv slot_new"
  by (simp add: slot_inv_def slot_new_def)

text \<open>Allocation and spawn as the dispatchers do them: \<open>spawn\<close> right after a successful
  \<open>try_allocate\<close>.\<close>

definition install :: "'f exec_slot \<Rightarrow> 'f \<Rightarrow> 'f exec_slot \<times> bool" where
  "install s f = (case try_allocate s of (s', True) \<Rightarrow> (spawn s' f, True) | (s', False) \<Rightarrow> (s', False))"

lemma install_eq:
  "install s f = (if es_running s then (s, False)
     else (s\<lparr>es_running := True, es_future := Some f, es_pending := True\<rparr>, True))"
  by (simp add: install_def try_allocate_def spawn_def set_pending_def)

lemma slot_inv_install: "slot_inv s \<Longrightarrow> slot_inv (fst (install s f))"
  by (simp add: install_eq slot_inv_def)

lemma slot_inv_wake: "slot_inv s \<Longrightarrow> slot_inv (set_pending s)"
  by (simp add: slot_inv_def set_pending_def)

section \<open>The life of a slot\<close>

text \<open>
  The events of one slot in any order: an install attempt by the dispatcher, a poll, a wake-up from
  any context.  The log records which futures were installed, polled and dropped.
\<close>

datatype 'f slot_event = Installed 'f | PolledEv 'f 'f | Dropped | WokenEv | Uninit

inductive slot_step :: "'f fut \<Rightarrow> 'f exec_slot \<Rightarrow> 'f slot_event list \<Rightarrow> 'f exec_slot \<Rightarrow> bool"
  for F :: "'f fut" where
  step_install: "install s f = (s', True) \<Longrightarrow> slot_step F s [Installed f] s'"
| step_busy: "install s f = (s', False) \<Longrightarrow> slot_step F s [] s'"
| step_wake: "slot_step F s [WokenEv] (set_pending s)"
| step_idle: "poll_slot F s = (s', b, NotPolled) \<Longrightarrow> slot_step F s [] s'"
| step_pending: "poll_slot F s = (s', True, Polled n) \<Longrightarrow> es_future s = Some f \<Longrightarrow>
    es_future s' = Some f' \<Longrightarrow> slot_step F s [PolledEv f f'] s'"
| step_ready: "poll_slot F s = (s', False, Polled n) \<Longrightarrow> es_future s = Some f \<Longrightarrow>
    slot_step F s [PolledEv f (fst (F f)), Dropped] s'"
| step_uninit: "poll_slot F s = (s', b, PolledUninit) \<Longrightarrow> slot_step F s [Uninit] s'"

inductive slot_run :: "'f fut \<Rightarrow> 'f slot_event list \<Rightarrow> 'f exec_slot \<Rightarrow> bool" for F :: "'f fut" where
  run_new: "slot_run F [] slot_new"
| run_step: "slot_run F es s \<Longrightarrow> slot_step F s e s' \<Longrightarrow> slot_run F (es @ e) s'"

text \<open>The log read as a protocol: the future that is live after the events, or \<open>None\<close> if the
  protocol was broken (a poll or drop of a future that is not the live one, a second install).\<close>

fun live :: "'f option \<Rightarrow> 'f slot_event list \<Rightarrow> 'f option option" where
  "live c [] = Some c"
| "live c (Installed f # es) = (if c = None then live (Some f) es else None)"
| "live c (PolledEv f f' # es) = (if c = Some f then live (Some f') es else None)"
| "live c (Dropped # es) = (if c \<noteq> None then live None es else None)"
| "live c (WokenEv # es) = live c es"
| "live c (Uninit # es) = None"

lemma live_append: "live c (es @ es') = (case live c es of None \<Rightarrow> None | Some c' \<Rightarrow> live c' es')"
  by (induction c es rule: live.induct) auto

lemma slot_step_inv: "slot_step F s e s' \<Longrightarrow> slot_inv s \<Longrightarrow> slot_inv s'"
  by (induction rule: slot_step.induct)
    (metis slot_inv_install fst_conv, metis slot_inv_install fst_conv, simp add: slot_inv_wake,
      metis slot_inv_poll fst_conv, metis slot_inv_poll fst_conv, metis slot_inv_poll fst_conv,
      metis slot_inv_poll fst_conv)

lemma slot_step_live: "slot_step F s e s' \<Longrightarrow> slot_inv s \<Longrightarrow> live (es_future s) e = Some (es_future s')"
proof (induction rule: slot_step.induct)
  case (step_install s f s')
  then show ?case by (auto simp: install_eq slot_inv_def split: if_splits)
next
  case (step_idle s s' b)
  from step_idle(2) show ?case
    by (cases rule: poll_slot_cases [where F = F]) (use step_idle(1) in auto)
next
  case (step_pending s s' n f f')
  from step_pending(4) show ?case
    by (cases rule: poll_slot_cases [where F = F]) (use step_pending(1-3) in auto)
next
  case (step_ready s s' n f)
  from step_ready(3) show ?case
    by (cases rule: poll_slot_cases [where F = F]) (use step_ready(1,2) in auto)
next
  case (step_uninit s s' b)
  from step_uninit(2) show ?case
    by (cases rule: poll_slot_cases [where F = F]) (use step_uninit(1) in auto)
qed (auto simp: install_eq set_pending_def split: if_splits)

lemma slot_run_live: "slot_run F es s \<Longrightarrow> slot_inv s \<and> live None es = Some (es_future s)"
proof (induction rule: slot_run.induct)
  case run_new
  then show ?case using slot_inv_new by (simp add: slot_new_def)
next
  case (run_step es s e s')
  then show ?case by (auto simp: live_append slot_step_inv dest: slot_step_live)
qed

text \<open>
  (C4) Whatever the order of install attempts, polls and wake-ups, a slot polls only the future
  installed in it, drops it exactly once when it completes, and never touches it again: the log of
  every run is a run of the protocol, the live future being the one in the slot.
\<close>

theorem exec_slot_protocol:
  assumes "slot_run F es s"
  shows "live None es = Some (es_future s) \<and> Uninit \<notin> set es \<and> (es_running s \<longleftrightarrow> es_future s \<noteq> None)"
proof -
  have "Uninit \<notin> set es" if "live c es = Some d" for c d
    using that by (induction c es rule: live.induct) (auto split: if_splits)
  with slot_run_live [OF assms] show ?thesis by (auto simp: slot_inv_def)
qed

text \<open>
  (C5) No wake-up is lost: \<open>poll\<close> clears the pending flag before it runs the future, so after a poll
  that returns \<open>Pending\<close> the flag is set exactly when the future was woken during that poll; a
  wake-up that arrives while the slot is running makes the next \<open>poll\<close> run the future.
\<close>

theorem exec_slot_no_lost_wakeup:
  assumes "slot_inv s" and "es_running s"
  shows "snd (snd (poll_slot F (set_pending s))) \<noteq> NotPolled \<and>
    (\<forall>s' n. poll_slot F s = (s', True, Polled n) \<longrightarrow> (es_pending s' \<longleftrightarrow> 0 < n))"
proof -
  have w: "slot_inv (set_pending s)" using assms(1) by (rule slot_inv_wake)
  from w have "snd (snd (poll_slot F (set_pending s))) \<noteq> NotPolled"
    by (cases rule: poll_slot_cases [where F = F]) (use assms(2) in \<open>auto simp: set_pending_def\<close>)
  moreover from assms(1) have "\<forall>s' n. poll_slot F s = (s', True, Polled n) \<longrightarrow> (es_pending s' \<longleftrightarrow> 0 < n)"
    by (cases rule: poll_slot_cases [where F = F]) auto
  ultimately show ?thesis ..
qed

lemma exec_slot_protocol_witness:
  "live None [Installed (0::nat)] = Some (Some 0)"
proof -
  let ?F = "\<lambda>n::nat. (Suc n, Pending, 0::nat)"
  have "slot_run ?F ([] @ [Installed 0]) (fst (install slot_new 0))"
    by (rule run_step [OF run_new step_install]) (simp add: install_eq slot_new_def)
  from exec_slot_protocol [OF this] show ?thesis by (simp add: install_eq slot_new_def)
qed

lemma exec_slot_no_lost_wakeup_witness:
  "snd (snd (poll_slot (\<lambda>n::nat. (Suc n, Pending, 0)) (set_pending (fst (install slot_new 0))))) \<noteq> NotPolled"
proof -
  have "slot_inv (fst (install slot_new (0::nat)))" "es_running (fst (install slot_new (0::nat)))"
    by (simp_all add: install_eq slot_new_def slot_inv_def)
  from exec_slot_no_lost_wakeup [OF this] show ?thesis by blast
qed

section \<open>The YieldNow future\<close>

text \<open>\<open>YieldNow(bool)\<close>: the first poll wakes itself and returns \<open>Pending\<close>, the second is \<open>Ready\<close>.\<close>

datatype YieldNow = YieldNow bool

definition yield_new :: YieldNow where
  "yield_new = YieldNow False"

fun yield_poll :: "YieldNow fut" where
  "yield_poll (YieldNow b) = (if b then (YieldNow b, Ready (), 0) else (YieldNow True, Pending, 1))"

text \<open>
  A slot running \<open>yield_now\<close> completes with its second poll, without any wake-up from outside,
  and is then free again.
\<close>

lemma yield_now_completes:
  "let s0 = fst (install slot_new yield_new);
       (s1, b1, e1) = poll_slot yield_poll s0;
       (s2, b2, e2) = poll_slot yield_poll s1
   in b1 \<and> \<not> b2 \<and> s2 = slot_new \<and> e1 = Polled 1 \<and> e2 = Polled 0"
  by (simp add: install_eq slot_new_def yield_new_def poll_slot_def is_running_def
      check_and_clear_pending_def set_pending_def)

end
