(* ===== verification/WaitQueue.thy ===== *)
theory WaitQueue
  imports Executor
begin

text \<open>
  The intrusive doubly linked wait queue of \<open>rticx-async/src/wait_queue.rs\<close>, with the drop guard of
  \<open>dropper.rs\<close> as \<open>wait_until\<close> uses it.  The links live inside the futures that wait, so the model
  has an explicit store from addresses to links; a null pointer is \<open>None\<close> and reading through a
  pointer to a link that has been freed makes the whole operation \<open>None\<close> (undefined behaviour).
  Each operation is one critical section.  The abstraction \<open>wq_rep w ps\<close> says that the queue holds
  the links at the addresses \<open>ps\<close> in order; the interface locale \<open>wait_list\<close> is what the channel
  relies on.
\<close>

section \<open>The code\<close>

record 'v link =
  val :: 'v
  next_ptr :: "nat option"
  prev_ptr :: "nat option"
  popped :: bool

record 'v wq =
  wq_head :: "nat option"
  wq_tail :: "nat option"
  links :: "nat \<rightharpoonup> 'v link"

definition link_new :: "'v \<Rightarrow> 'v link" where
  "link_new v = \<lparr>val = v, next_ptr = None, prev_ptr = None, popped = False\<rparr>"

definition wq_new :: "'v wq" where
  "wq_new = \<lparr>wq_head = None, wq_tail = None, links = Map.empty\<rparr>"

definition wq_is_empty :: "'v wq \<Rightarrow> bool" where
  "wq_is_empty w = (wq_head w = None)"

text \<open>A store through the reference to the link at \<open>p\<close>; \<open>None\<close> when there is no such link.\<close>

definition store :: "nat \<Rightarrow> ('v link \<Rightarrow> 'v link) \<Rightarrow> 'v wq \<Rightarrow> 'v wq option" where
  "store p f w = (case links w p of None \<Rightarrow> None | Some l \<Rightarrow> Some (w\<lparr>links := (links w)(p \<mapsto> f l)\<rparr>))"

text \<open>A store through a pointer that may be null, which is skipped then.\<close>

definition store_opt :: "nat option \<Rightarrow> ('v link \<Rightarrow> 'v link) \<Rightarrow> 'v wq \<Rightarrow> 'v wq option" where
  "store_opt q f w = (case q of None \<Rightarrow> Some w | Some p \<Rightarrow> store p f w)"

definition wq_pop :: "'v wq \<Rightarrow> ('v wq \<times> 'v option) option" where
  "wq_pop w =
     (case wq_head w of
        None \<Rightarrow> Some (w, None)
      | Some h \<Rightarrow>
          Option.bind (links w h) (\<lambda>l.
            let w1 = w\<lparr>wq_head := next_ptr l\<rparr>;
                w2 = (if wq_head w = wq_tail w then w1\<lparr>wq_tail := None\<rparr> else w1)
            in Option.bind (store_opt (next_ptr l) (\<lambda>n. n\<lparr>prev_ptr := None\<rparr>) w2) (\<lambda>w3.
               Option.bind (store h (\<lambda>k. k\<lparr>next_ptr := None, prev_ptr := None, popped := True\<rparr>) w3) (\<lambda>w4.
               Some (w4, Some (val l))))))"

definition wq_push :: "nat \<Rightarrow> 'v wq \<Rightarrow> 'v wq option" where
  "wq_push p w =
     (case wq_tail w of
        Some t \<Rightarrow>
          Option.bind (store p (\<lambda>l. l\<lparr>prev_ptr := Some t\<rparr>) w) (\<lambda>w1.
          store t (\<lambda>l. l\<lparr>next_ptr := Some p\<rparr>) (w1\<lparr>wq_tail := Some p\<rparr>))
      | None \<Rightarrow> Some (w\<lparr>wq_tail := Some p, wq_head := Some p\<rparr>))"

definition wq_remove :: "nat \<Rightarrow> 'v wq \<Rightarrow> 'v wq option" where
  "wq_remove p w =
     Option.bind (links w p) (\<lambda>l.
       if popped l then Some w
       else
         Option.bind (store p (\<lambda>k. k\<lparr>popped := True\<rparr>) w) (\<lambda>w1.
           case (prev_ptr l, next_ptr l) of
             (None, None) \<Rightarrow>
               Some (if wq_head w1 = Some p then w1\<lparr>wq_head := None, wq_tail := None\<rparr> else w1)
           | (None, Some n) \<Rightarrow>
               Option.bind (store n (\<lambda>k. k\<lparr>prev_ptr := None\<rparr>) w1) (\<lambda>w2. Some (w2\<lparr>wq_head := Some n\<rparr>))
           | (Some m, None) \<Rightarrow>
               Option.bind (store m (\<lambda>k. k\<lparr>next_ptr := None\<rparr>) w1) (\<lambda>w2. Some (w2\<lparr>wq_tail := Some m\<rparr>))
           | (Some m, Some n) \<Rightarrow>
               Option.bind (store m (\<lambda>k. k\<lparr>next_ptr := Some n\<rparr>) w1) (\<lambda>w2.
               store n (\<lambda>k. k\<lparr>prev_ptr := Some m\<rparr>) w2)))"

text \<open>\<open>Option::insert(Link::new(v))\<close> into the place at \<open>p\<close>, and \<open>set(None)\<close>, which frees it.\<close>

definition link_insert :: "nat \<Rightarrow> 'v \<Rightarrow> 'v wq \<Rightarrow> 'v wq" where
  "link_insert p v w = w\<lparr>links := (links w)(p \<mapsto> link_new v)\<rparr>"

definition link_free :: "nat \<Rightarrow> 'v wq \<Rightarrow> 'v wq" where
  "link_free p w = w\<lparr>links := (links w)(p := None)\<rparr>"

text \<open>The drop guard of \<open>wait_until\<close>: unlink the link if there is one, then free it.\<close>

definition guard_execute :: "nat \<Rightarrow> 'v wq \<Rightarrow> 'v wq option" where
  "guard_execute p w =
     (case links w p of
        None \<Rightarrow> Some (link_free p w)
      | Some _ \<Rightarrow> Option.bind (wq_remove p w) (\<lambda>w1. Some (link_free p w1)))"

text \<open>One poll of \<open>wait_until\<close>; \<open>r\<close> is what the closure \<open>f\<close> returns in this poll.\<close>

definition wait_until_poll :: "nat \<Rightarrow> 'r option \<Rightarrow> 'v \<Rightarrow> 'v wq \<Rightarrow> ('v wq \<times> 'r poll) option" where
  "wait_until_poll p r waker w =
     Option.bind (guard_execute p w) (\<lambda>w1.
       case r of
         Some v \<Rightarrow> Some (w1, Ready v)
       | None \<Rightarrow> Option.bind (wq_push p (link_insert p waker w1)) (\<lambda>w2. Some (w2, Pending)))"

section \<open>The list a queue represents\<close>

text \<open>A chain of unpopped links: \<open>a\<close> precedes it, \<open>b\<close> follows it.\<close>

fun seg :: "(nat \<rightharpoonup> 'v link) \<Rightarrow> nat option \<Rightarrow> nat list \<Rightarrow> nat option \<Rightarrow> bool" where
  "seg L a [] b \<longleftrightarrow> True"
| "seg L a (p # ps) b \<longleftrightarrow>
     (case L p of None \<Rightarrow> False
      | Some l \<Rightarrow> \<not> popped l \<and> prev_ptr l = a \<and>
          next_ptr l = (case ps of [] \<Rightarrow> b | q # _ \<Rightarrow> Some q) \<and> seg L (Some p) ps b)"

definition first_ptr :: "nat list \<Rightarrow> nat option" where
  "first_ptr ps = (case ps of [] \<Rightarrow> None | p # _ \<Rightarrow> Some p)"

definition last_ptr :: "nat list \<Rightarrow> nat option" where
  "last_ptr ps = (if ps = [] then None else Some (last ps))"

definition wq_rep :: "'v wq \<Rightarrow> nat list \<Rightarrow> bool" where
  "wq_rep w ps \<longleftrightarrow> distinct ps \<and> wq_head w = first_ptr ps \<and> wq_tail w = last_ptr ps \<and>
     seg (links w) None ps None"

text \<open>What a future sees of the link at \<open>p\<close>: its value and whether it has been popped.\<close>

definition obs :: "'v wq \<Rightarrow> nat \<rightharpoonup> 'v \<times> bool" where
  "obs w p = map_option (\<lambda>l. (val l, popped l)) (links w p)"

lemma ptr_simps [simp]:
  "first_ptr [] = None" "first_ptr (p # ps) = Some p"
  "last_ptr [] = None"
  "first_ptr ps = None \<longleftrightarrow> ps = []" "last_ptr ps = None \<longleftrightarrow> ps = []"
  "last_ptr (p # ps) = (if ps = [] then Some p else last_ptr ps)"
  by (auto simp: first_ptr_def last_ptr_def split: list.splits)

lemma ptr_append [simp]:
  "first_ptr (ps @ qs) = (if ps = [] then first_ptr qs else first_ptr ps)"
  "last_ptr (ps @ qs) = (if qs = [] then last_ptr ps else last_ptr qs)"
  by (auto simp: first_ptr_def last_ptr_def split: list.splits)

lemma last_ptr_mem: "ps \<noteq> [] \<Longrightarrow> p \<notin> set ps \<Longrightarrow> last_ptr ps \<noteq> Some p"
  by (auto simp: last_ptr_def)

lemma seg_next: "next_ptr l = (case ps of [] \<Rightarrow> None | q # _ \<Rightarrow> Some q) \<longleftrightarrow> next_ptr l = first_ptr ps"
  by (simp add: first_ptr_def)

lemma seg_cong:
  assumes "\<And>p. p \<in> set ps \<Longrightarrow> L p = L' p"
  shows "seg L a ps b = seg L' a ps b"
  using assms by (induction ps arbitrary: a) (auto split: option.splits)

lemma seg_upd_other [simp]: "p \<notin> set ps \<Longrightarrow> seg (L(p := x)) a ps b = seg L a ps b"
  by (rule seg_cong) auto

lemma seg_append:
  "seg L a (ps @ qs) b \<longleftrightarrow>
     seg L a ps (case qs of [] \<Rightarrow> b | q # _ \<Rightarrow> Some q) \<and>
     seg L (if ps = [] then a else Some (last ps)) qs b"
proof (induction ps arbitrary: a)
  case Nil
  then show ?case by simp
next
  case (Cons p ps)
  show ?case
  proof (cases ps)
    case Nil
    then show ?thesis by (auto split: option.splits list.splits)
  next
    case (Cons r rs)
    with Cons.IH show ?thesis by (auto split: option.splits)
  qed
qed

lemma seg_live: "seg L a ps b \<Longrightarrow> p \<in> set ps \<Longrightarrow> \<exists>l. L p = Some l \<and> \<not> popped l"
  by (induction ps arbitrary: a) (auto split: option.splits)

text \<open>Changing the pointers at the two ends of a chain.\<close>

lemma seg_set_first:
  assumes "seg L a (p # ps) b" and "distinct (p # ps)"
  shows "seg (L(p \<mapsto> (the (L p))\<lparr>prev_ptr := a'\<rparr>)) a' (p # ps) b"
  using assms by (auto split: option.splits)

lemma seg_set_last:
  assumes "seg L a (ps @ [p]) b" and "distinct (ps @ [p])"
  shows "seg (L(p \<mapsto> (the (L p))\<lparr>next_ptr := b'\<rparr>)) a (ps @ [p]) b'"
  using assms by (auto simp: seg_append split: option.splits)

section \<open>What each operation does to the list\<close>

lemma wq_rep_live: "wq_rep w ps \<Longrightarrow> p \<in> set ps \<Longrightarrow> \<exists>l. links w p = Some l \<and> \<not> popped l"
  by (auto simp: wq_rep_def dest: seg_live)

lemma wq_rep_obs: "wq_rep w ps \<Longrightarrow> p \<in> set ps \<Longrightarrow> \<exists>v. obs w p = Some (v, False)"
  by (auto simp: obs_def dest: wq_rep_live)

lemma wq_rep_empty: "wq_rep w ps \<Longrightarrow> wq_is_empty w \<longleftrightarrow> ps = []"
  by (auto simp: wq_rep_def wq_is_empty_def)

lemma wq_rep_new: "wq_rep wq_new []"
  by (simp add: wq_rep_def wq_new_def)

lemma wq_rep_distinct: "wq_rep w ps \<Longrightarrow> distinct ps"
  by (simp add: wq_rep_def)

lemma wq_pop_nil: "wq_rep w [] \<Longrightarrow> wq_pop w = Some (w, None)"
  by (simp add: wq_rep_def wq_pop_def)

lemma wq_pop_cons:
  assumes "wq_rep w (p # ps)"
  shows "\<exists>w' v. wq_pop w = Some (w', Some v) \<and> wq_rep w' ps \<and> obs w p = Some (v, False) \<and>
    obs w' = (obs w)(p \<mapsto> (v, True))"
proof (cases ps)
  case Nil
  with assms show ?thesis
    by (auto simp: wq_rep_def wq_pop_def store_opt_def store_def obs_def fun_eq_iff split: option.splits)
next
  case (Cons q qs)
  from assms Cons obtain l k where lk: "links w p = Some l" "links w q = Some k" "\<not> popped l"
    "next_ptr l = Some q" "p \<noteq> q" "p \<notin> set qs" "q \<notin> set qs" "distinct qs"
    "wq_head w = Some p" "wq_tail w = last_ptr ps"
    and sg: "seg (links w) (Some p) (q # qs) None"
    by (auto simp: wq_rep_def split: option.splits)
  have t: "last_ptr ps \<noteq> Some p" using Cons lk by (intro last_ptr_mem) auto
  let ?L = "(links w)(q \<mapsto> k\<lparr>prev_ptr := None\<rparr>)"
  have "seg ?L None (q # qs) None"
    using seg_set_first [OF sg, of None] lk by simp
  then have "seg (?L(p := x)) None (q # qs) None" for x
    using lk by (subst seg_upd_other) auto
  with lk t Cons show ?thesis
    by (auto simp: wq_rep_def wq_pop_def store_opt_def store_def obs_def fun_eq_iff)
qed

lemma wq_push_fresh:
  assumes "wq_rep w ps" and "p \<notin> set ps"
  shows "\<exists>w'. wq_push p (link_insert p v w) = Some w' \<and> wq_rep w' (ps @ [p]) \<and>
    obs w' = (obs w)(p \<mapsto> (v, False))"
proof (cases ps rule: rev_cases)
  case Nil
  with assms show ?thesis
    by (auto simp: wq_rep_def wq_push_def link_insert_def link_new_def obs_def fun_eq_iff)
next
  case (snoc qs t)
  let ?M = "(links w)(p \<mapsto> (link_new v)\<lparr>prev_ptr := Some t\<rparr>)"
  from assms snoc obtain k where k: "links w t = Some k" "t \<noteq> p"
    using wq_rep_live by fastforce
  have "seg ?M None (qs @ [t]) None"
    using assms snoc by (simp add: wq_rep_def)
  then have "seg (?M(t \<mapsto> k\<lparr>next_ptr := Some p\<rparr>)) None (qs @ [t]) (Some p)"
    using seg_set_last [of ?M None qs t None "Some p"] assms snoc k by (simp add: wq_rep_def)
  with assms snoc k have "wq_rep (w\<lparr>wq_tail := Some p, links := ?M(t \<mapsto> k\<lparr>next_ptr := Some p\<rparr>)\<rparr>) (ps @ [p])"
    by (auto simp: wq_rep_def seg_append link_new_def)
  moreover have "wq_push p (link_insert p v w)
      = Some (w\<lparr>wq_tail := Some p, links := ?M(t \<mapsto> k\<lparr>next_ptr := Some p\<rparr>)\<rparr>)"
    using assms snoc k by (simp add: wq_rep_def wq_push_def link_insert_def store_def)
  ultimately show ?thesis
    using k by (auto simp: obs_def fun_eq_iff link_new_def)
qed

lemma wq_remove_member:
  assumes "wq_rep w (as @ p # bs)"
  shows "\<exists>w' v. wq_remove p w = Some w' \<and> wq_rep w' (as @ bs) \<and> obs w p = Some (v, False) \<and>
    obs w' = (obs w)(p \<mapsto> (v, True))"
proof -
  from assms obtain l where l: "links w p = Some l" "\<not> popped l" "prev_ptr l = last_ptr as"
    "next_ptr l = first_ptr bs" "distinct (as @ bs)" "p \<notin> set as" "p \<notin> set bs"
    and sa: "seg (links w) None as (Some p)" and sb: "seg (links w) (Some p) bs None"
    and ht: "wq_head w = (if as = [] then Some p else first_ptr as)"
      "wq_tail w = (if bs = [] then Some p else last_ptr bs)"
    by (auto simp: wq_rep_def seg_append last_ptr_def first_ptr_def split: option.splits if_splits list.splits)
  let ?L = "(links w)(p \<mapsto> l\<lparr>popped := True\<rparr>)"
  have sa': "seg ?L None as (Some p)" and sb': "seg ?L (Some p) bs None"
    using sa sb l by simp_all
  show ?thesis
  proof (cases as rule: rev_cases)
    case as: Nil
    show ?thesis
    proof (cases bs)
      case Nil
      with as l ht show ?thesis
        by (auto simp: wq_rep_def wq_remove_def store_def obs_def fun_eq_iff)
    next
      case (Cons q qs)
      then obtain k where k: "links w q = Some k" "q \<noteq> p" using sb l by (auto split: option.splits)
      have "seg (?L(q \<mapsto> k\<lparr>prev_ptr := None\<rparr>)) None (q # qs) None"
        using seg_set_first [of ?L "Some p" q qs None None] sb' Cons k l by simp
      with as Cons l ht k show ?thesis
        by (auto simp: wq_rep_def wq_remove_def store_def obs_def fun_eq_iff)
    qed
  next
    case (snoc cs m)
    then obtain j where j: "links w m = Some j" "m \<noteq> p" using sa l by (auto simp: seg_append split: option.splits)
    have sm: "seg (?L(m \<mapsto> j\<lparr>next_ptr := b\<rparr>)) None (cs @ [m]) b" for b
      using seg_set_last [of ?L None cs m "Some p" b] sa' snoc j l by simp
    show ?thesis
    proof (cases bs)
      case Nil
      with snoc l ht j sm [of None] show ?thesis
        by (auto simp: wq_rep_def wq_remove_def store_def obs_def fun_eq_iff)
    next
      case (Cons q qs)
      then obtain k where k: "links w q = Some k" "q \<noteq> p" using sb l by (auto split: option.splits)
      let ?M = "?L(m \<mapsto> j\<lparr>next_ptr := Some q\<rparr>, q \<mapsto> k\<lparr>prev_ptr := Some m\<rparr>)"
      have "q \<notin> set (cs @ [m])" "m \<notin> set (q # qs)" using l snoc Cons by auto
      then have "seg ?M None (cs @ [m]) (Some q)" using sm [of "Some q"] by (subst seg_upd_other) auto
      moreover have "seg ?M (Some m) (q # qs) None"
        using seg_set_first [of "?L(m \<mapsto> j\<lparr>next_ptr := Some q\<rparr>)" "Some p" q qs None "Some m"]
          sb' Cons k l \<open>m \<notin> set (q # qs)\<close> by simp
      ultimately have "seg ?M None (as @ bs) None"
        using snoc Cons \<open>m \<notin> set (q # qs)\<close> by (simp add: seg_append)
      with snoc Cons l ht j k show ?thesis
        by (auto simp: wq_rep_def wq_remove_def store_def obs_def fun_eq_iff)
    qed
  qed
qed

lemma wq_remove_popped: "obs w p = Some (v, True) \<Longrightarrow> wq_remove p w = Some w"
  by (auto simp: wq_remove_def obs_def)

lemma wq_free:
  assumes "wq_rep w ps" and "p \<notin> set ps"
  shows "wq_rep (link_free p w) ps \<and> obs (link_free p w) = (obs w)(p := None)"
  using assms by (auto simp: wq_rep_def link_free_def obs_def)

section \<open>The interface the channel uses\<close>

text \<open>
  A queue of waiting places.  \<open>rep w ps\<close> gives the waiting places in order; \<open>obs w p\<close> is what the owner
  of place \<open>p\<close> sees of its own link.
\<close>

locale wait_list =
  fixes pop :: "'w \<Rightarrow> ('w \<times> 'v option) option"
    and enlist :: "nat \<Rightarrow> 'v \<Rightarrow> 'w \<Rightarrow> 'w option"
    and remove :: "nat \<Rightarrow> 'w \<Rightarrow> 'w option"
    and free :: "nat \<Rightarrow> 'w \<Rightarrow> 'w"
    and rep :: "'w \<Rightarrow> nat list \<Rightarrow> bool"
    and obs :: "'w \<Rightarrow> nat \<rightharpoonup> 'v \<times> bool"
  assumes rep_distinct: "rep w ps \<Longrightarrow> distinct ps"
    and rep_obs: "rep w ps \<Longrightarrow> p \<in> set ps \<Longrightarrow> \<exists>v. obs w p = Some (v, False)"
    and pop_nil: "rep w [] \<Longrightarrow> pop w = Some (w, None)"
    and pop_cons: "rep w (p # ps) \<Longrightarrow> \<exists>w' v. pop w = Some (w', Some v) \<and> rep w' ps \<and>
      obs w p = Some (v, False) \<and> obs w' = (obs w)(p \<mapsto> (v, True))"
    and enlist_rep: "rep w ps \<Longrightarrow> p \<notin> set ps \<Longrightarrow> \<exists>w'. enlist p v w = Some w' \<and> rep w' (ps @ [p]) \<and>
      obs w' = (obs w)(p \<mapsto> (v, False))"
    and remove_member: "rep w (as @ p # bs) \<Longrightarrow> \<exists>w' v. remove p w = Some w' \<and> rep w' (as @ bs) \<and>
      obs w p = Some (v, False) \<and> obs w' = (obs w)(p \<mapsto> (v, True))"
    and remove_popped: "obs w p = Some (v, True) \<Longrightarrow> remove p w = Some w"
    and free_rep: "rep w ps \<Longrightarrow> p \<notin> set ps \<Longrightarrow> rep (free p w) ps \<and> obs (free p w) = (obs w)(p := None)"
begin

text \<open>Cancelling a wait: after \<open>remove\<close> and \<open>free\<close> the place is gone, whatever state it was in.\<close>

lemma cancel:
  assumes "rep w ps" and "obs w p = Some (v, b)" and "b \<or> p \<in> set ps"
  shows "\<exists>w'. remove p w = Some w' \<and> rep (free p w') (List.filter (\<lambda>q. q \<noteq> p) ps) \<and>
    obs (free p w') = (obs w)(p := None)"
proof (cases "p \<in> set ps")
  case True
  then obtain as bs where ps: "ps = as @ p # bs" by (auto simp: in_set_conv_decomp)
  from rep_distinct [OF assms(1)] have d: "p \<notin> set as" "p \<notin> set bs" by (auto simp: ps)
  from remove_member [of w as p bs] assms(1) obtain w' u where
    w': "remove p w = Some w'" "rep w' (as @ bs)" "obs w' = (obs w)(p \<mapsto> (u, True))"
    by (auto simp: ps)
  have "List.filter (\<lambda>q. q \<noteq> p) ps = as @ bs"
    using d by (simp add: ps)
  with w' free_rep [of w' "as @ bs" p] d show ?thesis by auto
next
  case False
  with assms have "remove p w = Some w" by (auto intro: remove_popped)
  with free_rep [OF assms(1) False] False show ?thesis by auto
qed

end

definition wq_enlist :: "nat \<Rightarrow> 'v \<Rightarrow> 'v wq \<Rightarrow> 'v wq option" where
  "wq_enlist p v w = wq_push p (link_insert p v w)"

interpretation wait: wait_list wq_pop wq_enlist wq_remove link_free wq_rep obs
proof (unfold_locales, goal_cases)
  case (1 w ps)
  then show ?case by (rule wq_rep_distinct)
next
  case (2 w ps p)
  then show ?case by (rule wq_rep_obs)
next
  case (3 w)
  then show ?case by (rule wq_pop_nil)
next
  case (4 w p ps)
  then show ?case by (rule wq_pop_cons)
next
  case (5 w ps p v)
  then show ?case unfolding wq_enlist_def by (rule wq_push_fresh)
next
  case (6 w as p bs)
  then show ?case by (rule wq_remove_member)
next
  case (7 w p v)
  then show ?case by (rule wq_remove_popped)
next
  case (8 w ps p)
  then show ?case by (rule wq_free)
qed

section \<open>Waiting for a condition\<close>

text \<open>
  The places of the futures inside \<open>wait_until\<close>: every live link is either queued or popped.
\<close>

definition wq_inv :: "'v wq \<Rightarrow> nat list \<Rightarrow> bool" where
  "wq_inv w ps \<longleftrightarrow> wq_rep w ps \<and> (\<forall>p v. obs w p = Some (v, False) \<longrightarrow> p \<in> set ps)"

text \<open>
  One poll of \<open>wait_until\<close> never touches a freed link, whatever happened to its link since the
  last poll.  If the condition holds, the future leaves the queue and frees its link; if not, its old
  link is removed and a fresh one with the current waker joins the back of the queue, the order of the
  others unchanged.
\<close>

lemma wait_until_poll_queue:
  assumes "wq_inv w ps"
  shows "\<exists>w'. wait_until_poll p r waker w =
      Some (w', case r of Some v \<Rightarrow> Ready v | None \<Rightarrow> Pending) \<and>
    wq_inv w' (List.filter (\<lambda>q. q \<noteq> p) ps @ (if r = None then [p] else [])) \<and>
    obs w' = (obs w)(p := (if r = None then Some (waker, False) else None))"
proof -
  let ?ps = "List.filter (\<lambda>q. q \<noteq> p) ps"
  have "\<exists>w1. guard_execute p w = Some w1 \<and> wq_rep w1 ?ps \<and> obs w1 = (obs w)(p := None)"
  proof (cases "links w p")
    case None
    then have "obs w p = None" by (simp add: obs_def)
    with assms have "p \<notin> set ps" by (auto simp: wq_inv_def dest: wq_rep_obs)
    with None \<open>p \<notin> set ps\<close> assms wq_free [of w ps p] show ?thesis
      by (simp add: guard_execute_def wq_inv_def)
  next
    case (Some l)
    then have o: "obs w p = Some (val l, popped l)" by (simp add: obs_def)
    with assms have "popped l \<or> p \<in> set ps" by (cases "popped l") (auto simp: wq_inv_def)
    with o assms Some wait.cancel [of w ps p "val l" "popped l"] show ?thesis
      by (auto simp: guard_execute_def wq_inv_def)
  qed
  then obtain w1 where w1: "guard_execute p w = Some w1" "wq_rep w1 ?ps" "obs w1 = (obs w)(p := None)"
    by blast
  show ?thesis
  proof (cases r)
    case (Some v)
    with w1 assms show ?thesis by (auto simp: wait_until_poll_def wq_inv_def split: if_splits)
  next
    case None
    from wait.enlist_rep [OF w1(2), of p waker] obtain w2 where
      "wq_push p (link_insert p waker w1) = Some w2" "wq_rep w2 (?ps @ [p])"
      "obs w2 = (obs w1)(p \<mapsto> (waker, False))"
      by (auto simp: wq_enlist_def)
    with None w1 assms show ?thesis by (auto simp: wait_until_poll_def wq_inv_def split: if_splits)
  qed
qed

lemma wait_until_poll_queue_witness:
  "\<exists>w'. wait_until_poll 0 (None :: unit option) 7 (wq_new :: nat wq) = Some (w', Pending) \<and> wq_inv w' [0]"
proof -
  have "wq_inv (wq_new :: nat wq) []"
    using wq_rep_new by (simp add: wq_inv_def obs_def wq_new_def)
  from wait_until_poll_queue [OF this, of 0 None 7] show ?thesis by auto
qed

text \<open>The loop that empties the queue, as the receiver's drop runs it, with fuel.\<close>

fun wq_pop_all :: "nat \<Rightarrow> 'v wq \<Rightarrow> ('v wq \<times> 'v list) option" where
  "wq_pop_all 0 w = Some (w, [])"
| "wq_pop_all (Suc n) w =
     (case wq_pop w of
        None \<Rightarrow> None
      | Some (w', None) \<Rightarrow> Some (w', [])
      | Some (w', Some v) \<Rightarrow> map_option (\<lambda>(w2, vs). (w2, v # vs)) (wq_pop_all n w'))"

text \<open>
  \<open>pop\<close> serves the waiting futures in the order in which they queued: popping until the queue is
  empty returns their wakers in list order, marks each link as popped and leaves the rest intact.
\<close>

lemma wq_pop_all_fifo:
  "wq_rep w ps \<Longrightarrow> length ps \<le> n \<Longrightarrow>
     \<exists>w'. wq_pop_all n w = Some (w', map (\<lambda>p. fst (the (obs w p))) ps) \<and> wq_rep w' [] \<and>
       (\<forall>p. obs w' p = (if p \<in> set ps then map_option (\<lambda>(v, _). (v, True)) (obs w p) else obs w p))"
proof (induction n arbitrary: w ps)
  case 0
  then show ?case by simp
next
  case (Suc n)
  show ?case
  proof (cases ps)
    case Nil
    with Suc.prems show ?thesis by (simp add: wq_pop_nil)
  next
    case (Cons p qs)
    with Suc.prems obtain w1 v where w1: "wq_pop w = Some (w1, Some v)" "wq_rep w1 qs"
      "obs w p = Some (v, False)" "obs w1 = (obs w)(p \<mapsto> (v, True))"
      using wq_pop_cons by blast
    have "p \<notin> set qs" using Suc.prems(1) Cons by (simp add: wq_rep_def)
    moreover have "map (\<lambda>p. fst (the (obs w1 p))) qs = map (\<lambda>p. fst (the (obs w p))) qs"
      using \<open>p \<notin> set qs\<close> by (auto simp: w1(4))
    ultimately show ?thesis
      using Suc.IH [OF w1(2)] Suc.prems(2) Cons w1 by (auto simp: fun_upd_def)
  qed
qed

lemma wq_pop_all_fifo_witness:
  "\<exists>w w'. wq_enlist 5 ''b'' (the (wq_enlist 3 ''a'' wq_new)) = Some w \<and>
    wq_pop_all 2 w = Some (w', [''a'', ''b''])"
proof -
  let ?w1 = "the (wq_enlist 3 ''a'' wq_new)"
  have w1: "wq_rep ?w1 [3]" "obs ?w1 = [3 \<mapsto> (''a'', False)]"
    by (simp_all add: wq_enlist_def wq_push_def wq_new_def link_insert_def link_new_def wq_rep_def
        obs_def fun_eq_iff)
  from wait.enlist_rep [OF w1(1), of 5 "''b''"] obtain w where w: "wq_enlist 5 ''b'' ?w1 = Some w"
    "wq_rep w [3, 5]" "obs w = (obs ?w1)(5 \<mapsto> (''b'', False))" by auto
  from wq_pop_all_fifo [OF w(2), of 2] w(1,3) w1(2) show ?thesis by auto
qed

end
