(* ===== verification/Channel.thy ===== *)
theory Channel
  imports WaitQueue
begin

text \<open>
  The asynchronous multi-producer single-consumer channel of \<open>rticx-async/src/channel.rs\<close> with the
  waker registration of \<open>waker_registration.rs\<close> and the drop guard of \<open>dropper.rs\<close>.

  The state holds the two index queues, the value slots, the wait queue with its links, the sender
  count, the cells \<open>free_slot_ptr\<close> of the live \<open>send\<close> futures (a future is named by the address of its
  locals) and a log of the wakers called.  A waker is the wake function it calls.  An operation
  returns \<open>None\<close> for undefined behaviour: a dangling link or cell, a slot index out of range, or a read
  of a slot that holds no value.  Every critical section and every access to a slot has a definition of
  its own (\<open>return_free_slot\<close>, \<open>write_slot\<close>, \<open>push_ready\<close>, \<open>wake_receiver\<close>, \<open>send_poll_cs\<close>, \<open>dropper_take\<close>
  and so on) and the operations are their sequences, as they run when nothing interrupts them;
  the theory \<open>Channel_Run\<close> interleaves the sections of many senders and of the receiver.

  The index queues are \<open>heapless::Deque\<close>s, which are not part of this repository: their operations are
  a parameter \<open>D\<close> of the definitions, and \<open>deque_laws\<close> states what the code relies on.
\<close>

section \<open>The deque parameter\<close>

record 'q deque_ops =
  dq_clear :: "'q \<Rightarrow> 'q"
  dq_is_empty :: "'q \<Rightarrow> bool"
  dq_is_full :: "'q \<Rightarrow> bool"
  dq_push_back_unchecked :: "'q \<Rightarrow> nat \<Rightarrow> 'q"
  dq_pop_front :: "'q \<Rightarrow> 'q \<times> nat option"
  dq_pop_back :: "'q \<Rightarrow> 'q \<times> nat option"
  dq_pop_back_unchecked :: "'q \<Rightarrow> 'q \<times> nat"

text \<open>A deque of capacity \<open>N\<close> with contents \<open>dl q\<close>; pushing is specified below the capacity only.\<close>

definition deque_laws :: "'q deque_ops \<Rightarrow> ('q \<Rightarrow> nat list) \<Rightarrow> nat \<Rightarrow> bool" where
  "deque_laws D dl N \<longleftrightarrow>
     (\<forall>q. dl (dq_clear D q) = []) \<and>
     (\<forall>q. dq_is_empty D q \<longleftrightarrow> dl q = []) \<and>
     (\<forall>q. dq_is_full D q \<longleftrightarrow> length (dl q) = N) \<and>
     (\<forall>q x. length (dl q) < N \<longrightarrow> dl (dq_push_back_unchecked D q x) = dl q @ [x]) \<and>
     (\<forall>q. dl q = [] \<longrightarrow> dl (fst (dq_pop_front D q)) = [] \<and> snd (dq_pop_front D q) = None) \<and>
     (\<forall>q. dl q \<noteq> [] \<longrightarrow> dl (fst (dq_pop_front D q)) = tl (dl q) \<and> snd (dq_pop_front D q) = Some (hd (dl q))) \<and>
     (\<forall>q. dl q = [] \<longrightarrow> dl (fst (dq_pop_back D q)) = [] \<and> snd (dq_pop_back D q) = None) \<and>
     (\<forall>q. dl q \<noteq> [] \<longrightarrow> dl (fst (dq_pop_back D q)) = butlast (dl q) \<and> snd (dq_pop_back D q) = Some (last (dl q))) \<and>
     (\<forall>q. dl q \<noteq> [] \<longrightarrow> dl (fst (dq_pop_back_unchecked D q)) = butlast (dl q) \<and>
        snd (dq_pop_back_unchecked D q) = last (dl q))"

section \<open>The code\<close>

type_synonym waker = nat

record ('q, 't) channel =
  freeq :: 'q
  readyq :: 'q
  receiver_waker :: "waker option"
  slots :: "'t option list"
  wait_queue :: "(waker \<times> nat) wq"
  receiver_dropped :: bool
  num_senders :: nat
  cells :: "nat \<rightharpoonup> nat option"
  woken :: "waker list"

text \<open>The constant assertion of \<open>size_check\<close>: at most 255 slots.\<close>

definition channel_new :: "nat \<Rightarrow> 'q \<Rightarrow> 'q \<Rightarrow> ('q, 't) channel option" where
  "channel_new N fq rq =
     (if N < 256
      then Some \<lparr>freeq = fq, readyq = rq, receiver_waker = None, slots = replicate N None,
        wait_queue = wq_new, receiver_dropped = False, num_senders = 0, cells = Map.empty, woken = []\<rparr>
      else None)"

definition split :: "'q deque_ops \<Rightarrow> ('q, 't) channel \<Rightarrow> ('q, 't) channel" where
  "split D ch =
     ch\<lparr>freeq := fold (\<lambda>idx q. dq_push_back_unchecked D q idx) [0..<length (slots ch)] (dq_clear D (freeq ch)),
        num_senders := 1\<rparr>"

subsection \<open>The receiver's waker\<close>

definition wake_receiver :: "('q, 't) channel \<Rightarrow> ('q, 't) channel" where
  "wake_receiver ch =
     (case receiver_waker ch of
        None \<Rightarrow> ch
      | Some w \<Rightarrow> ch\<lparr>receiver_waker := None, woken := woken ch @ [w]\<rparr>)"

definition register :: "waker \<Rightarrow> ('q, 't) channel \<Rightarrow> ('q, 't) channel" where
  "register new_waker ch =
     (case receiver_waker ch of
        Some w2 \<Rightarrow> if w2 = new_waker then ch
          else ch\<lparr>receiver_waker := Some new_waker, woken := woken ch @ [w2]\<rparr>
      | None \<Rightarrow> ch\<lparr>receiver_waker := Some new_waker\<rparr>)"

subsection \<open>Slots\<close>

text \<open>Hand a free slot to the first waiting sender, through its cell, or to the free queue.\<close>

definition return_free_slot :: "'q deque_ops \<Rightarrow> nat \<Rightarrow> ('q, 't) channel \<Rightarrow> ('q, 't) channel option" where
  "return_free_slot D slot ch =
     Option.bind (wq_pop (wait_queue ch)) (\<lambda>(wq', r).
       case r of
         Some (wait_head, freeq_slot) \<Rightarrow>
           (case cells ch freeq_slot of
              None \<Rightarrow> None
            | Some _ \<Rightarrow> Some (ch\<lparr>wait_queue := wq', cells := (cells ch)(freeq_slot \<mapsto> Some slot),
                woken := woken ch @ [wait_head]\<rparr>))
       | None \<Rightarrow> Some (ch\<lparr>wait_queue := wq', freeq := dq_push_back_unchecked D (freeq ch) slot\<rparr>))"

text \<open>\<open>ptr::read\<close> moves the value out: the slot counts as uninitialised afterwards.\<close>

definition read_slot :: "nat \<Rightarrow> ('q, 't) channel \<Rightarrow> (('q, 't) channel \<times> 't) option" where
  "read_slot slot ch =
     (if slot < length (slots ch)
      then (case slots ch ! slot of
              None \<Rightarrow> None
            | Some v \<Rightarrow> Some (ch\<lparr>slots := (slots ch)[slot := None]\<rparr>, v))
      else None)"

text \<open>\<open>ptr::write\<close> into the slot, without dropping what it held.\<close>

definition write_slot :: "nat \<Rightarrow> 't \<Rightarrow> ('q, 't) channel \<Rightarrow> ('q, 't) channel option" where
  "write_slot idx v ch =
     (if idx < length (slots ch) then Some (ch\<lparr>slots := (slots ch)[idx := Some v]\<rparr>) else None)"

definition push_ready :: "'q deque_ops \<Rightarrow> nat \<Rightarrow> ('q, 't) channel \<Rightarrow> ('q, 't) channel" where
  "push_ready D idx ch = ch\<lparr>readyq := dq_push_back_unchecked D (readyq ch) idx\<rparr>"

definition send_footer :: "'q deque_ops \<Rightarrow> nat \<Rightarrow> 't \<Rightarrow> ('q, 't) channel \<Rightarrow> ('q, 't) channel option" where
  "send_footer D idx v ch =
     map_option (\<lambda>ch1. wake_receiver (push_ready D idx ch1)) (write_slot idx v ch)"

subsection \<open>The sender\<close>

datatype 't TrySendError = NoReceiver 't | Full 't

definition sender_is_closed :: "('q, 't) channel \<Rightarrow> bool" where
  "sender_is_closed ch = receiver_dropped ch"

text \<open>The critical section that takes the oldest free slot.\<close>

definition pop_free :: "'q deque_ops \<Rightarrow> ('q, 't) channel \<Rightarrow> ('q, 't) channel \<times> nat option" where
  "pop_free D ch = (case dq_pop_front D (freeq ch) of (q', r) \<Rightarrow> (ch\<lparr>freeq := q'\<rparr>, r))"

definition try_send :: "'q deque_ops \<Rightarrow> 't \<Rightarrow> ('q, 't) channel \<Rightarrow>
    (('q, 't) channel \<times> ('t TrySendError, unit) res) option" where
  "try_send D v ch =
     (if \<not> wq_is_empty (wait_queue ch) then Some (ch, Err (Full v))
      else if sender_is_closed ch then Some (ch, Err (NoReceiver v))
      else case pop_free D ch of
        (ch1, Some idx) \<Rightarrow> Option.bind (send_footer D idx v ch1) (\<lambda>ch2. Some (ch2, Ok ()))
      | (ch1, None) \<Rightarrow> Some (ch1, Err (Full v)))"

text \<open>The start of a \<open>send\<close> future at address \<open>p\<close>: its locals exist, no link, no slot.\<close>

definition send_start :: "nat \<Rightarrow> ('q, 't) channel \<Rightarrow> ('q, 't) channel" where
  "send_start p ch = ch\<lparr>cells := (cells ch)(p \<mapsto> None), wait_queue := link_free p (wait_queue ch)\<rparr>"

text \<open>The end of its locals' life, once the drop guard has run: nothing refers to them any more.\<close>

definition send_end :: "nat \<Rightarrow> ('q, 't) channel \<Rightarrow> ('q, 't) channel" where
  "send_end p ch = ch\<lparr>cells := (cells ch)(p := None), wait_queue := link_free p (wait_queue ch)\<rparr>"

text \<open>The drop guard: leave the wait queue, then take back a slot that was granted but not used and
  return it.\<close>

definition dropper_take :: "nat \<Rightarrow> ('q, 't) channel \<Rightarrow> (('q, 't) channel \<times> nat option) option" where
  "dropper_take p ch =
     Option.bind
       (case links (wait_queue ch) p of
          None \<Rightarrow> Some ch
        | Some _ \<Rightarrow> Option.bind (wq_remove p (wait_queue ch)) (\<lambda>w. Some (ch\<lparr>wait_queue := w\<rparr>)))
       (\<lambda>ch1. case cells ch1 p of
          None \<Rightarrow> None
        | Some freed_slot \<Rightarrow> Some (ch1\<lparr>cells := (cells ch1)(p \<mapsto> None)\<rparr>, freed_slot))"

definition dropper :: "'q deque_ops \<Rightarrow> nat \<Rightarrow> ('q, 't) channel \<Rightarrow> ('q, 't) channel option" where
  "dropper D p ch =
     Option.bind (dropper_take p ch) (\<lambda>(ch1, freed_slot).
       case freed_slot of
         None \<Rightarrow> Some ch1
       | Some s \<Rightarrow> return_free_slot D s ch1)"

text \<open>The closure polled by \<open>send\<close>, one critical section.\<close>

definition send_poll_cs :: "'q deque_ops \<Rightarrow> nat \<Rightarrow> waker \<Rightarrow> ('q, 't) channel \<Rightarrow>
    (('q, 't) channel \<times> (unit, nat) res poll) option" where
  "send_poll_cs D p w ch =
     (if sender_is_closed ch then Some (ch, Ready (Err ()))
      else let wq_empty = wq_is_empty (wait_queue ch);
               freeq_empty = dq_is_empty D (freeq ch)
      in case links (wait_queue ch) p of
        Some queue_link \<Rightarrow>
          if popped queue_link
          then (case cells ch p of
              None \<Rightarrow> None
            | Some slot \<Rightarrow>
                let ch1 = ch\<lparr>cells := (cells ch)(p \<mapsto> None), wait_queue := link_free p (wait_queue ch)\<rparr>
                in case slot of
                     Some s \<Rightarrow> Some (ch1, Ready (Ok s))
                   | None \<Rightarrow> Some (ch1, Ready (Err ())))
          else Some (ch, Pending)
      | None \<Rightarrow>
          if \<not> wq_empty \<or> freeq_empty
          then Option.bind (wq_push p (link_insert p (w, p) (wait_queue ch))) (\<lambda>wq'.
            Some (ch\<lparr>wait_queue := wq'\<rparr>, Pending))
          else (case dq_pop_back_unchecked D (freeq ch) of
            (q', slot) \<Rightarrow> Some (ch\<lparr>freeq := q'\<rparr>, Ready (Ok slot))))"

definition send_poll :: "'q deque_ops \<Rightarrow> nat \<Rightarrow> waker \<Rightarrow> 't \<Rightarrow> ('q, 't) channel \<Rightarrow>
    (('q, 't) channel \<times> ('t, unit) res poll) option" where
  "send_poll D p w v ch =
     Option.bind (send_poll_cs D p w ch) (\<lambda>(ch1, r).
       case r of
         Pending \<Rightarrow> Some (ch1, Pending)
       | Ready idx \<Rightarrow>
           Option.bind (dropper D p ch1) (\<lambda>ch2.
             case idx of
               Inr i \<Rightarrow> Option.bind (send_footer D i v (send_end p ch2)) (\<lambda>ch3. Some (ch3, Ready (Ok ())))
             | Inl _ \<Rightarrow> Some (send_end p ch2, Ready (Err v))))"

text \<open>A \<open>send\<close> future dropped before completion.\<close>

definition send_cancel :: "'q deque_ops \<Rightarrow> nat \<Rightarrow> ('q, 't) channel \<Rightarrow> ('q, 't) channel option" where
  "send_cancel D p ch = map_option (send_end p) (dropper D p ch)"

definition sender_is_full :: "'q deque_ops \<Rightarrow> ('q, 't) channel \<Rightarrow> bool" where
  "sender_is_full D ch = dq_is_empty D (freeq ch)"

definition sender_is_empty :: "'q deque_ops \<Rightarrow> ('q, 't) channel \<Rightarrow> bool" where
  "sender_is_empty D ch = dq_is_full D (freeq ch)"

text \<open>The decrement of the sender count, which returns the new count; then the last sender wakes the
  receiver.\<close>

definition dec_senders :: "('q, 't) channel \<Rightarrow> ('q, 't) channel \<times> nat" where
  "dec_senders ch = (ch\<lparr>num_senders := num_senders ch - 1\<rparr>, num_senders ch - 1)"

definition sender_drop :: "('q, 't) channel \<Rightarrow> ('q, 't) channel" where
  "sender_drop ch = (case dec_senders ch of (ch1, n) \<Rightarrow> if n = 0 then wake_receiver ch1 else ch1)"

definition sender_clone :: "('q, 't) channel \<Rightarrow> ('q, 't) channel" where
  "sender_clone ch = ch\<lparr>num_senders := num_senders ch + 1\<rparr>"

subsection \<open>The receiver\<close>

datatype ReceiveError = NoSender | Empty

definition receiver_is_closed :: "('q, 't) channel \<Rightarrow> bool" where
  "receiver_is_closed ch = (num_senders ch = 0)"

text \<open>The critical section that takes the oldest ready slot, and the one that takes the newest.\<close>

definition pop_ready :: "'q deque_ops \<Rightarrow> ('q, 't) channel \<Rightarrow> ('q, 't) channel \<times> nat option" where
  "pop_ready D ch = (case dq_pop_front D (readyq ch) of (q', r) \<Rightarrow> (ch\<lparr>readyq := q'\<rparr>, r))"

definition pop_ready_back :: "'q deque_ops \<Rightarrow> ('q, 't) channel \<Rightarrow> ('q, 't) channel \<times> nat option" where
  "pop_ready_back D ch = (case dq_pop_back D (readyq ch) of (q', r) \<Rightarrow> (ch\<lparr>readyq := q'\<rparr>, r))"

definition try_recv :: "'q deque_ops \<Rightarrow> ('q, 't) channel \<Rightarrow>
    (('q, 't) channel \<times> (ReceiveError, 't) res) option" where
  "try_recv D ch =
     (case pop_ready D ch of
        (ch1, Some rs) \<Rightarrow>
          Option.bind (read_slot rs ch1) (\<lambda>(ch2, r).
          Option.bind (return_free_slot D rs ch2) (\<lambda>ch3. Some (ch3, Ok r)))
      | (ch1, None) \<Rightarrow> Some (ch1, Err (if receiver_is_closed ch1 then NoSender else Empty)))"

definition recv_poll :: "'q deque_ops \<Rightarrow> waker \<Rightarrow> ('q, 't) channel \<Rightarrow>
    (('q, 't) channel \<times> (ReceiveError, 't) res poll) option" where
  "recv_poll D w ch =
     Option.bind (try_recv D (register w ch)) (\<lambda>(ch1, r).
       case r of
         Inr v \<Rightarrow> Some (ch1, Ready (Ok v))
       | Inl NoSender \<Rightarrow> Some (ch1, Ready (Err NoSender))
       | Inl Empty \<Rightarrow> Some (ch1, Pending))"

definition receiver_is_full :: "'q deque_ops \<Rightarrow> ('q, 't) channel \<Rightarrow> bool" where
  "receiver_is_full D ch = dq_is_full D (readyq ch)"

definition receiver_is_empty :: "'q deque_ops \<Rightarrow> ('q, 't) channel \<Rightarrow> bool" where
  "receiver_is_empty D ch = dq_is_empty D (readyq ch)"

text \<open>The critical section that wakes the first waiting sender; the flag tells whether there was one.\<close>

definition wake_waiter :: "('q, 't) channel \<Rightarrow> (('q, 't) channel \<times> bool) option" where
  "wake_waiter ch =
     Option.bind (wq_pop (wait_queue ch)) (\<lambda>(wq', r).
       case r of
         None \<Rightarrow> Some (ch\<lparr>wait_queue := wq'\<rparr>, False)
       | Some (waker, _) \<Rightarrow> Some (ch\<lparr>wait_queue := wq', woken := woken ch @ [waker]\<rparr>, True))"

text \<open>The two loops of the receiver's drop; \<open>None\<close> also stands for a loop that does not end.\<close>

partial_function (option) drain_ready :: "'q deque_ops \<Rightarrow> ('q, 't) channel \<Rightarrow> ('q, 't) channel option" where
  "drain_ready D ch =
     (case pop_ready_back D ch of
        (ch1, slot) \<Rightarrow>
          (case slot of
             None \<Rightarrow> Some ch1
           | Some s \<Rightarrow> Option.bind (read_slot s ch1) (\<lambda>(ch2, _). drain_ready D ch2)))"

partial_function (option) drain_waiters :: "('q, 't) channel \<Rightarrow> ('q, 't) channel option" where
  "drain_waiters ch =
     Option.bind (wake_waiter ch) (\<lambda>(ch1, found). if found then drain_waiters ch1 else Some ch1)"

definition receiver_drop :: "'q deque_ops \<Rightarrow> ('q, 't) channel \<Rightarrow> ('q, 't) channel option" where
  "receiver_drop D ch =
     Option.bind (drain_ready D (ch\<lparr>receiver_dropped := True\<rparr>)) drain_waiters"

end
