(* ===== verification/Channel_Run.thy ===== *)
theory Channel_Run
  imports Channel
begin

text \<open>
  The channel with any number of senders and its receiver running concurrently.  A sender handle or
  the receiver is between two of its atomic sections in a phase; an action runs the next section of
  one of them, so every interleaving of the sections is a list of actions.  The sections are the ones
  of \<open>Channel\<close>.  A \<open>send\<close> future lives at the address of its handle's name.  \<open>sent\<close> and \<open>recvd\<close> log
  the values pushed to the ready queue and the values moved out of it.
\<close>

section \<open>Phases and actions\<close>

text \<open>A receiver inside \<open>recv\<close> remembers the waker it registered and how many wakers had been called by
  then, which only the statements below read.\<close>

text \<open>What a \<open>send\<close> future does after its drop guard: deliver through a slot, or end.  It ends early
  with an error, or because it was dropped (the flag).\<close>

datatype after = Deliver nat | GiveUp bool

datatype 't sphase =
    SIdle | TryEmpty 't | TryClosed 't | TryPop 't
  | Polling 't | Unlinking after 't | Returning nat after 't
  | Writing nat 't | Pushing nat 't | Waking

datatype 't rphase =
    RIdle | RPop "(waker \<times> nat) option" | RCheck "(waker \<times> nat) option" | RParked waker nat | RReading nat | RReturning nat 't
  | RDrain | RDrainSlot nat | RWakeAll | RGone

record ('q, 't) conf =
  chan :: "('q, 't) channel"
  threads :: "nat \<rightharpoonup> 't sphase"
  rphase :: "'t rphase"
  drop_wakes :: nat
  sent :: "'t list"
  recvd :: "'t list"

datatype 't act =
    StartTry nat 't | StartSend nat 't | Poll nat waker | Cancel nat | Step nat
  | Clone nat nat | DropSender nat | DropWake
  | StartTryRecv | PollRecv waker | RStep | DropReceiver

datatype 'c outcome = NotEnabled | UB | Next 'c

text \<open>After \<open>split\<close>: one sender, handle 0, and the receiver.\<close>

definition conf_new :: "'q deque_ops \<Rightarrow> ('q, 't) channel \<Rightarrow> ('q, 't) conf" where
  "conf_new D ch = \<lparr>chan = split D ch, threads = [0 \<mapsto> SIdle], rphase = RIdle, drop_wakes = 0,
     sent = [], recvd = []\<rparr>"

definition goto :: "nat \<Rightarrow> 't sphase \<Rightarrow> ('q, 't) channel \<Rightarrow> ('q, 't) conf \<Rightarrow> ('q, 't) conf outcome" where
  "goto t ph ch c = Next (c\<lparr>chan := ch, threads := (threads c)(t \<mapsto> ph)\<rparr>)"

definition rgoto :: "'t rphase \<Rightarrow> ('q, 't) channel \<Rightarrow> ('q, 't) conf \<Rightarrow> ('q, 't) conf outcome" where
  "rgoto ph ch c = Next (c\<lparr>chan := ch, rphase := ph\<rparr>)"

text \<open>The drop guard has run: the locals end, and the future delivers or ends.\<close>

definition conclude :: "nat \<Rightarrow> after \<Rightarrow> 't \<Rightarrow> ('q, 't) channel \<Rightarrow> ('q, 't) conf \<Rightarrow> ('q, 't) conf outcome" where
  "conclude t a v ch c =
     goto t (case a of Deliver s \<Rightarrow> Writing s v | GiveUp _ \<Rightarrow> SIdle) (send_end t ch) c"

definition sender_step :: "'q deque_ops \<Rightarrow> nat \<Rightarrow> 't sphase \<Rightarrow> ('q, 't) conf \<Rightarrow> ('q, 't) conf outcome" where
  "sender_step D t ph c =
     (let ch = chan c in
      case ph of
        TryEmpty v \<Rightarrow> goto t (if \<not> wq_is_empty (wait_queue ch) then SIdle else TryClosed v) ch c
      | TryClosed v \<Rightarrow> goto t (if sender_is_closed ch then SIdle else TryPop v) ch c
      | TryPop v \<Rightarrow>
          (case pop_free D ch of (ch1, r) \<Rightarrow> goto t (case r of Some idx \<Rightarrow> Writing idx v | None \<Rightarrow> SIdle) ch1 c)
      | Unlinking a v \<Rightarrow>
          (case dropper_take t ch of
             None \<Rightarrow> UB
           | Some (ch1, None) \<Rightarrow> conclude t a v ch1 c
           | Some (ch1, Some s) \<Rightarrow> goto t (Returning s a v) ch1 c)
      | Returning s a v \<Rightarrow>
          (case return_free_slot D s ch of None \<Rightarrow> UB | Some ch1 \<Rightarrow> conclude t a v ch1 c)
      | Writing idx v \<Rightarrow>
          (case write_slot idx v ch of None \<Rightarrow> UB | Some ch1 \<Rightarrow> goto t (Pushing idx v) ch1 c)
      | Pushing idx v \<Rightarrow> goto t Waking (push_ready D idx ch) (c\<lparr>sent := sent c @ [v]\<rparr>)
      | Waking \<Rightarrow> goto t SIdle (wake_receiver ch) c
      | _ \<Rightarrow> NotEnabled)"

definition receiver_step :: "'q deque_ops \<Rightarrow> ('q, 't) conf \<Rightarrow> ('q, 't) conf outcome" where
  "receiver_step D c =
     (let ch = chan c in
      case rphase c of
        RPop b \<Rightarrow> (case pop_ready D ch of (ch1, r) \<Rightarrow>
          rgoto (case r of Some rs \<Rightarrow> RReading rs | None \<Rightarrow> RCheck b) ch1 c)
      | RCheck b \<Rightarrow> rgoto (case b of
            Some (w, k) \<Rightarrow> if receiver_is_closed ch then RIdle else RParked w k
          | None \<Rightarrow> RIdle) ch c
      | RReading rs \<Rightarrow>
          (case read_slot rs ch of
             None \<Rightarrow> UB
           | Some (ch1, v) \<Rightarrow> rgoto (RReturning rs v) ch1 (c\<lparr>recvd := recvd c @ [v]\<rparr>))
      | RReturning rs v \<Rightarrow>
          (case return_free_slot D rs ch of None \<Rightarrow> UB | Some ch1 \<Rightarrow> rgoto RIdle ch1 c)
      | RDrain \<Rightarrow> (case pop_ready_back D ch of (ch1, r) \<Rightarrow>
          rgoto (case r of Some s \<Rightarrow> RDrainSlot s | None \<Rightarrow> RWakeAll) ch1 c)
      | RDrainSlot s \<Rightarrow> (case read_slot s ch of None \<Rightarrow> UB | Some (ch1, _) \<Rightarrow> rgoto RDrain ch1 c)
      | RWakeAll \<Rightarrow>
          (case wake_waiter ch of
             None \<Rightarrow> UB
           | Some (ch1, found) \<Rightarrow> rgoto (if found then RWakeAll else RGone) ch1 c)
      | _ \<Rightarrow> NotEnabled)"

definition send_act :: "'q deque_ops \<Rightarrow> nat \<Rightarrow> waker \<Rightarrow> 't \<Rightarrow> ('q, 't) conf \<Rightarrow> ('q, 't) conf outcome" where
  "send_act D t w v c =
     (case send_poll_cs D t w (chan c) of
        None \<Rightarrow> UB
      | Some (ch1, Pending) \<Rightarrow> goto t (Polling v) ch1 c
      | Some (ch1, Ready r) \<Rightarrow>
          goto t (Unlinking (case r of Inr s \<Rightarrow> Deliver s | Inl _ \<Rightarrow> GiveUp False) v) ch1 c)"

fun resting :: "'t rphase \<Rightarrow> bool" where
  "resting RIdle = True"
| "resting (RParked w k) = True"
| "resting _ = False"

fun step :: "'q deque_ops \<Rightarrow> 't act \<Rightarrow> ('q, 't) conf \<Rightarrow> ('q, 't) conf outcome" where
  "step D (StartTry t v) c =
     (if threads c t = Some SIdle then goto t (TryEmpty v) (chan c) c else NotEnabled)"
| "step D (StartSend t v) c =
     (if threads c t = Some SIdle then goto t (Polling v) (send_start t (chan c)) c else NotEnabled)"
| "step D (Poll t w) c =
     (case threads c t of Some (Polling v) \<Rightarrow> send_act D t w v c | _ \<Rightarrow> NotEnabled)"
| "step D (Cancel t) c =
     (case threads c t of
        Some (Polling v) \<Rightarrow> goto t (Unlinking (GiveUp True) v) (chan c) c
      | _ \<Rightarrow> NotEnabled)"
| "step D (Step t) c =
     (case threads c t of None \<Rightarrow> NotEnabled | Some ph \<Rightarrow> sender_step D t ph c)"
| "step D (Clone t t') c =
     (if threads c t = Some SIdle \<and> threads c t' = None
      then goto t' SIdle (sender_clone (chan c)) c else NotEnabled)"
| "step D (DropSender t) c =
     (if threads c t = Some SIdle
      then (case dec_senders (chan c) of (ch1, n) \<Rightarrow>
        Next (c\<lparr>chan := ch1, threads := (threads c)(t := None),
          drop_wakes := (if n = 0 then Suc (drop_wakes c) else drop_wakes c)\<rparr>))
      else NotEnabled)"
| "step D DropWake c =
     (if 0 < drop_wakes c
      then Next (c\<lparr>chan := wake_receiver (chan c), drop_wakes := drop_wakes c - 1\<rparr>) else NotEnabled)"
| "step D StartTryRecv c =
     (if resting (rphase c) then rgoto (RPop None) (chan c) c else NotEnabled)"
| "step D (PollRecv w) c =
     (if resting (rphase c) then (let ch1 = register w (chan c) in rgoto (RPop (Some (w, length (woken ch1)))) ch1 c) else NotEnabled)"
| "step D RStep c = receiver_step D c"
| "step D DropReceiver c =
     (if resting (rphase c)
      then rgoto RDrain ((chan c)\<lparr>receiver_dropped := True\<rparr>) c else NotEnabled)"

text \<open>An interleaving: a list of actions, each one enabled.\<close>

fun run :: "'q deque_ops \<Rightarrow> 't act list \<Rightarrow> ('q, 't) conf \<Rightarrow> ('q, 't) conf outcome" where
  "run D [] c = Next c"
| "run D (a # as) c = (case step D a c of Next c' \<Rightarrow> run D as c' | r \<Rightarrow> r)"

end
