(* ===== verification/Channel_Inv.thy ===== *)
theory Channel_Inv
  imports Channel_Run "HOL-Library.Sublist"
begin

text \<open>
  The invariant of the interleaved channel: every slot index has one owner, the links and the cells
  of the waiting senders are live, the ready queue is what has been sent and not received, and a
  parked receiver has a wake-up on its way whenever there is something to receive.  Each group of
  the invariant is a definition; each action keeps it.
\<close>

section \<open>The owner of a slot\<close>

datatype owner = OLost | OFree | OReady | OGrant nat | OWriter nat | OPusher nat | OReader | OReturner

fun full :: "owner \<Rightarrow> bool" where
  "full OReady = True"
| "full (OPusher t) = True"
| "full OReader = True"
| "full _ = False"

text \<open>\<open>owned x i\<close>: the owner \<open>x\<close>, and nobody else, has the slot \<open>i\<close>.\<close>

definition owned :: "owner \<Rightarrow> nat \<Rightarrow> nat list \<Rightarrow> nat list \<Rightarrow> (nat \<rightharpoonup> nat option) \<Rightarrow>
    (nat \<rightharpoonup> nat) \<Rightarrow> (nat \<rightharpoonup> nat) \<Rightarrow> nat option \<Rightarrow> nat option \<Rightarrow> bool" where
  "owned x i F R G E P rf re \<longleftrightarrow>
     (x = OFree \<longleftrightarrow> i \<in> set F) \<and> (x = OReady \<longleftrightarrow> i \<in> set R) \<and>
     (x = OReader \<longleftrightarrow> rf = Some i) \<and> (x = OReturner \<longleftrightarrow> re = Some i) \<and>
     (\<forall>p. (x = OGrant p \<longleftrightarrow> G p = Some (Some i)) \<and> (x = OWriter p \<longleftrightarrow> E p = Some i) \<and>
        (x = OPusher p \<longleftrightarrow> P p = Some i))"

definition owns :: "(nat \<Rightarrow> owner) \<Rightarrow> nat list \<Rightarrow> nat list \<Rightarrow> (nat \<rightharpoonup> nat option) \<Rightarrow>
    (nat \<rightharpoonup> nat) \<Rightarrow> (nat \<rightharpoonup> nat) \<Rightarrow> nat option \<Rightarrow> nat option \<Rightarrow> bool" where
  "owns ow F R G E P rf re \<longleftrightarrow> distinct F \<and> distinct R \<and> (\<forall>i. owned (ow i) i F R G E P rf re)"

lemma owns_owned: "owns ow F R G E P rf re \<Longrightarrow> owned (ow i) i F R G E P rf re"
  by (simp add: owns_def)

lemma owns_distinct: "owns ow F R G E P rf re \<Longrightarrow> distinct F \<and> distinct R"
  by (simp add: owns_def)

lemma owns_where:
  assumes "owns ow F R G E P rf re"
  shows "i \<in> set F \<longleftrightarrow> ow i = OFree" "i \<in> set R \<longleftrightarrow> ow i = OReady" "rf = Some i \<longleftrightarrow> ow i = OReader"
    "re = Some i \<longleftrightarrow> ow i = OReturner" "G p = Some (Some i) \<longleftrightarrow> ow i = OGrant p"
    "E p = Some i \<longleftrightarrow> ow i = OWriter p" "P p = Some i \<longleftrightarrow> ow i = OPusher p"
  using owns_owned [OF assms, of i] by (simp_all add: owned_def)

lemma owns_updI:
  assumes "owns ow F R G E P rf re" and "distinct F'" and "distinct R'"
    and "owned x i F' R' G' E' P' rf' re'"
    and "\<And>j. j \<noteq> i \<Longrightarrow> owned (ow j) j F R G E P rf re \<Longrightarrow> owned (ow j) j F' R' G' E' P' rf' re'"
  shows "owns (ow(i := x)) F' R' G' E' P' rf' re'"
  using assms by (simp add: owns_def)

text \<open>Taking a slot away from its owner.\<close>

lemma take_free:
  assumes o: "owns ow (F @ i # F') R G E P rf re"
  shows "owns (ow(i := OLost)) (F @ F') R G E P rf re"
  by (rule owns_updI [OF o]) (use assms owns_distinct [OF o] owns_owned [OF o, of i] owns_where(1) [OF o, of i] in \<open>auto simp: owned_def\<close>)

lemma take_ready:
  assumes o: "owns ow F (R @ i # R') G E P rf re"
  shows "owns (ow(i := OLost)) F (R @ R') G E P rf re"
  by (rule owns_updI [OF o]) (use assms owns_distinct [OF o] owns_owned [OF o, of i] owns_where(2) [OF o, of i] in \<open>auto simp: owned_def\<close>)

lemma take_reader:
  assumes o: "owns ow F R G E P (Some i) re"
  shows "owns (ow(i := OLost)) F R G E P None re"
  by (rule owns_updI [OF o]) (use assms owns_distinct [OF o] owns_owned [OF o, of i] owns_where(3) [OF o, of i] in \<open>auto simp: owned_def\<close>)

lemma take_returner:
  assumes o: "owns ow F R G E P rf (Some i)"
  shows "owns (ow(i := OLost)) F R G E P rf None"
  by (rule owns_updI [OF o]) (use assms owns_distinct [OF o] owns_owned [OF o, of i] owns_where(4) [OF o, of i] in \<open>auto simp: owned_def\<close>)

lemma take_grant:
  assumes o: "owns ow F R G E P rf re" and p1: "G p = Some (Some i)"
  shows "owns (ow(i := OLost)) F R (G(p \<mapsto> None)) E P rf re"
  by (rule owns_updI [OF o]) (use assms owns_distinct [OF o] owns_owned [OF o, of i] owns_where(5) [OF o, of p i] in \<open>auto simp: owned_def\<close>)

lemma take_writer:
  assumes o: "owns ow F R G E P rf re" and p1: "E p = Some i"
  shows "owns (ow(i := OLost)) F R G (E(p := None)) P rf re"
  by (rule owns_updI [OF o]) (use assms owns_distinct [OF o] owns_owned [OF o, of i] owns_where(6) [OF o, of p i] in \<open>auto simp: owned_def\<close>)

lemma take_pusher:
  assumes o: "owns ow F R G E P rf re" and p1: "P p = Some i"
  shows "owns (ow(i := OLost)) F R G E (P(p := None)) rf re"
  by (rule owns_updI [OF o]) (use assms owns_distinct [OF o] owns_owned [OF o, of i] owns_where(7) [OF o, of p i] in \<open>auto simp: owned_def\<close>)

text \<open>Giving it to another one.\<close>

lemma give_free:
  assumes o: "owns ow F R G E P rf re" and p1: "ow i = OLost"
  shows "owns (ow(i := OFree)) (F @ [i]) R G E P rf re"
  by (rule owns_updI [OF o]) (use assms owns_distinct [OF o] owns_owned [OF o, of i] in \<open>auto simp: owned_def\<close>)

lemma give_ready:
  assumes o: "owns ow F R G E P rf re" and p1: "ow i = OLost"
  shows "owns (ow(i := OReady)) F (R @ [i]) G E P rf re"
  by (rule owns_updI [OF o]) (use assms owns_distinct [OF o] owns_owned [OF o, of i] in \<open>auto simp: owned_def\<close>)

lemma give_reader:
  assumes o: "owns ow F R G E P None re" and p1: "ow i = OLost"
  shows "owns (ow(i := OReader)) F R G E P (Some i) re"
  by (rule owns_updI [OF o]) (use assms owns_distinct [OF o] owns_owned [OF o, of i] in \<open>auto simp: owned_def\<close>)

lemma give_returner:
  assumes o: "owns ow F R G E P rf None" and p1: "ow i = OLost"
  shows "owns (ow(i := OReturner)) F R G E P rf (Some i)"
  by (rule owns_updI [OF o]) (use assms owns_distinct [OF o] owns_owned [OF o, of i] in \<open>auto simp: owned_def\<close>)

lemma give_grant:
  assumes o: "owns ow F R G E P rf re" and p1: "ow i = OLost" and p2: "\<And>s. G p \<noteq> Some (Some s)"
  shows "owns (ow(i := OGrant p)) F R (G(p \<mapsto> Some i)) E P rf re"
  by (rule owns_updI [OF o]) (use assms owns_distinct [OF o] owns_owned [OF o, of i] in \<open>auto simp: owned_def\<close>)

lemma give_writer:
  assumes o: "owns ow F R G E P rf re" and p1: "ow i = OLost" and p2: "E p = None"
  shows "owns (ow(i := OWriter p)) F R G (E(p \<mapsto> i)) P rf re"
  by (rule owns_updI [OF o]) (use assms owns_distinct [OF o] owns_owned [OF o, of i] in \<open>auto simp: owned_def\<close>)

lemma give_pusher:
  assumes o: "owns ow F R G E P rf re" and p1: "ow i = OLost" and p2: "P p = None"
  shows "owns (ow(i := OPusher p)) F R G E (P(p \<mapsto> i)) rf re"
  by (rule owns_updI [OF o]) (use assms owns_distinct [OF o] owns_owned [OF o, of i] in \<open>auto simp: owned_def\<close>)

lemma owns_cell_none:
  assumes o: "owns ow F R G E P rf re" and "\<And>s. G p \<noteq> Some (Some s)" and "\<And>s. x \<noteq> Some (Some s)"
  shows "owns ow F R (G(p := x)) E P rf re"
  unfolding owns_def using o assms by (auto simp: owned_def owns_def)

section \<open>The invariant\<close>

fun empty_hold :: "'t sphase \<Rightarrow> nat option" where
  "empty_hold (Writing i v) = Some i"
| "empty_hold (Returning i a v) = Some i"
| "empty_hold (Unlinking (Deliver i) v) = Some i"
| "empty_hold _ = None"

fun full_hold :: "'t sphase \<Rightarrow> nat option" where
  "full_hold (Pushing i v) = Some i"
| "full_hold _ = None"

fun in_send :: "'t sphase \<Rightarrow> bool" where
  "in_send (Polling v) = True"
| "in_send (Unlinking a v) = True"
| "in_send (Returning i a v) = True"
| "in_send _ = False"

fun rfull :: "'t rphase \<Rightarrow> nat option" where
  "rfull (RReading i) = Some i"
| "rfull (RDrainSlot i) = Some i"
| "rfull _ = None"

fun rempty :: "'t rphase \<Rightarrow> nat option" where
  "rempty (RReturning i v) = Some i"
| "rempty _ = None"

fun leaving :: "'t rphase \<Rightarrow> bool" where
  "leaving RDrain = True"
| "leaving (RDrainSlot i) = True"
| "leaving RWakeAll = True"
| "leaving RGone = True"
| "leaving _ = False"

definition hold :: "('t sphase \<Rightarrow> nat option) \<Rightarrow> (nat \<rightharpoonup> 't sphase) \<Rightarrow> nat \<rightharpoonup> nat" where
  "hold h T t = Option.bind (T t) h"

lemma hold_upd [simp]: "hold h (T(t \<mapsto> ph)) = (hold h T)(t := h ph)"
  by (auto simp: hold_def)

lemma hold_del [simp]: "hold h (T(t := None)) = (hold h T)(t := None)"
  by (auto simp: hold_def)

lemma hold_at: "threads c t = Some ph \<Longrightarrow> hold h (threads c) t = h ph"
  by (simp add: hold_def)

text \<open>The slots.\<close>

definition own_inv :: "('q \<Rightarrow> nat list) \<Rightarrow> nat \<Rightarrow> (nat \<Rightarrow> owner) \<Rightarrow> ('q, 't) conf \<Rightarrow> bool" where
  "own_inv dl N ow c \<longleftrightarrow>
     owns ow (dl (freeq (chan c))) (dl (readyq (chan c))) (cells (chan c))
       (hold empty_hold (threads c)) (hold full_hold (threads c)) (rfull (rphase c)) (rempty (rphase c)) \<and>
     length (slots (chan c)) = N \<and>
     (\<forall>i \<ge> N. ow i = OLost) \<and>
     (\<not> receiver_dropped (chan c) \<longrightarrow> (\<forall>i < N. ow i \<noteq> OLost)) \<and>
     (\<forall>i < N. slots (chan c) ! i \<noteq> None \<longleftrightarrow> full (ow i)) \<and>
     (receiver_dropped (chan c) \<longleftrightarrow> leaving (rphase c))"

text \<open>The waiting senders: the queue with the links and cells, and what holds of a handle in each phase.\<close>

definition wait_base :: "('q \<Rightarrow> nat list) \<Rightarrow> nat list \<Rightarrow> ('q, 't) channel \<Rightarrow> bool" where
  "wait_base dl ps ch \<longleftrightarrow>
     wq_rep (wait_queue ch) ps \<and>
     (\<forall>p x b. obs (wait_queue ch) p = Some (x, b) \<longrightarrow> snd x = p \<and> cells ch p \<noteq> None \<and> (b \<or> p \<in> set ps)) \<and>
     (\<forall>p s. cells ch p = Some (Some s) \<longrightarrow> (\<exists>x. obs (wait_queue ch) p = Some (x, True))) \<and>
     (ps \<noteq> [] \<longrightarrow> dl (freeq ch) = [])"

fun phase_ok :: "nat list \<Rightarrow> ('q, 't) channel \<Rightarrow> nat \<Rightarrow> 't sphase \<Rightarrow> bool" where
  "phase_ok ps ch p (Polling v) \<longleftrightarrow> receiver_dropped ch \<or> cells ch p \<noteq> Some None \<or>
     (\<forall>x. obs (wait_queue ch) p \<noteq> Some (x, True))"
| "phase_ok ps ch p (Unlinking (Deliver i) v) \<longleftrightarrow> obs (wait_queue ch) p = None"
| "phase_ok ps ch p (Unlinking (GiveUp b) v) \<longleftrightarrow> b \<or> receiver_dropped ch"
| "phase_ok ps ch p (Returning i (Deliver j) v) \<longleftrightarrow> False"
| "phase_ok ps ch p (Returning i (GiveUp b) v) \<longleftrightarrow>
     p \<notin> set ps \<and> cells ch p = Some None \<and> (b \<or> receiver_dropped ch)"
| "phase_ok ps ch p ph \<longleftrightarrow> True"

fun handle_ok :: "nat list \<Rightarrow> ('q, 't) channel \<Rightarrow> nat \<Rightarrow> 't sphase option \<Rightarrow> bool" where
  "handle_ok ps ch p None \<longleftrightarrow> cells ch p = None"
| "handle_ok ps ch p (Some ph) \<longleftrightarrow> (cells ch p \<noteq> None \<longleftrightarrow> in_send ph) \<and> phase_ok ps ch p ph"

definition wait_inv :: "('q \<Rightarrow> nat list) \<Rightarrow> nat list \<Rightarrow> ('q, 't) conf \<Rightarrow> bool" where
  "wait_inv dl ps c \<longleftrightarrow> wait_base dl ps (chan c) \<and> (\<forall>p. handle_ok ps (chan c) p (threads c p))"

lemma wait_baseD:
  assumes "wait_base dl ps ch"
  shows wi_rep: "wq_rep (wait_queue ch) ps"
    and wi_addr: "obs (wait_queue ch) p = Some (x, b) \<Longrightarrow> snd x = p"
    and wi_live: "obs (wait_queue ch) p = Some (x, b) \<Longrightarrow> cells ch p \<noteq> None"
    and wi_queued: "obs (wait_queue ch) p = Some (x, False) \<Longrightarrow> p \<in> set ps"
    and wi_granted: "cells ch p = Some (Some s) \<Longrightarrow> \<exists>x. obs (wait_queue ch) p = Some (x, True)"
    and wi_free: "ps \<noteq> [] \<Longrightarrow> dl (freeq ch) = []"
  using assms unfolding wait_base_def by metis+

lemma wi_no_grant:
  assumes "wait_base dl ps ch" and "\<And>x. obs (wait_queue ch) p \<noteq> Some (x, True)"
  shows "cells ch p \<noteq> Some (Some s)"
  using wi_granted [OF assms(1)] assms(2) by blast

lemma wait_base_of: "wait_inv dl ps c \<Longrightarrow> wait_base dl ps (chan c)"
  by (simp add: wait_inv_def)

lemma handle_of: "wait_inv dl ps c \<Longrightarrow> threads c p = x \<Longrightarrow> handle_ok ps (chan c) p x"
  by (auto simp: wait_inv_def)

text \<open>A handle is not affected by what happens to the links and cells of others.\<close>

lemma handle_ok_frame:
  assumes "handle_ok ps ch p x" and "obs (wait_queue ch') p = obs (wait_queue ch) p"
    and "cells ch' p = cells ch p" and "receiver_dropped ch \<Longrightarrow> receiver_dropped ch'"
    and "p \<in> set ps' \<Longrightarrow> p \<in> set ps"
  shows "handle_ok ps' ch' p x"
proof (cases x)
  case None
  with assms show ?thesis by simp
next
  case (Some ph)
  have "phase_ok ps ch p ph \<Longrightarrow> phase_ok ps' ch' p ph"
    using assms(2-5) by (induction ps ch p ph rule: phase_ok.induct) auto
  with Some assms(1,3) show ?thesis by simp
qed

lemma wait_invI:
  assumes "wait_base dl ps (chan c)" and "\<And>p. handle_ok ps (chan c) p (threads c p)"
  shows "wait_inv dl ps c"
  using assms by (simp add: wait_inv_def)

text \<open>One handle moves on; its own link and cell may change, those of the others do not.\<close>

lemma wait_inv_goto:
  assumes "wait_inv dl ps c" and "wait_base dl ps' ch" and "handle_ok ps' ch t (Some ph)"
    and "\<And>p. p \<noteq> t \<Longrightarrow> obs (wait_queue ch) p = obs (wait_queue (chan c)) p \<and> cells ch p = cells (chan c) p \<and>
      (p \<in> set ps' \<longrightarrow> p \<in> set ps)"
    and "receiver_dropped (chan c) \<Longrightarrow> receiver_dropped ch"
  shows "wait_inv dl ps' (c\<lparr>chan := ch, threads := (threads c)(t \<mapsto> ph)\<rparr>)"
proof (rule wait_invI)
  show "wait_base dl ps' (chan (c\<lparr>chan := ch, threads := (threads c)(t \<mapsto> ph)\<rparr>))" using assms(2) by simp
  fix p
  show "handle_ok ps' (chan (c\<lparr>chan := ch, threads := (threads c)(t \<mapsto> ph)\<rparr>)) p
      (threads (c\<lparr>chan := ch, threads := (threads c)(t \<mapsto> ph)\<rparr>) p)"
  proof (cases "p = t")
    case True
    with assms(3) show ?thesis by simp
  next
    case False
    have "handle_ok ps' ch p (threads c p)"
      by (rule handle_ok_frame [OF handle_of [OF assms(1) refl]]) (use assms(4,5) False in auto)
    with False show ?thesis by simp
  qed
qed

text \<open>The messages.\<close>

definition log_inv :: "('q \<Rightarrow> nat list) \<Rightarrow> ('q, 't) conf \<Rightarrow> bool" where
  "log_inv dl c \<longleftrightarrow> (let ch = chan c in
     (\<forall>t i v. threads c t = Some (Pushing i v) \<longrightarrow> slots ch ! i = Some v) \<and>
     prefix (recvd c) (sent c) \<and>
     (\<not> receiver_dropped ch \<longrightarrow>
        sent c = recvd c @ map (\<lambda>i. the (slots ch ! i)) (case rphase c of RReading i \<Rightarrow> [i] | _ \<Rightarrow> [])
          @ map (\<lambda>i. the (slots ch ! i)) (dl (readyq ch))))"

text \<open>The receiver's waker, and the sender count.\<close>

fun registered :: "'t rphase \<Rightarrow> (waker \<times> nat) option" where
  "registered (RPop b) = b"
| "registered (RCheck b) = b"
| "registered (RParked w k) = Some (w, k)"
| "registered _ = None"

definition wake_inv :: "('q \<Rightarrow> nat list) \<Rightarrow> ('q, 't) conf \<Rightarrow> bool" where
  "wake_inv dl c \<longleftrightarrow> (let ch = chan c in
     (\<forall>w k. registered (rphase c) = Some (w, k) \<longrightarrow> k \<le> length (woken ch) \<and>
        (receiver_waker ch = Some w \<or> w \<in> set (drop k (woken ch)))) \<and>
     (\<forall>b. rphase c = RCheck b \<and> receiver_waker ch \<noteq> None \<and> dl (readyq ch) \<noteq> [] \<longrightarrow>
        Waking \<in> ran (threads c)) \<and>
     (\<forall>w k. rphase c = RParked w k \<and> receiver_waker ch \<noteq> None \<and> dl (readyq ch) \<noteq> [] \<longrightarrow>
        Waking \<in> ran (threads c)) \<and>
     (\<forall>w k. rphase c = RParked w k \<and> receiver_waker ch \<noteq> None \<and> num_senders ch = 0 \<longrightarrow>
        0 < drop_wakes c) \<and>
     finite (dom (threads c)) \<and> num_senders ch = card (dom (threads c)))"

definition chan_inv :: "('q \<Rightarrow> nat list) \<Rightarrow> nat \<Rightarrow> ('q, 't) conf \<Rightarrow> bool" where
  "chan_inv dl N c \<longleftrightarrow> (\<exists>ow ps. own_inv dl N ow c \<and> wait_inv dl ps c \<and> log_inv dl c \<and> wake_inv dl c)"

section \<open>The sections on the abstract state\<close>

lemma deque_facts:
  assumes "deque_laws D dl N"
  shows "dl (dq_clear D q) = []" "dq_is_empty D q \<longleftrightarrow> dl q = []" "dq_is_full D q \<longleftrightarrow> length (dl q) = N"
    "length (dl q) < N \<Longrightarrow> dl (dq_push_back_unchecked D q x) = dl q @ [x]"
  using assms by (auto simp: deque_laws_def)

lemma pop_front_cases:
  assumes "deque_laws D dl N"
  obtains (empty) q' where "dq_pop_front D q = (q', None)" "dl q = []" "dl q' = []"
  | (elem) q' x xs where "dq_pop_front D q = (q', Some x)" "dl q = x # xs" "dl q' = xs"
proof (cases "dl q")
  case Nil
  with assms have "dl (fst (dq_pop_front D q)) = []" "snd (dq_pop_front D q) = None"
    by (auto simp: deque_laws_def)
  with Nil empty [of "fst (dq_pop_front D q)"] show ?thesis by (cases "dq_pop_front D q") auto
next
  case (Cons x xs)
  then have "dl q \<noteq> []" by simp
  with assms have "dl (fst (dq_pop_front D q)) = tl (dl q)" "snd (dq_pop_front D q) = Some (hd (dl q))"
    unfolding deque_laws_def by blast+
  with Cons elem [of "fst (dq_pop_front D q)" x xs] show ?thesis by (cases "dq_pop_front D q") auto
qed

lemma pop_back_cases:
  assumes "deque_laws D dl N"
  obtains (empty) q' where "dq_pop_back D q = (q', None)" "dl q = []" "dl q' = []"
  | (elem) q' x xs where "dq_pop_back D q = (q', Some x)" "dl q = xs @ [x]" "dl q' = xs"
proof (cases "dl q" rule: rev_cases)
  case Nil
  with assms have "dl (fst (dq_pop_back D q)) = []" "snd (dq_pop_back D q) = None"
    by (auto simp: deque_laws_def)
  with Nil empty [of "fst (dq_pop_back D q)"] show ?thesis by (cases "dq_pop_back D q") auto
next
  case (snoc xs x)
  then have "dl q \<noteq> []" by simp
  with assms have "dl (fst (dq_pop_back D q)) = butlast (dl q)" "snd (dq_pop_back D q) = Some (last (dl q))"
    unfolding deque_laws_def by blast+
  then have "dq_pop_back D q = (fst (dq_pop_back D q), Some x)" "dl (fst (dq_pop_back D q)) = xs"
    by (simp_all add: snoc prod_eq_iff)
  then show ?thesis using elem snoc by blast
qed

lemma pop_back_unchecked_elem:
  assumes "deque_laws D dl N" and "dl q \<noteq> []"
  obtains q' x xs where "dq_pop_back_unchecked D q = (q', x)" "dl q = xs @ [x]" "dl q' = xs"
proof -
  from assms have "dl (fst (dq_pop_back_unchecked D q)) = butlast (dl q)"
    "snd (dq_pop_back_unchecked D q) = last (dl q)"
    unfolding deque_laws_def by blast+
  then have "dq_pop_back_unchecked D q = (fst (dq_pop_back_unchecked D q), last (dl q))"
    "dl (fst (dq_pop_back_unchecked D q)) = butlast (dl q)"
    by (simp_all add: prod_eq_iff)
  moreover have "dl q = butlast (dl q) @ [last (dl q)]" using assms(2) by simp
  ultimately show ?thesis using that by blast
qed

text \<open>Returning a slot: to the longest-waiting sender if there is one, else to the free queue.\<close>

lemma return_free_slot_cases:
  assumes D: "deque_laws D dl N" and w: "wait_base dl ps ch" and r: "length (dl (freeq ch)) < N"
  obtains (queue) q' where "ps = []" "dl q' = dl (freeq ch) @ [s]"
      "return_free_slot D s ch = Some (ch\<lparr>freeq := q'\<rparr>)"
  | (sender) p qs W' wk where "ps = p # qs" "dl (freeq ch) = []" "cells ch p = Some None"
      "obs (wait_queue ch) p = Some ((wk, p), False)" "wq_rep W' qs" "p \<notin> set qs"
      "obs W' = (obs (wait_queue ch))(p \<mapsto> ((wk, p), True))"
      "return_free_slot D s ch = Some (ch\<lparr>wait_queue := W', cells := (cells ch)(p \<mapsto> Some s),
         woken := woken ch @ [wk]\<rparr>)"
proof (cases ps)
  case Nil
  with w have "wq_pop (wait_queue ch) = Some (wait_queue ch, None)"
    by (intro wq_pop_nil) (simp add: wait_base_def)
  then have "return_free_slot D s ch = Some (ch\<lparr>freeq := dq_push_back_unchecked D (freeq ch) s\<rparr>)"
    by (simp add: return_free_slot_def)
  with queue Nil deque_facts(4) [OF D r] show ?thesis by blast
next
  case (Cons p qs)
  have rep: "wq_rep (wait_queue ch) (p # qs)" using wi_rep [OF w] Cons by simp
  from wq_pop_cons [OF rep] obtain W' v where W': "wq_pop (wait_queue ch) = Some (W', Some v)"
    "wq_rep W' qs" "obs (wait_queue ch) p = Some (v, False)"
    "obs W' = (obs (wait_queue ch))(p \<mapsto> (v, True))" by blast
  have v: "snd v = p" by (rule wi_addr [OF w W'(3)])
  have "cells ch p \<noteq> None" by (rule wi_live [OF w W'(3)])
  moreover have "cells ch p \<noteq> Some (Some s)" for s
    using W'(3) by (intro wi_no_grant [OF w]) simp
  ultimately have cp: "cells ch p = Some None" by (metis not_None_eq)
  obtain wk where vw: "v = (wk, p)" using v by (cases v) auto
  have "p \<notin> set qs" using wq_rep_distinct [OF rep] by simp
  moreover have "return_free_slot D s ch = Some (ch\<lparr>wait_queue := W',
         cells := (cells ch)(p \<mapsto> Some s), woken := woken ch @ [wk]\<rparr>)"
    using W' vw cp by (simp add: return_free_slot_def)
  ultimately show ?thesis using sender Cons wi_free [OF w] cp W' vw by simp
qed

text \<open>The free and the ready queue have room for every slot that is in neither.\<close>

lemma own_range: "own_inv dl N ow c \<Longrightarrow> ow i \<noteq> OLost \<Longrightarrow> i < N"
  by (meson own_inv_def not_le)

lemma own_owns:
  "own_inv dl N ow c \<Longrightarrow> owns ow (dl (freeq (chan c))) (dl (readyq (chan c))) (cells (chan c))
     (hold empty_hold (threads c)) (hold full_hold (threads c)) (rfull (rphase c)) (rempty (rphase c))"
  by (simp add: own_inv_def)

lemma free_room:
  assumes inv: "own_inv dl N ow c" and "i < N" and "ow i \<noteq> OFree"
  shows "length (dl (freeq (chan c))) < N"
proof (rule distinct_missing_length [OF _ _ \<open>i < N\<close>])
  show "distinct (dl (freeq (chan c)))" using owns_distinct [OF own_owns [OF inv]] by blast
  show "i \<notin> set (dl (freeq (chan c)))" using owns_where(1) [OF own_owns [OF inv], of i] assms(3) by blast
  fix j assume "j \<in> set (dl (freeq (chan c)))"
  then have "ow j = OFree" using owns_where(1) [OF own_owns [OF inv], of j] by blast
  then show "j < N" by (intro own_range [OF inv]) simp
qed

lemma ready_room:
  assumes inv: "own_inv dl N ow c" and "i < N" and "ow i \<noteq> OReady"
  shows "length (dl (readyq (chan c))) < N"
proof (rule distinct_missing_length [OF _ _ \<open>i < N\<close>])
  show "distinct (dl (readyq (chan c)))" using owns_distinct [OF own_owns [OF inv]] by blast
  show "i \<notin> set (dl (readyq (chan c)))" using owns_where(2) [OF own_owns [OF inv], of i] assms(3) by blast
  fix j assume "j \<in> set (dl (readyq (chan c)))"
  then have "ow j = OReady" using owns_where(2) [OF own_owns [OF inv], of j] by blast
  then show "j < N" by (intro own_range [OF inv]) simp
qed

end
