(* ===== verification/Channel_Steps.thy ===== *)
theory Channel_Steps
  imports Channel_Inv
begin

text \<open>
  Every action of the interleaved channel is defined behaviour and keeps the invariant: one lemma per
  action, the senders first, then the receiver.
\<close>

section \<open>Moves of a sender\<close>

lemma own_invD:
  assumes "own_inv dl N ow c"
  shows oi_len: "length (slots (chan c)) = N"
    and oi_lost: "N \<le> i \<Longrightarrow> ow i = OLost"
    and oi_alive: "\<not> receiver_dropped (chan c) \<Longrightarrow> i < N \<Longrightarrow> ow i \<noteq> OLost"
    and oi_full: "i < N \<Longrightarrow> slots (chan c) ! i \<noteq> None \<longleftrightarrow> full (ow i)"
    and oi_leaving: "receiver_dropped (chan c) \<longleftrightarrow> leaving (rphase c)"
  using assms by (auto simp: own_inv_def)

lemma own_invI:
  assumes "owns ow (dl (freeq (chan c))) (dl (readyq (chan c))) (cells (chan c))
       (hold empty_hold (threads c)) (hold full_hold (threads c)) (rfull (rphase c)) (rempty (rphase c))"
    and "length (slots (chan c)) = N" and "\<And>i. N \<le> i \<Longrightarrow> ow i = OLost"
    and "\<And>i. \<not> receiver_dropped (chan c) \<Longrightarrow> i < N \<Longrightarrow> ow i \<noteq> OLost"
    and "\<And>i. i < N \<Longrightarrow> slots (chan c) ! i \<noteq> None \<longleftrightarrow> full (ow i)"
    and "receiver_dropped (chan c) \<longleftrightarrow> leaving (rphase c)"
  shows "own_inv dl N ow c"
  using assms by (simp add: own_inv_def)

lemma wake_inv_goto:
  assumes "wake_inv dl c" and t: "threads c t = Some ph0" "ph0 \<noteq> Waking"
    and "receiver_waker ch = receiver_waker (chan c)"
    and "dl (readyq ch) = dl (readyq (chan c)) \<or> ph = Waking"
    and "woken ch = woken (chan c) @ ws" and "num_senders ch = num_senders (chan c)"
  shows "wake_inv dl (c\<lparr>chan := ch, threads := (threads c)(t \<mapsto> ph), sent := ss\<rparr>)"
proof -
  have ran: "Waking \<in> ran (threads c) \<Longrightarrow> Waking \<in> ran ((threads c)(t \<mapsto> ph))"
    using t unfolding ran_def by (auto, metis option.inject)
  have wk: "ph = Waking \<Longrightarrow> Waking \<in> ran ((threads c)(t \<mapsto> ph))"
    by (auto simp: ran_def)
  have "insert t (dom (threads c)) = dom (threads c)" using t by auto
  then show ?thesis using assms(1,4-) ran wk
    unfolding wake_inv_def Let_def by (auto simp del: ran_map_upd)
qed

lemma log_inv_goto:
  assumes "log_inv dl c" and "\<And>i v. ph = Pushing i v \<Longrightarrow> slots ch ! i = Some v"
    and "slots ch = slots (chan c)" and "dl (readyq ch) = dl (readyq (chan c))"
    and "receiver_dropped ch = receiver_dropped (chan c)"
  shows "log_inv dl (c\<lparr>chan := ch, threads := (threads c)(t \<mapsto> ph)\<rparr>)"
  using assms unfolding log_inv_def Let_def by auto

text \<open>
  A move of one handle that leaves the ready queue, the slots' contents and the receiver's side alone:
  what remains to be shown is the ownership of the slots and the state of the handles.
\<close>

lemma inv_goto:
  assumes inv: "own_inv dl N ow c" "wait_inv dl ps c" "log_inv dl c" "wake_inv dl c"
    and t: "threads c t = Some ph0" "ph0 \<noteq> Waking" "full_hold ph = None"
    and fr: "readyq ch = readyq (chan c)" "slots ch = slots (chan c)"
      "receiver_waker ch = receiver_waker (chan c)" "num_senders ch = num_senders (chan c)"
      "receiver_dropped ch = receiver_dropped (chan c)" "woken ch = woken (chan c) @ ws"
    and own: "owns ow' (dl (freeq ch)) (dl (readyq ch)) (cells ch) ((hold empty_hold (threads c))(t := empty_hold ph))
      ((hold full_hold (threads c))(t := None)) (rfull (rphase c)) (rempty (rphase c))"
    and lost: "\<And>j. ow' j = OLost \<longleftrightarrow> ow j = OLost" and full: "\<And>j. full (ow' j) = full (ow j)"
    and base: "wait_base dl ps' ch" and self: "handle_ok ps' ch t (Some ph)"
    and others: "\<And>p. p \<noteq> t \<Longrightarrow> handle_ok ps' ch p (threads c p)"
  shows "\<exists>c'. goto t ph ch c = Next c' \<and> chan_inv dl N c'"
proof -
  let ?c = "c\<lparr>chan := ch, threads := (threads c)(t \<mapsto> ph)\<rparr>"
  have "own_inv dl N ow' ?c"
  proof (rule own_invI)
    show "owns ow' (dl (freeq (chan ?c))) (dl (readyq (chan ?c))) (cells (chan ?c))
       (hold empty_hold (threads ?c)) (hold full_hold (threads ?c)) (rfull (rphase ?c)) (rempty (rphase ?c))"
      using own t(3) by simp
    show "length (slots (chan ?c)) = N" using oi_len [OF inv(1)] fr by simp
    show "receiver_dropped (chan ?c) \<longleftrightarrow> leaving (rphase ?c)" using oi_leaving [OF inv(1)] fr by simp
    fix i
    show "N \<le> i \<Longrightarrow> ow' i = OLost" using oi_lost [OF inv(1)] lost by simp
    show "\<not> receiver_dropped (chan ?c) \<Longrightarrow> i < N \<Longrightarrow> ow' i \<noteq> OLost"
      using oi_alive [OF inv(1)] lost fr by simp
    show "i < N \<Longrightarrow> slots (chan ?c) ! i \<noteq> None \<longleftrightarrow> full (ow' i)"
      using oi_full [OF inv(1)] full fr by simp
  qed
  moreover have "wait_inv dl ps' ?c"
    using base self others by (auto intro!: wait_invI)
  moreover have "log_inv dl ?c"
    by (rule log_inv_goto [OF inv(3)]) (use t fr in auto)
  moreover have "wake_inv dl (c\<lparr>chan := ch, threads := (threads c)(t \<mapsto> ph), sent := sent c\<rparr>)"
    by (rule wake_inv_goto [OF inv(4) t(1,2)]) (use fr in auto)
  ultimately show ?thesis unfolding goto_def chan_inv_def by auto
qed

lemma base_freeq:
  "wait_base dl ps ch \<Longrightarrow> ps = [] \<or> dl q = [] \<Longrightarrow> wait_base dl ps (ch\<lparr>freeq := q\<rparr>)"
  unfolding wait_base_def by (elim conjE, intro conjI) (assumption | simp | blast)+

fun plain :: "'t sphase \<Rightarrow> bool" where
  "plain SIdle = True"
| "plain (TryEmpty v) = True"
| "plain (TryClosed v) = True"
| "plain (TryPop v) = True"
| "plain _ = False"

lemma plain_facts:
  assumes "plain ph"
  shows "empty_hold ph = None" "full_hold ph = None" "\<not> in_send ph" "phase_ok ps ch p ph" "ph \<noteq> Waking"
  using assms by (cases ph; simp)+

lemma hold_none: "threads c t = Some ph \<Longrightarrow> h ph = None \<Longrightarrow> (hold h (threads c))(t := None) = hold h (threads c)"
  by (auto simp: hold_def)

lemma inv_goto_plain:
  assumes inv: "own_inv dl N ow c" "wait_inv dl ps c" "log_inv dl c" "wake_inv dl c"
    and t: "threads c t = Some ph0" "plain ph0" "plain ph"
  shows "\<exists>c'. goto t ph (chan c) c = Next c' \<and> chan_inv dl N c'"
proof (rule inv_goto [OF inv t(1), of ph "chan c" "[]" ow ps])
  show "owns ow (dl (freeq (chan c))) (dl (readyq (chan c))) (cells (chan c))
      ((hold empty_hold (threads c))(t := empty_hold ph)) ((hold full_hold (threads c))(t := None))
      (rfull (rphase c)) (rempty (rphase c))"
    using own_owns [OF inv(1)] by (simp add: hold_none [OF t(1)] plain_facts [OF t(2)] plain_facts [OF t(3)])
  show "handle_ok ps (chan c) t (Some ph)"
    using handle_of [OF inv(2) t(1)] by (simp add: plain_facts [OF t(2)] plain_facts [OF t(3)])
qed (use wait_base_of [OF inv(2)] handle_of [OF inv(2) refl] in
    \<open>simp_all add: plain_facts [OF t(2)] plain_facts [OF t(3)]\<close>)

lemma inv_cancel:
  assumes inv: "own_inv dl N ow c" "wait_inv dl ps c" "log_inv dl c" "wake_inv dl c"
    and t: "threads c t = Some (Polling v)"
  shows "\<exists>c'. goto t (Unlinking (GiveUp True) v) (chan c) c = Next c' \<and> chan_inv dl N c'"
proof (rule inv_goto [OF inv t, of _ "chan c" "[]" ow ps])
  show "owns ow (dl (freeq (chan c))) (dl (readyq (chan c))) (cells (chan c))
      ((hold empty_hold (threads c))(t := empty_hold (Unlinking (GiveUp True) v)))
      ((hold full_hold (threads c))(t := None)) (rfull (rphase c)) (rempty (rphase c))"
    using own_owns [OF inv(1)] by (simp add: hold_none [OF t])
  show "handle_ok ps (chan c) t (Some (Unlinking (GiveUp True) v))"
    using handle_of [OF inv(2) t] by simp
qed (use wait_base_of [OF inv(2)] handle_of [OF inv(2) refl] in auto)

lemma inv_send_start:
  assumes inv: "own_inv dl N ow c" "wait_inv dl ps c" "log_inv dl c" "wake_inv dl c"
    and t: "threads c t = Some SIdle"
  shows "\<exists>c'. goto t (Polling v) (send_start t (chan c)) c = Next c' \<and> chan_inv dl N c'"
proof -
  let ?ch = "send_start t (chan c)"
  have ct: "cells (chan c) t = None" using handle_of [OF inv(2) t] by simp
  have ot: "obs (wait_queue (chan c)) t = None"
    using wi_live [OF wait_base_of [OF inv(2)]] ct by (metis not_None_eq prod.collapse)
  have tps: "t \<notin> set ps" using wq_rep_obs [OF wi_rep [OF wait_base_of [OF inv(2)]]] ot by force
  have W: "wq_rep (wait_queue ?ch) ps" "obs (wait_queue ?ch) = obs (wait_queue (chan c))"
    using wq_free [OF wi_rep [OF wait_base_of [OF inv(2)]] tps] ot
    by (auto simp: send_start_def fun_eq_iff)
  show ?thesis
  proof (rule inv_goto [OF inv t, of _ _ "[]" ow ps])
    show "owns ow (dl (freeq ?ch)) (dl (readyq ?ch)) (cells ?ch)
        ((hold empty_hold (threads c))(t := empty_hold (Polling v))) ((hold full_hold (threads c))(t := None))
        (rfull (rphase c)) (rempty (rphase c))"
      using owns_cell_none [OF own_owns [OF inv(1)], of t "Some None"] ct
      by (simp add: hold_none [OF t] send_start_def)
    show "wait_base dl ps ?ch"
      using wait_base_of [OF inv(2)] W ct by (auto simp: wait_base_def send_start_def)
    show "handle_ok ps ?ch t (Some (Polling v))" using W ot by (simp add: send_start_def)
    show "handle_ok ps ?ch p (threads c p)" if "p \<noteq> t" for p
      by (rule handle_ok_frame [OF handle_of [OF inv(2) refl]]) (use that W in \<open>auto simp: send_start_def\<close>)
  qed (auto simp: send_start_def)
qed

lemma inv_try_pop:
  assumes D: "deque_laws D dl N"
    and inv: "own_inv dl N ow c" "wait_inv dl ps c" "log_inv dl c" "wake_inv dl c"
    and t: "threads c t = Some (TryPop v)"
  shows "\<exists>c'. sender_step D t (TryPop v) c = Next c' \<and> chan_inv dl N c'"
proof -
  from D show ?thesis
  proof (cases rule: pop_front_cases [where q = "freeq (chan c)"])
  case (empty q')
  let ?ch = "(chan c)\<lparr>freeq := q'\<rparr>"
  have "\<exists>c'. goto t SIdle ?ch c = Next c' \<and> chan_inv dl N c'"
  proof (rule inv_goto [OF inv t, of _ _ "[]" ow ps])
    show "owns ow (dl (freeq ?ch)) (dl (readyq ?ch)) (cells ?ch)
        ((hold empty_hold (threads c))(t := empty_hold SIdle)) ((hold full_hold (threads c))(t := None))
        (rfull (rphase c)) (rempty (rphase c))"
      using own_owns [OF inv(1)] empty by (simp add: hold_none [OF t])
    show "wait_base dl ps ?ch" using wait_base_of [OF inv(2)] empty by (simp add: wait_base_def)
    show "handle_ok ps ?ch p (threads c p)" for p
      by (rule handle_ok_frame [OF handle_of [OF inv(2) refl]]) auto
  qed (use handle_of [OF inv(2) t] in auto)
  with empty show ?thesis by (simp add: sender_step_def pop_free_def)
next
  case (elem q' i F)
  let ?ch = "(chan c)\<lparr>freeq := q'\<rparr>"
  have o: "owns ow (i # F) (dl (readyq (chan c))) (cells (chan c))
     (hold empty_hold (threads c)) (hold full_hold (threads c)) (rfull (rphase c)) (rempty (rphase c))"
    using own_owns [OF inv(1)] elem by simp
  have wi: "ow i = OFree" using owns_where(1) [OF o, of i] by simp
  have ps: "ps = []" using wi_free [OF wait_base_of [OF inv(2)]] elem by auto
  have "\<exists>c'. goto t (Writing i v) ?ch c = Next c' \<and> chan_inv dl N c'"
  proof (rule inv_goto [OF inv t, of _ _ "[]" "ow(i := OWriter t)" ps])
    show "owns (ow(i := OWriter t)) (dl (freeq ?ch)) (dl (readyq ?ch)) (cells ?ch)
        ((hold empty_hold (threads c))(t := empty_hold (Writing i v))) ((hold full_hold (threads c))(t := None))
        (rfull (rphase c)) (rempty (rphase c))"
      using give_writer [OF take_free [of ow "[]", simplified, OF o], of i t] elem
      by (simp add: hold_none [OF t] hold_at [OF t])
    show "wait_base dl ps ?ch" by (rule base_freeq [OF wait_base_of [OF inv(2)]]) (simp add: ps)
    show "handle_ok ps ?ch p (threads c p)" for p
      by (rule handle_ok_frame [OF handle_of [OF inv(2) refl]]) auto
  qed (use handle_of [OF inv(2) t] wi in auto)
  with elem show ?thesis by (simp add: sender_step_def pop_free_def)
  qed
qed

text \<open>The facts about a handle's own link and cell that follow from its phase.\<close>

lemma own_link_none:
  assumes "wait_base dl ps ch" and "obs (wait_queue ch) t = None"
  shows "t \<notin> set ps" and "cells ch t \<noteq> Some (Some s)"
proof -
  show "t \<notin> set ps" using wq_rep_obs [OF wi_rep [OF assms(1)]] assms(2) by force
  show "cells ch t \<noteq> Some (Some s)" by (rule wi_no_grant [OF assms(1)]) (simp add: assms(2))
qed

lemma links_obs: "links w p = None \<longleftrightarrow> obs w p = None" "links w p = Some l \<Longrightarrow> obs w p = Some (val l, popped l)"
  by (auto simp: obs_def)

lemma base_link_free:
  assumes "wait_base dl ps ch" and "t \<notin> set ps" and "freeq ch' = freeq ch"
    and "wait_queue ch' = link_free t (wait_queue ch)"
    and "\<And>p. p \<noteq> t \<Longrightarrow> cells ch' p = cells ch p" and "\<And>s. cells ch' t \<noteq> Some (Some s)"
  shows "wait_base dl ps ch'"
proof -
  have f: "wq_rep (wait_queue ch') ps" "obs (wait_queue ch') = (obs (wait_queue ch))(t := None)"
    using wq_free [OF wi_rep [OF assms(1)] assms(2)] assms(4) by auto
  show ?thesis unfolding wait_base_def
  proof (intro conjI allI impI)
    fix p x b assume o: "obs (wait_queue ch') p = Some (x, b)"
    then have p: "p \<noteq> t" "obs (wait_queue ch) p = Some (x, b)" using f(2) by (auto split: if_splits)
    show "snd x = p" by (rule wi_addr [OF assms(1) p(2)])
    show "cells ch' p \<noteq> None" using wi_live [OF assms(1) p(2)] assms(5) [OF p(1)] by simp
    show "b \<or> p \<in> set ps" using wi_queued [OF assms(1)] p(2) by (cases b) auto
  next
    fix p s assume g: "cells ch' p = Some (Some s)"
    then have p: "p \<noteq> t" using assms(6) by auto
    with g have "cells ch p = Some (Some s)" using assms(5) by simp
    with p show "\<exists>x. obs (wait_queue ch') p = Some (x, True)" using wi_granted [OF assms(1)] f(2) by auto
  next
    show "dl (freeq ch') = []" if "ps \<noteq> []" using wi_free [OF assms(1) that] assms(3) by simp
  qed (rule f(1))
qed

lemma inv_poll:
  assumes D: "deque_laws D dl N"
    and inv: "own_inv dl N ow c" "wait_inv dl ps c" "log_inv dl c" "wake_inv dl c"
    and t: "threads c t = Some (Polling v)"
  shows "\<exists>c'. send_act D t w v c = Next c' \<and> chan_inv dl N c'"
proof -
  let ?ch = "chan c"
  note base = wait_base_of [OF inv(2)]
  have ct: "cells ?ch t \<noteq> None" and ph: "phase_ok ps ?ch t (Polling v)"
    using handle_of [OF inv(2) t] by simp_all
  have frame: "handle_ok ps' ch' p (threads c p)"
    if "p \<noteq> t" "obs (wait_queue ch') p = obs (wait_queue ?ch) p" "cells ch' p = cells ?ch p"
      "receiver_dropped ch' = receiver_dropped ?ch" "p \<in> set ps' \<longrightarrow> p \<in> set ps" for p ps' and ch'
    by (rule handle_ok_frame [OF handle_of [OF inv(2) refl]]) (use that in auto)
  have stay: "\<exists>c'. goto t ph' ?ch c = Next c' \<and> chan_inv dl N c'"
    if "empty_hold ph' = None" "full_hold ph' = None" "in_send ph'" "phase_ok ps ?ch t ph'" for ph'
  proof (rule inv_goto [OF inv t, of _ _ "[]" ow ps])
    show "owns ow (dl (freeq ?ch)) (dl (readyq ?ch)) (cells ?ch) ((hold empty_hold (threads c))(t := empty_hold ph'))
        ((hold full_hold (threads c))(t := None)) (rfull (rphase c)) (rempty (rphase c))"
      using own_owns [OF inv(1)] that by (simp add: hold_none [OF t])
    show "handle_ok ps ?ch t (Some ph')" using ct that by simp
  qed (use that base handle_of [OF inv(2) refl] in simp_all)
  show ?thesis
  proof (cases "receiver_dropped ?ch")
    case True
    have "\<exists>c'. goto t (Unlinking (GiveUp False) v) ?ch c = Next c' \<and> chan_inv dl N c'"
      by (rule stay) (use True in auto)
    with True show ?thesis by (simp add: send_act_def send_poll_cs_def sender_is_closed_def)
  next
    case False
    show ?thesis
    proof (cases "links (wait_queue ?ch) t")
      case None
      then have ot: "obs (wait_queue ?ch) t = None" by (simp add: links_obs)
      note tps = own_link_none(1) [OF base ot] and tg = own_link_none(2) [OF base ot]
      have empty: "wq_is_empty (wait_queue ?ch) \<longleftrightarrow> ps = []" by (rule wq_rep_empty [OF wi_rep [OF base]])
      show ?thesis
      proof (cases "ps \<noteq> [] \<or> dl (freeq ?ch) = []")
        case True
        with empty have g: "\<not> wq_is_empty (wait_queue ?ch) \<or> dq_is_empty D (freeq ?ch)"
          using deque_facts(2) [OF D] by simp
        from wait.enlist_rep [OF wi_rep [OF base] tps, of "(w, t)"] obtain W' where
          W': "wq_push t (link_insert t (w, t) (wait_queue ?ch)) = Some W'" "wq_rep W' (ps @ [t])"
            "obs W' = (obs (wait_queue ?ch))(t \<mapsto> ((w, t), False))"
          by (auto simp: wq_enlist_def)
        let ?c = "?ch\<lparr>wait_queue := W'\<rparr>"
        have "\<exists>c'. goto t (Polling v) ?c c = Next c' \<and> chan_inv dl N c'"
        proof (rule inv_goto [OF inv t, of _ _ "[]" ow "ps @ [t]"])
          show "owns ow (dl (freeq ?c)) (dl (readyq ?c)) (cells ?c) ((hold empty_hold (threads c))(t := empty_hold (Polling v)))
              ((hold full_hold (threads c))(t := None)) (rfull (rphase c)) (rempty (rphase c))"
            using own_owns [OF inv(1)] by (simp add: hold_none [OF t])
          have "cells ?ch t = Some None" using ct tg by (metis not_None_eq)
          then show "wait_base dl (ps @ [t]) ?c"
            using base W' True unfolding wait_base_def by (auto split: if_splits)
          show "handle_ok (ps @ [t]) ?c t (Some (Polling v))" using ct W' by simp
          show "handle_ok (ps @ [t]) ?c p (threads c p)" if "p \<noteq> t" for p
            using that W' by (intro frame) auto
        qed simp_all
        with False None g W' show ?thesis
          by (simp add: send_act_def send_poll_cs_def sender_is_closed_def Let_def)
      next
        case F: False
        with empty have g: "wq_is_empty (wait_queue ?ch)" "\<not> dq_is_empty D (freeq ?ch)"
          using deque_facts(2) [OF D] by auto
        from F pop_back_unchecked_elem [OF D, of "freeq ?ch"] obtain q' i xs where
          q: "dq_pop_back_unchecked D (freeq ?ch) = (q', i)" "dl (freeq ?ch) = xs @ [i]" "dl q' = xs" by blast
        let ?c = "?ch\<lparr>freeq := q'\<rparr>"
        have o: "owns ow (xs @ [i]) (dl (readyq ?ch)) (cells ?ch)
          (hold empty_hold (threads c)) (hold full_hold (threads c)) (rfull (rphase c)) (rempty (rphase c))"
          using own_owns [OF inv(1)] q by simp
        have wi: "ow i = OFree" using owns_where(1) [OF o, of i] by simp
        have "\<exists>c'. goto t (Unlinking (Deliver i) v) ?c c = Next c' \<and> chan_inv dl N c'"
        proof (rule inv_goto [OF inv t, of _ _ "[]" "ow(i := OWriter t)" ps])
          show "owns (ow(i := OWriter t)) (dl (freeq ?c)) (dl (readyq ?c)) (cells ?c)
              ((hold empty_hold (threads c))(t := empty_hold (Unlinking (Deliver i) v)))
              ((hold full_hold (threads c))(t := None)) (rfull (rphase c)) (rempty (rphase c))"
            using give_writer [OF take_free [of ow xs i "[]", simplified, OF o], of i t] q
            by (simp add: hold_none [OF t] hold_at [OF t])
          show "wait_base dl ps ?c" by (rule base_freeq [OF base]) (use F in simp)
          show "handle_ok ps ?c t (Some (Unlinking (Deliver i) v))" using ct ot by simp
          show "handle_ok ps ?c p (threads c p)" if "p \<noteq> t" for p
            using that by (intro frame) auto
        qed (use wi in auto)
        with False None g q show ?thesis
          by (simp add: send_act_def send_poll_cs_def sender_is_closed_def Let_def)
      qed
    next
      case (Some l)
      then have ot: "obs (wait_queue ?ch) t = Some (val l, popped l)" by (rule links_obs)
      show ?thesis
      proof (cases "popped l")
        case False: False
        have "\<exists>c'. goto t (Polling v) ?ch c = Next c' \<and> chan_inv dl N c'"
          by (rule stay) (use ph in auto)
        with \<open>\<not> receiver_dropped ?ch\<close> Some False show ?thesis
          by (simp add: send_act_def send_poll_cs_def sender_is_closed_def Let_def)
      next
        case True
        with ph False ot ct obtain i where i: "cells ?ch t = Some (Some i)" by auto
        have "t \<notin> set ps" using wq_rep_obs [OF wi_rep [OF base], of t] ot True by auto
        let ?c = "?ch\<lparr>cells := (cells ?ch)(t \<mapsto> None), wait_queue := link_free t (wait_queue ?ch)\<rparr>"
        have W: "wq_rep (link_free t (wait_queue ?ch)) ps"
          "obs (link_free t (wait_queue ?ch)) = (obs (wait_queue ?ch))(t := None)"
          using wq_free [OF wi_rep [OF base] \<open>t \<notin> set ps\<close>] by auto
        have "\<exists>c'. goto t (Unlinking (Deliver i) v) ?c c = Next c' \<and> chan_inv dl N c'"
        proof (rule inv_goto [OF inv t, of _ _ "[]" "ow(i := OWriter t)" ps])
          show "owns (ow(i := OWriter t)) (dl (freeq ?c)) (dl (readyq ?c)) (cells ?c)
              ((hold empty_hold (threads c))(t := empty_hold (Unlinking (Deliver i) v)))
              ((hold full_hold (threads c))(t := None)) (rfull (rphase c)) (rempty (rphase c))"
            using give_writer [OF take_grant [OF own_owns [OF inv(1)] i], of i t]
            by (simp add: hold_none [OF t] hold_at [OF t])
          show "wait_base dl ps ?c" by (rule base_link_free [OF base \<open>t \<notin> set ps\<close>]) auto
          show "handle_ok ps ?c t (Some (Unlinking (Deliver i) v))" using W by simp
          show "handle_ok ps ?c p (threads c p)" if "p \<noteq> t" for p
            using that W by (intro frame) auto
          have "ow i = OGrant t" using owns_where(5) [OF own_owns [OF inv(1)]] i by blast
          then show "(ow(i := OWriter t)) j = OLost \<longleftrightarrow> ow j = OLost"
            "full ((ow(i := OWriter t)) j) = full (ow j)" for j by auto
        qed simp_all
        with False Some True i show ?thesis
          by (simp add: send_act_def send_poll_cs_def sender_is_closed_def Let_def)
      qed
    qed
  qed
qed

text \<open>The drop guard: the link leaves the queue, then an unused grant is taken back.\<close>

lemma dropper_take_cases:
  assumes base: "wait_base dl ps ch" and ct: "cells ch t \<noteq> None"
  obtains W' where "dropper_take t ch = Some (ch\<lparr>wait_queue := W', cells := (cells ch)(t \<mapsto> None)\<rparr>, the (cells ch t))"
    "wq_rep W' (List.filter (\<lambda>p. p \<noteq> t) ps)" "\<And>p. p \<noteq> t \<Longrightarrow> obs W' p = obs (wait_queue ch) p"
    "obs W' t = map_option (\<lambda>(x, b). (x, True)) (obs (wait_queue ch) t)"
proof (cases "links (wait_queue ch) t")
  case None
  then have ot: "obs (wait_queue ch) t = None" by (simp add: links_obs)
  have f: "List.filter (\<lambda>p. p \<noteq> t) ps = ps" using own_link_none(1) [OF base ot] by simp
  have "dropper_take t ch = Some (ch\<lparr>wait_queue := wait_queue ch, cells := (cells ch)(t \<mapsto> None)\<rparr>, the (cells ch t))"
    using None ct by (auto simp: dropper_take_def)
  with that [of "wait_queue ch"] ot f wi_rep [OF base] show ?thesis by simp
next
  case (Some l)
  then have ot: "obs (wait_queue ch) t = Some (val l, popped l)" by (rule links_obs)
  have "\<exists>W'. wq_remove t (wait_queue ch) = Some W' \<and> wq_rep W' (List.filter (\<lambda>p. p \<noteq> t) ps) \<and>
      obs W' = (obs (wait_queue ch))(t \<mapsto> (val l, True))"
  proof (cases "t \<in> set ps")
    case True
    then obtain as bs where ps: "ps = as @ t # bs" by (auto simp: in_set_conv_decomp)
    have d: "t \<notin> set as" "t \<notin> set bs" using wq_rep_distinct [OF wi_rep [OF base]] by (auto simp: ps)
    then have f: "List.filter (\<lambda>p. p \<noteq> t) ps = as @ bs" by (simp add: ps)
    from wait.remove_member [of "wait_queue ch" as t bs] wi_rep [OF base] obtain W' v where
      W': "wq_remove t (wait_queue ch) = Some W'" "wq_rep W' (as @ bs)"
        "obs (wait_queue ch) t = Some (v, False)" "obs W' = (obs (wait_queue ch))(t \<mapsto> (v, True))"
      by (auto simp: ps)
    with ot f show ?thesis by simp
  next
    case False
    then have p: "popped l" using wi_queued [OF base, of t "val l"] ot by (cases "popped l") auto
    then have "wq_remove t (wait_queue ch) = Some (wait_queue ch)" using ot by (intro wq_remove_popped) simp
    with p ot False wi_rep [OF base] show ?thesis by (auto simp: fun_eq_iff)
  qed
  then obtain W' where W': "wq_remove t (wait_queue ch) = Some W'"
    "wq_rep W' (List.filter (\<lambda>p. p \<noteq> t) ps)" "obs W' = (obs (wait_queue ch))(t \<mapsto> (val l, True))" by blast
  have "dropper_take t ch = Some (ch\<lparr>wait_queue := W', cells := (cells ch)(t \<mapsto> None)\<rparr>, the (cells ch t))"
    using Some W'(1) ct by (auto simp: dropper_take_def)
  with that W' ot show ?thesis by simp
qed

lemma base_dropper_take:
  assumes base: "wait_base dl ps ch" and ct: "cells ch t \<noteq> None"
    and W': "wq_rep W' (List.filter (\<lambda>p. p \<noteq> t) ps)" "\<And>p. p \<noteq> t \<Longrightarrow> obs W' p = obs (wait_queue ch) p"
      "obs W' t = map_option (\<lambda>(x, b). (x, True)) (obs (wait_queue ch) t)"
  shows "wait_base dl (List.filter (\<lambda>p. p \<noteq> t) ps) (ch\<lparr>wait_queue := W', cells := (cells ch)(t \<mapsto> None)\<rparr>)"
    (is "wait_base dl ?ps ?ch")
  unfolding wait_base_def
proof (intro conjI allI impI)
  show "wq_rep (wait_queue ?ch) ?ps" using W'(1) by simp
  fix p x b assume o: "obs (wait_queue ?ch) p = Some (x, b)"
  have o': "\<exists>b'. obs (wait_queue ch) p = Some (x, b') \<and> (p \<noteq> t \<longrightarrow> b' = b) \<and> (p = t \<longrightarrow> b)"
    using o W'(2,3) by (cases "p = t") auto
  then obtain b' where b': "obs (wait_queue ch) p = Some (x, b')" "p \<noteq> t \<Longrightarrow> b' = b" "p = t \<Longrightarrow> b" by blast
  show "snd x = p" by (rule wi_addr [OF base b'(1)])
  show "cells ?ch p \<noteq> None" using wi_live [OF base b'(1)] by simp
  show "b \<or> p \<in> set ?ps"
  proof (cases "p = t")
    case False
    with b' show ?thesis using wi_queued [OF base] by (cases b) auto
  qed (use b' in simp)
next
  fix p s assume "cells ?ch p = Some (Some s)"
  then have p: "p \<noteq> t" "cells ch p = Some (Some s)" by (auto split: if_splits)
  then show "\<exists>x. obs (wait_queue ?ch) p = Some (x, True)" using wi_granted [OF base p(2)] W'(2) by simp
next
  assume "?ps \<noteq> []"
  then have "ps \<noteq> []" by auto
  then show "dl (freeq ?ch) = []" using wi_free [OF base] by simp
qed

text \<open>The end of the drop guard, with the slot to deliver in (if any) still held.\<close>

lemma inv_unlink:
  assumes inv: "own_inv dl N ow c" "wait_inv dl ps c" "log_inv dl c" "wake_inv dl c"
    and t: "threads c t = Some (Unlinking a v)"
  shows "\<exists>c'. sender_step D t (Unlinking a v) c = Next c' \<and> chan_inv dl N c'"
proof -
  let ?ch = "chan c"
  let ?ps = "List.filter (\<lambda>p. p \<noteq> t) ps"
  note base = wait_base_of [OF inv(2)]
  have ct: "cells ?ch t \<noteq> None" and ph: "phase_ok ps ?ch t (Unlinking a v)"
    using handle_of [OF inv(2) t] by simp_all
  from dropper_take_cases [OF base ct] obtain W' where
    dt: "dropper_take t ?ch = Some (?ch\<lparr>wait_queue := W', cells := (cells ?ch)(t \<mapsto> None)\<rparr>, the (cells ?ch t))" and
    W': "wq_rep W' ?ps" "\<And>p. p \<noteq> t \<Longrightarrow> obs W' p = obs (wait_queue ?ch) p"
      "obs W' t = map_option (\<lambda>(x, b). (x, True)) (obs (wait_queue ?ch) t)" by metis
  let ?c1 = "?ch\<lparr>wait_queue := W', cells := (cells ?ch)(t \<mapsto> None)\<rparr>"
  note base1 = base_dropper_take [OF base ct W']
  have frame: "handle_ok ?ps ch' p (threads c p)"
    if "p \<noteq> t" "obs (wait_queue ch') p = obs (wait_queue ?ch) p" "cells ch' p = cells ?ch p"
      "receiver_dropped ch' = receiver_dropped ?ch" for p and ch'
    by (rule handle_ok_frame [OF handle_of [OF inv(2) refl]]) (use that in auto)
  show ?thesis
  proof (cases "the (cells ?ch t)")
    case None
    let ?ph = "case a of Deliver s \<Rightarrow> Writing s v | GiveUp _ \<Rightarrow> SIdle"
    let ?c2 = "send_end t ?c1"
    have eh: "empty_hold ?ph = empty_hold (Unlinking a v)" "full_hold ?ph = None" "\<not> in_send ?ph"
      "phase_ok ?ps ?c2 t ?ph" by (cases a; simp)+
    have c1: "cells ?ch t = Some None" using ct None by auto
    have W2: "obs (wait_queue ?c2) = (obs W')(t := None)"
      using wq_free [OF W'(1), of t] by (simp add: send_end_def)
    have "\<exists>c'. goto t ?ph ?c2 c = Next c' \<and> chan_inv dl N c'"
    proof (rule inv_goto [OF inv t, of _ _ "[]" ow ?ps])
      have "owns ow (dl (freeq ?ch)) (dl (readyq ?ch)) ((cells ?ch)(t := None))
          (hold empty_hold (threads c)) (hold full_hold (threads c)) (rfull (rphase c)) (rempty (rphase c))"
        by (rule owns_cell_none [OF own_owns [OF inv(1)]]) (use c1 in auto)
      then show "owns ow (dl (freeq ?c2)) (dl (readyq ?c2)) (cells ?c2) ((hold empty_hold (threads c))(t := empty_hold ?ph))
          ((hold full_hold (threads c))(t := None)) (rfull (rphase c)) (rempty (rphase c))"
        using eh hold_at [OF t, of empty_hold] by (simp add: hold_none [OF t] send_end_def fun_upd_idem)
      show "wait_base dl ?ps ?c2"
        by (rule base_link_free [OF base1, of t]) (auto simp: send_end_def)
      show "handle_ok ?ps ?c2 t (Some ?ph)" using eh by (simp add: send_end_def)
      show "handle_ok ?ps ?c2 p (threads c p)" if "p \<noteq> t" for p
        using that W2 W'(2) by (intro frame) (auto simp: send_end_def)
    qed (use eh in \<open>simp_all add: send_end_def\<close>)
    with dt None show ?thesis by (simp add: sender_step_def conclude_def)
  next
    case (Some s)
    have c1: "cells ?ch t = Some (Some s)" using ct Some by auto
    have "obs (wait_queue ?ch) t \<noteq> None" using wi_granted [OF base c1] by auto
    with ph obtain b where a: "a = GiveUp b" by (cases a) auto
    have "\<exists>c'. goto t (Returning s a v) ?c1 c = Next c' \<and> chan_inv dl N c'"
    proof (rule inv_goto [OF inv t, of _ _ "[]" "ow(s := OWriter t)" ?ps])
      show "owns (ow(s := OWriter t)) (dl (freeq ?c1)) (dl (readyq ?c1)) (cells ?c1)
          ((hold empty_hold (threads c))(t := empty_hold (Returning s a v)))
          ((hold full_hold (threads c))(t := None)) (rfull (rphase c)) (rempty (rphase c))"
        using give_writer [OF take_grant [OF own_owns [OF inv(1)] c1], of s t] a
        by (simp add: hold_none [OF t] hold_at [OF t])
      show "handle_ok ?ps ?c1 t (Some (Returning s a v))" using ph a by simp
      show "handle_ok ?ps ?c1 p (threads c p)" if "p \<noteq> t" for p
        using that W'(2) by (intro frame) auto
      have "ow s = OGrant t" using owns_where(5) [OF own_owns [OF inv(1)]] c1 by blast
      then show "(ow(s := OWriter t)) j = OLost \<longleftrightarrow> ow j = OLost"
        "full ((ow(s := OWriter t)) j) = full (ow j)" for j by auto
    qed (use base1 in simp_all)
    with dt Some show ?thesis by (simp add: sender_step_def)
  qed
qed

lemma base_grant:
  assumes base: "wait_base dl (p # qs) ch" and o: "obs (wait_queue ch) p = Some ((wk, p), False)"
    and W': "wq_rep W' qs" "obs W' = (obs (wait_queue ch))(p \<mapsto> ((wk, p), True))"
  shows "wait_base dl qs (ch\<lparr>wait_queue := W', cells := (cells ch)(p \<mapsto> Some s), woken := ws\<rparr>)"
    (is "wait_base dl qs ?ch")
  unfolding wait_base_def
proof (intro conjI allI impI)
  show "wq_rep (wait_queue ?ch) qs" using W'(1) by simp
  fix r x b assume r: "obs (wait_queue ?ch) r = Some (x, b)"
  show "snd x = r" using r W'(2) wi_addr [OF base, of r] by (auto split: if_splits)
  show "cells ?ch r \<noteq> None" using r W'(2) wi_live [OF base, of r] by (auto split: if_splits)
  show "b \<or> r \<in> set qs"
  proof (cases "r = p")
    case True
    with r W'(2) show ?thesis by simp
  next
    case False
    with r W'(2) wi_queued [OF base, of r x] show ?thesis by (cases b) auto
  qed
next
  fix r s' assume "cells ?ch r = Some (Some s')"
  then show "\<exists>x. obs (wait_queue ?ch) r = Some (x, True)"
    using wi_granted [OF base, of r s'] W'(2) by (cases "r = p") auto
next
  show "dl (freeq ?ch) = []" using wi_free [OF base] by simp
qed

lemma inv_return:
  assumes D: "deque_laws D dl N"
    and inv: "own_inv dl N ow c" "wait_inv dl ps c" "log_inv dl c" "wake_inv dl c"
    and t: "threads c t = Some (Returning s a v)"
  shows "\<exists>c'. sender_step D t (Returning s a v) c = Next c' \<and> chan_inv dl N c'"
proof -
  let ?ch = "chan c"
  note base = wait_base_of [OF inv(2)] and o = own_owns [OF inv(1)]
  have ph: "phase_ok ps ?ch t (Returning s a v)" using handle_of [OF inv(2) t] by simp
  then obtain b where a: "a = GiveUp b" by (cases a) auto
  with ph have tps: "t \<notin> set ps" and ct: "cells ?ch t = Some None" by auto
  have ws: "ow s = OWriter t" using owns_where(6) [OF o, of t s] t by (simp add: hold_def)
  then have sN: "s < N" by (intro own_range [OF inv(1)]) simp
  have room: "length (dl (freeq ?ch)) < N" by (rule free_room [OF inv(1) sN]) (simp add: ws)
  have h: "hold empty_hold (threads c) t = Some s" using hold_at [OF t, of empty_hold] by simp
  have frame: "handle_ok ps' ch' p (threads c p)"
    if "obs (wait_queue ch') p = obs (wait_queue ?ch) p" "cells ch' p = cells ?ch p"
      "receiver_dropped ch' = receiver_dropped ?ch" "p \<in> set ps' \<longrightarrow> p \<in> set ps" for p ps' and ch'
    by (rule handle_ok_frame [OF handle_of [OF inv(2) refl]]) (use that in auto)
  from D base room show ?thesis
  proof (cases rule: return_free_slot_cases [where s = s])
    case (queue q')
    let ?c1 = "?ch\<lparr>freeq := q'\<rparr>"
    let ?c2 = "send_end t ?c1"
    have W: "obs (wait_queue ?c2) = (obs (wait_queue ?ch))(t := None)"
      using wq_free [OF wi_rep [OF base] tps] by (simp add: send_end_def)
    have "\<exists>c'. goto t SIdle ?c2 c = Next c' \<and> chan_inv dl N c'"
    proof (rule inv_goto [OF inv t, of _ _ "[]" "ow(s := OFree)" ps])
      have "owns (ow(s := OFree)) (dl q') (dl (readyq ?ch)) ((cells ?ch)(t := None))
          ((hold empty_hold (threads c))(t := None)) (hold full_hold (threads c)) (rfull (rphase c)) (rempty (rphase c))"
        using owns_cell_none [OF give_free [OF take_writer [OF o h], of s], of t None] ct queue(2) by simp
      then show "owns (ow(s := OFree)) (dl (freeq ?c2)) (dl (readyq ?c2)) (cells ?c2)
          ((hold empty_hold (threads c))(t := empty_hold SIdle)) ((hold full_hold (threads c))(t := None))
          (rfull (rphase c)) (rempty (rphase c))"
        by (simp add: hold_none [OF t] send_end_def)
      have "wait_base dl ps ?c1" by (rule base_freeq [OF base]) (simp add: queue)
      then show "wait_base dl ps ?c2" by (rule base_link_free [OF _ tps]) (auto simp: send_end_def)
      show "handle_ok ps ?c2 t (Some SIdle)" by (simp add: send_end_def)
      show "handle_ok ps ?c2 p (threads c p)" if "p \<noteq> t" for p
        using that W by (intro frame) (auto simp: send_end_def)
    qed (use ws in \<open>auto simp: send_end_def\<close>)
    with queue a show ?thesis by (simp add: sender_step_def conclude_def)
  next
    case (sender p qs W' wk)
    have pt: "p \<noteq> t" using tps sender(1) by auto
    let ?c1 = "?ch\<lparr>wait_queue := W', cells := (cells ?ch)(p \<mapsto> Some s), woken := woken ?ch @ [wk]\<rparr>"
    let ?c2 = "send_end t ?c1"
    have W: "obs (wait_queue ?c2) = (obs (wait_queue ?ch))(p \<mapsto> ((wk, p), True), t := None)"
      using wq_free [OF sender(5), of t] tps sender(1,7) by (simp add: send_end_def)
    have "\<exists>c'. goto t SIdle ?c2 c = Next c' \<and> chan_inv dl N c'"
    proof (rule inv_goto [OF inv t, of _ _ "[wk]" "ow(s := OGrant p)" qs])
      have "owns (ow(s := OGrant p)) (dl (freeq ?ch)) (dl (readyq ?ch)) ((cells ?ch)(p \<mapsto> Some s, t := None))
          ((hold empty_hold (threads c))(t := None)) (hold full_hold (threads c)) (rfull (rphase c)) (rempty (rphase c))"
        using owns_cell_none [OF give_grant [OF take_writer [OF o h], of s p], of t None] ct pt sender(3) by simp
      then show "owns (ow(s := OGrant p)) (dl (freeq ?c2)) (dl (readyq ?c2)) (cells ?c2)
          ((hold empty_hold (threads c))(t := empty_hold SIdle)) ((hold full_hold (threads c))(t := None))
          (rfull (rphase c)) (rempty (rphase c))"
        by (simp add: hold_none [OF t] send_end_def)
      have "wait_base dl qs ?c1" using base_grant [OF _ sender(4,5,7)] base sender(1) by simp
      then show "wait_base dl qs ?c2"
        by (rule base_link_free) (use tps sender(1) in \<open>auto simp: send_end_def\<close>)
      show "handle_ok qs ?c2 t (Some SIdle)" by (simp add: send_end_def)
      show "handle_ok qs ?c2 r (threads c r)" if "r \<noteq> t" for r
      proof (cases "r = p")
        case True
        have "handle_ok ps ?ch p (threads c p)" by (rule handle_of [OF inv(2) refl])
        moreover have "handle_ok qs ?c2 p x" if "handle_ok ps ?ch p x" for x
        proof (cases x)
          case None
          with that sender(3) show ?thesis by simp
        next
          case (Some phx)
          have "phase_ok ps ?ch p phx \<Longrightarrow> phase_ok qs ?c2 p phx"
            using W pt sender(1,4) by (induction ps ?ch p phx rule: phase_ok.induct) (auto simp: send_end_def)
          with that Some sender(3) pt show ?thesis by (auto simp: send_end_def)
        qed
        ultimately show ?thesis using True by simp
      next
        case False
        then show ?thesis using that W sender(1) by (intro frame) (auto simp: send_end_def)
      qed
    qed (use ws in \<open>auto simp: send_end_def\<close>)
    with sender a show ?thesis by (simp add: sender_step_def conclude_def)
  qed
qed

end
