(* ===== verification/Channel_Safe.thy ===== *)
theory Channel_Safe
  imports Channel_Steps
begin

text \<open>
  The remaining actions: the sender's delivery, clones and drops of handles, and the receiver.  Then
  every run of the channel is free of undefined behaviour and keeps the invariant, and the properties
  of the channel follow from the groups of the invariant.
\<close>

section \<open>Delivery\<close>

lemma inv_write:
  assumes inv: "own_inv dl N ow c" "wait_inv dl ps c" "log_inv dl c" "wake_inv dl c"
    and t: "threads c t = Some (Writing i v)"
  shows "\<exists>c'. sender_step D t (Writing i v) c = Next c' \<and> chan_inv dl N c'"
proof -
  let ?ch = "chan c"
  note o = own_owns [OF inv(1)]
  have h: "hold empty_hold (threads c) t = Some i" "hold full_hold (threads c) t = None"
    using hold_at [OF t, of empty_hold] hold_at [OF t, of full_hold] by simp_all
  have wi: "ow i = OWriter t" using owns_where(6) [OF o, of t i] h by simp
  then have iN: "i < N" by (intro own_range [OF inv(1)]) simp
  let ?c1 = "?ch\<lparr>slots := (slots ?ch)[i := Some v]\<rparr>"
  let ?c = "c\<lparr>chan := ?c1, threads := (threads c)(t \<mapsto> Pushing i v)\<rparr>"
  let ?ow = "ow(i := OPusher t)"
  have "own_inv dl N ?ow ?c"
  proof (rule own_invI)
    show "owns ?ow (dl (freeq (chan ?c))) (dl (readyq (chan ?c))) (cells (chan ?c))
       (hold empty_hold (threads ?c)) (hold full_hold (threads ?c)) (rfull (rphase ?c)) (rempty (rphase ?c))"
      using give_pusher [OF take_writer [OF o h(1)], of i t] h by simp
    show "length (slots (chan ?c)) = N" using oi_len [OF inv(1)] by simp
    show "receiver_dropped (chan ?c) \<longleftrightarrow> leaving (rphase ?c)" using oi_leaving [OF inv(1)] by simp
    fix j
    show "N \<le> j \<Longrightarrow> ?ow j = OLost" using oi_lost [OF inv(1), of j] iN by auto
    show "\<not> receiver_dropped (chan ?c) \<Longrightarrow> j < N \<Longrightarrow> ?ow j \<noteq> OLost" using oi_alive [OF inv(1), of j] by auto
    show "j < N \<Longrightarrow> slots (chan ?c) ! j \<noteq> None \<longleftrightarrow> full (?ow j)"
      using oi_full [OF inv(1), of j] oi_len [OF inv(1)] by (cases "j = i") auto
  qed
  moreover have "wait_inv dl ps ?c"
  proof (rule wait_inv_goto [OF inv(2)])
    show "wait_base dl ps ?c1" using wait_base_of [OF inv(2)] by (simp add: wait_base_def)
    show "handle_ok ps ?c1 t (Some (Pushing i v))" using handle_of [OF inv(2) t] by simp
  qed auto
  moreover have "log_inv dl ?c"
  proof -
    have r: "i \<notin> set (dl (readyq ?ch))" using owns_where(2) [OF o, of i] wi by simp
    then have mr: "map (\<lambda>j. the ((slots ?ch)[i := Some v] ! j)) (dl (readyq ?ch)) = map (\<lambda>j. the (slots ?ch ! j)) (dl (readyq ?ch))"
      by (intro map_cong refl) (metis nth_list_update_neq)
    have rr: "(case rphase c of RReading j \<Rightarrow> [j] | _ \<Rightarrow> []) = [j] \<Longrightarrow> j \<noteq> i" for j
      using owns_where(3) [OF o, of i] wi by (auto split: rphase.splits)
    have mm: "map (\<lambda>j. the ((slots ?ch)[i := Some v] ! j)) (case rphase c of RReading j \<Rightarrow> [j] | _ \<Rightarrow> [])
        = map (\<lambda>j. the (slots ?ch ! j)) (case rphase c of RReading j \<Rightarrow> [j] | _ \<Rightarrow> [])"
      using rr by (cases "rphase c") (auto simp: nth_list_update_neq)
    have pp: "(slots ?ch)[i := Some v] ! j = Some u" if "((threads c)(t \<mapsto> Pushing i v)) q = Some (Pushing j u)" for q j u
    proof (cases "q = t")
      case True
      with that iN oi_len [OF inv(1)] show ?thesis by simp
    next
      case False
      with that have q: "threads c q = Some (Pushing j u)" by simp
      then have "hold full_hold (threads c) q = Some j" using hold_at [OF q, of full_hold] by simp
      then have "j \<noteq> i" using owns_where(7) [OF o, of q j] wi by auto
      moreover have "slots ?ch ! j = Some u" using inv(3) q by (auto simp: log_inv_def Let_def)
      ultimately show ?thesis by (simp add: nth_list_update_neq)
    qed
    show ?thesis using inv(3) mr mm pp unfolding log_inv_def Let_def by simp
  qed
  moreover have "wake_inv dl (c\<lparr>chan := ?c1, threads := (threads c)(t \<mapsto> Pushing i v), sent := sent c\<rparr>)"
    by (rule wake_inv_goto [OF inv(4) t, where ws = "[]"]) auto
  ultimately have "chan_inv dl N ?c" unfolding chan_inv_def by auto
  then show ?thesis using iN oi_len [OF inv(1)] by (simp add: sender_step_def write_slot_def goto_def Let_def)
qed

lemma inv_push:
  assumes D: "deque_laws D dl N"
    and inv: "own_inv dl N ow c" "wait_inv dl ps c" "log_inv dl c" "wake_inv dl c"
    and t: "threads c t = Some (Pushing i v)"
  shows "\<exists>c'. sender_step D t (Pushing i v) c = Next c' \<and> chan_inv dl N c'"
proof -
  let ?ch = "chan c"
  note o = own_owns [OF inv(1)]
  have h: "hold full_hold (threads c) t = Some i" using hold_at [OF t, of full_hold] by simp
  have wi: "ow i = OPusher t" using owns_where(7) [OF o, of t i] h by simp
  then have iN: "i < N" by (intro own_range [OF inv(1)]) simp
  have room: "length (dl (readyq ?ch)) < N" by (rule ready_room [OF inv(1) iN]) (simp add: wi)
  let ?c1 = "push_ready D i ?ch"
  have rq: "dl (readyq ?c1) = dl (readyq ?ch) @ [i]" using deque_facts(4) [OF D room] by (simp add: push_ready_def)
  have fr: "freeq ?c1 = freeq ?ch" "cells ?c1 = cells ?ch" "slots ?c1 = slots ?ch" "wait_queue ?c1 = wait_queue ?ch"
    "receiver_dropped ?c1 = receiver_dropped ?ch" "receiver_waker ?c1 = receiver_waker ?ch"
    "woken ?c1 = woken ?ch" "num_senders ?c1 = num_senders ?ch"
    by (simp_all add: push_ready_def)
  let ?c = "c\<lparr>chan := ?c1, threads := (threads c)(t \<mapsto> Waking), sent := sent c @ [v]\<rparr>"
  let ?ow = "ow(i := OReady)"
  have "own_inv dl N ?ow ?c"
  proof (rule own_invI)
    show "owns ?ow (dl (freeq (chan ?c))) (dl (readyq (chan ?c))) (cells (chan ?c))
       (hold empty_hold (threads ?c)) (hold full_hold (threads ?c)) (rfull (rphase ?c)) (rempty (rphase ?c))"
      using give_ready [OF take_pusher [OF o h], of i] rq fr by (simp add: hold_none [OF t])
    show "length (slots (chan ?c)) = N" using oi_len [OF inv(1)] fr by simp
    show "receiver_dropped (chan ?c) \<longleftrightarrow> leaving (rphase ?c)" using oi_leaving [OF inv(1)] fr by simp
    fix j
    show "N \<le> j \<Longrightarrow> ?ow j = OLost" using oi_lost [OF inv(1), of j] iN by auto
    show "\<not> receiver_dropped (chan ?c) \<Longrightarrow> j < N \<Longrightarrow> ?ow j \<noteq> OLost" using oi_alive [OF inv(1), of j] fr by auto
    show "j < N \<Longrightarrow> slots (chan ?c) ! j \<noteq> None \<longleftrightarrow> full (?ow j)"
      using oi_full [OF inv(1), of j] fr wi by (cases "j = i") auto
  qed
  moreover have "wait_inv dl ps ?c"
  proof -
    have "wait_inv dl ps (c\<lparr>chan := ?c1, threads := (threads c)(t \<mapsto> Waking)\<rparr>)"
    proof (rule wait_inv_goto [OF inv(2)])
      show "wait_base dl ps ?c1" using wait_base_of [OF inv(2)] by (simp add: wait_base_def fr)
      show "handle_ok ps ?c1 t (Some Waking)" using handle_of [OF inv(2) t] by (simp add: fr)
    qed (auto simp: fr)
    then show ?thesis by (simp add: wait_inv_def)
  qed
  moreover have "log_inv dl ?c"
    using inv(3) t rq fr unfolding log_inv_def Let_def by (auto simp: prefix_def)
  moreover have "wake_inv dl ?c"
    by (rule wake_inv_goto [OF inv(4) t, where ws = "[]"]) (auto simp: fr)
  ultimately have "chan_inv dl N ?c" unfolding chan_inv_def by blast
  moreover have "sender_step D t (Pushing i v) c = Next ?c"
    by (cases c) (simp add: sender_step_def goto_def Let_def)
  ultimately show ?thesis by blast
qed

lemma wake_receiver_simps [simp]:
  "freeq (wake_receiver ch) = freeq ch" "readyq (wake_receiver ch) = readyq ch"
  "slots (wake_receiver ch) = slots ch" "wait_queue (wake_receiver ch) = wait_queue ch"
  "receiver_dropped (wake_receiver ch) = receiver_dropped ch" "cells (wake_receiver ch) = cells ch"
  "num_senders (wake_receiver ch) = num_senders ch" "receiver_waker (wake_receiver ch) = None"
  "woken (wake_receiver ch) = woken ch @ (case receiver_waker ch of None \<Rightarrow> [] | Some w \<Rightarrow> [w])"
  by (simp_all add: wake_receiver_def split: option.split)

text \<open>Handles whose own phase, links and cells stay as they are.\<close>

lemma wait_inv_same:
  assumes "wait_inv dl ps c" and "threads c' = threads c" and "wait_queue (chan c') = wait_queue (chan c)"
    and "cells (chan c') = cells (chan c)" and "dl (freeq (chan c')) = dl (freeq (chan c))"
    and "receiver_dropped (chan c) \<Longrightarrow> receiver_dropped (chan c')"
  shows "wait_inv dl ps c'"
proof (rule wait_invI)
  show "wait_base dl ps (chan c')"
    using wait_base_of [OF assms(1)] assms(3-5) by (simp add: wait_base_def)
  show "handle_ok ps (chan c') p (threads c' p)" for p
    by (rule handle_ok_frame [OF handle_of [OF assms(1)]]) (use assms in auto)
qed

lemma own_inv_same:
  assumes "own_inv dl N ow c" and "hold empty_hold (threads c') = hold empty_hold (threads c)"
    and "hold full_hold (threads c') = hold full_hold (threads c)" and "rfull (rphase c') = rfull (rphase c)"
    and "rempty (rphase c') = rempty (rphase c)" and "slots (chan c') = slots (chan c)"
    and "cells (chan c') = cells (chan c)" and "dl (freeq (chan c')) = dl (freeq (chan c))"
    and "dl (readyq (chan c')) = dl (readyq (chan c))"
    and "receiver_dropped (chan c') = receiver_dropped (chan c)"
    and "leaving (rphase c') = leaving (rphase c)"
  shows "own_inv dl N ow c'"
  using assms by (simp add: own_inv_def)

lemma wake_inv_wake:
  assumes "wake_inv dl c" and "receiver_waker (chan c') = None"
    and "woken (chan c') = woken (chan c) @ (case receiver_waker (chan c) of None \<Rightarrow> [] | Some w \<Rightarrow> [w])"
    and "num_senders (chan c') = num_senders (chan c)" and "dom (threads c') = dom (threads c)"
    and "rphase c' = rphase c"
  shows "wake_inv dl c'"
proof -
  have "w \<in> set (drop k (woken (chan c'))) \<and> k \<le> length (woken (chan c'))"
    if "k \<le> length (woken (chan c))" "receiver_waker (chan c) = Some w \<or> w \<in> set (drop k (woken (chan c)))" for w k
    using that assms(3) by (auto split: option.split)
  with assms show ?thesis unfolding wake_inv_def Let_def by auto
qed

lemma inv_waking:
  assumes inv: "own_inv dl N ow c" "wait_inv dl ps c" "log_inv dl c" "wake_inv dl c"
    and t: "threads c t = Some Waking"
  shows "\<exists>c'. sender_step D t Waking c = Next c' \<and> chan_inv dl N c'"
proof -
  let ?c = "c\<lparr>chan := wake_receiver (chan c), threads := (threads c)(t \<mapsto> SIdle)\<rparr>"
  have "own_inv dl N ow ?c"
    by (rule own_inv_same [OF inv(1)]) (simp_all add: hold_none [OF t])
  moreover have "wait_inv dl ps ?c"
  proof (rule wait_inv_goto [OF inv(2)])
    show "wait_base dl ps (wake_receiver (chan c))" using wait_base_of [OF inv(2)] by (simp add: wait_base_def)
    show "handle_ok ps (wake_receiver (chan c)) t (Some SIdle)" using handle_of [OF inv(2) t] by simp
  qed auto
  moreover have "log_inv dl ?c" by (rule log_inv_goto [OF inv(3)]) auto
  moreover have "wake_inv dl ?c"
    by (rule wake_inv_wake [OF inv(4)]) (use t in auto)
  ultimately have "chan_inv dl N ?c" unfolding chan_inv_def by blast
  then show ?thesis by (simp add: sender_step_def goto_def Let_def)
qed

lemma inv_drop_wake:
  assumes inv: "own_inv dl N ow c" "wait_inv dl ps c" "log_inv dl c" "wake_inv dl c"
  shows "chan_inv dl N (c\<lparr>chan := wake_receiver (chan c), drop_wakes := n\<rparr>)" (is "chan_inv dl N ?c")
proof -
  have "own_inv dl N ow ?c" by (rule own_inv_same [OF inv(1)]) simp_all
  moreover have "wait_inv dl ps ?c" by (rule wait_inv_same [OF inv(2)]) simp_all
  moreover have "log_inv dl ?c" using inv(3) by (simp add: log_inv_def Let_def)
  moreover have "wake_inv dl ?c" by (rule wake_inv_wake [OF inv(4)]) simp_all
  ultimately show ?thesis unfolding chan_inv_def by blast
qed

section \<open>Handles come and go\<close>

lemma inv_clone:
  assumes inv: "own_inv dl N ow c" "wait_inv dl ps c" "log_inv dl c" "wake_inv dl c"
    and t: "threads c t = None"
  shows "\<exists>c'. goto t SIdle (sender_clone (chan c)) c = Next c' \<and> chan_inv dl N c'"
proof -
  let ?ch = "sender_clone (chan c)"
  let ?c = "c\<lparr>chan := ?ch, threads := (threads c)(t \<mapsto> SIdle)\<rparr>"
  have h: "(hold h (threads c))(t := None) = hold h (threads c)" for h :: "_ \<Rightarrow> nat option"
    using t by (auto simp: hold_def)
  have "own_inv dl N ow ?c"
    by (rule own_inv_same [OF inv(1)]) (simp_all add: h sender_clone_def)
  moreover have "wait_inv dl ps ?c"
  proof (rule wait_inv_goto [OF inv(2)])
    show "wait_base dl ps ?ch" using wait_base_of [OF inv(2)] by (simp add: wait_base_def sender_clone_def)
    show "handle_ok ps ?ch t (Some SIdle)" using handle_of [OF inv(2) t] by (simp add: sender_clone_def)
  qed (auto simp: sender_clone_def)
  moreover have "log_inv dl ?c" by (rule log_inv_goto [OF inv(3)]) (auto simp: sender_clone_def)
  moreover have "wake_inv dl ?c"
  proof -
    have r: "Waking \<in> ran (threads c) \<Longrightarrow> Waking \<in> ran ((threads c)(t \<mapsto> SIdle))"
      using t unfolding ran_def by (auto, metis option.distinct(1))
    have "t \<notin> dom (threads c)" using t by auto
    then show ?thesis using inv(4) r unfolding wake_inv_def Let_def
      by (auto simp: sender_clone_def simp del: ran_map_upd)
  qed
  ultimately have "chan_inv dl N ?c" unfolding chan_inv_def by blast
  then show ?thesis by (simp add: goto_def)
qed

lemma inv_drop_sender:
  assumes inv: "own_inv dl N ow c" "wait_inv dl ps c" "log_inv dl c" "wake_inv dl c"
    and t: "threads c t = Some SIdle"
  shows "\<exists>c'. step D (DropSender t) c = Next c' \<and> chan_inv dl N c'"
proof -
  let ?ch = "(chan c)\<lparr>num_senders := num_senders (chan c) - 1\<rparr>"
  let ?n = "if num_senders (chan c) - 1 = 0 then Suc (drop_wakes c) else drop_wakes c"
  let ?c = "c\<lparr>chan := ?ch, threads := (threads c)(t := None), drop_wakes := ?n\<rparr>"
  have "own_inv dl N ow ?c"
    by (rule own_inv_same [OF inv(1)]) (simp_all add: hold_none [OF t])
  moreover have "wait_inv dl ps ?c"
  proof (rule wait_invI)
    show "wait_base dl ps (chan ?c)" using wait_base_of [OF inv(2)] by (simp add: wait_base_def)
    show "handle_ok ps (chan ?c) p (threads ?c p)" for p
    proof (cases "p = t")
      case True
      then show ?thesis using handle_of [OF inv(2) t] by simp
    next
      case False
      have "handle_ok ps (chan ?c) p (threads c p)"
        by (rule handle_ok_frame [OF handle_of [OF inv(2) refl]]) auto
      with False show ?thesis by simp
    qed
  qed
  moreover have "log_inv dl ?c" using inv(3) by (auto simp: log_inv_def Let_def)
  moreover have "wake_inv dl ?c"
  proof -
    have r: "Waking \<in> ran (threads c) \<Longrightarrow> Waking \<in> ran ((threads c)(t := None))"
      using t unfolding ran_def by (auto, metis option.inject sphase.distinct(17))
    have f: "finite (dom (threads c))" "t \<in> dom (threads c)" using inv(4) t by (auto simp: wake_inv_def Let_def)
    then have "card (dom (threads c) - {t}) = card (dom (threads c)) - 1" by simp
    then show ?thesis using inv(4) r f unfolding wake_inv_def Let_def by auto
  qed
  ultimately have "chan_inv dl N ?c" unfolding chan_inv_def by blast
  then show ?thesis using t by (simp add: dec_senders_def)
qed

section \<open>The receiver\<close>

text \<open>A move of the receiver: the handles and what they see of the channel stay as they are.\<close>

lemma inv_rgoto:
  assumes "own_inv dl N ow' (c\<lparr>recvd := rs, chan := ch, rphase := ph\<rparr>)"
    and "wait_inv dl ps' (c\<lparr>recvd := rs, chan := ch, rphase := ph\<rparr>)"
    and "log_inv dl (c\<lparr>recvd := rs, chan := ch, rphase := ph\<rparr>)"
    and "wake_inv dl (c\<lparr>recvd := rs, chan := ch, rphase := ph\<rparr>)"
  shows "\<exists>c'. rgoto ph ch (c\<lparr>recvd := rs\<rparr>) = Next c' \<and> chan_inv dl N c'"
  using assms unfolding rgoto_def chan_inv_def by auto

lemma resting_facts:
  assumes "resting ph"
  shows "rfull ph = None" "rempty ph = None" "\<not> leaving ph" "(case ph of RReading i \<Rightarrow> [i] | _ \<Rightarrow> []) = []"
  using assms by (cases ph; simp)+

lemma recvd_id: "c\<lparr>recvd := recvd c\<rparr> = c"
  by simp

lemma register_simps [simp]:
  "freeq (register w ch) = freeq ch" "readyq (register w ch) = readyq ch"
  "slots (register w ch) = slots ch" "wait_queue (register w ch) = wait_queue ch"
  "receiver_dropped (register w ch) = receiver_dropped ch" "cells (register w ch) = cells ch"
  "num_senders (register w ch) = num_senders ch" "receiver_waker (register w ch) = Some w"
  by (auto simp: register_def split: option.split)

lemma inv_start_recv:
  assumes inv: "own_inv dl N ow c" "wait_inv dl ps c" "log_inv dl c" "wake_inv dl c"
    and r: "resting (rphase c)"
    and ch: "ch = chan c \<and> b = None \<or> ch = register w (chan c) \<and> b = Some (w, length (woken ch))"
  shows "\<exists>c'. rgoto (RPop b) ch c = Next c' \<and> chan_inv dl N c'"
proof -
  have f: "freeq ch = freeq (chan c)" "readyq ch = readyq (chan c)" "slots ch = slots (chan c)"
    "wait_queue ch = wait_queue (chan c)" "receiver_dropped ch = receiver_dropped (chan c)"
    "cells ch = cells (chan c)" "num_senders ch = num_senders (chan c)"
    using ch by auto
  have k: "k \<le> length (woken ch) \<and> (receiver_waker ch = Some u \<or> u \<in> set (drop k (woken ch)))"
    if "b = Some (u, k)" for u k
    using ch that by auto
  have "\<exists>c'. rgoto (RPop b) ch (c\<lparr>recvd := recvd c\<rparr>) = Next c' \<and> chan_inv dl N c'"
  proof (rule inv_rgoto [of _ _ ow _ _ _ _ ps])
    show "own_inv dl N ow (c\<lparr>recvd := recvd c, chan := ch, rphase := RPop b\<rparr>)"
      by (rule own_inv_same [OF inv(1)]) (simp_all add: f resting_facts [OF r])
    show "wait_inv dl ps (c\<lparr>recvd := recvd c, chan := ch, rphase := RPop b\<rparr>)"
      by (rule wait_inv_same [OF inv(2)]) (simp_all add: f)
    show "log_inv dl (c\<lparr>recvd := recvd c, chan := ch, rphase := RPop b\<rparr>)"
      using inv(3) by (simp add: log_inv_def Let_def f resting_facts [OF r])
    show "wake_inv dl (c\<lparr>recvd := recvd c, chan := ch, rphase := RPop b\<rparr>)"
      using inv(4) k by (simp add: wake_inv_def Let_def f)
  qed
  then show ?thesis by simp
qed

text \<open>One slot changes its owner.\<close>

lemma own_inv_upd:
  assumes inv: "own_inv dl N ow c" and iN: "i < N"
    and o: "owns (ow(i := x)) (dl (freeq (chan c'))) (dl (readyq (chan c'))) (cells (chan c'))
      (hold empty_hold (threads c')) (hold full_hold (threads c')) (rfull (rphase c')) (rempty (rphase c'))"
    and l: "length (slots (chan c')) = length (slots (chan c))"
    and other: "\<And>j. j \<noteq> i \<Longrightarrow> slots (chan c') ! j = slots (chan c) ! j"
    and self: "slots (chan c') ! i \<noteq> None \<longleftrightarrow> full x" and x: "x \<noteq> OLost \<or> receiver_dropped (chan c')"
    and d: "receiver_dropped (chan c) \<Longrightarrow> receiver_dropped (chan c')"
    and lv: "receiver_dropped (chan c') \<longleftrightarrow> leaving (rphase c')"
  shows "own_inv dl N (ow(i := x)) c'"
proof (rule own_invI [OF o])
  show "length (slots (chan c')) = N" using l oi_len [OF inv] by simp
  show "receiver_dropped (chan c') \<longleftrightarrow> leaving (rphase c')" by (rule lv)
  fix j
  show "N \<le> j \<Longrightarrow> (ow(i := x)) j = OLost" using oi_lost [OF inv, of j] iN by auto
  show "(ow(i := x)) j \<noteq> OLost" if "\<not> receiver_dropped (chan c')" "j < N"
  proof (cases "j = i")
    case True
    with x that show ?thesis by simp
  next
    case False
    have "\<not> receiver_dropped (chan c)" using d that(1) by blast
    with False oi_alive [OF inv _ that(2)] show ?thesis by simp
  qed
  show "slots (chan c') ! j \<noteq> None \<longleftrightarrow> full ((ow(i := x)) j)" if "j < N"
  proof (cases "j = i")
    case True
    with self show ?thesis by simp
  next
    case False
    with other [OF False] oi_full [OF inv that] show ?thesis by simp
  qed
qed

lemma inv_recv_pop:
  assumes D: "deque_laws D dl N"
    and inv: "own_inv dl N ow c" "wait_inv dl ps c" "log_inv dl c" "wake_inv dl c"
    and r: "rphase c = RPop b"
  shows "\<exists>c'. receiver_step D c = Next c' \<and> chan_inv dl N c'"
proof -
  note o = own_owns [OF inv(1)]
  from D show ?thesis
  proof (cases rule: pop_front_cases [where q = "readyq (chan c)"])
    case (empty q')
    let ?ch = "(chan c)\<lparr>readyq := q'\<rparr>"
    have "\<exists>c'. rgoto (RCheck b) ?ch (c\<lparr>recvd := recvd c\<rparr>) = Next c' \<and> chan_inv dl N c'"
    proof (rule inv_rgoto [of _ _ ow _ _ _ _ ps])
      show "own_inv dl N ow (c\<lparr>recvd := recvd c, chan := ?ch, rphase := RCheck b\<rparr>)"
        by (rule own_inv_same [OF inv(1)]) (simp_all add: r empty)
      show "wait_inv dl ps (c\<lparr>recvd := recvd c, chan := ?ch, rphase := RCheck b\<rparr>)"
        by (rule wait_inv_same [OF inv(2)]) simp_all
      show "log_inv dl (c\<lparr>recvd := recvd c, chan := ?ch, rphase := RCheck b\<rparr>)"
        using inv(3) by (simp add: log_inv_def Let_def r empty)
      show "wake_inv dl (c\<lparr>recvd := recvd c, chan := ?ch, rphase := RCheck b\<rparr>)"
        using inv(4) by (simp add: wake_inv_def Let_def r empty)
    qed
    with empty r show ?thesis by (simp add: receiver_step_def pop_ready_def)
  next
    case (elem q' i R)
    let ?ch = "(chan c)\<lparr>readyq := q'\<rparr>"
    let ?ow = "ow(i := OReader)"
    have wi: "ow i = OReady" using owns_where(2) [OF o, of i] elem by simp
    then have iN: "i < N" by (intro own_range [OF inv(1)]) simp
    have o': "owns ow (dl (freeq (chan c))) (i # R) (cells (chan c)) (hold empty_hold (threads c))
        (hold full_hold (threads c)) None None"
      using o r elem by simp
    have "\<exists>c'. rgoto (RReading i) ?ch (c\<lparr>recvd := recvd c\<rparr>) = Next c' \<and> chan_inv dl N c'"
    proof (rule inv_rgoto [of _ _ ?ow _ _ _ _ ps])
      show "own_inv dl N ?ow (c\<lparr>recvd := recvd c, chan := ?ch, rphase := RReading i\<rparr>)" (is "own_inv dl N ?ow ?c")
      proof (rule own_inv_upd [OF inv(1) iN])
        show "owns ?ow (dl (freeq (chan ?c))) (dl (readyq (chan ?c))) (cells (chan ?c))
          (hold empty_hold (threads ?c)) (hold full_hold (threads ?c)) (rfull (rphase ?c)) (rempty (rphase ?c))"
          using give_reader [OF take_ready [of ow _ "[]", simplified, OF o'], of i] elem by simp
      qed (use oi_full [OF inv(1) iN] oi_leaving [OF inv(1)] wi r in simp_all)
      show "wait_inv dl ps (c\<lparr>recvd := recvd c, chan := ?ch, rphase := RReading i\<rparr>)"
        by (rule wait_inv_same [OF inv(2)]) simp_all
      show "log_inv dl (c\<lparr>recvd := recvd c, chan := ?ch, rphase := RReading i\<rparr>)"
        using inv(3) by (simp add: log_inv_def Let_def r elem)
      show "wake_inv dl (c\<lparr>recvd := recvd c, chan := ?ch, rphase := RReading i\<rparr>)"
        using inv(4) by (simp add: wake_inv_def Let_def)
    qed
    with elem r show ?thesis by (simp add: receiver_step_def pop_ready_def)
  qed
qed

lemma inv_recv_check:
  fixes c :: "('q, 't) conf"
  assumes inv: "own_inv dl N ow c" "wait_inv dl ps c" "log_inv dl c" "wake_inv dl c"
    and r: "rphase c = RCheck b"
  shows "\<exists>c'. receiver_step D c = Next c' \<and> chan_inv dl N c'"
proof -
  define ph :: "'t rphase" where "ph = (case b of Some (w, k) \<Rightarrow> if receiver_is_closed (chan c) then RIdle else RParked w k
    | None \<Rightarrow> RIdle)"
  have ph: "rfull ph = None" "rempty ph = None" "\<not> leaving ph" "(case ph of RReading i \<Rightarrow> [i] | _ \<Rightarrow> []) = []"
    by (auto simp: ph_def split: option.split)
  have "\<exists>c'. rgoto ph (chan c) (c\<lparr>recvd := recvd c\<rparr>) = Next c' \<and> chan_inv dl N c'"
  proof (rule inv_rgoto [of _ _ ow _ _ _ _ ps])
    show "own_inv dl N ow (c\<lparr>recvd := recvd c, chan := chan c, rphase := ph\<rparr>)"
      by (rule own_inv_same [OF inv(1)]) (simp_all add: ph r)
    show "wait_inv dl ps (c\<lparr>recvd := recvd c, chan := chan c, rphase := ph\<rparr>)"
      by (rule wait_inv_same [OF inv(2)]) simp_all
    show "log_inv dl (c\<lparr>recvd := recvd c, chan := chan c, rphase := ph\<rparr>)"
      using inv(3) r by (simp add: log_inv_def Let_def ph)
    show "wake_inv dl (c\<lparr>recvd := recvd c, chan := chan c, rphase := ph\<rparr>)"
      using inv(4) r by (auto simp: wake_inv_def Let_def receiver_is_closed_def ph_def split: option.splits if_splits)
  qed
  with r show ?thesis by (simp add: receiver_step_def ph_def Let_def)
qed

text \<open>Reading slot \<open>i\<close>: its value leaves, nothing else about the slots that matter changes.\<close>

lemma read_slot_full:
  assumes "own_inv dl N ow c" and "ow i = OReader"
  obtains v where "slots (chan c) ! i = Some v" "i < N"
    "read_slot i (chan c) = Some ((chan c)\<lparr>slots := (slots (chan c))[i := None]\<rparr>, v)"
proof -
  have iN: "i < N" using own_range [OF assms(1), of i] assms(2) by simp
  then have "slots (chan c) ! i \<noteq> None" using oi_full [OF assms(1) iN] assms(2) by simp
  then obtain v where "slots (chan c) ! i = Some v" by blast
  with that iN oi_len [OF assms(1)] show ?thesis by (simp add: read_slot_def)
qed

lemma log_keep_slots:
  assumes inv: "own_inv dl N ow c" and w: "ow i = OReader"
  shows "map (\<lambda>j. the ((slots (chan c))[i := x] ! j)) (dl (readyq (chan c)))
      = map (\<lambda>j. the (slots (chan c) ! j)) (dl (readyq (chan c)))"
    and "threads c t = Some (Pushing j v) \<Longrightarrow> (slots (chan c))[i := x] ! j = slots (chan c) ! j"
proof -
  note o = own_owns [OF inv]
  have "i \<notin> set (dl (readyq (chan c)))" using owns_where(2) [OF o, of i] w by simp
  then show "map (\<lambda>j. the ((slots (chan c))[i := x] ! j)) (dl (readyq (chan c)))
      = map (\<lambda>j. the (slots (chan c) ! j)) (dl (readyq (chan c)))"
    by (intro map_cong refl) (metis nth_list_update_neq)
  assume t: "threads c t = Some (Pushing j v)"
  then have "hold full_hold (threads c) t = Some j" using hold_at [OF t, of full_hold] by simp
  then have "j \<noteq> i" using owns_where(7) [OF o, of t j] w by auto
  then show "(slots (chan c))[i := x] ! j = slots (chan c) ! j" by (simp add: nth_list_update_neq)
qed

lemma inv_recv_read:
  assumes inv: "own_inv dl N ow c" "wait_inv dl ps c" "log_inv dl c" "wake_inv dl c"
    and r: "rphase c = RReading i"
  shows "\<exists>c'. receiver_step D c = Next c' \<and> chan_inv dl N c'"
proof -
  note o = own_owns [OF inv(1)]
  have w: "ow i = OReader" using owns_where(3) [OF o, of i] r by simp
  from read_slot_full [OF inv(1) w] obtain v where v: "slots (chan c) ! i = Some v" "i < N"
    "read_slot i (chan c) = Some ((chan c)\<lparr>slots := (slots (chan c))[i := None]\<rparr>, v)" by blast
  let ?ch = "(chan c)\<lparr>slots := (slots (chan c))[i := None]\<rparr>"
  have l: "\<not> receiver_dropped (chan c)" using oi_leaving [OF inv(1)] r by simp
  have o': "owns ow (dl (freeq (chan c))) (dl (readyq (chan c))) (cells (chan c)) (hold empty_hold (threads c))
        (hold full_hold (threads c)) (Some i) None"
    using o r by simp
  have "\<exists>c'. rgoto (RReturning i v) ?ch (c\<lparr>recvd := recvd c @ [v]\<rparr>) = Next c' \<and> chan_inv dl N c'"
  proof (rule inv_rgoto [of _ _ "ow(i := OReturner)" _ _ _ _ ps])
    show "own_inv dl N (ow(i := OReturner)) (c\<lparr>recvd := recvd c @ [v], chan := ?ch, rphase := RReturning i v\<rparr>)"
      by (rule own_inv_upd [OF inv(1) v(2)])
        (use give_returner [OF take_reader [OF o'], of i] v oi_len [OF inv(1)] l in \<open>simp_all add: nth_list_update_neq\<close>)
    show "wait_inv dl ps (c\<lparr>recvd := recvd c @ [v], chan := ?ch, rphase := RReturning i v\<rparr>)"
      by (rule wait_inv_same [OF inv(2)]) simp_all
    show "log_inv dl (c\<lparr>recvd := recvd c @ [v], chan := ?ch, rphase := RReturning i v\<rparr>)"
      using inv(3) log_keep_slots [OF inv(1) w, where x = None] l v r
      by (auto simp: log_inv_def Let_def prefix_def)
    show "wake_inv dl (c\<lparr>recvd := recvd c @ [v], chan := ?ch, rphase := RReturning i v\<rparr>)"
      using inv(4) by (simp add: wake_inv_def Let_def)
  qed
  with v r show ?thesis by (simp add: receiver_step_def)
qed

text \<open>What a grant to \<open>p\<close> does to the handles: \<open>p\<close> sees its slot, the others see nothing.\<close>

lemma handle_granted:
  assumes h: "handle_ok ps ch q x" and ps: "ps = p # qs" and cp: "cells ch p = Some None"
    and op: "obs (wait_queue ch) p = Some ((wk, p), False)"
    and W: "obs (wait_queue ch') = (obs (wait_queue ch))(p \<mapsto> ((wk, p), True))"
    and C: "cells ch' = (cells ch)(p \<mapsto> Some s)" and d: "receiver_dropped ch' = receiver_dropped ch"
  shows "handle_ok qs ch' q x"
proof (cases "q = p")
  case False
  show ?thesis by (rule handle_ok_frame [OF h]) (use False W C d ps in auto)
next
  case True
  show ?thesis
  proof (cases x)
    case None
    with h True cp show ?thesis by simp
  next
    case (Some ph)
    have "phase_ok ps ch p ph \<Longrightarrow> phase_ok qs ch' p ph"
      using W C d ps op by (induction ps ch p ph rule: phase_ok.induct) auto
    with h Some True cp C show ?thesis by auto
  qed
qed

lemma inv_recv_return:
  assumes D: "deque_laws D dl N"
    and inv: "own_inv dl N ow c" "wait_inv dl ps c" "log_inv dl c" "wake_inv dl c"
    and r: "rphase c = RReturning i v"
  shows "\<exists>c'. receiver_step D c = Next c' \<and> chan_inv dl N c'"
proof -
  let ?ch = "chan c"
  note base = wait_base_of [OF inv(2)] and o = own_owns [OF inv(1)]
  have w: "ow i = OReturner" using owns_where(4) [OF o, of i] r by simp
  then have iN: "i < N" by (intro own_range [OF inv(1)]) simp
  have room: "length (dl (freeq ?ch)) < N" by (rule free_room [OF inv(1) iN]) (simp add: w)
  have o': "owns ow (dl (freeq ?ch)) (dl (readyq ?ch)) (cells ?ch) (hold empty_hold (threads c))
        (hold full_hold (threads c)) None (Some i)"
    using o r by simp
  have l: "\<not> receiver_dropped ?ch" using oi_leaving [OF inv(1)] r by simp
  have sl: "slots ?ch ! i = None" using oi_full [OF inv(1) iN] w by auto
  from D base room show ?thesis
  proof (cases rule: return_free_slot_cases [where s = i])
    case (queue q')
    let ?c1 = "?ch\<lparr>freeq := q'\<rparr>"
    have "\<exists>c'. rgoto RIdle ?c1 (c\<lparr>recvd := recvd c\<rparr>) = Next c' \<and> chan_inv dl N c'"
    proof (rule inv_rgoto [of _ _ "ow(i := OFree)" _ _ _ _ ps])
      show "own_inv dl N (ow(i := OFree)) (c\<lparr>recvd := recvd c, chan := ?c1, rphase := RIdle\<rparr>)"
        by (rule own_inv_upd [OF inv(1) iN]) (use give_free [OF take_returner [OF o'], of i] queue sl l in simp_all)
      show "wait_inv dl ps (c\<lparr>recvd := recvd c, chan := ?c1, rphase := RIdle\<rparr>)"
      proof (rule wait_invI)
        show "wait_base dl ps (chan (c\<lparr>recvd := recvd c, chan := ?c1, rphase := RIdle\<rparr>))"
          using base_freeq [OF base, of q'] queue by simp
        fix p
        show "handle_ok ps (chan (c\<lparr>recvd := recvd c, chan := ?c1, rphase := RIdle\<rparr>)) p
            (threads (c\<lparr>recvd := recvd c, chan := ?c1, rphase := RIdle\<rparr>) p)"
          by (rule handle_ok_frame [OF handle_of [OF inv(2)]]) auto
      qed
      show "log_inv dl (c\<lparr>recvd := recvd c, chan := ?c1, rphase := RIdle\<rparr>)"
        using inv(3) r by (simp add: log_inv_def Let_def)
      show "wake_inv dl (c\<lparr>recvd := recvd c, chan := ?c1, rphase := RIdle\<rparr>)"
        using inv(4) by (simp add: wake_inv_def Let_def)
    qed
    with queue r show ?thesis by (simp add: receiver_step_def)
  next
    case (sender p qs W' wk)
    let ?c1 = "?ch\<lparr>wait_queue := W', cells := (cells ?ch)(p \<mapsto> Some i), woken := woken ?ch @ [wk]\<rparr>"
    have "\<exists>c'. rgoto RIdle ?c1 (c\<lparr>recvd := recvd c\<rparr>) = Next c' \<and> chan_inv dl N c'"
    proof (rule inv_rgoto [of _ _ "ow(i := OGrant p)" _ _ _ _ qs])
      show "own_inv dl N (ow(i := OGrant p)) (c\<lparr>recvd := recvd c, chan := ?c1, rphase := RIdle\<rparr>)"
        by (rule own_inv_upd [OF inv(1) iN])
          (use give_grant [OF take_returner [OF o'], of i p] sender(3) sl l in simp_all)
      show "wait_inv dl qs (c\<lparr>recvd := recvd c, chan := ?c1, rphase := RIdle\<rparr>)" (is "wait_inv dl qs ?c")
      proof (rule wait_invI)
        show "wait_base dl qs (chan ?c)" using base_grant [OF _ sender(4,5,7)] base sender(1) by simp
        show "handle_ok qs (chan ?c) q (threads ?c q)" for q
          by (rule handle_granted [OF handle_of [OF inv(2)] sender(1,3,4)]) (use sender(7) in simp_all)
      qed
      show "log_inv dl (c\<lparr>recvd := recvd c, chan := ?c1, rphase := RIdle\<rparr>)"
        using inv(3) r by (simp add: log_inv_def Let_def)
      show "wake_inv dl (c\<lparr>recvd := recvd c, chan := ?c1, rphase := RIdle\<rparr>)"
        using inv(4) by (simp add: wake_inv_def Let_def)
    qed
    with sender r show ?thesis by (simp add: receiver_step_def)
  qed
qed

section \<open>The receiver's drop\<close>

lemma inv_drop_receiver:
  assumes inv: "own_inv dl N ow c" "wait_inv dl ps c" "log_inv dl c" "wake_inv dl c"
    and r: "resting (rphase c)"
  shows "\<exists>c'. rgoto RDrain ((chan c)\<lparr>receiver_dropped := True\<rparr>) c = Next c' \<and> chan_inv dl N c'"
proof -
  let ?ch = "(chan c)\<lparr>receiver_dropped := True\<rparr>"
  have "\<exists>c'. rgoto RDrain ?ch (c\<lparr>recvd := recvd c\<rparr>) = Next c' \<and> chan_inv dl N c'"
  proof (rule inv_rgoto [of _ _ ow _ _ _ _ ps])
    show "own_inv dl N ow (c\<lparr>recvd := recvd c, chan := ?ch, rphase := RDrain\<rparr>)"
      using inv(1) resting_facts [OF r] by (simp add: own_inv_def)
    show "wait_inv dl ps (c\<lparr>recvd := recvd c, chan := ?ch, rphase := RDrain\<rparr>)"
      by (rule wait_inv_same [OF inv(2)]) simp_all
    show "log_inv dl (c\<lparr>recvd := recvd c, chan := ?ch, rphase := RDrain\<rparr>)"
      using inv(3) by (simp add: log_inv_def Let_def)
    show "wake_inv dl (c\<lparr>recvd := recvd c, chan := ?ch, rphase := RDrain\<rparr>)"
      using inv(4) by (simp add: wake_inv_def Let_def)
  qed
  then show ?thesis by simp
qed

lemma inv_drain_pop:
  assumes D: "deque_laws D dl N"
    and inv: "own_inv dl N ow c" "wait_inv dl ps c" "log_inv dl c" "wake_inv dl c"
    and r: "rphase c = RDrain"
  shows "\<exists>c'. receiver_step D c = Next c' \<and> chan_inv dl N c'"
proof -
  note o = own_owns [OF inv(1)]
  have l: "receiver_dropped (chan c)" using oi_leaving [OF inv(1)] r by simp
  from D show ?thesis
  proof (cases rule: pop_back_cases [where q = "readyq (chan c)"])
    case (empty q')
    let ?ch = "(chan c)\<lparr>readyq := q'\<rparr>"
    have "\<exists>c'. rgoto RWakeAll ?ch (c\<lparr>recvd := recvd c\<rparr>) = Next c' \<and> chan_inv dl N c'"
    proof (rule inv_rgoto [of _ _ ow _ _ _ _ ps])
      show "own_inv dl N ow (c\<lparr>recvd := recvd c, chan := ?ch, rphase := RWakeAll\<rparr>)"
        by (rule own_inv_same [OF inv(1)]) (simp_all add: r empty)
      show "wait_inv dl ps (c\<lparr>recvd := recvd c, chan := ?ch, rphase := RWakeAll\<rparr>)"
        by (rule wait_inv_same [OF inv(2)]) simp_all
      show "log_inv dl (c\<lparr>recvd := recvd c, chan := ?ch, rphase := RWakeAll\<rparr>)"
        using inv(3) l by (simp add: log_inv_def Let_def)
      show "wake_inv dl (c\<lparr>recvd := recvd c, chan := ?ch, rphase := RWakeAll\<rparr>)"
        using inv(4) by (simp add: wake_inv_def Let_def)
    qed
    with empty r show ?thesis by (simp add: receiver_step_def pop_ready_back_def)
  next
    case (elem q' i R)
    let ?ch = "(chan c)\<lparr>readyq := q'\<rparr>"
    have wi: "ow i = OReady" using owns_where(2) [OF o, of i] elem by simp
    then have iN: "i < N" by (intro own_range [OF inv(1)]) simp
    have o': "owns ow (dl (freeq (chan c))) (R @ [i]) (cells (chan c)) (hold empty_hold (threads c))
        (hold full_hold (threads c)) None None"
      using o r elem by simp
    have "\<exists>c'. rgoto (RDrainSlot i) ?ch (c\<lparr>recvd := recvd c\<rparr>) = Next c' \<and> chan_inv dl N c'"
    proof (rule inv_rgoto [of _ _ "ow(i := OReader)" _ _ _ _ ps])
      show "own_inv dl N (ow(i := OReader)) (c\<lparr>recvd := recvd c, chan := ?ch, rphase := RDrainSlot i\<rparr>)"
        by (rule own_inv_upd [OF inv(1) iN])
          (use give_reader [OF take_ready [of ow _ R i "[]", simplified, OF o'], of i] elem
            oi_full [OF inv(1) iN] wi l in simp_all)
      show "wait_inv dl ps (c\<lparr>recvd := recvd c, chan := ?ch, rphase := RDrainSlot i\<rparr>)"
        by (rule wait_inv_same [OF inv(2)]) simp_all
      show "log_inv dl (c\<lparr>recvd := recvd c, chan := ?ch, rphase := RDrainSlot i\<rparr>)"
        using inv(3) l by (simp add: log_inv_def Let_def)
      show "wake_inv dl (c\<lparr>recvd := recvd c, chan := ?ch, rphase := RDrainSlot i\<rparr>)"
        using inv(4) by (simp add: wake_inv_def Let_def)
    qed
    with elem r show ?thesis by (simp add: receiver_step_def pop_ready_back_def)
  qed
qed

lemma inv_drain_read:
  assumes inv: "own_inv dl N ow c" "wait_inv dl ps c" "log_inv dl c" "wake_inv dl c"
    and r: "rphase c = RDrainSlot i"
  shows "\<exists>c'. receiver_step D c = Next c' \<and> chan_inv dl N c'"
proof -
  note o = own_owns [OF inv(1)]
  have w: "ow i = OReader" using owns_where(3) [OF o, of i] r by simp
  from read_slot_full [OF inv(1) w] obtain v where v: "slots (chan c) ! i = Some v" "i < N"
    "read_slot i (chan c) = Some ((chan c)\<lparr>slots := (slots (chan c))[i := None]\<rparr>, v)" by blast
  let ?ch = "(chan c)\<lparr>slots := (slots (chan c))[i := None]\<rparr>"
  have l: "receiver_dropped (chan c)" using oi_leaving [OF inv(1)] r by simp
  have o': "owns ow (dl (freeq (chan c))) (dl (readyq (chan c))) (cells (chan c)) (hold empty_hold (threads c))
        (hold full_hold (threads c)) (Some i) None"
    using o r by simp
  have "\<exists>c'. rgoto RDrain ?ch (c\<lparr>recvd := recvd c\<rparr>) = Next c' \<and> chan_inv dl N c'"
  proof (rule inv_rgoto [of _ _ "ow(i := OLost)" _ _ _ _ ps])
    show "own_inv dl N (ow(i := OLost)) (c\<lparr>recvd := recvd c, chan := ?ch, rphase := RDrain\<rparr>)"
      by (rule own_inv_upd [OF inv(1) v(2)])
        (use take_reader [OF o'] v oi_len [OF inv(1)] l in \<open>simp_all add: nth_list_update_neq\<close>)
    show "wait_inv dl ps (c\<lparr>recvd := recvd c, chan := ?ch, rphase := RDrain\<rparr>)"
      by (rule wait_inv_same [OF inv(2)]) simp_all
    show "log_inv dl (c\<lparr>recvd := recvd c, chan := ?ch, rphase := RDrain\<rparr>)"
      using inv(3) log_keep_slots(2) [OF inv(1) w, where x = None] l by (auto simp: log_inv_def Let_def)
    show "wake_inv dl (c\<lparr>recvd := recvd c, chan := ?ch, rphase := RDrain\<rparr>)"
      using inv(4) by (simp add: wake_inv_def Let_def)
  qed
  with v r show ?thesis by (simp add: receiver_step_def)
qed

text \<open>Waking one waiting sender.\<close>

lemma wake_waiter_cases:
  assumes w: "wait_base dl ps ch"
  obtains (none) "ps = []" "wake_waiter ch = Some (ch, False)"
  | (one) p qs W' wk where "ps = p # qs" "obs (wait_queue ch) p = Some ((wk, p), False)" "wq_rep W' qs"
      "obs W' = (obs (wait_queue ch))(p \<mapsto> ((wk, p), True))"
      "wake_waiter ch = Some (ch\<lparr>wait_queue := W', woken := woken ch @ [wk]\<rparr>, True)"
proof (cases ps)
  case Nil
  then have "wq_pop (wait_queue ch) = Some (wait_queue ch, None)" using wi_rep [OF w] by (intro wq_pop_nil) simp
  then have "wake_waiter ch = Some (ch, False)" by (simp add: wake_waiter_def)
  with none Nil show ?thesis by blast
next
  case (Cons p qs)
  have rep: "wq_rep (wait_queue ch) (p # qs)" using wi_rep [OF w] Cons by simp
  from wq_pop_cons [OF rep] obtain W' v where W': "wq_pop (wait_queue ch) = Some (W', Some v)"
    "wq_rep W' qs" "obs (wait_queue ch) p = Some (v, False)"
    "obs W' = (obs (wait_queue ch))(p \<mapsto> (v, True))" by blast
  have v: "snd v = p" by (rule wi_addr [OF w W'(3)])
  obtain wk where vw: "v = (wk, p)" using v by (cases v) auto
  have "wake_waiter ch = Some (ch\<lparr>wait_queue := W', woken := woken ch @ [wk]\<rparr>, True)"
    using W' vw by (simp add: wake_waiter_def)
  with one Cons W' vw show ?thesis by blast
qed

lemma inv_wake_all:
  assumes inv: "own_inv dl N ow c" "wait_inv dl ps c" "log_inv dl c" "wake_inv dl c"
    and r: "rphase c = RWakeAll"
  shows "\<exists>c'. receiver_step D c = Next c' \<and> chan_inv dl N c'"
proof -
  note base = wait_base_of [OF inv(2)]
  have l: "receiver_dropped (chan c)" using oi_leaving [OF inv(1)] r by simp
  from base show ?thesis
  proof (cases rule: wake_waiter_cases)
    case none
    have "\<exists>c'. rgoto RGone (chan c) (c\<lparr>recvd := recvd c\<rparr>) = Next c' \<and> chan_inv dl N c'"
    proof (rule inv_rgoto [of _ _ ow _ _ _ _ ps])
      show "own_inv dl N ow (c\<lparr>recvd := recvd c, chan := chan c, rphase := RGone\<rparr>)"
        by (rule own_inv_same [OF inv(1)]) (simp_all add: r)
      show "wait_inv dl ps (c\<lparr>recvd := recvd c, chan := chan c, rphase := RGone\<rparr>)"
        by (rule wait_inv_same [OF inv(2)]) simp_all
      show "log_inv dl (c\<lparr>recvd := recvd c, chan := chan c, rphase := RGone\<rparr>)"
        using inv(3) l by (simp add: log_inv_def Let_def)
      show "wake_inv dl (c\<lparr>recvd := recvd c, chan := chan c, rphase := RGone\<rparr>)"
        using inv(4) by (simp add: wake_inv_def Let_def)
    qed
    with none r show ?thesis by (simp add: receiver_step_def)
  next
    case (one p qs W' wk)
    let ?ch = "(chan c)\<lparr>wait_queue := W', woken := woken (chan c) @ [wk]\<rparr>"
    let ?c = "c\<lparr>recvd := recvd c, chan := ?ch, rphase := RWakeAll\<rparr>"
    have "\<exists>c'. rgoto RWakeAll ?ch (c\<lparr>recvd := recvd c\<rparr>) = Next c' \<and> chan_inv dl N c'"
    proof (rule inv_rgoto [of _ _ ow _ _ _ _ qs])
      show "own_inv dl N ow ?c" by (rule own_inv_same [OF inv(1)]) (simp_all add: r)
      show "wait_inv dl qs ?c"
      proof (rule wait_invI)
        show "wait_base dl qs (chan ?c)" unfolding wait_base_def
        proof (intro conjI allI impI)
          show "wq_rep (wait_queue (chan ?c)) qs" using one by simp
          fix q x b assume "obs (wait_queue (chan ?c)) q = Some (x, b)"
          with one(2,4) have "\<exists>b'. obs (wait_queue (chan c)) q = Some (x, b') \<and> (q = p \<longrightarrow> b) \<and> (q \<noteq> p \<longrightarrow> b' = b)"
            by (auto split: if_splits)
          then obtain b' where b': "obs (wait_queue (chan c)) q = Some (x, b')" "q = p \<Longrightarrow> b" "q \<noteq> p \<Longrightarrow> b' = b" by blast
          show "snd x = q" by (rule wi_addr [OF base b'(1)])
          show "cells (chan ?c) q \<noteq> None" using wi_live [OF base b'(1)] by simp
          show "b \<or> q \<in> set qs" using wi_queued [OF base, of q x] b' one(1) by (cases b) auto
        next
          fix q s assume "cells (chan ?c) q = Some (Some s)"
          then show "\<exists>x. obs (wait_queue (chan ?c)) q = Some (x, True)"
            using wi_granted [OF base, of q s] one(4) by auto
        next
          show "dl (freeq (chan ?c)) = []" using wi_free [OF base] one(1) by simp
        qed
        fix q
        have h: "handle_ok ps (chan c) q (threads c q)" by (rule handle_of [OF inv(2) refl])
        have "phase_ok ps (chan c) q ph \<Longrightarrow> phase_ok qs ?ch q ph" for ph
          using one(1,2,4) l by (induction ps "chan c" q ph rule: phase_ok.induct) auto
        with h show "handle_ok qs (chan ?c) q (threads ?c q)" by (cases "threads c q") auto
      qed
      show "log_inv dl ?c" using inv(3) l by (simp add: log_inv_def Let_def)
      show "wake_inv dl ?c" using inv(4) by (simp add: wake_inv_def Let_def)
    qed
    with one r show ?thesis by (simp add: receiver_step_def)
  qed
qed

end
