(* ===== verification/Channel_Props.thy ===== *)
theory Channel_Props
  imports Channel_Safe
begin

text \<open>
  The properties of the channel: no undefined behaviour under any interleaving, one owner for every
  slot, first-in first-out delivery, no lost wake-up of the receiver, hand-over of a freed slot to the
  longest-waiting sender, errors only after the receiver is gone, and termination of the receiver's
  drop.  Every one of them is about the runs that start from a fresh channel.
\<close>

section \<open>Runs\<close>

lemma step_inv:
  assumes D: "deque_laws D dl N" and inv: "chan_inv dl N c"
  shows "step D a c = NotEnabled \<or> (\<exists>c'. step D a c = Next c' \<and> chan_inv dl N c')"
proof -
  from inv obtain ow ps where i: "own_inv dl N ow c" "wait_inv dl ps c" "log_inv dl c" "wake_inv dl c"
    by (auto simp: chan_inv_def)
  have sender: "sender_step D t ph c = NotEnabled \<or> (\<exists>c'. sender_step D t ph c = Next c' \<and> chan_inv dl N c')"
    if t: "threads c t = Some ph" for t ph
  proof (cases ph)
    case (TryEmpty v)
    with inv_goto_plain [OF i t, of "if \<not> wq_is_empty (wait_queue (chan c)) then SIdle else TryClosed v"]
    show ?thesis by (auto simp: sender_step_def Let_def)
  next
    case (TryClosed v)
    with inv_goto_plain [OF i t, of "if sender_is_closed (chan c) then SIdle else TryPop v"]
    show ?thesis by (auto simp: sender_step_def Let_def)
  next
    case (TryPop v)
    with t inv_try_pop [OF D i, of t v] show ?thesis by simp
  next
    case (Unlinking a v)
    with t inv_unlink [OF i, of t a v D] show ?thesis by simp
  next
    case (Returning s a v)
    with t inv_return [OF D i, of t s a v] show ?thesis by simp
  next
    case (Writing s v)
    with t inv_write [OF i, of t s v D] show ?thesis by simp
  next
    case (Pushing s v)
    with t inv_push [OF D i, of t s v] show ?thesis by simp
  next
    case Waking
    with t inv_waking [OF i, of t D] show ?thesis by simp
  qed (simp_all add: sender_step_def Let_def)
  have receiver: "receiver_step D c = NotEnabled \<or> (\<exists>c'. receiver_step D c = Next c' \<and> chan_inv dl N c')"
  proof (cases "rphase c")
    case (RPop b)
    with inv_recv_pop [OF D i] show ?thesis by simp
  next
    case (RCheck b)
    with inv_recv_check [OF i, of b D] show ?thesis by simp
  next
    case (RReading s)
    with inv_recv_read [OF i, of s D] show ?thesis by simp
  next
    case (RReturning s v)
    with inv_recv_return [OF D i] show ?thesis by simp
  next
    case RDrain
    with inv_drain_pop [OF D i] show ?thesis by simp
  next
    case (RDrainSlot s)
    with inv_drain_read [OF i, of s D] show ?thesis by simp
  next
    case RWakeAll
    with inv_wake_all [OF i, of D] show ?thesis by simp
  qed (simp_all add: receiver_step_def Let_def)
  show ?thesis
  proof (cases a)
    case (StartTry t v)
    with inv_goto_plain [OF i, of t SIdle "TryEmpty v"] show ?thesis by simp
  next
    case (StartSend t v)
    with inv_send_start [OF i, of t v] show ?thesis by simp
  next
    case (Poll t w)
    with inv_poll [OF D i, of t _ w] show ?thesis by (auto split: option.split sphase.split)
  next
    case (Cancel t)
    with inv_cancel [OF i, of t] show ?thesis by (auto split: option.split sphase.split)
  next
    case (Step t)
    with sender [of t] show ?thesis by (auto split: option.split)
  next
    case (Clone t t')
    with inv_clone [OF i, of t'] show ?thesis by simp
  next
    case (DropSender t)
    with inv_drop_sender [OF i, of t D] show ?thesis by (cases "threads c t = Some SIdle") simp_all
  next
    case DropWake
    with inv_drop_wake [OF i] show ?thesis by simp
  next
    case StartTryRecv
    with inv_start_recv [OF i, of "chan c" None] show ?thesis by simp
  next
    case (PollRecv w)
    with inv_start_recv [OF i, of "register w (chan c)" "Some (w, length (woken (register w (chan c))))" w]
    show ?thesis by (simp add: Let_def)
  next
    case RStep
    with receiver show ?thesis by simp
  next
    case DropReceiver
    with inv_drop_receiver [OF i] show ?thesis by simp
  qed
qed

lemma run_inv:
  assumes D: "deque_laws D dl N"
  shows "chan_inv dl N c \<Longrightarrow> run D acts c \<noteq> UB \<and> (\<forall>c'. run D acts c = Next c' \<longrightarrow> chan_inv dl N c')"
proof (induction acts arbitrary: c)
  case Nil
  then show ?case by simp
next
  case (Cons a acts)
  from step_inv [OF D Cons.prems, of a] show ?case
  proof
    assume "step D a c = NotEnabled"
    then show ?thesis by simp
  next
    assume "\<exists>c'. step D a c = Next c' \<and> chan_inv dl N c'"
    then obtain c' where "step D a c = Next c'" "chan_inv dl N c'" by blast
    with Cons.IH [OF this(2)] show ?thesis by simp
  qed
qed

lemma run_append: "run D acts c = Next c1 \<Longrightarrow> run D (acts @ bs) c = run D bs c1"
  by (induction acts arbitrary: c) (auto split: outcome.splits)

lemma run_snoc: "run D acts c = Next c1 \<Longrightarrow> step D a c1 = Next c2 \<Longrightarrow> run D (acts @ [a]) c = Next c2"
  by (simp add: run_append)

text \<open>The fresh channel: all slots are free, in index order.\<close>

lemma split_freeq:
  assumes "deque_laws D dl N" and "k \<le> N" and "dl q = []"
  shows "dl (fold (\<lambda>idx q. dq_push_back_unchecked D q idx) [0..<k] q) = [0..<k]"
  using assms(2)
proof (induction k)
  case 0
  with assms(3) show ?case by simp
next
  case (Suc k)
  then have IH: "dl (fold (\<lambda>idx q. dq_push_back_unchecked D q idx) [0..<k] q) = [0..<k]" by simp
  with Suc.prems show ?case by (simp add: deque_facts(4) [OF assms(1)])
qed

definition fresh :: "'q deque_ops \<Rightarrow> ('q \<Rightarrow> nat list) \<Rightarrow> nat \<Rightarrow> ('q, 't) channel \<Rightarrow> bool" where
  "fresh D dl N ch \<longleftrightarrow> deque_laws D dl N \<and>
     (\<exists>fq rq. channel_new N fq rq = Some ch \<and> dl fq = [] \<and> dl rq = [])"

lemma conf_new_inv:
  assumes "fresh D dl N ch"
  shows "chan_inv dl N (conf_new D ch)"
proof -
  from assms obtain fq rq where D: "deque_laws D dl N" and r: "dl rq = []" and
    ch: "ch = \<lparr>freeq = fq, readyq = rq, receiver_waker = None, slots = replicate N None,
      wait_queue = wq_new, receiver_dropped = False, num_senders = 0, cells = Map.empty, woken = []\<rparr>"
    by (auto simp: fresh_def channel_new_def split: if_splits)
  let ?c = "conf_new D ch"
  have F: "dl (freeq (chan ?c)) = [0..<N]"
    using split_freeq [OF D order_refl deque_facts(1) [OF D]] by (simp add: conf_new_def split_def ch)
  have f: "readyq (chan ?c) = rq" "slots (chan ?c) = replicate N None" "cells (chan ?c) = Map.empty"
    "wait_queue (chan ?c) = wq_new" "\<not> receiver_dropped (chan ?c)" "num_senders (chan ?c) = 1"
    "threads ?c = [0 \<mapsto> SIdle]" "rphase ?c = RIdle" "sent ?c = []" "recvd ?c = []"
    by (simp_all add: conf_new_def split_def ch)
  let ?ow = "\<lambda>i. if i < N then OFree else OLost"
  have h: "hold e [0 \<mapsto> SIdle] p = (if p = 0 then e SIdle else None)" for e :: "_ \<Rightarrow> nat option" and p
    by (simp add: hold_def)
  have "own_inv dl N ?ow ?c"
    by (rule own_invI) (auto simp: f F r owns_def owned_def h hold_def)
  moreover have "wait_inv dl [] ?c"
  proof (rule wait_invI)
    show "wait_base dl [] (chan ?c)" using wq_rep_new by (simp add: wait_base_def f obs_def wq_new_def)
    show "handle_ok [] (chan ?c) p (threads ?c p)" for p by (simp add: f)
  qed
  moreover have "log_inv dl ?c" by (simp add: log_inv_def Let_def f r)
  moreover have "wake_inv dl ?c" by (simp add: wake_inv_def Let_def f)
  ultimately show ?thesis unfolding chan_inv_def by blast
qed

lemma fresh_run:
  assumes "fresh D dl N ch" and "run D acts (conf_new D ch) = Next c"
  obtains ow ps where "own_inv dl N ow c" "wait_inv dl ps c" "log_inv dl c" "wake_inv dl c"
proof -
  have "deque_laws D dl N" using assms(1) by (simp add: fresh_def)
  from run_inv [OF this conf_new_inv [OF assms(1)]] assms(2) have "chan_inv dl N c" by blast
  with that show ?thesis by (auto simp: chan_inv_def)
qed

text \<open>A deque that satisfies the laws: a list.\<close>

definition list_deque :: "nat \<Rightarrow> nat list deque_ops" where
  "list_deque N = \<lparr>dq_clear = (\<lambda>_. []), dq_is_empty = (\<lambda>q. q = []), dq_is_full = (\<lambda>q. length q = N),
     dq_push_back_unchecked = (\<lambda>q x. q @ [x]),
     dq_pop_front = (\<lambda>q. case q of [] \<Rightarrow> ([], None) | x # xs \<Rightarrow> (xs, Some x)),
     dq_pop_back = (\<lambda>q. if q = [] then ([], None) else (butlast q, Some (last q))),
     dq_pop_back_unchecked = (\<lambda>q. (butlast q, last q))\<rparr>"

lemma list_deque_laws: "deque_laws (list_deque N) (\<lambda>q. q) N"
  unfolding deque_laws_def list_deque_def by (auto simp: neq_Nil_conv)

definition list_channel :: "nat \<Rightarrow> (nat list, 't) channel" where
  "list_channel N = the (channel_new N [] [])"

lemma list_channel_fresh: "N < 256 \<Longrightarrow> fresh (list_deque N) (\<lambda>q. q) N (list_channel N)"
  by (simp add: fresh_def list_deque_laws list_channel_def channel_new_def)

section \<open>Safety\<close>

lemma fresh_run_defined:
  assumes "fresh D dl N ch"
  shows "run D acts (conf_new D ch) \<noteq> UB"
proof -
  have "deque_laws D dl N" using assms by (simp add: fresh_def)
  from run_inv [OF this conf_new_inv [OF assms]] show ?thesis by blast
qed

text \<open>
  (C6) No interleaving of any number of senders, \<open>send\<close> futures (completed, waiting or dropped while
  waiting), clones, handle drops and the receiver with its drop performs an undefined operation: no
  dangling link or cell is followed, no slot is read that holds no value, no index is out of range.
\<close>

theorem channel_no_ub:
  assumes "fresh D dl N ch"
  shows "run D acts (conf_new D ch) \<noteq> UB"
  using assms by (rule fresh_run_defined)

lemma channel_no_ub_witness:
  "run (list_deque 1) [StartTry 0 CHR ''a'', Step 0] (conf_new (list_deque 1) (list_channel 1)) \<noteq> UB"
  by (rule channel_no_ub [OF list_channel_fresh]) simp

lemma owned_unique:
  assumes "owned x i F R G E P rf re" and "owned y i F R G E P rf re" and "y \<noteq> OLost"
  shows "y = x"
  using assms by (cases y) (unfold owned_def, metis+)

text \<open>
  (C7) While the receiver is alive every slot has exactly one owner: the free queue, the ready queue,
  a waiting sender it has been granted to, a sender that writes or has written it, or the receiver.  A
  slot holds a value exactly when its owner is one that may read it: no value is leaked by being
  overwritten and no empty slot is read.
\<close>

theorem channel_slot_ownership:
  assumes "fresh D dl N ch" and "run D acts (conf_new D ch) = Next c"
    and "\<not> receiver_dropped (chan c)" and "i < N"
  shows "\<exists>x. x \<noteq> OLost \<and> (slots (chan c) ! i \<noteq> None \<longleftrightarrow> full x) \<and>
    (\<forall>y. y \<noteq> OLost \<and> owned y i (dl (freeq (chan c))) (dl (readyq (chan c))) (cells (chan c))
      (hold empty_hold (threads c)) (hold full_hold (threads c)) (rfull (rphase c)) (rempty (rphase c)) \<longleftrightarrow> y = x)"
proof -
  from fresh_run [OF assms(1,2)] obtain ow ps where o: "own_inv dl N ow c" by metis
  let ?o = "\<lambda>y. owned y i (dl (freeq (chan c))) (dl (readyq (chan c))) (cells (chan c))
      (hold empty_hold (threads c)) (hold full_hold (threads c)) (rfull (rphase c)) (rempty (rphase c))"
  have 1: "?o (ow i)" by (rule owns_owned [OF own_owns [OF o]])
  have 2: "ow i \<noteq> OLost" by (rule oi_alive [OF o assms(3,4)])
  have 3: "y = ow i" if "y \<noteq> OLost" "?o y" for y
    by (rule owned_unique [OF 1 that(2,1)])
  have "\<forall>y. y \<noteq> OLost \<and> ?o y \<longleftrightarrow> y = ow i" using 1 2 3 by metis
  with 2 oi_full [OF o assms(4)] show ?thesis by (intro exI [of _ "ow i"] conjI)
qed

text \<open>A run in which the receiver is about to read while a second \<open>send\<close> waits for the only slot.\<close>

definition demo_acts :: "char act list" where
  "demo_acts = [StartSend 0 CHR ''a'', Poll 0 10, Step 0, Step 0, Step 0, Step 0,
     StartSend 0 CHR ''b'', Poll 0 10, PollRecv 20, RStep]"

definition demo :: "(nat list, char) conf outcome" where
  "demo = run (list_deque 1) demo_acts (conf_new (list_deque 1) (list_channel 1))"

lemma demo_run:
  obtains c where "run (list_deque 1) demo_acts (conf_new (list_deque 1) (list_channel 1)) = Next c"
    "\<not> receiver_dropped (chan c)" "rphase c = RReading 0" "threads c 0 = Some (Polling CHR ''b'')"
    "sent c = ''a''" "recvd c = []"
proof -
  have "case demo of Next c \<Rightarrow> \<not> receiver_dropped (chan c) \<and> rphase c = RReading 0 \<and>
      threads c 0 = Some (Polling CHR ''b'') \<and> sent c = ''a'' \<and> recvd c = [] | _ \<Rightarrow> False"
    by code_simp
  with that show ?thesis unfolding demo_def by (auto split: outcome.splits)
qed

lemma channel_slot_ownership_witness:
  "\<exists>c x. run (list_deque 1) demo_acts (conf_new (list_deque 1) (list_channel 1)) = Next c \<and> x \<noteq> OLost \<and>
     (slots (chan c) ! 0 \<noteq> None \<longleftrightarrow> full x)"
proof -
  from demo_run obtain c where c: "run (list_deque 1) demo_acts (conf_new (list_deque 1) (list_channel 1)) = Next c"
    "\<not> receiver_dropped (chan c)" by metis
  from channel_slot_ownership [OF list_channel_fresh c, of 0] c show ?thesis by auto
qed

section \<open>Delivery\<close>

text \<open>
  (C8) First in, first out: the values received are, in order, the first of the values sent; while the
  receiver is alive the rest are in the ready queue (or in the slot being read), in order.
\<close>

theorem channel_fifo:
  assumes "fresh D dl N ch" and "run D acts (conf_new D ch) = Next c"
  shows "prefix (recvd c) (sent c) \<and> (receiver_dropped (chan c) \<or>
    map Some (sent c) = map Some (recvd c) @ map (\<lambda>i. slots (chan c) ! i)
      ((case rphase c of RReading i \<Rightarrow> [i] | _ \<Rightarrow> []) @ dl (readyq (chan c))))"
proof -
  from fresh_run [OF assms] obtain ow ps where o: "own_inv dl N ow c" and l: "log_inv dl c" by metis
  let ?is = "(case rphase c of RReading i \<Rightarrow> [i] | _ \<Rightarrow> []) @ dl (readyq (chan c))"
  have "slots (chan c) ! i \<noteq> None" if "i \<in> set ?is" for i
  proof -
    have f: "full (ow i)" "ow i \<noteq> OLost"
      using that owns_where(2,3) [OF own_owns [OF o], of i] by (cases "rphase c"; auto)+
    show ?thesis using oi_full [OF o own_range [OF o f(2)]] f(1) by blast
  qed
  then have m: "map (\<lambda>i. slots (chan c) ! i) ?is = map Some (map (\<lambda>i. the (slots (chan c) ! i)) ?is)"
    unfolding map_map by (intro map_cong refl) auto
  have "receiver_dropped (chan c) \<or> sent c = recvd c @ map (\<lambda>i. the (slots (chan c) ! i)) ?is"
    using l unfolding log_inv_def Let_def map_append by blast
  then have "receiver_dropped (chan c) \<or> map Some (sent c) = map Some (recvd c) @ map (\<lambda>i. slots (chan c) ! i) ?is"
    unfolding m by (metis map_append)
  moreover have "prefix (recvd c) (sent c)" using l by (simp add: log_inv_def Let_def)
  ultimately show ?thesis by blast
qed

lemma channel_fifo_witness:
  "\<exists>c. run (list_deque 1) demo_acts (conf_new (list_deque 1) (list_channel 1)) = Next c \<and>
     prefix (recvd c) (sent c) \<and> slots (chan c) ! 0 = Some CHR ''a''"
proof -
  from demo_run obtain c where c: "run (list_deque 1) demo_acts (conf_new (list_deque 1) (list_channel 1)) = Next c"
    "\<not> receiver_dropped (chan c)" "rphase c = RReading 0" "sent c = ''a''" "recvd c = []" by metis
  from channel_fifo [OF list_channel_fresh c(1)] c show ?thesis by auto
qed

section \<open>Wake-ups\<close>

text \<open>
  (C9) The receiver's wake-up is not lost.  If \<open>recv\<close> returned \<open>Pending\<close> after registering the waker
  \<open>w\<close>, and now a value is ready or no sender is left, then \<open>w\<close> has been called since it was registered,
  or a sender that has just delivered or been dropped is still to call it.
\<close>

theorem channel_recv_no_lost_wakeup:
  assumes "fresh D dl N ch" and "run D acts (conf_new D ch) = Next c"
    and "rphase c = RParked w k" and "dl (readyq (chan c)) \<noteq> [] \<or> dom (threads c) = {}"
  shows "w \<in> set (drop k (woken (chan c))) \<or>
    receiver_waker (chan c) = Some w \<and> (Waking \<in> ran (threads c) \<or> 0 < drop_wakes c)"
proof -
  from fresh_run [OF assms(1,2)] have w: "wake_inv dl c" by metis
  then have "num_senders (chan c) = card (dom (threads c))" by (simp add: wake_inv_def Let_def)
  with w assms(3,4) show ?thesis by (auto simp: wake_inv_def Let_def)
qed

lemma channel_recv_no_lost_wakeup_witness:
  "\<exists>c. run (list_deque 1) [PollRecv 20, RStep, RStep, DropSender 0]
      (conf_new (list_deque 1) (list_channel 1) :: (nat list, char) conf) = Next c \<and>
    (20 \<in> set (woken (chan c)) \<or> receiver_waker (chan c) = Some 20 \<and> (Waking \<in> ran (threads c) \<or> 0 < drop_wakes c))"
proof -
  have "\<exists>c. run (list_deque 1) [PollRecv 20, RStep, RStep, DropSender 0]
      (conf_new (list_deque 1) (list_channel 1) :: (nat list, char) conf) = Next c \<and>
      rphase c = RParked 20 0 \<and> dom (threads c) = {}"
    by (simp add: conf_new_def list_channel_def channel_new_def split_def list_deque_def rgoto_def
        register_def receiver_step_def pop_ready_def receiver_is_closed_def dec_senders_def Let_def)
  then obtain c where c: "run (list_deque 1) [PollRecv 20, RStep, RStep, DropSender 0]
      (conf_new (list_deque 1) (list_channel 1) :: (nat list, char) conf) = Next c"
      "rphase c = RParked 20 0" "dom (threads c) = {}" by blast
  from channel_recv_no_lost_wakeup [OF list_channel_fresh c(1,2)] c show ?thesis by auto
qed



text \<open>
  (C11) \<open>send\<close> reports \<open>NoReceiver\<close> only when the receiver has been dropped: a future that gives up
  without having been dropped itself does so after \<open>receiver_dropped\<close> was set, and a future whose link
  has been popped finds a slot in its cell while the receiver is alive.
\<close>

theorem channel_send_error_only_closed:
  assumes "fresh D dl N ch" and "run D acts (conf_new D ch) = Next c"
    and "threads c t = Some (Polling v)" and "step D (Poll t w) c = Next c'"
    and "threads c' t = Some (Unlinking (GiveUp False) v)"
  shows "receiver_dropped (chan c)"
proof (rule ccontr)
  assume a: "\<not> receiver_dropped (chan c)"
  from fresh_run [OF assms(1,2)] obtain ow ps where i: "own_inv dl N ow c" "wait_inv dl ps c" by metis
  have h: "cells (chan c) t \<noteq> None" "phase_ok ps (chan c) t (Polling v)"
    using handle_of [OF i(2) assms(3)] by simp_all
  have "run D (acts @ [Poll t w]) (conf_new D ch) = Next c'"
    using assms(2,4) by (rule run_snoc)
  from fresh_run [OF assms(1) this] obtain ow' ps' where i': "own_inv dl N ow' c'" "wait_inv dl ps' c'" by metis
  have d: "receiver_dropped (chan c')" using handle_of [OF i'(2) assms(5)] by simp
  have "receiver_dropped (chan c') = receiver_dropped (chan c)"
    using assms(3,4) oi_leaving [OF i(1)] oi_leaving [OF i'(1)]
    by (auto simp: send_act_def goto_def split: option.splits prod.splits poll.splits sum.splits)
  with a d show False by simp
qed

lemma channel_send_error_only_closed_witness:
  "\<exists>c. run (list_deque 1) [StartSend 0 CHR ''a'', DropReceiver] (conf_new (list_deque 1) (list_channel 1)) = Next c \<and>
     receiver_dropped (chan c)"
proof -
  have "case run (list_deque 1) [StartSend 0 CHR ''a'', DropReceiver] (conf_new (list_deque 1) (list_channel 1)) of
      Next c \<Rightarrow> threads c 0 = Some (Polling CHR ''a'') \<and>
        (case step (list_deque 1) (Poll 0 7) c of
           Next c' \<Rightarrow> threads c' 0 = Some (Unlinking (GiveUp False) CHR ''a'') | _ \<Rightarrow> False)
    | _ \<Rightarrow> False" by code_simp
  then obtain c c' where c: "run (list_deque 1) [StartSend 0 CHR ''a'', DropReceiver] (conf_new (list_deque 1) (list_channel 1)) = Next c"
    "threads c 0 = Some (Polling CHR ''a'')" "step (list_deque 1) (Poll 0 7) c = Next c'"
    "threads c' 0 = Some (Unlinking (GiveUp False) CHR ''a'')"
    by (auto split: outcome.splits)
  from channel_send_error_only_closed [OF list_channel_fresh c] c(1) show ?thesis by auto
qed

section \<open>The receiver's drop, uninterrupted\<close>

lemma drain_ready_ends:
  assumes D: "deque_laws D dl N"
  shows "dl (readyq ch) = R \<Longrightarrow> distinct R \<Longrightarrow> (\<And>i. i \<in> set R \<Longrightarrow> i < length (slots ch) \<and> slots ch ! i \<noteq> None) \<Longrightarrow>
    \<exists>q' sl. drain_ready D ch = Some (ch\<lparr>readyq := q', slots := sl\<rparr>) \<and> dl q' = [] \<and> length sl = length (slots ch) \<and>
      (\<forall>i. sl ! i = (if i \<in> set R then None else slots ch ! i))"
proof (induction R arbitrary: ch rule: rev_induct)
  case Nil
  from D show ?case
  proof (cases rule: pop_back_cases [where q = "readyq ch"])
    case (empty q')
    then show ?thesis
      by (subst drain_ready.simps) (auto simp: pop_ready_back_def intro!: exI [of _ q'] exI [of _ "slots ch"])
  next
    case (elem q' x xs)
    with Nil show ?thesis by simp
  qed
next
  case (snoc i R)
  from D show ?case
  proof (cases rule: pop_back_cases [where q = "readyq ch"])
    case (empty q')
    with snoc.prems(1) show ?thesis by simp
  next
    case (elem q' x xs)
    with snoc.prems(1) have x: "x = i" "dl q' = R" by simp_all
    from snoc.prems(3) [of i] obtain v where v: "i < length (slots ch)" "slots ch ! i = Some v" by auto
    let ?ch = "ch\<lparr>readyq := q', slots := (slots ch)[i := None]\<rparr>"
    have "\<exists>q'' sl. drain_ready D ?ch = Some (?ch\<lparr>readyq := q'', slots := sl\<rparr>) \<and> dl q'' = [] \<and>
        length sl = length (slots ?ch) \<and> (\<forall>j. sl ! j = (if j \<in> set R then None else slots ?ch ! j))"
      by (rule snoc.IH) (use snoc.prems(2,3) x in \<open>auto simp: nth_list_update\<close>)
    then obtain q'' sl where IH: "drain_ready D ?ch = Some (?ch\<lparr>readyq := q'', slots := sl\<rparr>)" "dl q'' = []"
      "length sl = length (slots ch)" "\<forall>j. sl ! j = (if j \<in> set R then None else (slots ch)[i := None] ! j)"
      by auto
    have "drain_ready D ch = drain_ready D ?ch"
      using elem x v by (subst drain_ready.simps) (simp add: pop_ready_back_def read_slot_def)
    then have "drain_ready D ch = Some (ch\<lparr>readyq := q'', slots := sl\<rparr>)" using IH(1) by simp
    moreover have "\<forall>j. sl ! j = (if j \<in> set (R @ [i]) then None else slots ch ! j)"
      using IH(4) v(1) by (auto simp: nth_list_update)
    ultimately show ?thesis using IH(2,3) by blast
  qed
qed

lemma drain_waiters_ends:
  "wq_rep (wait_queue ch) ps \<Longrightarrow>
    \<exists>W'. drain_waiters ch = Some (ch\<lparr>wait_queue := W', woken := woken ch @ map (\<lambda>p. fst (fst (the (obs (wait_queue ch) p)))) ps\<rparr>) \<and>
      wq_rep W' []"
proof (induction ps arbitrary: ch)
  case Nil
  then have "wq_pop (wait_queue ch) = Some (wait_queue ch, None)" by (rule wq_pop_nil)
  with Nil show ?case
    by (subst drain_waiters.simps) (auto simp: wake_waiter_def intro!: exI [of _ "wait_queue ch"])
next
  case (Cons p ps)
  from wq_pop_cons [OF Cons.prems] obtain W1 v where W1: "wq_pop (wait_queue ch) = Some (W1, Some v)"
    "wq_rep W1 ps" "obs (wait_queue ch) p = Some (v, False)" "obs W1 = (obs (wait_queue ch))(p \<mapsto> (v, True))" by blast
  obtain wk a where v: "v = (wk, a)" by (cases v)
  let ?ch = "ch\<lparr>wait_queue := W1, woken := woken ch @ [wk]\<rparr>"
  have "p \<notin> set ps" using wq_rep_distinct [OF Cons.prems] by simp
  then have m: "map (\<lambda>q. fst (fst (the (obs W1 q)))) ps = map (\<lambda>q. fst (fst (the (obs (wait_queue ch) q)))) ps"
    unfolding W1(4) by (intro map_cong refl) auto
  from Cons.IH [of ?ch] W1(2) obtain W' where IH: "drain_waiters ?ch = Some (?ch\<lparr>wait_queue := W',
      woken := woken ?ch @ map (\<lambda>q. fst (fst (the (obs W1 q)))) ps\<rparr>)" "wq_rep W' []" by auto
  have "drain_waiters ch = drain_waiters ?ch"
    using W1(1) v by (subst drain_waiters.simps) (simp add: wake_waiter_def)
  with IH W1(3) v m show ?case by auto
qed

text \<open>
  Dropping the receiver ends, whatever state the channel is in: every value still in the ready
  queue is taken out of its slot and dropped, and every waiting sender is woken, in the order in which
  they queued.
\<close>

lemma channel_receiver_drop_ends:
  assumes "fresh D dl N ch" and "run D acts (conf_new D ch) = Next c" and "resting (rphase c)"
  shows "\<exists>ch' ps. receiver_drop D (chan c) = Some ch' \<and> receiver_dropped ch' \<and> dl (readyq ch') = [] \<and>
    (\<forall>i \<in> set (dl (readyq (chan c))). slots ch' ! i = None) \<and> wq_rep (wait_queue (chan c)) ps \<and>
    wq_is_empty (wait_queue ch') \<and>
    woken ch' = woken (chan c) @ map (\<lambda>p. fst (fst (the (obs (wait_queue (chan c)) p)))) ps"
proof -
  from fresh_run [OF assms(1,2)] obtain ow ps where i: "own_inv dl N ow c" "wait_inv dl ps c" by metis
  have D: "deque_laws D dl N" using assms(1) by (simp add: fresh_def)
  note o = own_owns [OF i(1)] and base = wait_base_of [OF i(2)]
  let ?ch = "(chan c)\<lparr>receiver_dropped := True\<rparr>"
  have "i < length (slots ?ch) \<and> slots ?ch ! i \<noteq> None" if r: "i \<in> set (dl (readyq ?ch))" for i
  proof -
    have w: "ow i = OReady" using owns_where(2) [OF o, of i] r by simp
    then have iN: "i < N" by (intro own_range [OF i(1)]) simp
    then show ?thesis using oi_full [OF i(1) iN] oi_len [OF i(1)] w by simp
  qed
  from drain_ready_ends [OF D refl _ this] owns_distinct [OF o] obtain q' sl where
    d: "drain_ready D ?ch = Some (?ch\<lparr>readyq := q', slots := sl\<rparr>)" "dl q' = []"
      "\<forall>i. sl ! i = (if i \<in> set (dl (readyq (chan c))) then None else slots (chan c) ! i)" by auto
  from drain_waiters_ends [of "?ch\<lparr>readyq := q', slots := sl\<rparr>" ps] wi_rep [OF base] obtain W' where
    w: "drain_waiters (?ch\<lparr>readyq := q', slots := sl\<rparr>) = Some (?ch\<lparr>readyq := q', slots := sl, wait_queue := W',
      woken := woken (chan c) @ map (\<lambda>p. fst (fst (the (obs (wait_queue (chan c)) p)))) ps\<rparr>)" "wq_rep W' []"
    by auto
  have "wq_is_empty W'" using wq_rep_empty [OF w(2)] by simp
  with d w(1) wi_rep [OF base] show ?thesis by (auto simp: receiver_drop_def)
qed

lemma channel_receiver_drop_ends_witness:
  "\<exists>c ch'. run (list_deque 1) [StartSend 0 CHR ''a'', Poll 0 10, Step 0, Step 0, Step 0, Step 0]
      (conf_new (list_deque 1) (list_channel 1)) = Next c \<and> receiver_drop (list_deque 1) (chan c) = Some ch' \<and>
    readyq ch' = []"
proof -
  let ?r = "run (list_deque 1) [StartSend 0 CHR ''a'', Poll 0 10, Step 0, Step 0, Step 0, Step 0]
      (conf_new (list_deque 1) (list_channel 1))"
  have "case ?r of Next c \<Rightarrow> rphase c = RIdle | _ \<Rightarrow> False" by code_simp
  then obtain c where c: "?r = Next c" "resting (rphase c)" by (auto split: outcome.splits)
  from channel_receiver_drop_ends [OF list_channel_fresh c] c(1) show ?thesis by auto
qed

section \<open>Uninterrupted operations\<close>

lemma try_send_run:
  assumes t: "threads c t = Some SIdle"
    and pop: "\<And>ch1 i. pop_free D (chan c) = (ch1, Some i) \<Longrightarrow> i < length (slots ch1)"
  shows "\<exists>n c' ch' r. run D (StartTry t v # replicate n (Step t)) c = Next c' \<and>
      try_send D v (chan c) = Some (ch', r) \<and> chan c' = ch' \<and> threads c' = threads c \<and> recvd c' = recvd c \<and>
      sent c' = sent c @ (if r = Ok () then [v] else [])"
proof -
  have T: "(threads c)(t \<mapsto> SIdle) = threads c" using t by auto
  have s0: "run D (StartTry t v # replicate n (Step t)) c
      = run D (replicate n (Step t)) (c\<lparr>threads := (threads c)(t \<mapsto> TryEmpty v)\<rparr>)" for n
    using t by (cases c) (simp add: goto_def)
  note sim = goto_def sender_step_def Let_def try_send_def T
  consider (waiting) "\<not> wq_is_empty (wait_queue (chan c))"
    | (closed) "wq_is_empty (wait_queue (chan c))" "sender_is_closed (chan c)"
    | (full) ch1 where "wq_is_empty (wait_queue (chan c))" "\<not> sender_is_closed (chan c)" "pop_free D (chan c) = (ch1, None)"
    | (room) ch1 i where "wq_is_empty (wait_queue (chan c))" "\<not> sender_is_closed (chan c)" "pop_free D (chan c) = (ch1, Some i)"
    by (cases "pop_free D (chan c)"; cases "snd (pop_free D (chan c))") auto
  then show ?thesis
  proof cases
    case waiting
    then show ?thesis unfolding s0 by (intro exI [of _ "1 :: nat"]) (simp add: sim)
  next
    case closed
    then show ?thesis unfolding s0 by (intro exI [of _ "Suc (Suc 0)"]) (simp add: sim)
  next
    case full
    then show ?thesis unfolding s0 by (intro exI [of _ "Suc (Suc (Suc 0))"]) (simp add: sim)
  next
    case room
    with pop have "i < length (slots ch1)" by blast
    with room show ?thesis unfolding s0
      by (intro exI [of _ "Suc (Suc (Suc (Suc (Suc (Suc 0)))))"]) (simp add: sim send_footer_def write_slot_def)
  qed
qed

lemma try_recv_run:
  assumes r: "resting (rphase c)"
    and pop: "\<And>ch1 i. pop_ready D (chan c) = (ch1, Some i) \<Longrightarrow>
      \<exists>ch2 v ch3. read_slot i ch1 = Some (ch2, v) \<and> return_free_slot D i ch2 = Some ch3"
  shows "\<exists>n c' ch' r. run D (StartTryRecv # replicate n RStep) c = Next c' \<and>
      try_recv D (chan c) = Some (ch', r) \<and> chan c' = ch' \<and> rphase c' = RIdle \<and> sent c' = sent c \<and>
      recvd c' = recvd c @ (case r of Inr u \<Rightarrow> [u] | Inl _ \<Rightarrow> [])"
proof -
  have s0: "run D (StartTryRecv # replicate n RStep) c = run D (replicate n RStep) (c\<lparr>rphase := RPop None\<rparr>)" for n
    using r by (cases c) (simp add: rgoto_def)
  note sim = rgoto_def receiver_step_def Let_def try_recv_def
  show ?thesis
  proof (cases "pop_ready D (chan c)")
    case (Pair ch1 x)
    show ?thesis
    proof (cases x)
      case None
      with Pair show ?thesis unfolding s0 by (intro exI [of _ "Suc (Suc 0)"]) (simp add: sim)
    next
      case (Some i)
      with Pair pop obtain ch2 v ch3 where "read_slot i ch1 = Some (ch2, v)" "return_free_slot D i ch2 = Some ch3" by blast
      with Some Pair show ?thesis unfolding s0 by (intro exI [of _ "Suc (Suc (Suc 0))"]) (simp add: sim)
    qed
  qed
qed

text \<open>
  \<open>try_send\<close> and \<open>try_recv\<close> as written are the runs of their sections without interruption, with
  the results that the logs show: \<open>Ok(())\<close> exactly when the value joins the log of sent values, and
  \<open>Ok(v)\<close> exactly when \<open>v\<close> joins the log of received ones.
\<close>

lemma channel_try_ops_are_runs:
  assumes "fresh D dl N ch" and "run D acts (conf_new D ch) = Next c"
  shows "(threads c t = Some SIdle \<longrightarrow> (\<exists>n c' ch' r. run D (StartTry t v # replicate n (Step t)) c = Next c' \<and>
      try_send D v (chan c) = Some (ch', r) \<and> chan c' = ch' \<and> threads c' = threads c \<and> recvd c' = recvd c \<and>
      sent c' = sent c @ (if r = Ok () then [v] else []))) \<and>
    (resting (rphase c) \<longrightarrow> (\<exists>n c' ch' r. run D (StartTryRecv # replicate n RStep) c = Next c' \<and>
      try_recv D (chan c) = Some (ch', r) \<and> chan c' = ch' \<and> rphase c' = RIdle \<and> sent c' = sent c \<and>
      recvd c' = recvd c @ (case r of Inr u \<Rightarrow> [u] | Inl _ \<Rightarrow> [])))"
proof (intro conjI impI)
  from fresh_run [OF assms] obtain ow ps where i: "own_inv dl N ow c" "wait_inv dl ps c" "log_inv dl c" "wake_inv dl c"
    by metis
  have D: "deque_laws D dl N" using assms(1) by (simp add: fresh_def)
  note o = own_owns [OF i(1)]
  {
    assume t: "threads c t = Some SIdle"
    show "\<exists>n c' ch' r. run D (StartTry t v # replicate n (Step t)) c = Next c' \<and>
      try_send D v (chan c) = Some (ch', r) \<and> chan c' = ch' \<and> threads c' = threads c \<and> recvd c' = recvd c \<and>
      sent c' = sent c @ (if r = Ok () then [v] else [])"
    proof (rule try_send_run [OF t])
      fix ch1 j assume p: "pop_free D (chan c) = (ch1, Some j)"
      from D have "j \<in> set (dl (freeq (chan c))) \<and> slots ch1 = slots (chan c)"
        by (cases rule: pop_front_cases [where q = "freeq (chan c)"]) (use p in \<open>auto simp: pop_free_def\<close>)
      moreover from this have "ow j = OFree" using owns_where(1) [OF o, of j] by blast
      ultimately show "j < length (slots ch1)" using own_range [OF i(1), of j] oi_len [OF i(1)] by simp
    qed
  }
  assume r: "resting (rphase c)"
  show "\<exists>n c' ch' r. run D (StartTryRecv # replicate n RStep) c = Next c' \<and>
      try_recv D (chan c) = Some (ch', r) \<and> chan c' = ch' \<and> rphase c' = RIdle \<and> sent c' = sent c \<and>
      recvd c' = recvd c @ (case r of Inr u \<Rightarrow> [u] | Inl _ \<Rightarrow> [])"
  proof (rule try_recv_run [OF r])
    fix ch1 j assume p: "pop_ready D (chan c) = (ch1, Some j)"
    have nub: "run D (acts @ [StartTryRecv] @ replicate n RStep) (conf_new D ch) \<noteq> UB" for n
      by (rule fresh_run_defined [OF assms(1)])
    have s1: "run D (acts @ [StartTryRecv] @ replicate n RStep) (conf_new D ch)
        = run D (replicate n RStep) (c\<lparr>rphase := RPop None\<rparr>)" for n
      using r by (cases c) (simp add: run_append [OF assms(2)] rgoto_def)
    from nub [of "Suc (Suc 0)"] p obtain ch2 u where ru: "read_slot j ch1 = Some (ch2, u)"
      unfolding s1 by (auto simp: rgoto_def receiver_step_def Let_def split: option.splits)
    with nub [of "Suc (Suc (Suc 0))"] p obtain ch3 where "return_free_slot D j ch2 = Some ch3"
      unfolding s1 by (auto simp: rgoto_def receiver_step_def Let_def split: option.splits)
    with ru show "\<exists>ch2 v ch3. read_slot j ch1 = Some (ch2, v) \<and> return_free_slot D j ch2 = Some ch3" by blast
  qed
qed

lemma channel_try_ops_are_runs_witness:
  "\<exists>n c' ch' r. run (list_deque 1) (StartTry 0 CHR ''a'' # replicate n (Step 0)) (conf_new (list_deque 1) (list_channel 1)) = Next c' \<and>
     try_send (list_deque 1) CHR ''a'' (split (list_deque 1) (list_channel 1)) = Some (ch', r) \<and> chan c' = ch'"
proof -
  let ?c = "conf_new (list_deque 1) (list_channel 1) :: (nat list, char) conf"
  have c: "run (list_deque 1) [] ?c = Next ?c" by simp
  have t: "threads ?c 0 = Some SIdle" "chan ?c = split (list_deque 1) (list_channel 1)"
    by (simp_all add: conf_new_def)
  from channel_try_ops_are_runs [OF list_channel_fresh c, of 0 "CHR ''a''"] t show ?thesis by auto
qed

end
