(* ===== verification/Syntax.thy ===== *)
theory Syntax
  imports Prelude
begin

text \<open>
  The part of the Rust syntax tree (the crate \<open>syn\<close>) that the compilation passes look at, and
  \<open>RticAttr\<close> of \<open>rticx-core/src/parse_utils/mod.rs\<close>.  Tokens that the passes only carry along (bodies,
  types, other items) are strings.  The argument tokens of an attribute stand for what \<open>syn\<close>'s
  \<open>meta::parser\<close> makes of them: the comma-separated list of \<open>path\<close> or \<open>path = expr\<close>, or \<open>None\<close> when it
  rejects them.  A \<open>HashMap\<close> is an association list with distinct keys in some iteration order.
  Spans, which only position error messages, are left out; errors are a datatype with one
  constructor per message.
\<close>

section \<open>Syntax trees\<close>

type_synonym ident = string

type_synonym tokens = string

text \<open>A segment with the flag whether it has (generic) arguments.\<close>

record segment =
  seg_ident :: ident
  seg_args :: bool

record path =
  leading_colon :: bool
  segments :: "segment list"

text \<open>\<open>Path::get_ident\<close>: the identifier, if the path is a single plain one.\<close>

definition get_ident :: "path \<Rightarrow> ident option" where
  "get_ident p =
     (case segments p of
        [s] \<Rightarrow> if \<not> leading_colon p \<and> \<not> seg_args s then Some (seg_ident s) else None
      | _ \<Rightarrow> None)"

definition ident_path :: "ident \<Rightarrow> path" where
  "ident_path i = \<lparr>leading_colon = False, segments = [\<lparr>seg_ident = i, seg_args = False\<rparr>]\<rparr>"

lemma get_ident_path [simp]: "get_ident (ident_path i) = Some i"
  by (simp add: get_ident_def ident_path_def)

text \<open>Expressions: a path with the flag for a qualified self type, an integer literal by its value,
  an array, the unit value, or anything else.\<close>

datatype expr = EPath bool path | EInt nat | EArray "expr list" | EUnit | EOther tokens

definition ident_expr :: "ident \<Rightarrow> expr" where
  "ident_expr i = EPath False (ident_path i)"

type_synonym arg_tokens = "(path \<times> expr option) list option"

datatype meta = MPath path | MList path arg_tokens | MNameValue path

fun meta_path :: "meta \<Rightarrow> path" where
  "meta_path (MPath p) = p"
| "meta_path (MList p a) = p"
| "meta_path (MNameValue p) = p"

record item_fn =
  fn_attrs :: "meta list"
  fn_ident :: ident
  fn_body :: tokens

record item_struct =
  st_attrs :: "meta list"
  st_ident :: ident
  st_fields :: "(ident option \<times> tokens) list"

text \<open>An impl block: the trait (if any), the self type (if it is a path), the body.\<close>

record item_impl =
  im_trait :: "path option"
  im_self :: "path option"
  im_body :: tokens

datatype item = IFn item_fn | IStruct item_struct | IImpl item_impl | IUse tokens | IOther tokens

record item_mod =
  mod_ident :: ident
  mod_content :: "item list option"

section \<open>Errors\<close>

datatype syn_error =
    SynError
  | SingleSegmentName | NotAList
  | NotIdent ident | NotPath ident | NotInt ident | IntRange ident | NotArray ident | NotIdentElem ident
  | UnknownArg ident | InitNotGenerated
  | DeviceArg | DevicesCoresMismatch | DeviceElemNotPath | DeviceNotPath
  | EmptyModule | DuplicateImpls "(ident \<times> ident) list" | TupleShared | MultipleShared nat
  | MultipleIdle nat | NoInit | MultipleInit nat | MultiplePostInit nat | NoInitForCore nat
  | UnknownResource ident ident
  | PassError ident
  | CoresZero | DispatchersNotArray | DispatcherNotPath | DispatcherElem | DispatchersCores nat nat
  | CapacityZero | OnlyStructs ident | MultipleImpls ident ident
  | CoreRange ident nat | SpawnByRange ident nat
  | OverlappingPriority nat ident | SpawnByMismatch ident ident
  | TooFewDispatchers nat nat | NoCoreId
  | MacroPanic ident | NoCoreArgShared ident | ExplicitCoreNeeded ident | DuplicatResourceName ident
  | ResourceNotFound ident | CoreMimatch ident nat | PrioZeroCrossCore ident | IdleWithPrioZero

type_synonym 'a result = "(syn_error, 'a) res"

section \<open>Attributes\<close>

record rtic_attr =
  attr_name :: ident
  elements :: "(ident \<times> expr) list"

text \<open>\<open>parse_from_tokens\<close>: later values of a key replace earlier ones, keys that are not identifiers
  are skipped, a key without a value has the value \<open>()\<close>.\<close>

definition insert_arg :: "(ident \<times> expr) list \<Rightarrow> path \<times> expr option \<Rightarrow> (ident \<times> expr) list" where
  "insert_arg es a =
     (case get_ident (fst a) of
        None \<Rightarrow> es
      | Some i \<Rightarrow> AList.update i (case snd a of Some e \<Rightarrow> e | None \<Rightarrow> EUnit) es)"

definition parse_from_tokens :: "arg_tokens \<Rightarrow> ident \<Rightarrow> rtic_attr result" where
  "parse_from_tokens ts name =
     (case ts of
        None \<Rightarrow> Err SynError
      | Some as \<Rightarrow> Ok \<lparr>attr_name = name, elements = foldl insert_arg [] as\<rparr>)"

definition from_meta :: "meta \<Rightarrow> rtic_attr result" where
  "from_meta m =
     (case get_ident (meta_path m) of
        None \<Rightarrow> Err SingleSegmentName
      | Some name \<Rightarrow>
          (case m of
             MPath _ \<Rightarrow> Ok \<lparr>attr_name = name, elements = []\<rparr>
           | MList _ ts \<Rightarrow> parse_from_tokens ts name
           | MNameValue _ \<Rightarrow> Err NotAList))"

text \<open>\<open>HashMap::remove\<close>: the attribute without the key, and the value.\<close>

definition take_expr :: "ident \<Rightarrow> rtic_attr \<Rightarrow> rtic_attr \<times> expr option" where
  "take_expr key a = (a\<lparr>elements := AList.delete key (elements a)\<rparr>, map_of (elements a) key)"

definition get_expr :: "ident \<Rightarrow> rtic_attr \<Rightarrow> expr option" where
  "get_expr key a = map_of (elements a) key"

text \<open>The common test of \<open>take_ident\<close> and \<open>take_ident_array\<close>; it does not look at segment arguments.\<close>

definition expr_ident :: "expr \<Rightarrow> ident option" where
  "expr_ident e =
     (case e of
        EPath q p \<Rightarrow>
          (case segments p of
             [s] \<Rightarrow> if \<not> q \<and> \<not> leading_colon p then Some (seg_ident s) else None
           | _ \<Rightarrow> None)
      | _ \<Rightarrow> None)"

definition take_ident :: "ident \<Rightarrow> rtic_attr \<Rightarrow> rtic_attr \<times> ident option result" where
  "take_ident key a =
     (case take_expr key a of
        (a', None) \<Rightarrow> (a', Ok None)
      | (a', Some e) \<Rightarrow> (a', case expr_ident e of Some i \<Rightarrow> Ok (Some i) | None \<Rightarrow> Err (NotIdent key)))"

definition take_path :: "ident \<Rightarrow> rtic_attr \<Rightarrow> rtic_attr \<times> path option result" where
  "take_path key a =
     (case take_expr key a of
        (a', None) \<Rightarrow> (a', Ok None)
      | (a', Some (EPath False p)) \<Rightarrow> (a', Ok (Some p))
      | (a', Some _) \<Rightarrow> (a', Err (NotPath key)))"

text \<open>\<open>take_u16\<close>, \<open>take_u32\<close> and \<open>take_usize\<close> at the widths 16, 32 and the one of \<open>usize\<close>: the decimal
  digits are parsed into the type, which fails for values out of its range.\<close>

definition take_int :: "ident \<Rightarrow> rtic_attr \<Rightarrow> rtic_attr \<times> 'w::len word option result" where
  "take_int key a =
     (case take_expr key a of
        (a', None) \<Rightarrow> (a', Ok None)
      | (a', Some (EInt n)) \<Rightarrow>
          (a', if n < 2 ^ LENGTH('w) then Ok (Some (of_nat n)) else Err (IntRange key))
      | (a', Some _) \<Rightarrow> (a', Err (NotInt key)))"

definition take_ident_array :: "ident \<Rightarrow> rtic_attr \<Rightarrow> rtic_attr \<times> ident list option result" where
  "take_ident_array key a =
     (case take_expr key a of
        (a', None) \<Rightarrow> (a', Ok None)
      | (a', Some (EArray es)) \<Rightarrow>
          (a', rmap Some (rcollect (\<lambda>e. case expr_ident e of
             Some i \<Rightarrow> Ok i | None \<Rightarrow> Err (NotIdentElem key)) es))
      | (a', Some _) \<Rightarrow> (a', Err (NotArray key)))"

definition ensure_supported :: "ident list \<Rightarrow> rtic_attr \<Rightarrow> unit result" where
  "ensure_supported supported a =
     (case List.find (\<lambda>k. k \<notin> set supported) (map fst (elements a)) of
        Some unknown \<Rightarrow> Err (UnknownArg unknown)
      | None \<Rightarrow> Ok ())"

text \<open>The arguments that get a warning item.\<close>

definition unsupported_warnings :: "ident list \<Rightarrow> rtic_attr \<Rightarrow> (ident \<times> ident) list" where
  "unsupported_warnings supported a =
     map (\<lambda>k. (attr_name a, k)) (filter (\<lambda>k. k \<notin> set supported) (map fst (elements a)))"

text \<open>\<open>args_tokens\<close> and \<open>to_tokens\<close>: the argument list and the attribute written out again.\<close>

definition args_tokens :: "rtic_attr \<Rightarrow> arg_tokens" where
  "args_tokens a = Some (map (\<lambda>(k, e). (ident_path k, Some e)) (elements a))"

definition attr_tokens :: "rtic_attr \<Rightarrow> meta" where
  "attr_tokens a = MList (ident_path (attr_name a)) (args_tokens a)"

section \<open>Laws of the accessors\<close>

text \<open>An attribute as the parser builds it: distinct keys.\<close>

definition attr_wf :: "rtic_attr \<Rightarrow> bool" where
  "attr_wf a \<longleftrightarrow> distinct (map fst (elements a))"

lemma insert_arg_distinct: "distinct (map fst es) \<Longrightarrow> distinct (map fst (insert_arg es a))"
  by (auto simp: insert_arg_def distinct_update split: option.split)

lemma parse_from_tokens_wf: "parse_from_tokens ts name = Inr a \<Longrightarrow> attr_wf a \<and> attr_name a = name"
proof -
  have "distinct (map fst es) \<Longrightarrow> distinct (map fst (foldl insert_arg es as))" for es as
    by (induction as arbitrary: es) (auto intro: insert_arg_distinct)
  then show "parse_from_tokens ts name = Inr a \<Longrightarrow> attr_wf a \<and> attr_name a = name"
    by (auto simp: parse_from_tokens_def attr_wf_def split: option.splits)
qed

lemma from_meta_wf: "from_meta m = Inr a \<Longrightarrow> attr_wf a \<and> get_ident (meta_path m) = Some (attr_name a)"
  by (auto simp: from_meta_def attr_wf_def split: option.splits meta.splits dest: parse_from_tokens_wf)

lemma take_expr_wf: "attr_wf a \<Longrightarrow> attr_wf (fst (take_expr key a))"
  by (simp add: attr_wf_def take_expr_def distinct_delete)

lemma take_expr_other: "k \<noteq> key \<Longrightarrow> get_expr k (fst (take_expr key a)) = get_expr k a"
  by (simp add: take_expr_def get_expr_def map_of_delete)

lemma take_expr_self: "get_expr key (fst (take_expr key a)) = None"
  by (simp add: take_expr_def get_expr_def map_of_delete)

lemma fst_take:
  "fst (take_ident key a) = fst (take_expr key a)" "fst (take_path key a) = fst (take_expr key a)"
  "fst (take_ident_array key a) = fst (take_expr key a)" "fst (take_int key a) = fst (take_expr key a)"
  by (auto simp: take_ident_def take_path_def take_ident_array_def take_int_def split: prod.split option.split expr.split bool.split)

lemma get_take:
  "get_expr k (fst (take_expr key a)) = (if k = key then None else get_expr k a)"
  by (simp add: take_expr_self take_expr_other)

lemma snd_take:
  "snd (take_expr key a) = get_expr key a"
  "snd (take_ident key a) = (case get_expr key a of None \<Rightarrow> Ok None
     | Some e \<Rightarrow> (case expr_ident e of Some i \<Rightarrow> Ok (Some i) | None \<Rightarrow> Err (NotIdent key)))"
  "snd (take_int key a) = (case get_expr key a of None \<Rightarrow> Ok None
     | Some (EInt n) \<Rightarrow> (if n < 2 ^ LENGTH('w::len) then Ok (Some (of_nat n :: 'w word)) else Err (IntRange key))
     | Some _ \<Rightarrow> Err (NotInt key))"
  "snd (take_ident_array key a) = (case get_expr key a of None \<Rightarrow> Ok None
     | Some (EArray es) \<Rightarrow> rmap Some (rcollect (\<lambda>e. case expr_ident e of
         Some i \<Rightarrow> Ok i | None \<Rightarrow> Err (NotIdentElem key)) es)
     | Some _ \<Rightarrow> Err (NotArray key))"
  by (auto simp: take_ident_def take_int_def take_ident_array_def take_expr_def get_expr_def
      split: option.split expr.split)

text \<open>The two halves of an accessor call, so that a chain of calls reduces to lookups.\<close>

lemma take_pair:
  "take_expr key a = (fst (take_expr key a), snd (take_expr key a))"
  "take_ident key a = (fst (take_expr key a), snd (take_ident key a))"
  "take_int key a = (fst (take_expr key a), snd (take_int key a))"
  "take_ident_array key a = (fst (take_expr key a), snd (take_ident_array key a))"
  by (simp_all add: fst_take prod_eq_iff)

lemma ensure_supported_ok: "ensure_supported s a = Inr u \<longleftrightarrow> (\<forall>k e. get_expr k a = Some e \<longrightarrow> k \<in> set s)"
proof -
  have "List.find (\<lambda>k. k \<notin> set s) (map fst (elements a)) = None \<longleftrightarrow> fst ` set (elements a) \<subseteq> set s"
    by (auto simp: find_None_iff)
  also have "\<dots> \<longleftrightarrow> (\<forall>k e. map_of (elements a) k = Some e \<longrightarrow> k \<in> set s)"
    by (metis (no_types, lifting) dom_map_of_conv_image_fst domIff not_None_eq subset_iff)
  finally show ?thesis by (auto simp: ensure_supported_def get_expr_def split: option.split)
qed

lemma foldl_insert_args:
  assumes "distinct (map fst es)"
  shows "map_of (foldl insert_arg acc (map (\<lambda>(k, e). (ident_path k, Some e)) es)) = map_of acc ++ map_of es"
  using assms
proof (induction es arbitrary: acc)
  case Nil
  then show ?case by simp
next
  case (Cons x es)
  obtain k e where x: "x = (k, e)" by (cases x)
  from Cons.prems x have "k \<notin> dom (map_of es)" by (auto simp: dom_map_of_conv_image_fst)
  with Cons x show ?case
    by (auto simp: insert_arg_def map_of_update fun_eq_iff map_add_def split: option.split)
qed

lemma from_meta_attr_tokens:
  "attr_wf a \<Longrightarrow> \<exists>b. from_meta (attr_tokens a) = Inr b \<and> attr_name b = attr_name a \<and> (\<forall>k. get_expr k b = get_expr k a)"
  using foldl_insert_args [of "elements a" "[]"]
  by (simp add: from_meta_def attr_tokens_def args_tokens_def parse_from_tokens_def attr_wf_def get_expr_def)



end
