(* ===== verification/CoreParser.thy ===== *)
theory CoreParser
  imports Syntax
begin

text \<open>
  The parser of the core pass: \<open>rticx-core/src/parser/ast.rs\<close> and \<open>rticx-core/src/parser/mod.rs\<close>.  It
  collects the annotated items of the app module and partitions them into one sub-application per
  core.  Cores are \<open>u32\<close> and priorities \<open>u16\<close> words; a map from cores is a function with finite domain
  whose entries \<open>App::parse\<close> removes one by one.  \<open>heck\<close>'s snake-case conversion is the parameter
  \<open>snake\<close> of the naming functions.
\<close>

section \<open>Arguments of the attributes\<close>

type_synonym core = "32 word"

type_synonym prio = "16 word"

definition DEFAULT_TASK_PRIORITY :: prio where
  "DEFAULT_TASK_PRIORITY = 1"

definition HWT_TRAIT_TY :: ident where
  "HWT_TRAIT_TY = ''RticTask''"

definition IDLE_TRAIT_TY :: ident where
  "IDLE_TRAIT_TY = ''RticIdleTask''"

text \<open>\<open>InitTaskArgs\<close> and \<open>SharedResourcesArgs\<close>: both hold the core only, and parse alike.\<close>

definition core_args_parse :: "meta \<Rightarrow> core result" where
  "core_args_parse m =
     rbind (from_meta m) (\<lambda>a.
     rbind (ensure_supported [''core''] a) (\<lambda>_.
     rbind (snd (take_int ''core'' a)) (\<lambda>c.
     Ok (case c of None \<Rightarrow> 0 | Some n \<Rightarrow> n))))"

record task_args =
  ta_binds :: "ident option"
  ta_priority :: prio
  ta_shared :: "ident list"
  ta_core :: core
  ta_trait :: ident
  ta_generated :: bool

definition task_args_parse :: "meta \<Rightarrow> task_args result" where
  "task_args_parse m =
     rbind (from_meta m) (\<lambda>a0.
     rbind (ensure_supported [''binds'', ''priority'', ''shared'', ''core'', ''task_trait'', ''init''] a0) (\<lambda>_.
     case take_ident ''binds'' a0 of (a1, r1) \<Rightarrow> rbind r1 (\<lambda>binds.
     case take_int ''priority'' a1 of (a2, r2) \<Rightarrow> rbind r2 (\<lambda>priority.
     case take_ident_array ''shared'' a2 of (a3, r3) \<Rightarrow> rbind r3 (\<lambda>shared.
     case take_int ''core'' a3 of (a4, r4) \<Rightarrow> rbind r4 (\<lambda>core.
     case take_ident ''task_trait'' a4 of (a5, r5) \<Rightarrow> rbind r5 (\<lambda>task_trait.
     case take_expr ''init'' a5 of (a6, init) \<Rightarrow>
     rbind
       (case init of
          None \<Rightarrow> Ok False
        | Some (EPath q p) \<Rightarrow> if get_ident p = Some ''generated'' then Ok True else Err InitNotGenerated
        | Some _ \<Rightarrow> Err InitNotGenerated) (\<lambda>generated.
     Ok \<lparr>ta_binds = binds,
         ta_priority = (case priority of None \<Rightarrow> DEFAULT_TASK_PRIORITY | Some n \<Rightarrow> n),
         ta_shared = (case shared of None \<Rightarrow> [] | Some xs \<Rightarrow> xs),
         ta_core = (case core of None \<Rightarrow> 0 | Some n \<Rightarrow> n),
         ta_trait = (case task_trait of None \<Rightarrow> HWT_TRAIT_TY | Some i \<Rightarrow> i),
         ta_generated = generated\<rparr>))))))))"

record app_args =
  aa_pacs :: "path list"
  aa_cores :: core
  aa_warnings :: "(ident \<times> ident) list"

definition app_args_parse :: "arg_tokens \<Rightarrow> app_args result" where
  "app_args_parse ts =
     rbind (parse_from_tokens ts ''app'') (\<lambda>a0.
     case take_int ''cores'' a0 of (a1, r1) \<Rightarrow> rbind r1 (\<lambda>c.
     let cores = (case c of None \<Rightarrow> 1 | Some n \<Rightarrow> n) in
     case take_expr ''device'' a1 of (a2, dev) \<Rightarrow>
     rbind (case dev of None \<Rightarrow> Err DeviceArg | Some d \<Rightarrow> Ok d) (\<lambda>device.
     rbind
       (case device of
          EArray elems \<Rightarrow>
            if length elems \<noteq> unat cores then Err DevicesCoresMismatch
            else rcollect (\<lambda>e. case e of EPath False p \<Rightarrow> Ok p | _ \<Rightarrow> Err DeviceElemNotPath) elems
        | EPath False p \<Rightarrow> Ok (replicate (unat cores) p)
        | _ \<Rightarrow> Err DeviceNotPath) (\<lambda>pacs.
     Ok \<lparr>aa_pacs = pacs, aa_cores = cores, aa_warnings = unsupported_warnings [''device'', ''cores''] a2\<rparr>))))"

section \<open>Tasks and resources\<close>

record init_task =
  in_core :: core
  in_ident :: ident
  in_body :: item_fn

record rtic_task =
  rt_args :: task_args
  rt_struct :: item_struct
  rt_impl :: "item_impl option"

definition task_name :: "rtic_task \<Rightarrow> ident" where
  "task_name t = st_ident (rt_struct t)"

text \<open>The names of the statics and fields generated for a task; \<open>upper\<close> is \<open>str::to_uppercase\<close>.\<close>

definition uppercase_ident :: "(ident \<Rightarrow> ident) \<Rightarrow> (ident \<Rightarrow> ident) \<Rightarrow> ident \<Rightarrow> ident" where
  "uppercase_ident snake upper i = upper (snake i)"

definition snakecase_ident :: "(ident \<Rightarrow> ident) \<Rightarrow> ident \<Rightarrow> ident" where
  "snakecase_ident snake i = snake i"

record shared_element =
  se_ident :: ident
  se_ty :: tokens
  se_priority :: prio

record shared_resources =
  sr_core :: core
  sr_struct :: item_struct
  sr_resources :: "shared_element list"

definition get_field :: "ident \<Rightarrow> shared_resources \<Rightarrow> shared_element option" where
  "get_field name sr = List.find (\<lambda>f. se_ident f = name) (sr_resources sr)"

text \<open>\<open>get_field_mut\<close> with the assignment its only caller makes: update the first such field.\<close>

fun upd_first :: "('a \<Rightarrow> bool) \<Rightarrow> ('a \<Rightarrow> 'a) \<Rightarrow> 'a list \<Rightarrow> 'a list" where
  "upd_first P f [] = []"
| "upd_first P f (x # xs) = (if P x then f x # xs else x # upd_first P f xs)"

definition get_field_mut :: "ident \<Rightarrow> (shared_element \<Rightarrow> shared_element) \<Rightarrow> shared_resources \<Rightarrow> shared_resources option" where
  "get_field_mut name f sr =
     (case get_field name sr of
        None \<Rightarrow> None
      | Some _ \<Rightarrow> Some (sr\<lparr>sr_resources := upd_first (\<lambda>e. se_ident e = name) f (sr_resources sr)\<rparr>))"

record sub_app =
  sa_core :: core
  sa_shared :: "shared_resources option"
  sa_init :: init_task
  sa_post_init :: "init_task option"
  sa_idle :: "rtic_task option"
  sa_tasks :: "rtic_task list"

record app =
  app_name :: ident
  app_args :: app_args
  sub_apps :: "sub_app list"
  user_includes :: "tokens list"
  other_code :: "item list"

section \<open>Collecting the items\<close>

text \<open>The index of the first attribute whose path is the single segment \<open>name\<close>.\<close>

definition names_attr :: "ident \<Rightarrow> meta \<Rightarrow> bool" where
  "names_attr name m = (case segments (meta_path m) of [s] \<Rightarrow> seg_ident s = name | _ \<Rightarrow> False)"

fun find_attr :: "ident \<Rightarrow> meta list \<Rightarrow> nat option" where
  "find_attr name [] = None"
| "find_attr name (m # ms) = (if names_attr name m then Some 0 else map_option Suc (find_attr name ms))"

definition is_init :: "item_fn \<Rightarrow> nat option" where
  "is_init f = find_attr ''init'' (fn_attrs f)"

definition is_post_init :: "item_fn \<Rightarrow> nat option" where
  "is_post_init f = find_attr ''post_init'' (fn_attrs f)"

definition is_struct_with_attr :: "item_struct \<Rightarrow> ident \<Rightarrow> nat option" where
  "is_struct_with_attr s name = find_attr name (st_attrs s)"

definition last_ident :: "path \<Rightarrow> ident option" where
  "last_ident p = (if segments p = [] then None else Some (seg_ident (last (segments p))))"

definition capture_trait_impl :: "item_impl \<Rightarrow> ident option" where
  "capture_trait_impl im =
     (case (im_trait im, im_self im) of
        (Some tr, Some self_ty) \<Rightarrow> if segments tr = [] then None else last_ident self_ty
      | _ \<Rightarrow> None)"

definition impl_trait_str :: "item_impl \<Rightarrow> ident option" where
  "impl_trait_str im = Option.bind (im_trait im) last_ident"

record collected =
  c_shared :: "(item_struct \<times> nat) list"
  c_inits :: "(item_fn \<times> nat) list"
  c_post_inits :: "(item_fn \<times> nat) list"
  c_idles :: "(item_struct \<times> nat) list"
  c_tasks :: "(item_struct \<times> nat) list"
  c_impls :: "(ident \<times> item_impl list) list"
  c_includes :: "tokens list"
  c_other :: "item list"
  c_errors :: "(ident \<times> ident) list"

definition collected_empty :: collected where
  "collected_empty = \<lparr>c_shared = [], c_inits = [], c_post_inits = [], c_idles = [], c_tasks = [],
     c_impls = [], c_includes = [], c_other = [], c_errors = []\<rparr>"

definition impls_of :: "ident \<Rightarrow> (ident \<times> item_impl list) list \<Rightarrow> item_impl list" where
  "impls_of name ims = (case map_of ims name of None \<Rightarrow> [] | Some l \<Rightarrow> l)"

fun collect_item :: "collected \<Rightarrow> item \<Rightarrow> collected" where
  "collect_item c (IFn f) =
     (case is_init f of
        Some i \<Rightarrow> c\<lparr>c_inits := c_inits c @ [(f, i)]\<rparr>
      | None \<Rightarrow> (case is_post_init f of
          Some i \<Rightarrow> c\<lparr>c_post_inits := c_post_inits c @ [(f, i)]\<rparr>
        | None \<Rightarrow> c\<lparr>c_other := c_other c @ [IFn f]\<rparr>))"
| "collect_item c (IStruct s) =
     (case is_struct_with_attr s ''task'' of
        Some i \<Rightarrow> c\<lparr>c_tasks := c_tasks c @ [(s, i)]\<rparr>
      | None \<Rightarrow> (case is_struct_with_attr s ''shared'' of
          Some i \<Rightarrow> c\<lparr>c_shared := c_shared c @ [(s, i)]\<rparr>
        | None \<Rightarrow> (case is_struct_with_attr s ''idle'' of
            Some i \<Rightarrow> c\<lparr>c_idles := c_idles c @ [(s, i)]\<rparr>
          | None \<Rightarrow> c\<lparr>c_other := c_other c @ [IStruct s]\<rparr>)))"
| "collect_item c (IImpl im) =
     (case capture_trait_impl im of
        Some implementor \<Rightarrow>
          (let impls = impls_of implementor (c_impls c);
               dup = (\<exists>e \<in> set impls. impl_trait_str e = impl_trait_str im);
               trait_str = (case impl_trait_str im of Some s \<Rightarrow> s | None \<Rightarrow> ''?'')
           in c\<lparr>c_errors := c_errors c @ (if dup then [(trait_str, implementor)] else []),
                c_impls := AList.update implementor (impls @ [im]) (c_impls c)\<rparr>)
      | None \<Rightarrow> c\<lparr>c_other := c_other c @ [IImpl im]\<rparr>)"
| "collect_item c (IUse u) = c\<lparr>c_includes := c_includes c @ [u]\<rparr>"
| "collect_item c (IOther t) = c\<lparr>c_other := c_other c @ [IOther t]\<rparr>"

definition collect_items :: "item list \<Rightarrow> collected" where
  "collect_items items = foldl collect_item collected_empty items"

text \<open>The combined error: the last one with the earlier ones appended.\<close>

definition combine_errors :: "(ident \<times> ident) list \<Rightarrow> syn_error option" where
  "combine_errors es = (if es = [] then None else Some (DuplicateImpls (last es # butlast es)))"

section \<open>Constructing the tasks per core\<close>

definition remove_nth :: "nat \<Rightarrow> 'a list \<Rightarrow> 'a list" where
  "remove_nth i xs = take i xs @ drop (Suc i) xs"

definition shared_element_of :: "ident option \<times> tokens \<Rightarrow> shared_element result" where
  "shared_element_of f =
     (case fst f of
        None \<Rightarrow> Err TupleShared
      | Some i \<Rightarrow> Ok \<lparr>se_ident = i, se_ty = snd f, se_priority = 0\<rparr>)"

text \<open>The bodies of the loops that insert one struct or function each.\<close>

definition insert_shared :: "(core \<rightharpoonup> shared_resources) \<Rightarrow> item_struct \<times> nat \<Rightarrow> (core \<rightharpoonup> shared_resources) result" where
  "insert_shared out si =
     (case si of (strct, i) \<Rightarrow>
       let s' = strct\<lparr>st_attrs := remove_nth i (st_attrs strct)\<rparr> in
       rbind (core_args_parse (st_attrs strct ! i)) (\<lambda>core.
       if out core \<noteq> None then Err (MultipleShared (unat core))
       else rbind (rcollect shared_element_of (st_fields strct)) (\<lambda>elems.
         Ok (out(core \<mapsto> \<lparr>sr_core = core, sr_struct = s', sr_resources = elems\<rparr>)))))"

definition construct_shared_resources :: "(item_struct \<times> nat) list \<Rightarrow> (core \<rightharpoonup> shared_resources) result" where
  "construct_shared_resources ss = rfold insert_shared Map.empty ss"

definition find_impl :: "(ident \<times> item_impl list) list \<Rightarrow> ident \<Rightarrow> ident \<Rightarrow> item_impl option" where
  "find_impl impls strct trait_name =
     Option.bind (map_of impls strct) (List.find (\<lambda>im. impl_trait_str im = Some trait_name))"

definition insert_task :: "(ident \<times> item_impl list) list \<Rightarrow> (core \<rightharpoonup> rtic_task list) \<Rightarrow> item_struct \<times> nat \<Rightarrow>
    (core \<rightharpoonup> rtic_task list) result" where
  "insert_task impls out si =
     (case si of (strct, i) \<Rightarrow>
       let s' = strct\<lparr>st_attrs := remove_nth i (st_attrs strct)\<rparr> in
       rbind (task_args_parse (st_attrs strct ! i)) (\<lambda>args.
       let struct_impl = find_impl impls (st_ident strct) (ta_trait args);
           tasks = (case out (ta_core args) of None \<Rightarrow> [] | Some ts \<Rightarrow> ts)
       in Ok (out(ta_core args \<mapsto>
            tasks @ [\<lparr>rt_args = args, rt_struct = s', rt_impl = struct_impl\<rparr>]))))"

definition construct_rtic_tasks ::
  "(ident \<times> item_impl list) list \<Rightarrow> (item_struct \<times> nat) list \<Rightarrow> (core \<rightharpoonup> rtic_task list) result" where
  "construct_rtic_tasks impls ss = rfold (insert_task impls) Map.empty ss"

definition insert_idle :: "(ident \<times> item_impl list) list \<Rightarrow> (core \<rightharpoonup> rtic_task) \<Rightarrow> item_struct \<times> nat \<Rightarrow>
    (core \<rightharpoonup> rtic_task) result" where
  "insert_idle impls out si =
     (case si of (strct, i) \<Rightarrow>
       let struct_impl = find_impl impls (st_ident strct) IDLE_TRAIT_TY;
           s' = strct\<lparr>st_attrs := remove_nth i (st_attrs strct)\<rparr> in
       rbind (task_args_parse (st_attrs strct ! i)) (\<lambda>args0.
       let args = args0\<lparr>ta_trait := IDLE_TRAIT_TY\<rparr>; core = ta_core args in
       if out core \<noteq> None then Err (MultipleIdle (unat core))
       else Ok (out(core \<mapsto> \<lparr>rt_args = args, rt_struct = s', rt_impl = struct_impl\<rparr>))))"

definition construct_idle_tasks ::
  "(ident \<times> item_impl list) list \<Rightarrow> (item_struct \<times> nat) list \<Rightarrow> (core \<rightharpoonup> rtic_task) result" where
  "construct_idle_tasks impls ss = rfold (insert_idle impls) Map.empty ss"

definition insert_fn :: "(nat \<Rightarrow> syn_error) \<Rightarrow> (core \<rightharpoonup> init_task) \<Rightarrow> item_fn \<times> nat \<Rightarrow> (core \<rightharpoonup> init_task) result" where
  "insert_fn dup out fi =
     (case fi of (f, i) \<Rightarrow>
       let f' = f\<lparr>fn_attrs := remove_nth i (fn_attrs f)\<rparr> in
       rbind (core_args_parse (fn_attrs f ! i)) (\<lambda>core.
       if out core \<noteq> None then Err (dup (unat core))
       else Ok (out(core \<mapsto> \<lparr>in_core = core, in_ident = fn_ident f', in_body = f'\<rparr>))))"

definition construct_inits :: "(item_fn \<times> nat) list \<Rightarrow> (core \<rightharpoonup> init_task) result" where
  "construct_inits fs = (if fs = [] then Err NoInit else rfold (insert_fn MultipleInit) Map.empty fs)"

definition construct_post_inits :: "(item_fn \<times> nat) list \<Rightarrow> (core \<rightharpoonup> init_task) result" where
  "construct_post_inits fs = rfold (insert_fn MultiplePostInit) Map.empty fs"

section \<open>The application\<close>

text \<open>\<open>0..args.cores\<close>.\<close>

definition core_list :: "core \<Rightarrow> core list" where
  "core_list n = map of_nat [0..<unat n]"

text \<open>The sub-application of one core; the maps keep the entries that no core has removed, which are
  dropped at the end.\<close>

definition build_sub_app :: "(core \<rightharpoonup> shared_resources) \<Rightarrow> (core \<rightharpoonup> init_task) \<Rightarrow> (core \<rightharpoonup> init_task) \<Rightarrow>
    (core \<rightharpoonup> rtic_task) \<Rightarrow> (core \<rightharpoonup> rtic_task list) \<Rightarrow> core \<Rightarrow> sub_app result" where
  "build_sub_app shared inits post_inits idles tasks core =
     (case inits core of
        None \<Rightarrow> Err (NoInitForCore (unat core))
      | Some init \<Rightarrow> Ok \<lparr>sa_core = core, sa_shared = shared core, sa_init = init,
          sa_post_init = post_inits core, sa_idle = idles core,
          sa_tasks = (case tasks core of None \<Rightarrow> [] | Some ts \<Rightarrow> ts)\<rparr>)"

definition app_parse :: "arg_tokens \<Rightarrow> item_mod \<Rightarrow> app result" where
  "app_parse args_ts m =
     rbind (app_args_parse args_ts) (\<lambda>args.
     rbind (case mod_content m of None \<Rightarrow> Err EmptyModule | Some items \<Rightarrow> Ok items) (\<lambda>items.
     let c = collect_items items in
     rbind (case combine_errors (c_errors c) of Some e \<Rightarrow> Err e | None \<Rightarrow> Ok ()) (\<lambda>_.
     rbind (construct_shared_resources (c_shared c)) (\<lambda>shared.
     rbind (construct_inits (c_inits c)) (\<lambda>inits.
     rbind (construct_post_inits (c_post_inits c)) (\<lambda>post_inits.
     rbind (construct_idle_tasks (c_impls c) (c_idles c)) (\<lambda>idles.
     rbind (construct_rtic_tasks (c_impls c) (c_tasks c)) (\<lambda>tasks.
     rbind (rcollect (build_sub_app shared inits post_inits idles tasks) (core_list (aa_cores args))) (\<lambda>subs.
     Ok \<lparr>app_name = mod_ident m, app_args = args, sub_apps = subs, user_includes = c_includes c,
         other_code = c_other c\<rparr>)))))))))"

section \<open>Attribute arguments\<close>

text \<open>The reading of an integer argument with a default.\<close>

definition int_arg :: "ident \<Rightarrow> rtic_attr \<Rightarrow> 'w::len word \<Rightarrow> 'w word \<Rightarrow> bool" where
  "int_arg key a d v \<longleftrightarrow> (get_expr key a = None \<and> v = d) \<or> get_expr key a = Some (EInt (unat v))"

definition ident_arg :: "ident \<Rightarrow> rtic_attr \<Rightarrow> ident option \<Rightarrow> ident option \<Rightarrow> bool" where
  "ident_arg key a d v \<longleftrightarrow> (get_expr key a = None \<and> v = d) \<or>
     (\<exists>e i. get_expr key a = Some e \<and> expr_ident e = Some i \<and> v = Some i)"

lemma take_int_arg:
  "snd (take_int key a) = Inr (x :: 'w::len word option) \<and> v = (case x of None \<Rightarrow> d | Some n \<Rightarrow> n) \<Longrightarrow> int_arg key a d v"
  by (auto simp: snd_take int_arg_def unat_of_nat_small split: option.splits expr.splits if_splits)

lemma int_arg_take:
  "int_arg key a d v \<Longrightarrow> \<exists>x. snd (take_int key a) = Inr (x :: 'w::len word option) \<and> v = (case x of None \<Rightarrow> d | Some n \<Rightarrow> n)"
  by (auto simp: snd_take int_arg_def unsigned_less)

lemma int_arg_iff:
  "int_arg key a d (v :: 'w::len word) \<longleftrightarrow>
     (\<exists>x. snd (take_int key a) = Inr x \<and> v = (case x of None \<Rightarrow> d | Some n \<Rightarrow> n))"
  using take_int_arg int_arg_take by blast

lemma ident_arg_iff:
  "ident_arg key a None v \<longleftrightarrow> snd (take_ident key a) = Inr v"
  by (auto simp: snd_take ident_arg_def split: option.splits)

lemma get_expr_cong_take:
  assumes "get_expr key a = get_expr key b"
  shows "snd (take_int key a) = snd (take_int key b)" "snd (take_ident key a) = snd (take_ident key b)"
    "snd (take_ident_array key a) = snd (take_ident_array key b)" "snd (take_expr key a) = snd (take_expr key b)"
  using assms by (simp_all add: snd_take)

text \<open>
  \<open>core = N\<close> of \<open>#[init]\<close>, \<open>#[post_init]\<close> and \<open>#[shared]\<close> is accepted exactly when it is an integer
  literal that fits \<open>u32\<close> and the only argument; its value is then the number written, never a
  truncation, and 0 when it is omitted.
\<close>

lemma core_args_parse_exact:
  "core_args_parse m = Ok c \<longleftrightarrow>
     (\<exists>a. from_meta m = Ok a \<and> (\<forall>k e. get_expr k a = Some e \<longrightarrow> k = ''core'') \<and> int_arg ''core'' a 0 c)"
  by (auto simp: core_args_parse_def ensure_supported_ok int_arg_iff)

lemma core_args_parse_exact_witness:
  "core_args_parse (MList (ident_path ''init'') (Some [(ident_path ''core'', Some (EInt 1))])) = Ok 1"
proof -
  have "from_meta (MList (ident_path ''init'') (Some [(ident_path ''core'', Some (EInt 1))]))
      = Ok \<lparr>attr_name = ''init'', elements = [(''core'', EInt 1)]\<rparr>"
    by (simp add: from_meta_def parse_from_tokens_def insert_arg_def)
  then show ?thesis
    by (subst core_args_parse_exact) (auto simp: get_expr_def int_arg_def split: if_splits)
qed

lemma take_after:
  assumes "key \<noteq> k"
  shows "snd (take_int key (fst (take_expr k a))) = snd (take_int key a)"
    "snd (take_ident key (fst (take_expr k a))) = snd (take_ident key a)"
    "snd (take_ident_array key (fst (take_expr k a))) = snd (take_ident_array key a)"
    "snd (take_expr key (fst (take_expr k a))) = snd (take_expr key a)"
  using assms by (simp_all add: snd_take get_take)

definition array_arg :: "ident \<Rightarrow> rtic_attr \<Rightarrow> ident list \<Rightarrow> bool" where
  "array_arg key a xs \<longleftrightarrow> (get_expr key a = None \<and> xs = []) \<or>
     (\<exists>es. get_expr key a = Some (EArray es) \<and> map expr_ident es = map Some xs)"

lemma rcollect_option:
  "rcollect (\<lambda>e. case f e of Some i \<Rightarrow> Ok i | None \<Rightarrow> Err x) es = Inr ys \<longleftrightarrow> map f es = map Some ys"
  by (induction es arbitrary: ys) (auto split: option.splits)

lemma array_arg_iff:
  "array_arg key a xs \<longleftrightarrow> (\<exists>x. snd (take_ident_array key a) = Inr x \<and> xs = (case x of None \<Rightarrow> [] | Some ys \<Rightarrow> ys))"
  by (auto simp: array_arg_def snd_take rcollect_option split: option.split expr.splits)

lemma ident_arg_default:
  "ident_arg key a (Some d) (Some v) \<longleftrightarrow>
     (\<exists>x. snd (take_ident key a) = Inr x \<and> v = (case x of None \<Rightarrow> d | Some i \<Rightarrow> i))"
  by (auto simp: snd_take ident_arg_def split: option.splits)

definition attr_of :: "ident \<Rightarrow> (ident \<times> expr) list \<Rightarrow> meta" where
  "attr_of n es = MList (ident_path n) (Some (map (\<lambda>(k, e). (ident_path k, Some e)) es))"

text \<open>What the fields of the arguments are, for the accessors' view of an attribute.\<close>

definition task_args_spec :: "rtic_attr \<Rightarrow> task_args \<Rightarrow> bool" where
  "task_args_spec a r \<longleftrightarrow>
     (\<forall>k e. get_expr k a = Some e \<longrightarrow>
        k \<in> {''binds'', ''priority'', ''shared'', ''core'', ''task_trait'', ''init''}) \<and>
     ident_arg ''binds'' a None (ta_binds r) \<and>
     int_arg ''priority'' a 1 (ta_priority r) \<and>
     array_arg ''shared'' a (ta_shared r) \<and>
     int_arg ''core'' a 0 (ta_core r) \<and>
     ident_arg ''task_trait'' a (Some ''RticTask'') (Some (ta_trait r)) \<and>
     (if ta_generated r then \<exists>q p. get_expr ''init'' a = Some (EPath q p) \<and> get_ident p = Some ''generated''
      else get_expr ''init'' a = None)"

lemma task_args_parse_spec:
  "task_args_parse m = Inr r \<longleftrightarrow> (\<exists>a. from_meta m = Inr a \<and> task_args_spec a r)"
proof -
  have init: "(case get_expr ''init'' a of None \<Rightarrow> Ok False
        | Some (EPath q p) \<Rightarrow> if get_ident p = Some ''generated'' then Ok True else Err InitNotGenerated
        | Some _ \<Rightarrow> Err InitNotGenerated) = Ok g \<longleftrightarrow>
      (if g then \<exists>q p. get_expr ''init'' a = Some (EPath q p) \<and> get_ident p = Some ''generated''
      else get_expr ''init'' a = None)" for a g
    by (auto split: option.split expr.split)
  show ?thesis
    unfolding task_args_parse_def task_args_spec_def array_arg_iff int_arg_iff ident_arg_iff ident_arg_default
      DEFAULT_TASK_PRIORITY_def HWT_TRAIT_TY_def
    apply (simp add: case_prod_beta fst_take take_after ensure_supported_ok)
    apply (cases r)
    apply (simp add: snd_take(1) init)
    apply (intro iff_exI conj_cong refl)
    by (cases "ta_generated r") auto
qed

text \<open>
  (C14) The arguments of \<open>#[task]\<close>: parsing succeeds exactly when every argument is a known one of the
  right form and the numbers fit their types; each field is the argument's value or, if it is omitted,
  the default (priority 1, core 0, no shared resources, the trait \<open>RticTask\<close>).
\<close>

theorem task_args_parse_exact:
  "task_args_parse m = Ok r \<longleftrightarrow> (\<exists>a. from_meta m = Ok a \<and>
     (\<forall>k e. get_expr k a = Some e \<longrightarrow>
        k \<in> {''binds'', ''priority'', ''shared'', ''core'', ''task_trait'', ''init''}) \<and>
     ident_arg ''binds'' a None (ta_binds r) \<and>
     int_arg ''priority'' a 1 (ta_priority r) \<and>
     array_arg ''shared'' a (ta_shared r) \<and>
     int_arg ''core'' a 0 (ta_core r) \<and>
     ident_arg ''task_trait'' a (Some ''RticTask'') (Some (ta_trait r)) \<and>
     (if ta_generated r then \<exists>q p. get_expr ''init'' a = Some (EPath q p) \<and> get_ident p = Some ''generated''
      else get_expr ''init'' a = None))"
  unfolding task_args_parse_spec task_args_spec_def ..

lemma from_meta_list:
  "from_meta (MList (ident_path n) (Some as)) = Ok \<lparr>attr_name = n, elements = foldl insert_arg [] as\<rparr>"
  by (simp add: from_meta_def parse_from_tokens_def)

lemma task_args_parse_exact_witness:
  "task_args_parse (attr_of ''task'' [(''priority'', EInt 3), (''binds'', ident_expr ''UART'')]) = Ok
     \<lparr>ta_binds = Some ''UART'', ta_priority = 3, ta_shared = [], ta_core = 0, ta_trait = ''RticTask'', ta_generated = False\<rparr>"
proof -
  have "from_meta (attr_of ''task'' [(''priority'', EInt 3), (''binds'', ident_expr ''UART'')])
      = Ok \<lparr>attr_name = ''task'', elements = [(''priority'', EInt 3), (''binds'', ident_expr ''UART'')]\<rparr>"
    by (simp add: attr_of_def from_meta_list insert_arg_def)
  then show ?thesis
    by (subst task_args_parse_exact)
      (auto simp: get_expr_def int_arg_def ident_arg_def array_arg_def expr_ident_def ident_expr_def ident_path_def
        split: if_splits)
qed

section \<open>The partition into sub-applications\<close>

definition task_item :: "item \<Rightarrow> (item_struct \<times> nat) option" where
  "task_item it = (case it of IStruct s \<Rightarrow> map_option (Pair s) (is_struct_with_attr s ''task'') | _ \<Rightarrow> None)"

definition init_item :: "item \<Rightarrow> (item_fn \<times> nat) option" where
  "init_item it = (case it of IFn f \<Rightarrow> map_option (Pair f) (is_init f) | _ \<Rightarrow> None)"

definition is_other :: "item \<Rightarrow> bool" where
  "is_other it = (case it of
     IFn f \<Rightarrow> is_init f = None \<and> is_post_init f = None
   | IStruct s \<Rightarrow> (\<forall>n \<in> {''task'', ''shared'', ''idle''}. is_struct_with_attr s n = None)
   | IImpl im \<Rightarrow> capture_trait_impl im = None
   | IUse u \<Rightarrow> False | IOther t \<Rightarrow> True)"

lemma map_filter_Cons:
  "List.map_filter f (x # xs) = (case f x of None \<Rightarrow> List.map_filter f xs | Some y \<Rightarrow> y # List.map_filter f xs)"
  by (simp add: List.map_filter_def split: option.split)

lemma map_filter_Nil: "List.map_filter f [] = []"
  by (simp add: List.map_filter_def)

lemma collect_tasks: "c_tasks (foldl collect_item c items) = c_tasks c @ List.map_filter task_item items"
proof (induction items arbitrary: c)
  case Nil
  then show ?case by (simp add: map_filter_Nil)
next
  case (Cons x items)
  then show ?case
    by (cases x) (auto simp: map_filter_Cons task_item_def Let_def split: option.split)
qed

lemma collect_inits: "c_inits (foldl collect_item c items) = c_inits c @ List.map_filter init_item items"
proof (induction items arbitrary: c)
  case Nil
  then show ?case by (simp add: map_filter_Nil)
next
  case (Cons x items)
  then show ?case
    by (cases x) (auto simp: map_filter_Cons init_item_def Let_def split: option.split)
qed

lemma collect_other: "c_other (foldl collect_item c items) = c_other c @ filter is_other items"
proof (induction items arbitrary: c)
  case Nil
  then show ?case by simp
next
  case (Cons x items)
  then show ?case by (cases x) (auto simp: is_other_def Let_def split: option.split)
qed

lemma collect_includes:
  "c_includes (foldl collect_item c items) = c_includes c @ List.map_filter (\<lambda>it. case it of IUse u \<Rightarrow> Some u | _ \<Rightarrow> None) items"
proof (induction items arbitrary: c)
  case Nil
  then show ?case by (simp add: map_filter_Nil)
next
  case (Cons x items)
  then show ?case by (cases x) (auto simp: map_filter_Cons Let_def split: option.split)
qed

text \<open>The task built from a struct and the position of its \<open>#[task]\<close> attribute.\<close>

definition task_of :: "(ident \<times> item_impl list) list \<Rightarrow> item_struct \<times> nat \<Rightarrow> rtic_task result" where
  "task_of impls si = (case si of (s, i) \<Rightarrow>
     rmap (\<lambda>args. \<lparr>rt_args = args, rt_struct = s\<lparr>st_attrs := remove_nth i (st_attrs s)\<rparr>,
         rt_impl = find_impl impls (st_ident s) (ta_trait args)\<rparr>)
       (task_args_parse (st_attrs s ! i)))"

definition grouped :: "rtic_task list \<Rightarrow> core \<rightharpoonup> rtic_task list" where
  "grouped ts c = (let l = filter (\<lambda>t. ta_core (rt_args t) = c) ts in if l = [] then None else Some l)"

lemma construct_rtic_tasks_eq:
  "construct_rtic_tasks impls ss = rmap grouped (rcollect (task_of impls) ss)"
proof -
  have step: "insert_task impls (grouped pre) si = rmap (\<lambda>t. grouped (pre @ [t])) (task_of impls si)" for pre si
  proof (cases si)
    case (Pair s i)
    show ?thesis
    proof (cases "task_args_parse (st_attrs s ! i)")
      case (Inl e)
      with Pair show ?thesis by (simp add: insert_task_def task_of_def Let_def)
    next
      case (Inr args)
      let ?t = "\<lparr>rt_args = args, rt_struct = s\<lparr>st_attrs := remove_nth i (st_attrs s)\<rparr>,
         rt_impl = find_impl impls (st_ident s) (ta_trait args)\<rparr>"
      have "(grouped pre)(ta_core args \<mapsto> (case grouped pre (ta_core args) of None \<Rightarrow> [] | Some ts \<Rightarrow> ts) @ [?t])
          = grouped (pre @ [?t])"
        by (rule ext) (simp add: grouped_def Let_def)
      with Pair Inr show ?thesis by (simp add: insert_task_def task_of_def Let_def)
    qed
  qed
  have "rfold (insert_task impls) (grouped pre) ss = rmap (\<lambda>ts. grouped (pre @ ts)) (rcollect (task_of impls) ss)" for pre
  proof (induction ss arbitrary: pre)
    case Nil
    then show ?case by simp
  next
    case (Cons si ss)
    show ?case
    proof (cases "task_of impls si")
      case (Inl e)
      with step [of pre si] show ?thesis by simp
    next
      case (Inr t)
      with step [of pre si] Cons.IH [of "pre @ [t]"] show ?thesis
        by (cases "rcollect (task_of impls) ss") auto
    qed
  qed
  from this [of "[]"] show ?thesis
    by (simp add: construct_rtic_tasks_def grouped_def [abs_def] Let_def)
qed

text \<open>A loop that inserts every entry under a fresh key.\<close>

lemma rfold_unique_keys:
  assumes step: "\<And>out x out'. F out x = Inr out' \<Longrightarrow> \<exists>k v. key x = Inr (k, v) \<and> out k = None \<and> out' = out(k \<mapsto> v)"
    and "rfold F m0 xs = Inr out"
  shows "\<exists>kvs. rcollect key xs = Inr kvs \<and> distinct (map fst kvs) \<and> (\<forall>k \<in> fst ` set kvs. m0 k = None) \<and>
    out = m0 ++ map_of kvs"
  using assms(2)
proof (induction xs arbitrary: m0)
  case Nil
  then show ?case by simp
next
  case (Cons x xs)
  then obtain m1 where m1: "F m0 x = Inr m1" "rfold F m1 xs = Inr out" by auto
  from step [OF m1(1)] obtain k v where k: "key x = Inr (k, v)" "m0 k = None" "m1 = m0(k \<mapsto> v)" by blast
  from Cons.IH [OF m1(2)] obtain kvs where kvs: "rcollect key xs = Inr kvs" "distinct (map fst kvs)"
    "\<forall>k \<in> fst ` set kvs. m1 k = None" "out = m1 ++ map_of kvs" by blast
  have kn: "k \<notin> fst ` set kvs" using kvs(3) k(3) by auto
  then have "map_of kvs k = None" by (simp add: map_of_eq_None_iff)
  then have "out = m0 ++ map_of ((k, v) # kvs)"
    using kvs(4) k(3) by (auto simp: fun_eq_iff map_add_def split: option.split)
  moreover have "\<forall>j \<in> fst ` set ((k, v) # kvs). m0 j = None" using kvs(3) k(2,3) by (auto split: if_splits)
  ultimately show ?case using k kvs kn by auto
qed

text \<open>What a successful \<open>App::parse\<close> went through.\<close>

lemma app_parse_Inr:
  assumes "app_parse ts m = Inr a"
  obtains args items shared inits post_inits idles tasks where
    "app_args_parse ts = Inr args" "mod_content m = Some items"
    "c_errors (collect_items items) = []" "construct_shared_resources (c_shared (collect_items items)) = Inr shared"
    "construct_inits (c_inits (collect_items items)) = Inr inits"
    "construct_post_inits (c_post_inits (collect_items items)) = Inr post_inits"
    "construct_idle_tasks (c_impls (collect_items items)) (c_idles (collect_items items)) = Inr idles"
    "rcollect (task_of (c_impls (collect_items items))) (c_tasks (collect_items items)) = Inr tasks"
    "rcollect (build_sub_app shared inits post_inits idles (grouped tasks)) (core_list (aa_cores args)) = Inr (sub_apps a)"
    "app_args a = args" "user_includes a = c_includes (collect_items items)" "other_code a = c_other (collect_items items)"
proof -
  have 1: "(case x of None \<Rightarrow> Err e | Some y \<Rightarrow> Ok y) = Ok z \<longleftrightarrow> x = Some z" for x :: "item list option" and e z
    by (cases x) auto
  have 2: "(case combine_errors es of None \<Rightarrow> Ok () | Some e \<Rightarrow> Err e) = Ok u \<longleftrightarrow> es = []" for es u
    by (simp add: combine_errors_def)
  show thesis
    using assms unfolding app_parse_def Let_def construct_rtic_tasks_eq rbind_Inr_iff rmap_Inr_iff 1 2
  proof (elim exE conjE, goal_cases)
    case (1 args items u shared inits post_inits idles grp tasks subs)
    then have "sub_apps a = subs" "app_args a = args" "user_includes a = c_includes (collect_items items)"
      "other_code a = c_other (collect_items items)" by auto
    with 1 that show ?case by simp
  qed
qed

lemma core_list_props:
  "distinct (core_list n)" "c \<in> set (core_list n) \<longleftrightarrow> unat c < unat n" "length (core_list n) = unat n"
proof -
  have small: "i < unat n \<Longrightarrow> unat (of_nat i :: core) = i" for i
  proof (rule unat_of_nat_small)
    have "unat n < 2 ^ LENGTH(32)" by (rule unsigned_less)
    then show "i < 2 ^ LENGTH(32)" if "i < unat n" using that by linarith
  qed
  show "distinct (core_list n)"
    unfolding core_list_def distinct_map
  proof (intro conjI inj_onI)
    fix i j assume "i \<in> set [0..<unat n]" "j \<in> set [0..<unat n]" and e: "(of_nat i :: core) = of_nat j"
    then have "i < unat n" "j < unat n" by simp_all
    from small [OF this(1)] small [OF this(2)] e show "i = j" by metis
  qed simp
  show "length (core_list n) = unat n" by (simp add: core_list_def)
  show "c \<in> set (core_list n) \<longleftrightarrow> unat c < unat n"
  proof
    assume "c \<in> set (core_list n)"
    then obtain i where i: "c = of_nat i" "i < unat n" by (auto simp: core_list_def)
    with small [OF i(2)] show "unat c < unat n" by metis
  next
    assume "unat c < unat n"
    then have "of_nat (unat c) \<in> set (core_list n)"
      unfolding core_list_def set_map by (intro imageI) simp
    then show "c \<in> set (core_list n)" by simp
  qed
qed

lemma build_sub_app_Inr:
  assumes "rcollect (build_sub_app shared inits post_inits idles tasks) cs = Inr subs"
  shows "map sa_core subs = cs" and "\<And>sa. sa \<in> set subs \<Longrightarrow> inits (sa_core sa) = Some (sa_init sa) \<and>
      sa_shared sa = shared (sa_core sa) \<and> sa_post_init sa = post_inits (sa_core sa) \<and>
      sa_idle sa = idles (sa_core sa) \<and> sa_tasks sa = (case tasks (sa_core sa) of None \<Rightarrow> [] | Some ts \<Rightarrow> ts)"
proof -
  let ?B = "build_sub_app shared inits post_inits idles tasks"
  have one: "sa_core sa = c \<and> inits c = Some (sa_init sa) \<and> sa_shared sa = shared c \<and>
      sa_post_init sa = post_inits c \<and> sa_idle sa = idles c \<and>
      sa_tasks sa = (case tasks c of None \<Rightarrow> [] | Some ts \<Rightarrow> ts)" if "?B c = Inr sa" for c sa
    using that unfolding build_sub_app_def by (cases "inits c") auto
  have all: "list_all2 (\<lambda>c sa. ?B c = Inr sa) cs subs" using assms by (simp add: rcollect_Inr_iff)
  then show "map sa_core subs = cs" by (induction rule: list_all2_induct) (use one in auto)
  fix sa assume "sa \<in> set subs"
  with all obtain c where "?B c = Inr sa" by (auto simp: list_all2_conv_all_nth in_set_conv_nth)
  with one [of c sa] show "inits (sa_core sa) = Some (sa_init sa) \<and>
      sa_shared sa = shared (sa_core sa) \<and> sa_post_init sa = post_inits (sa_core sa) \<and>
      sa_idle sa = idles (sa_core sa) \<and> sa_tasks sa = (case tasks (sa_core sa) of None \<Rightarrow> [] | Some ts \<Rightarrow> ts)"
    by auto
qed

text \<open>A one-core app with an init function and tasks for core 0 and for core 1.\<close>

definition demo_args :: arg_tokens where
  "demo_args = Some [(ident_path ''device'', Some (ident_expr ''pac''))]"

definition demo_items :: "item list" where
  "demo_items =
     [IUse ''use a;'',
      IFn \<lparr>fn_attrs = [attr_of ''init'' []], fn_ident = ''init'', fn_body = ''...''\<rparr>,
      IStruct \<lparr>st_attrs = [attr_of ''task'' [(''priority'', EInt 2)]], st_ident = ''A'', st_fields = []\<rparr>,
      IStruct \<lparr>st_attrs = [attr_of ''task'' [(''core'', EInt 1)]], st_ident = ''B'', st_fields = []\<rparr>,
      IOther ''const X: u8 = 1;'']"

definition demo_mod :: item_mod where
  "demo_mod = \<lparr>mod_ident = ''app'', mod_content = Some demo_items\<rparr>"

lemmas demo_app_simps =
  app_parse_def app_args_parse_def demo_args_def demo_mod_def demo_items_def collect_items_def
  collected_empty_def parse_from_tokens_def insert_arg_def take_int_def take_expr_def ident_expr_def
  unsupported_warnings_def is_init_def is_struct_with_attr_def names_attr_def attr_of_def ident_path_def
  combine_errors_def construct_shared_resources_def construct_inits_def insert_fn_def construct_post_inits_def
  construct_idle_tasks_def construct_rtic_tasks_def insert_task_def core_args_parse_def task_args_parse_def
  from_meta_def get_ident_def ensure_supported_def take_ident_def take_ident_array_def core_list_def
  build_sub_app_def task_name_def is_post_init_def remove_nth_def find_impl_def Let_def

lemma demo_app:
  obtains a where "app_parse demo_args demo_mod = Ok a" "aa_cores (app_args a) = 1"
    "map (map task_name \<circ> sa_tasks) (sub_apps a) = [[''A'']]"
proof -
  have "case app_parse demo_args demo_mod of Inr a \<Rightarrow> aa_cores (app_args a) = 1 \<and>
      map (map task_name \<circ> sa_tasks) (sub_apps a) = [[''A'']] | Inl _ \<Rightarrow> False"
    by (simp add: demo_app_simps)
  with that show ?thesis by (auto split: sum.splits)
qed

lemma app_parse_tasks:
  assumes "app_parse ts m = Ok a" and "mod_content m = Some items"
  obtains tasks impls where "rcollect (task_of impls) (List.map_filter task_item items) = Ok tasks"
    "map sa_core (sub_apps a) = core_list (aa_cores (app_args a))"
    "\<And>sa. sa \<in> set (sub_apps a) \<Longrightarrow> sa_tasks sa = filter (\<lambda>t. ta_core (rt_args t) = sa_core sa) tasks"
proof -
  from assms(1) obtain args items' shared inits post_inits idles tasks where p: "mod_content m = Some items'"
    "rcollect (task_of (c_impls (collect_items items'))) (c_tasks (collect_items items')) = Inr tasks"
    "rcollect (build_sub_app shared inits post_inits idles (grouped tasks)) (core_list (aa_cores args)) = Inr (sub_apps a)"
    "app_args a = args"
    by (rule app_parse_Inr) blast
  have ct: "c_tasks (collect_items items') = List.map_filter task_item items"
    using p(1) assms(2) by (simp add: collect_items_def collect_tasks collected_empty_def)
  note subs = build_sub_app_Inr [OF p(3)]
  have "sa_tasks sa = filter (\<lambda>t. ta_core (rt_args t) = sa_core sa) tasks" if "sa \<in> set (sub_apps a)" for sa
    using subs(2) [OF that] by (auto simp: grouped_def Let_def)
  with p(2,4) ct subs(1) show thesis by (intro that) simp_all
qed

text \<open>
  (C12) \<open>App::parse\<close> makes one sub-application per core, in core order, and gives each the tasks declared
  for that core, in source order, with their arguments parsed from their own \<open>#[task]\<close> attribute: no task
  of a declared core is lost, none is duplicated or moved.  A task whose core is not below \<open>cores\<close> belongs
  to no sub-application, and no error is reported for it.
\<close>

theorem app_parse_partition:
  assumes "app_parse ts m = Ok a" and "mod_content m = Some items"
  shows "\<exists>tasks impls. rcollect (task_of impls) (List.map_filter task_item items) = Ok tasks \<and>
    map sa_core (sub_apps a) = core_list (aa_cores (app_args a)) \<and>
    (\<forall>sa \<in> set (sub_apps a). sa_tasks sa = filter (\<lambda>t. ta_core (rt_args t) = sa_core sa) tasks) \<and>
    mset (concat (map sa_tasks (sub_apps a)))
      = filter_mset (\<lambda>t. unat (ta_core (rt_args t)) < unat (aa_cores (app_args a))) (mset tasks)"
proof -
  from assms obtain tasks impls where p: "rcollect (task_of impls) (List.map_filter task_item items) = Ok tasks"
    "map sa_core (sub_apps a) = core_list (aa_cores (app_args a))"
    "\<And>sa. sa \<in> set (sub_apps a) \<Longrightarrow> sa_tasks sa = filter (\<lambda>t. ta_core (rt_args t) = sa_core sa) tasks"
    by (rule app_parse_tasks) blast
  have "concat (map sa_tasks (sub_apps a))
      = concat (map (\<lambda>k. filter (\<lambda>t. ta_core (rt_args t) = k) tasks) (map sa_core (sub_apps a)))"
    unfolding map_map by (intro arg_cong [where f = concat] map_cong) (auto simp: p(3))
  also have "\<dots> = concat (map (\<lambda>k. filter (\<lambda>t. ta_core (rt_args t) = k) tasks) (core_list (aa_cores (app_args a))))"
    using p(2) by simp
  also have "mset \<dots> = filter_mset (\<lambda>t. ta_core (rt_args t) \<in> set (core_list (aa_cores (app_args a)))) (mset tasks)"
    by (rule mset_concat_filters [OF core_list_props(1)])
  finally show ?thesis using p by (intro exI [of _ tasks] exI [of _ impls]) (simp add: core_list_props)
qed

lemma app_parse_partition_witness:
  "\<exists>a. app_parse demo_args demo_mod = Ok a \<and> map sa_core (sub_apps a) = core_list 1 \<and>
     map (map task_name \<circ> sa_tasks) (sub_apps a) = [[''A'']]"
proof -
  from demo_app obtain a where a: "app_parse demo_args demo_mod = Ok a" "aa_cores (app_args a) = 1"
    "map (map task_name \<circ> sa_tasks) (sub_apps a) = [[''A'']]" by metis
  from app_parse_partition [OF a(1), of demo_items] a show ?thesis by (auto simp: demo_mod_def)
qed

text \<open>
  Code that is not RTIC's is passed through, trait implementations excepted: after a successful
  parse the other items and the \<open>use\<close> items are those of the module, all of them and in source order.
\<close>

lemma app_parse_keeps_user_code:
  assumes "app_parse ts m = Ok a" and "mod_content m = Some items"
  shows "other_code a = filter is_other items \<and>
    user_includes a = List.map_filter (\<lambda>it. case it of IUse u \<Rightarrow> Some u | _ \<Rightarrow> None) items"
  using assms by (elim app_parse_Inr) (simp add: collect_items_def collect_other collect_includes collected_empty_def)

lemma app_parse_keeps_user_code_witness:
  "\<exists>a. app_parse demo_args demo_mod = Ok a \<and> other_code a = [IOther ''const X: u8 = 1;'']"
proof -
  from demo_app obtain a where a: "app_parse demo_args demo_mod = Ok a" by metis
  have "filter is_other demo_items = [IOther ''const X: u8 = 1;'']" by code_simp
  with app_parse_keeps_user_code [OF a, of demo_items] a show ?thesis by (auto simp: demo_mod_def)
qed

section \<open>Trait implementations\<close>

text \<open>Collections that differ only in what is known of the implementor \<open>n\<close>.\<close>

definition same_but_impls :: "ident \<Rightarrow> collected \<Rightarrow> collected \<Rightarrow> bool" where
  "same_but_impls n c d \<longleftrightarrow>
     d\<lparr>c_impls := c_impls c, c_errors := c_errors c\<rparr> = c \<and>
     (\<forall>k. k \<noteq> n \<longrightarrow> map_of (c_impls d) k = map_of (c_impls c) k) \<and>
     set (impls_of n (c_impls d)) \<subseteq> set (impls_of n (c_impls c)) \<and>
     (c_errors c = [] \<longrightarrow> c_errors d = [])"

lemma same_but_implsD:
  assumes "same_but_impls n c d"
  shows "c_shared d = c_shared c" "c_inits d = c_inits c" "c_post_inits d = c_post_inits c" "c_idles d = c_idles c"
    "c_tasks d = c_tasks c" "c_includes d = c_includes c" "c_other d = c_other c"
    "k \<noteq> n \<Longrightarrow> map_of (c_impls d) k = map_of (c_impls c) k" "c_errors c = [] \<Longrightarrow> c_errors d = []"
  using assms unfolding same_but_impls_def by (cases c; cases d; simp)+

lemma impls_of_update: "impls_of k (AList.update j l ims) = (if k = j then l else impls_of k ims)"
  by (simp add: impls_of_def map_of_update)

lemma same_but_impls_step: "same_but_impls n c d \<Longrightarrow> same_but_impls n (collect_item c it) (collect_item d it)"
proof (cases it)
  case (IImpl im)
  assume S: "same_but_impls n c d"
  show ?thesis
  proof (cases "capture_trait_impl im")
    case None
    with S IImpl show ?thesis by (cases c; cases d) (simp add: same_but_impls_def)
  next
    case (Some k)
    have sub: "set (impls_of k (c_impls d)) \<subseteq> set (impls_of k (c_impls c))"
      using S by (cases "k = n") (auto simp: same_but_impls_def impls_of_def)
    let ?C = "collect_item c it" and ?D = "collect_item d it"
    note R = IImpl Some collect_item.simps Let_def option.case
    have "?D\<lparr>c_impls := c_impls ?C, c_errors := c_errors ?C\<rparr> = ?C"
      using S by (cases c; cases d) (simp add: R same_but_impls_def)
    moreover have "map_of (c_impls ?D) j = map_of (c_impls ?C) j" if "j \<noteq> n" for j
    proof (cases "j = k")
      case True
      with that S show ?thesis by (simp add: R map_of_update same_but_impls_def impls_of_def)
    next
      case False
      with that S show ?thesis by (simp add: R map_of_update same_but_impls_def)
    qed
    moreover have "set (impls_of n (c_impls ?D)) \<subseteq> set (impls_of n (c_impls ?C))"
    proof (cases "n = k")
      case True
      with sub show ?thesis by (simp add: R impls_of_update subset_insertI2)
    next
      case False
      with S show ?thesis by (simp add: R impls_of_update same_but_impls_def)
    qed
    moreover have "c_errors ?D = []" if "c_errors ?C = []"
    proof -
      from that have e: "c_errors c = []" "\<not> (\<exists>e \<in> set (impls_of k (c_impls c)). impl_trait_str e = impl_trait_str im)"
        by (simp_all add: R split: if_splits)
      with sub have "\<not> (\<exists>e \<in> set (impls_of k (c_impls d)). impl_trait_str e = impl_trait_str im)" by blast
      moreover have "c_errors d = []" using S e(1) by (simp add: same_but_impls_def)
      ultimately show ?thesis by (simp add: R)
    qed
    ultimately show ?thesis unfolding same_but_impls_def by simp
  qed
qed (cases c; cases d; auto simp: same_but_impls_def split: option.split)+

lemma same_but_impls_fold:
  "same_but_impls n c d \<Longrightarrow> same_but_impls n (foldl collect_item c its) (foldl collect_item d its)"
  by (induction its arbitrary: c d) (auto intro: same_but_impls_step)

definition idle_item :: "item \<Rightarrow> (item_struct \<times> nat) option" where
  "idle_item it = (case it of
     IStruct s \<Rightarrow> if is_struct_with_attr s ''task'' = None \<and> is_struct_with_attr s ''shared'' = None
       then map_option (Pair s) (is_struct_with_attr s ''idle'') else None
   | _ \<Rightarrow> None)"

lemma collect_idles: "c_idles (foldl collect_item c items) = c_idles c @ List.map_filter idle_item items"
proof (induction items arbitrary: c)
  case Nil
  then show ?case by (simp add: map_filter_Nil)
next
  case (Cons x items)
  then show ?case
    by (cases x) (auto simp: map_filter_Cons idle_item_def Let_def split: option.split)
qed

lemma rfold_cong: "(\<And>s x. x \<in> set xs \<Longrightarrow> f s x = g s x) \<Longrightarrow> rfold f s xs = rfold g s xs"
proof (induction xs arbitrary: s)
  case (Cons x xs)
  then show ?case by (cases "g s x") auto
qed simp

text \<open>The constructors look only at the impls of the structs they are given.\<close>

lemma construct_cong:
  assumes "\<And>s i. (s, i) \<in> set ss \<Longrightarrow> map_of ims (st_ident s) = map_of ims' (st_ident s)"
  shows "construct_rtic_tasks ims ss = construct_rtic_tasks ims' ss" "construct_idle_tasks ims ss = construct_idle_tasks ims' ss"
proof -
  have f: "find_impl ims (st_ident s) = find_impl ims' (st_ident s)" if "(s, i) \<in> set ss" for s i
    using assms [OF that] by (simp add: find_impl_def fun_eq_iff)
  have "insert_task ims out si = insert_task ims' out si \<and> insert_idle ims out' si = insert_idle ims' out' si"
    if "si \<in> set ss" for si out out'
    using f [of "fst si" "snd si"] that by (simp add: insert_task_def insert_idle_def case_prod_beta Let_def cong: if_cong)
  then show "construct_rtic_tasks ims ss = construct_rtic_tasks ims' ss" "construct_idle_tasks ims ss = construct_idle_tasks ims' ss"
    unfolding construct_rtic_tasks_def construct_idle_tasks_def by (simp_all cong: rfold_cong)
qed

text \<open>A struct that the parser takes as a task or idle task, by name.\<close>

definition task_struct_named :: "ident \<Rightarrow> item \<Rightarrow> bool" where
  "task_struct_named n it = (case it of
     IStruct s \<Rightarrow> st_ident s = n \<and> (is_struct_with_attr s ''task'' \<noteq> None \<or> is_struct_with_attr s ''idle'' \<noteq> None)
   | _ \<Rightarrow> False)"

text \<open>
  A trait implementation in the app module whose self type is no task or idle struct has no
  influence on a successful parse: the parsed app is the one of the module without the block, so
  the user's implementation does not reach the generated code, and no error is reported.
\<close>

lemma app_parse_drops_foreign_impls:
  assumes "capture_trait_impl im = Some n" and "\<not> (\<exists>it \<in> set (xs @ ys). task_struct_named n it)"
    and "app_parse ts \<lparr>mod_ident = name, mod_content = Some (xs @ IImpl im # ys)\<rparr> = Ok a"
  shows "app_parse ts \<lparr>mod_ident = name, mod_content = Some (xs @ ys)\<rparr> = Ok a"
proof -
  let ?c = "collect_items (xs @ IImpl im # ys)" and ?d = "collect_items (xs @ ys)"
  have "same_but_impls n (collect_item c (IImpl im)) c" for c
    by (cases c) (auto simp: same_but_impls_def assms(1) Let_def map_of_update impls_of_update)
  then have S: "same_but_impls n ?c ?d"
    by (simp add: collect_items_def same_but_impls_fold)
  note D = same_but_implsD [OF S]
  have t: "st_ident s \<noteq> n" if "(s, i) \<in> set (c_tasks ?d)" for s i
    using that assms(2)
    by (fastforce simp: collect_items_def collect_tasks collected_empty_def map_filter_def task_item_def task_struct_named_def
        split: item.splits)
  have d: "st_ident s \<noteq> n" if "(s, i) \<in> set (c_idles ?d)" for s i
    using that assms(2)
    by (fastforce simp: collect_items_def collect_idles collected_empty_def map_filter_def idle_item_def task_struct_named_def
        split: item.splits if_splits)
  have ct: "construct_rtic_tasks (c_impls ?d) (c_tasks ?c) = construct_rtic_tasks (c_impls ?c) (c_tasks ?c)"
    unfolding D(5)[symmetric] by (rule construct_cong(1)) (metis D(8) t)
  have ci: "construct_idle_tasks (c_impls ?d) (c_idles ?c) = construct_idle_tasks (c_impls ?c) (c_idles ?c)"
    unfolding D(4)[symmetric] by (rule construct_cong(2)) (metis D(8) d)
  have e: "c_errors ?c = []" using assms(3) by (rule app_parse_Inr) simp
  have ed: "c_errors ?d = []" using D(9) e by blast
  have "app_parse ts \<lparr>mod_ident = name, mod_content = Some (xs @ ys)\<rparr>
      = app_parse ts \<lparr>mod_ident = name, mod_content = Some (xs @ IImpl im # ys)\<rparr>"
    unfolding app_parse_def Let_def by (simp only: item_mod.simps option.case rbind.simps D(1-7) e ed ct ci)
  with assms(3) show ?thesis by simp
qed

text \<open>The demo module with an implementation of \<open>Default\<close> for a type of its own.\<close>

definition demo_impl :: item_impl where
  "demo_impl = \<lparr>im_trait = Some (ident_path ''Default''), im_self = Some (ident_path ''Config''), im_body = ''...''\<rparr>"

lemma app_parse_drops_foreign_impls_witness:
  "app_parse demo_args \<lparr>mod_ident = ''app'', mod_content = Some (IImpl demo_impl # demo_items)\<rparr> = app_parse demo_args demo_mod \<and>
   is_ok (app_parse demo_args demo_mod)"
proof -
  have c: "capture_trait_impl demo_impl = Some ''Config''"
    by (simp add: demo_impl_def capture_trait_impl_def last_ident_def ident_path_def)
  have t: "\<not> (\<exists>it \<in> set ([] @ demo_items). task_struct_named ''Config'' it)"
    by (simp add: demo_items_def task_struct_named_def)
  have "is_ok (app_parse demo_args \<lparr>mod_ident = ''app'', mod_content = Some (IImpl demo_impl # demo_items)\<rparr>)"
    by (simp add: demo_impl_def capture_trait_impl_def last_ident_def impls_of_def impl_trait_str_def demo_app_simps)
  then obtain a where a: "app_parse demo_args \<lparr>mod_ident = ''app'', mod_content = Some ([] @ IImpl demo_impl # demo_items)\<rparr> = Ok a"
    by (auto simp: is_ok_iff)
  from app_parse_drops_foreign_impls [OF c t a] a show ?thesis by (simp add: demo_mod_def)
qed

end
