(* ===== verification/SwCommon.thy ===== *)
theory SwCommon
  imports CoreParser
begin

text \<open>
  The infrastructure shared by the software-task and the async pass, \<open>rticx-sw-pass/src/common/\<close>:
  the app parameters and task parameters of \<open>parse.rs\<close>, and the grouping of tasks by priority with the
  assignment of dispatchers of \<open>analyze.rs\<close>.  A \<open>BTreeMap\<close> is an association list in ascending order of
  its keys; \<open>usize\<close> is that of the 64-bit host on which the macro runs.
\<close>

type_synonym usize = "64 word"

section \<open>Parameters of the app\<close>

record app_parameters =
  ap_dispatchers :: "core \<rightharpoonup> path list"
  ap_pacs :: "path list"
  ap_cores :: core

text \<open>The elements of \<open>dispatchers = [...]\<close>, with the number of cores that have an entry.\<close>

definition dispatcher_path :: "expr \<Rightarrow> path result" where
  "dispatcher_path e = (case e of EPath _ p \<Rightarrow> Ok p | _ \<Rightarrow> Err DispatcherNotPath)"

definition insert_dispatcher :: "(core \<rightharpoonup> path list) \<Rightarrow> nat \<times> expr \<Rightarrow> (core \<rightharpoonup> path list) result" where
  "insert_dispatcher ds ie =
     (case snd ie of
        EPath _ p \<Rightarrow> Ok (ds(0 \<mapsto> (case ds 0 of None \<Rightarrow> [] | Some l \<Rightarrow> l) @ [p]))
      | EArray es \<Rightarrow> rbind (rcollect dispatcher_path es) (\<lambda>irqs. Ok (ds(of_nat (fst ie) \<mapsto> irqs)))
      | _ \<Rightarrow> Err DispatcherElem)"

definition parse_dispatchers :: "expr option \<Rightarrow> (core \<rightharpoonup> path list) result" where
  "parse_dispatchers e =
     (case e of
        None \<Rightarrow> Ok Map.empty
      | Some (EArray es) \<Rightarrow> rfold insert_dispatcher Map.empty (enumerate 0 es)
      | Some _ \<Rightarrow> Err DispatchersNotArray)"

definition app_parameters_parse :: "arg_tokens \<Rightarrow> app_parameters result" where
  "app_parameters_parse ts =
     rbind (parse_from_tokens ts ''app'') (\<lambda>a0.
     case take_int ''cores'' a0 of (a1, r1) \<Rightarrow> rbind r1 (\<lambda>c.
     let cores = (case c of None \<Rightarrow> 1 | Some n \<Rightarrow> n) in
     if cores = 0 then Err CoresZero
     else
       case take_expr ''device'' a1 of (a2, dev) \<Rightarrow>
       rbind (case dev of None \<Rightarrow> Err DeviceArg | Some d \<Rightarrow> Ok d) (\<lambda>device.
       rbind
         (case device of
            EArray elems \<Rightarrow>
              if length elems \<noteq> unat cores then Err DevicesCoresMismatch
              else rcollect (\<lambda>e. case e of EPath _ p \<Rightarrow> Ok p | _ \<Rightarrow> Err DeviceNotPath) elems
          | EPath _ p \<Rightarrow> Ok (replicate (unat cores) p)
          | _ \<Rightarrow> Err DeviceNotPath) (\<lambda>pacs.
       rbind (parse_dispatchers (get_expr ''dispatchers'' a2)) (\<lambda>ds.
       if dom ds \<noteq> {} \<and> unat cores \<noteq> card (dom ds) then Err (DispatchersCores (unat cores) (card (dom ds)))
       else Ok \<lparr>ap_dispatchers = ds, ap_pacs = pacs, ap_cores = cores\<rparr>)))))"

section \<open>Parameters of a task\<close>

definition into_task_attr :: "rtic_attr \<Rightarrow> ident \<Rightarrow> rtic_attr" where
  "into_task_attr a trait_ident =
     a\<lparr>attr_name := ''task'',
       elements := AList.update ''task_trait'' (ident_expr trait_ident)
         (AList.delete ''capacity'' (AList.delete ''spawn_by'' (elements a)))\<rparr>"

record task_params =
  tp_priority :: prio
  tp_core :: core
  tp_spawn_by :: core
  tp_capacity :: usize

definition parse_attr_int :: "rtic_attr \<Rightarrow> ident \<Rightarrow> 'w::len word \<Rightarrow> 'w word result" where
  "parse_attr_int a key dflt =
     (case get_expr key a of
        None \<Rightarrow> Ok dflt
      | Some (EInt n) \<Rightarrow> if n < 2 ^ LENGTH('w) then Ok (of_nat n) else Err (IntRange key)
      | Some _ \<Rightarrow> Err (NotInt key))"

definition task_params_from_attr :: "rtic_attr \<Rightarrow> task_params result" where
  "task_params_from_attr a =
     rbind (parse_attr_int a ''priority'' 0) (\<lambda>priority.
     rbind (parse_attr_int a ''core'' 0) (\<lambda>core.
     rbind (parse_attr_int a ''spawn_by'' core) (\<lambda>spawn_by.
     rbind (parse_attr_int a ''capacity'' 1) (\<lambda>capacity.
     if capacity = 0 then Err CapacityZero
     else Ok \<lparr>tp_priority = priority, tp_core = core, tp_spawn_by = spawn_by, tp_capacity = capacity\<rparr>))))"

text \<open>The attributes of an item; those of items that the model does not look into come from
  \<open>other_attrs\<close>.  Impl blocks are not asked.\<close>

definition item_attrs :: "(item \<Rightarrow> meta list option) \<Rightarrow> item \<Rightarrow> meta list option" where
  "item_attrs other_attrs it =
     (case it of
        IFn f \<Rightarrow> Some (fn_attrs f)
      | IStruct s \<Rightarrow> Some (st_attrs s)
      | IImpl im \<Rightarrow> None
      | _ \<Rightarrow> other_attrs it)"

definition ends_with :: "string \<Rightarrow> string \<Rightarrow> bool" where
  "ends_with s suffix \<longleftrightarrow> length suffix \<le> length s \<and> drop (length s - length suffix) s = suffix"

definition get_task_implementor :: "item_impl \<Rightarrow> ident \<Rightarrow> ident option" where
  "get_task_implementor im trait_ty =
     (case Option.bind (im_trait im) last_ident of
        None \<Rightarrow> None
      | Some t \<Rightarrow> if \<not> ends_with t trait_ty then None else Option.bind (im_self im) last_ident)"

text \<open>The scan removes every block of the task; the second one is an error.\<close>

definition take_impl_for :: "(ident \<times> item_impl) list \<Rightarrow> ident \<Rightarrow> ident \<Rightarrow>
    ((ident \<times> item_impl) list \<times> item_impl option) result" where
  "take_impl_for impls i trait_ty =
     (case filter (\<lambda>e. fst e = i) impls of
        [] \<Rightarrow> Ok (impls, None)
      | [e] \<Rightarrow> Ok (filter (\<lambda>e. fst e \<noteq> i) impls, Some (snd e))
      | _ \<Rightarrow> Err (MultipleImpls trait_ty i))"

section \<open>Priority groups\<close>

type_synonym group_entry = "ident \<times> core \<times> usize"

type_synonym priority_group = "(prio \<times> group_entry list) list"

text \<open>\<open>entry(priority).or_default().push(task)\<close>\<close>

fun group_push :: "prio \<Rightarrow> group_entry \<Rightarrow> priority_group \<Rightarrow> priority_group" where
  "group_push p e [] = [(p, [e])]"
| "group_push p e ((q, es) # gs) =
     (if p < q then (p, [e]) # (q, es) # gs
      else if p = q then (q, es @ [e]) # gs
      else (q, es) # group_push p e gs)"

fun group_insert :: "prio \<times> group_entry list \<Rightarrow> priority_group \<Rightarrow> priority_group" where
  "group_insert g [] = [g]"
| "group_insert g (h # hs) =
     (if fst g < fst h then g # h # hs
      else if fst g = fst h then g # hs
      else h # group_insert g hs)"

text \<open>\<open>BTreeMap::extend\<close>\<close>

definition group_extend :: "priority_group \<Rightarrow> priority_group \<Rightarrow> priority_group" where
  "group_extend gs hs = foldl (\<lambda>gs h. group_insert h gs) gs hs"

definition check_disjoint_priorities :: "priority_group \<Rightarrow> priority_group \<Rightarrow> core \<Rightarrow> unit result" where
  "check_disjoint_priorities sw_tasks mc_tasks core =
     rfold (\<lambda>_ g. if fst g \<in> fst ` set sw_tasks then Err (OverlappingPriority (unat core) (fst (hd (snd g)))) else Ok ())
       () mc_tasks"

definition check_uniform_spawn_by :: "priority_group \<Rightarrow> unit result" where
  "check_uniform_spawn_by mc_tasks =
     rfold (\<lambda>_ g. case snd g of
         [] \<Rightarrow> Ok ()
       | e # es \<Rightarrow> rfold (\<lambda>_ x. if fst (snd e) \<noteq> fst (snd x) then Err (SpawnByMismatch (fst e) (fst x)) else Ok ()) () (e # es))
       () mc_tasks"

definition assign_dispatchers :: "priority_group \<Rightarrow> path list \<Rightarrow> (prio \<times> path) list result" where
  "assign_dispatchers groups dispatchers =
     (if length dispatchers < length groups then Err (TooFewDispatchers (length groups) (length dispatchers))
      else Ok (zip (map fst groups) dispatchers))"

section \<open>Laws of the groups\<close>

abbreviation group_sorted :: "priority_group \<Rightarrow> bool" where
  "group_sorted gs \<equiv> sorted_wrt (<) (map fst gs)"

lemma group_push_keys: "set (map fst (group_push p e gs)) = insert p (set (map fst gs))"
  by (induction p e gs rule: group_push.induct) auto

lemma group_push_sorted: "group_sorted gs \<Longrightarrow> group_sorted (group_push p e gs)"
proof (induction p e gs rule: group_push.induct)
  case (2 p e q es gs)
  show ?case
  proof (cases "p < q")
    case True
    with 2 show ?thesis by (auto dest: order.strict_trans)
  next
    case False
    have "\<forall>x \<in> set (map fst (group_push p e gs)). q < x" if "p \<noteq> q"
      using 2 False that group_push_keys [of p e gs] by (auto simp: not_less)
    with False 2 show ?thesis by auto
  qed
qed simp

lemma group_push_lookup:
  "group_sorted gs \<Longrightarrow> map_of (group_push p e gs) r =
     (if r = p then Some ((case map_of gs p of None \<Rightarrow> [] | Some es \<Rightarrow> es) @ [e]) else map_of gs r)"
proof (induction p e gs rule: group_push.induct)
  case (2 p e q es gs)
  show ?case
  proof (cases "p < q")
    case True
    with 2 have "map_of gs p = None" by (auto simp: map_of_eq_None_iff dest: order.strict_trans)
    with True show ?thesis by auto
  next
    case False
    with 2 show ?thesis by auto
  qed
qed simp

lemma group_insert_keys: "set (map fst (group_insert g gs)) = insert (fst g) (set (map fst gs))"
  by (induction g gs rule: group_insert.induct) auto

lemma group_insert_sorted: "group_sorted gs \<Longrightarrow> group_sorted (group_insert g gs)"
proof (induction g gs rule: group_insert.induct)
  case (2 g h hs)
  show ?case
  proof (cases "fst g < fst h")
    case True
    with 2 show ?thesis by (auto dest: order.strict_trans)
  next
    case False
    have "\<forall>x \<in> set (map fst (group_insert g hs)). fst h < x" if "fst g \<noteq> fst h"
      using 2 False that group_insert_keys [of g hs] by (auto simp: not_less)
    with False 2 show ?thesis by auto
  qed
qed simp

lemma group_insert_lookup: "group_sorted gs \<Longrightarrow> map_of (group_insert g gs) r = (if r = fst g then Some (snd g) else map_of gs r)"
  by (induction g gs rule: group_insert.induct) (cases g; auto)+

lemma group_extend_spec:
  "group_sorted gs \<Longrightarrow> distinct (map fst hs) \<Longrightarrow>
     group_sorted (group_extend gs hs) \<and> map_of (group_extend gs hs) = map_of gs ++ map_of hs"
proof (induction hs arbitrary: gs)
  case Nil
  then show ?case by (simp add: group_extend_def)
next
  case (Cons h hs)
  then have s: "group_sorted (group_insert h gs)" by (simp add: group_insert_sorted)
  have n: "map_of hs (fst h) = None" using Cons.prems(2) by (auto simp: map_of_eq_None_iff)
  have "group_extend gs (h # hs) = group_extend (group_insert h gs) hs" by (simp add: group_extend_def)
  moreover have "map_of (group_insert h gs) ++ map_of hs = map_of gs ++ map_of (h # hs)"
    using n group_insert_lookup [OF Cons.prems(1), of h]
    by (auto simp: fun_eq_iff map_add_def split: option.split)
  moreover have "distinct (map fst hs)" using Cons.prems(2) by simp
  ultimately show ?case using Cons.IH [OF s] by (simp only:)
qed

lemma sorted_keys_distinct: "group_sorted gs \<Longrightarrow> distinct (map fst gs)"
  by (simp add: strict_sorted_iff)

lemma check_disjoint_ok:
  "check_disjoint_priorities sw mc core = Ok () \<longleftrightarrow> (\<forall>g \<in> set mc. fst g \<notin> fst ` set sw)"
  unfolding check_disjoint_priorities_def rfold_unit by simp

lemma check_uniform_ok:
  "check_uniform_spawn_by mc = Ok () \<longleftrightarrow> (\<forall>g \<in> set mc. \<forall>e \<in> set (snd g). \<forall>x \<in> set (snd g). fst (snd e) = fst (snd x))"
proof -
  have "(case snd g of [] \<Rightarrow> Ok ()
       | e # es \<Rightarrow> rfold (\<lambda>_ x. if fst (snd e) \<noteq> fst (snd x) then Err (SpawnByMismatch (fst e) (fst x)) else Ok ()) () (e # es)) = Ok ()
     \<longleftrightarrow> (\<forall>e \<in> set (snd g). \<forall>x \<in> set (snd g). fst (snd e) = fst (snd x))" for g :: "prio \<times> group_entry list"
  proof (cases "snd g")
    case (Cons e es)
    have "(\<forall>x \<in> set (e # es). (if fst (snd e) \<noteq> fst (snd x) then Err (SpawnByMismatch (fst e) (fst x)) else Ok ()) = Ok ())
        \<longleftrightarrow> (\<forall>x \<in> set (e # es). fst (snd e) = fst (snd x))" by simp
    also have "\<dots> \<longleftrightarrow> (\<forall>y \<in> set (e # es). \<forall>x \<in> set (e # es). fst (snd y) = fst (snd x))"
      by (metis list.set_intros(1))
    finally show ?thesis unfolding Cons list.case rfold_unit .
  qed simp
  then show ?thesis unfolding check_uniform_spawn_by_def rfold_unit by blast
qed

end
