(* ===== verification/CoreAnalysis.thy ===== *)
theory CoreAnalysis
  imports CoreParser
begin

text \<open>
  The analysis of the core pass, \<open>rticx-core/src/analysis/mod.rs\<close>: resource ceilings, used interrupts,
  tasks the user must initialise and the task traits, with the abstract definition of a ceiling and the
  proof that the loops compute it.
\<close>

section \<open>The code\<close>

record used_irq =
  ui_name :: ident
  ui_priority :: prio

record sub_analysis =
  used_irqs :: "used_irq list"
  late_resource_tasks :: "ident list"

record analysis =
  sub_analyses :: "sub_analysis list"
  task_traits :: "ident set"

text \<open>The inner loop body: raise the ceiling of one resource to the priority of one task.\<close>

definition raise_ceiling :: "prio \<Rightarrow> shared_element \<Rightarrow> shared_element" where
  "raise_ceiling p e = (if se_priority e < p then e\<lparr>se_priority := p\<rparr> else e)"

definition update_for_task :: "shared_resources \<Rightarrow> rtic_task \<Rightarrow> shared_resources result" where
  "update_for_task sr t =
     rfold (\<lambda>sr r. case get_field_mut r (raise_ceiling (ta_priority (rt_args t))) sr of
         Some sr' \<Rightarrow> Ok sr'
       | None \<Rightarrow> Err (UnknownResource r (st_ident (sr_struct sr)))) sr (ta_shared (rt_args t))"

definition update_resource_priorities :: "shared_resources option \<Rightarrow> rtic_task list \<Rightarrow> shared_resources option result" where
  "update_resource_priorities shared tasks =
     (case shared of
        None \<Rightarrow> Ok None
      | Some sr \<Rightarrow> rmap Some (rfold update_for_task sr tasks))"

definition sub_analysis_run :: "sub_app \<Rightarrow> sub_analysis" where
  "sub_analysis_run sa = \<lparr>
     used_irqs = List.map_filter (\<lambda>t. map_option (\<lambda>b. \<lparr>ui_name = b, ui_priority = ta_priority (rt_args t)\<rparr>)
       (ta_binds (rt_args t))) (sa_tasks sa),
     late_resource_tasks = List.map_filter (\<lambda>t. if ta_generated (rt_args t) then None else Some (task_name t))
       (sa_tasks sa @ (case sa_idle sa of None \<Rightarrow> [] | Some i \<Rightarrow> [i]))\<rparr>"

definition traits_of :: "sub_app \<Rightarrow> ident set" where
  "traits_of sa = (ta_trait \<circ> rt_args) ` (set (sa_tasks sa) \<union> (case sa_idle sa of None \<Rightarrow> {} | Some i \<Rightarrow> {i}))"

text \<open>\<open>Analysis::run\<close> also updates the app.\<close>

definition analysis_run :: "app \<Rightarrow> (app \<times> analysis) result" where
  "analysis_run a =
     rbind (rcollect (\<lambda>sa. rmap (\<lambda>sh. sa\<lparr>sa_shared := sh\<rparr>) (update_resource_priorities (sa_shared sa) (sa_tasks sa)))
       (sub_apps a)) (\<lambda>subs.
     Ok (a\<lparr>sub_apps := subs\<rparr>,
       \<lparr>sub_analyses = map sub_analysis_run subs, task_traits = (\<Union>sa \<in> set subs. traits_of sa)\<rparr>))"

section \<open>Ceilings\<close>

text \<open>The specification: the highest priority among the tasks that share the resource, 0 if there is none.\<close>

definition ceiling :: "rtic_task list \<Rightarrow> ident \<Rightarrow> prio" where
  "ceiling tasks r = Max (insert 0 (ta_priority ` rt_args ` {t \<in> set tasks. r \<in> set (ta_shared (rt_args t))}))"

lemma ceiling_Nil: "ceiling [] r = 0"
  by (simp add: ceiling_def)

lemma ceiling_snoc:
  "ceiling (ts @ [t]) r = (if r \<in> set (ta_shared (rt_args t)) then max (ceiling ts r) (ta_priority (rt_args t)) else ceiling ts r)"
proof (cases "r \<in> set (ta_shared (rt_args t))")
  case True
  let ?S = "insert 0 (ta_priority ` rt_args ` {t \<in> set ts. r \<in> set (ta_shared (rt_args t))})"
  have "{t' \<in> set (ts @ [t]). r \<in> set (ta_shared (rt_args t'))} = insert t {t \<in> set ts. r \<in> set (ta_shared (rt_args t))}"
    using True by auto
  then have "ceiling (ts @ [t]) r = Max (insert (ta_priority (rt_args t)) ?S)"
    by (simp add: ceiling_def insert_commute)
  also have "\<dots> = max (ta_priority (rt_args t)) (Max ?S)" by (rule Max_insert) simp_all
  finally show ?thesis using True by (simp add: ceiling_def max.commute)
next
  case False
  then have "{t' \<in> set (ts @ [t]). r \<in> set (ta_shared (rt_args t'))} = {t \<in> set ts. r \<in> set (ta_shared (rt_args t))}"
    by auto
  with False show ?thesis by (simp add: ceiling_def)
qed

lemma ceiling_ge:
  assumes "t \<in> set ts" and "r \<in> set (ta_shared (rt_args t))"
  shows "ta_priority (rt_args t) \<le> ceiling ts r"
  unfolding ceiling_def by (rule Max_ge) (use assms in auto)

lemma ceiling_attained:
  "ceiling ts r = 0 \<or> (\<exists>t \<in> set ts. r \<in> set (ta_shared (rt_args t)) \<and> ta_priority (rt_args t) = ceiling ts r)"
proof -
  let ?X = "ta_priority ` rt_args ` {t \<in> set ts. r \<in> set (ta_shared (rt_args t))}"
  have "ceiling ts r \<in> insert 0 ?X" unfolding ceiling_def by (rule Max_in) auto
  then show ?thesis by auto
qed

text \<open>Raising by name, on resources with distinct names.\<close>

definition raised :: "prio \<Rightarrow> ident set \<Rightarrow> shared_resources \<Rightarrow> shared_resources" where
  "raised p R sr = sr\<lparr>sr_resources := map (\<lambda>e. if se_ident e \<in> R then raise_ceiling p e else e) (sr_resources sr)\<rparr>"

lemma raise_ceiling_simps [simp]:
  "se_ident (raise_ceiling p e) = se_ident e" "se_ty (raise_ceiling p e) = se_ty e"
  "se_priority (raise_ceiling p e) = max (se_priority e) p"
  by (auto simp: raise_ceiling_def max_def)

lemma raise_ceiling_idem: "raise_ceiling p (raise_ceiling p e) = raise_ceiling p e"
  by (simp add: raise_ceiling_def)

lemma upd_first_distinct:
  "distinct (map g xs) \<Longrightarrow> upd_first (\<lambda>e. g e = r) f xs = map (\<lambda>e. if g e = r then f e else e) xs"
proof (induction xs)
  case Nil
  then show ?case by simp
next
  case (Cons x xs)
  show ?case
  proof (cases "g x = r")
    case True
    have "g x \<notin> g ` set xs" using Cons.prems by simp
    with True have "\<forall>e \<in> set xs. g e \<noteq> r" by (metis image_eqI)
    then have "map (\<lambda>e. if g e = r then f e else e) xs = xs" by (induction xs) auto
    with True show ?thesis by simp
  qed (use Cons in simp)
qed

definition res_names :: "shared_resources \<Rightarrow> ident list" where
  "res_names sr = map se_ident (sr_resources sr)"

lemma get_field_mut_raised:
  "distinct (res_names sr) \<Longrightarrow> get_field_mut r (raise_ceiling p) sr = (if r \<in> set (res_names sr) then Some (raised p {r} sr) else None)"
  by (auto simp: get_field_mut_def get_field_def res_names_def raised_def find_None_iff find_Some_iff upd_first_distinct
      split: option.split)

lemma raised_simps [simp]:
  "res_names (raised p R sr) = res_names sr" "sr_struct (raised p R sr) = sr_struct sr"
  "sr_core (raised p R sr) = sr_core sr"
  by (auto simp: raised_def res_names_def)

lemma raised_raised: "raised p S (raised p R sr) = raised p (R \<union> S) sr"
  by (auto simp: raised_def raise_ceiling_idem)

lemma raised_empty: "raised p {} sr = sr"
  by (simp add: raised_def)

lemma update_for_task_eq:
  assumes "distinct (res_names sr)"
  shows "update_for_task sr t = (case List.find (\<lambda>r. r \<notin> set (res_names sr)) (ta_shared (rt_args t)) of
     None \<Rightarrow> Ok (raised (ta_priority (rt_args t)) (set (ta_shared (rt_args t))) sr)
   | Some r \<Rightarrow> Err (UnknownResource r (st_ident (sr_struct sr))))"
proof -
  let ?p = "ta_priority (rt_args t)"
  let ?F = "\<lambda>sr r. case get_field_mut r (raise_ceiling ?p) sr of Some sr' \<Rightarrow> Ok sr'
       | None \<Rightarrow> Err (UnknownResource r (st_ident (sr_struct sr)))"
  have "rfold ?F (raised ?p R sr) rs = (case List.find (\<lambda>r. r \<notin> set (res_names sr)) rs of
     None \<Rightarrow> Ok (raised ?p (R \<union> set rs) sr)
   | Some r \<Rightarrow> Err (UnknownResource r (st_ident (sr_struct sr))))" for R rs
    by (induction rs arbitrary: R) (simp_all add: get_field_mut_raised assms raised_raised split: option.split)
  from this [of "{}"] show ?thesis unfolding update_for_task_def raised_empty Un_empty_left by blast
qed

text \<open>The resources with their ceilings for a list of tasks.\<close>

definition with_ceilings :: "rtic_task list \<Rightarrow> shared_resources \<Rightarrow> shared_resources" where
  "with_ceilings ts sr = sr\<lparr>sr_resources := map (\<lambda>e. e\<lparr>se_priority := max (se_priority e) (ceiling ts (se_ident e))\<rparr>) (sr_resources sr)\<rparr>"

lemma with_ceilings_Nil: "with_ceilings [] sr = sr"
  by (simp add: with_ceilings_def ceiling_Nil)

lemma with_ceilings_snoc:
  "raised (ta_priority (rt_args t)) (set (ta_shared (rt_args t))) (with_ceilings ts sr) = with_ceilings (ts @ [t]) sr"
  by (auto simp: raised_def with_ceilings_def ceiling_snoc raise_ceiling_def max_def)

lemma with_ceilings_names [simp]: "res_names (with_ceilings ts sr) = res_names sr"
  "sr_struct (with_ceilings ts sr) = sr_struct sr"
  by (simp_all add: with_ceilings_def res_names_def)

lemma update_loop:
  assumes "distinct (res_names sr)"
  shows "rfold update_for_task (with_ceilings pre sr) ts = Inr sr' \<longleftrightarrow>
    (\<forall>t \<in> set ts. set (ta_shared (rt_args t)) \<subseteq> set (res_names sr)) \<and> sr' = with_ceilings (pre @ ts) sr"
proof (induction ts arbitrary: pre)
  case Nil
  then show ?case by auto
next
  case (Cons t ts)
  have d: "distinct (res_names (with_ceilings pre sr))" using assms by simp
  show ?case
  proof (cases "set (ta_shared (rt_args t)) \<subseteq> set (res_names sr)")
    case True
    then have "List.find (\<lambda>r. r \<notin> set (res_names sr)) (ta_shared (rt_args t)) = None" by (auto simp: find_None_iff)
    then have "update_for_task (with_ceilings pre sr) t = Inr (with_ceilings (pre @ [t]) sr)"
      by (simp add: update_for_task_eq [OF d] with_ceilings_snoc)
    with True Cons.IH [of "pre @ [t]"] show ?thesis by simp
  next
    case False
    then obtain r where "List.find (\<lambda>r. r \<notin> set (res_names sr)) (ta_shared (rt_args t)) = Some r"
      by (cases "List.find (\<lambda>r. r \<notin> set (res_names sr)) (ta_shared (rt_args t))") (auto simp: find_None_iff)
    then have "update_for_task (with_ceilings pre sr) t = Inl (UnknownResource r (st_ident (sr_struct sr)))"
      by (simp add: update_for_task_eq [OF d])
    with False show ?thesis by simp
  qed
qed

text \<open>
  The loops of \<open>update_resource_priorities\<close> compute the priority ceiling: for the resources as
  the parser builds them (priority 0, distinct names) they succeed exactly when every shared
  resource is declared, and then each resource's priority is the highest priority of the tasks
  that share it; nothing else changes.
\<close>

lemma resource_ceilings_exact:
  assumes "distinct (res_names sr)" and "\<forall>e \<in> set (sr_resources sr). se_priority e = 0"
  shows "update_resource_priorities (Some sr) ts = Ok (Some sr') \<longleftrightarrow>
    (\<forall>t \<in> set ts. set (ta_shared (rt_args t)) \<subseteq> set (res_names sr)) \<and>
    sr' = sr\<lparr>sr_resources := map (\<lambda>e. e\<lparr>se_priority := ceiling ts (se_ident e)\<rparr>) (sr_resources sr)\<rparr>"
proof -
  have "with_ceilings ts sr = sr\<lparr>sr_resources := map (\<lambda>e. e\<lparr>se_priority := ceiling ts (se_ident e)\<rparr>) (sr_resources sr)\<rparr>"
    using assms(2) by (auto simp: with_ceilings_def max_def word_le_0_iff)
  with update_loop [OF assms(1), of "[]" ts sr'] show ?thesis
    by (auto simp: update_resource_priorities_def with_ceilings_Nil)
qed

text \<open>A single resource shared by a task of priority 2 and one of priority 5.\<close>

definition demo_task :: "ident \<Rightarrow> prio \<Rightarrow> ident list \<Rightarrow> rtic_task" where
  "demo_task n p rs = \<lparr>rt_args = \<lparr>ta_binds = Some (''IRQ_'' @ n), ta_priority = p, ta_shared = rs, ta_core = 0,
     ta_trait = HWT_TRAIT_TY, ta_generated = False\<rparr>,
     rt_struct = \<lparr>st_attrs = [], st_ident = n, st_fields = []\<rparr>, rt_impl = None\<rparr>"

definition demo_shared :: shared_resources where
  "demo_shared = \<lparr>sr_core = 0, sr_struct = \<lparr>st_attrs = [], st_ident = ''Shared'', st_fields = []\<rparr>,
     sr_resources = [\<lparr>se_ident = ''r'', se_ty = ''u32'', se_priority = 0\<rparr>]\<rparr>"

lemma resource_ceilings_exact_witness:
  "\<exists>sr. update_resource_priorities (Some demo_shared) [demo_task ''A'' 2 [''r''], demo_task ''B'' 5 [''r'']] = Ok (Some sr)
     \<and> map se_priority (sr_resources sr) = [5]"
proof -
  have c: "ceiling [demo_task ''A'' 2 [''r''], demo_task ''B'' 5 [''r'']] ''r'' = 5"
    using ceiling_snoc [of "[demo_task ''A'' 2 [''r'']]" "demo_task ''B'' 5 [''r'']" "''r''"]
      ceiling_snoc [of "[]" "demo_task ''A'' 2 [''r'']" "''r''"]
    by (simp add: demo_task_def ceiling_Nil)
  let ?sr = "demo_shared\<lparr>sr_resources := map (\<lambda>e. e\<lparr>se_priority := ceiling [demo_task ''A'' 2 [''r''], demo_task ''B'' 5 [''r'']] (se_ident e)\<rparr>)
      (sr_resources demo_shared)\<rparr>"
  have "update_resource_priorities (Some demo_shared) [demo_task ''A'' 2 [''r''], demo_task ''B'' 5 [''r'']] = Ok (Some ?sr)"
  proof (rule iffD2 [OF resource_ceilings_exact], goal_cases)
    case 1
    show ?case by (simp add: demo_shared_def res_names_def)
  next
    case 2
    show ?case by (simp add: demo_shared_def)
  next
    case 3
    show ?case by (intro conjI refl) (simp add: demo_shared_def res_names_def demo_task_def)
  qed
  moreover have "map se_priority (sr_resources ?sr) = [5]" using c by (simp add: demo_shared_def)
  ultimately show ?thesis by (intro exI conjI)
qed

section \<open>The analysis of an app\<close>

text \<open>An app whose resources are as the parser leaves them.\<close>

definition resources_fresh :: "app \<Rightarrow> bool" where
  "resources_fresh a \<longleftrightarrow> (\<forall>sa \<in> set (sub_apps a). \<forall>sr. sa_shared sa = Some sr \<longrightarrow>
     distinct (res_names sr) \<and> (\<forall>e \<in> set (sr_resources sr). se_priority e = 0))"

lemma update_resource_priorities_cases:
  assumes "update_resource_priorities sh ts = Inr sh'"
  shows "(sh = None \<and> sh' = None) \<or> (\<exists>sr sr'. sh = Some sr \<and> sh' = Some sr' \<and> update_resource_priorities (Some sr) ts = Inr (Some sr'))"
  using assms by (auto simp: update_resource_priorities_def split: option.splits)

lemma analysis_sub_app:
  assumes "resources_fresh a" and "analysis_run a = Ok (a', an)" and "sa \<in> set (sub_apps a')" and "sa_shared sa = Some sr"
  shows "\<forall>e \<in> set (sr_resources sr). se_priority e = ceiling (sa_tasks sa) (se_ident e)"
    and "\<forall>t \<in> set (sa_tasks sa). set (ta_shared (rt_args t)) \<subseteq> set (res_names sr)" and "distinct (res_names sr)"
proof -
  from assms(2) have "rcollect (\<lambda>sa. rmap (\<lambda>sh. sa\<lparr>sa_shared := sh\<rparr>) (update_resource_priorities (sa_shared sa) (sa_tasks sa)))
       (sub_apps a) = Inr (sub_apps a')" by (auto simp: analysis_run_def)
  from rcollect_member [OF this assms(3)] obtain s where s: "s \<in> set (sub_apps a)"
    "rmap (\<lambda>sh. s\<lparr>sa_shared := sh\<rparr>) (update_resource_priorities (sa_shared s) (sa_tasks s)) = Inr sa" by blast
  then obtain sh where sh: "update_resource_priorities (sa_shared s) (sa_tasks s) = Inr sh" "sa = s\<lparr>sa_shared := sh\<rparr>" by auto
  from update_resource_priorities_cases [OF sh(1)] sh(2) assms(4) obtain sr0 where
    sr0: "sa_shared s = Some sr0" "update_resource_priorities (Some sr0) (sa_tasks s) = Inr (Some sr)" by auto
  have f: "distinct (res_names sr0)" "\<forall>e \<in> set (sr_resources sr0). se_priority e = 0"
    using assms(1) s(1) sr0(1) by (auto simp: resources_fresh_def)
  from f(2) have wc: "with_ceilings (sa_tasks s) sr0 = sr0\<lparr>sr_resources := map (\<lambda>e. e\<lparr>se_priority := ceiling (sa_tasks s) (se_ident e)\<rparr>) (sr_resources sr0)\<rparr>"
    by (auto simp: with_ceilings_def max_def word_le_0_iff)
  have u: "(\<forall>t \<in> set (sa_tasks s). set (ta_shared (rt_args t)) \<subseteq> set (res_names sr0)) \<and> sr = with_ceilings (sa_tasks s) sr0"
    using sr0(2) update_loop [OF f(1), of "[]" "sa_tasks s" sr] by (simp add: update_resource_priorities_def with_ceilings_Nil)
  with wc sh(2) show "\<forall>e \<in> set (sr_resources sr). se_priority e = ceiling (sa_tasks sa) (se_ident e)" by auto
  from u sh(2) f(1) show "\<forall>t \<in> set (sa_tasks sa). set (ta_shared (rt_args t)) \<subseteq> set (res_names sr)" "distinct (res_names sr)"
    by simp_all
qed

text \<open>
  (C13) The ceiling property that the priority-ceiling locks rest on: after a successful analysis, in
  every sub-application the ceiling of each resource is at least the priority of every task that
  lists the resource, and is reached by one of them unless it is 0.
\<close>

theorem analysis_ceilings:
  assumes "resources_fresh a" and "analysis_run a = Ok (a', an)"
    and "sa \<in> set (sub_apps a')" and "sa_shared sa = Some sr" and "e \<in> set (sr_resources sr)"
  shows "(\<forall>t \<in> set (sa_tasks sa). se_ident e \<in> set (ta_shared (rt_args t)) \<longrightarrow> ta_priority (rt_args t) \<le> se_priority e) \<and>
    (se_priority e = 0 \<or> (\<exists>t \<in> set (sa_tasks sa). se_ident e \<in> set (ta_shared (rt_args t)) \<and> ta_priority (rt_args t) = se_priority e))"
  using analysis_sub_app(1) [OF assms(1-4)] assms(5) ceiling_ge ceiling_attained by metis

text \<open>A one-core app with these two tasks.\<close>

definition demo_sub_app :: sub_app where
  "demo_sub_app = \<lparr>sa_core = 0, sa_shared = Some demo_shared,
     sa_init = \<lparr>in_core = 0, in_ident = ''init'', in_body = \<lparr>fn_attrs = [], fn_ident = ''init'', fn_body = []\<rparr>\<rparr>,
     sa_post_init = None, sa_idle = None, sa_tasks = [demo_task ''A'' 2 [''r''], demo_task ''B'' 5 [''r'']]\<rparr>"

definition demo_whole_app :: app where
  "demo_whole_app = \<lparr>app_name = ''app'', app_args = \<lparr>aa_pacs = [ident_path ''pac''], aa_cores = 1, aa_warnings = []\<rparr>,
     sub_apps = [demo_sub_app], user_includes = [], other_code = []\<rparr>"

definition demo_result_app :: app where
  "demo_result_app = demo_whole_app\<lparr>sub_apps := [demo_sub_app\<lparr>sa_shared :=
     Some (demo_shared\<lparr>sr_resources := [\<lparr>se_ident = ''r'', se_ty = ''u32'', se_priority = 5\<rparr>]\<rparr>)\<rparr>]\<rparr>"

definition demo_analysis :: analysis where
  "demo_analysis = \<lparr>sub_analyses = map sub_analysis_run (sub_apps demo_result_app),
     task_traits = (\<Union>sa \<in> set (sub_apps demo_result_app). traits_of sa)\<rparr>"

lemma demo_analysis_run: "analysis_run demo_whole_app = Ok (demo_result_app, demo_analysis)"
proof -
  have "update_resource_priorities (Some demo_shared) [demo_task ''A'' 2 [''r''], demo_task ''B'' 5 [''r'']]
     = Inr (Some (demo_shared\<lparr>sr_resources := [\<lparr>se_ident = ''r'', se_ty = ''u32'', se_priority = 5\<rparr>]\<rparr>))"
    by (simp add: update_resource_priorities_def update_for_task_def demo_task_def demo_shared_def get_field_mut_def
        get_field_def raise_ceiling_def)
  then show ?thesis by (simp add: analysis_run_def demo_whole_app_def demo_sub_app_def demo_result_app_def demo_analysis_def)
qed

lemma demo_fresh: "resources_fresh demo_whole_app"
  by (simp add: resources_fresh_def demo_whole_app_def demo_sub_app_def demo_shared_def res_names_def)

lemma analysis_ceilings_witness:
  "\<exists>sa sr e. sa \<in> set (sub_apps demo_result_app) \<and> sa_shared sa = Some sr \<and> e \<in> set (sr_resources sr) \<and> 5 \<le> se_priority e"
proof -
  let ?e = "\<lparr>se_ident = ''r'', se_ty = ''u32'', se_priority = 5 :: prio\<rparr>"
  let ?sr = "demo_shared\<lparr>sr_resources := [?e]\<rparr>"
  let ?sa = "demo_sub_app\<lparr>sa_shared := Some ?sr\<rparr>"
  have s: "?sa \<in> set (sub_apps demo_result_app)" "sa_shared ?sa = Some ?sr" "?e \<in> set (sr_resources ?sr)"
    by (simp_all add: demo_result_app_def)
  from analysis_ceilings [OF demo_fresh demo_analysis_run s]
  have "\<forall>t \<in> set (sa_tasks ?sa). se_ident ?e \<in> set (ta_shared (rt_args t)) \<longrightarrow> ta_priority (rt_args t) \<le> se_priority ?e"
    by (rule conjunct1)
  moreover have "demo_task ''B'' 5 [''r''] \<in> set (sa_tasks ?sa)" by (simp add: demo_sub_app_def)
  ultimately have "5 \<le> se_priority ?e" by (auto simp: demo_task_def)
  with s show ?thesis by blast
qed

end
