(* ===== verification/Codegen.thy ===== *)
theory Codegen
  imports CoreAnalysis
begin

text \<open>
  The code generation of the core pass: \<open>rticx-core/src/codegen/\<close> (\<open>mod.rs\<close>, \<open>task_init.rs\<close>,
  \<open>hw_task.rs\<close>, \<open>shared_resources.rs\<close>) and the helpers of \<open>common_internal/rticx_functions.rs\<close>.  The
  generated Rust code is a tree of the statements and items that the templates contain, one constructor
  for each form; a call of a function with a priority and a closure is \<open>GClosure\<close>.  What a distribution supplies (\<open>CorePassBackend\<close>) is a record of functions, a
  parameter of the model; so are the identifier conversions of \<open>heck\<close> and \<open>std\<close>.
\<close>

section \<open>Generated code\<close>

datatype gstmt =
    GToks tokens
  | GCallInit "ident option" ident ident
  | GWriteShared ident
  | GWriteInit ident ident
  | GWriteNew ident ident
  | GExec ident
  | GUnsafe "gstmt list"
  | GFree "gstmt list"
  | GFnDef item_fn
  | GCall ident
  | GLoop "tokens option"
  | GClosure tokens prio "gstmt list"

text \<open>The lock function of a resource proxy: the constant, the static and field its pointer refers to,
  and the body that the backend appends.\<close>

record lock_fn =
  lf_ceiling :: prio
  lf_static :: ident
  lf_field :: ident
  lf_body :: tokens

record free_fn =
  ff_ident :: ident
  ff_body :: tokens

datatype gitem =
    GStatic ident ident
  | GStruct item_struct
  | GTraitCheck ident ident
  | GImpl item_impl
  | GPriority ident prio
  | GSharedFor ident ident "(ident \<times> ident \<times> prio) list" "(ident \<times> ident) list"
  | GInitFn item_fn
  | GHandler ident "tokens list" "gstmt list"
  | GProxy ident tokens lock_fn
  | GDefs tokens
  | GTaskInits ident "(ident \<times> ident) list"
  | GEntry ident "tokens list" core "gstmt list"

text \<open>A trait of the generated \<open>rticx_traits\<close> module: its associated type, its method, the generic
  parameters and closure argument of the method, and whether the method never returns.\<close>

record trait_def =
  tr_ident :: ident
  tr_assoc :: "ident option"
  tr_method :: ident
  tr_closure :: bool
  tr_diverges :: bool

record gmodule =
  gm_ident :: ident
  gm_pacs :: "path list"
  gm_includes :: "tokens list"
  gm_warnings :: "(ident \<times> ident) list"
  gm_traits :: "trait_def list"
  gm_free :: free_fn
  gm_user :: "item list"
  gm_sub_apps :: "gitem list"
  gm_checks :: "(ident \<times> ident) set"

section \<open>Parameters\<close>

text \<open>\<open>CorePassBackend\<close>, without \<open>subscribe\<close>.\<close>

record backend =
  be_post_init :: "app_args \<Rightarrow> sub_app \<Rightarrow> sub_analysis \<Rightarrow> tokens option"
  be_lock :: "app_args \<Rightarrow> sub_app \<Rightarrow> lock_fn \<Rightarrow> lock_fn"
  be_global_defs :: "app_args \<Rightarrow> sub_app \<Rightarrow> sub_analysis \<Rightarrow> tokens option"
  be_wrap :: "rtic_task \<Rightarrow> gstmt list \<Rightarrow> gstmt list option"
  be_entry_name :: "core \<Rightarrow> ident"
  be_idle_loop :: "tokens option"
  be_enable :: "tokens option"
  be_free :: "free_fn \<Rightarrow> free_fn"
  be_validate :: "app \<Rightarrow> analysis \<Rightarrow> unit result"
  be_entry_attrs :: "tokens list"
  be_task_attrs :: "ident \<Rightarrow> tokens list"

text \<open>Snake case and upper case, and the decimal notation of a core number.\<close>

record naming =
  nm_snake :: "ident \<Rightarrow> ident"
  nm_upper :: "ident \<Rightarrow> ident"
  nm_nat :: "nat \<Rightarrow> ident"

abbreviation static_name :: "naming \<Rightarrow> ident \<Rightarrow> ident" where
  "static_name N \<equiv> uppercase_ident (nm_snake N) (nm_upper N)"

text \<open>\<open>MainInjections\<close>: a map from cores per injection point.\<close>

record injections =
  inj_entry_start :: "core \<rightharpoonup> tokens list"
  inj_before_init :: "core \<rightharpoonup> tokens list"
  inj_before_post_init :: "core \<rightharpoonup> tokens list"
  inj_before_idle :: "core \<rightharpoonup> tokens list"

definition inj_at :: "(core \<rightharpoonup> tokens list) \<Rightarrow> core \<Rightarrow> gstmt list" where
  "inj_at m core = map GToks (case m core of None \<Rightarrow> [] | Some ts \<Rightarrow> ts)"

section \<open>Tasks\<close>

text \<open>\<open>task_init.rs\<close>.\<close>

definition generate_task_inits_struct :: "naming \<Rightarrow> ident \<Rightarrow> ident list \<Rightarrow> gitem" where
  "generate_task_inits_struct N struct_name tasks =
     GTaskInits struct_name (map (\<lambda>t. (snakecase_ident (nm_snake N) t, t)) tasks)"

definition generate_task_inits_write_calls :: "naming \<Rightarrow> ident list \<Rightarrow> gstmt" where
  "generate_task_inits_write_calls N tasks =
     GUnsafe (map (\<lambda>t. GWriteInit (static_name N t) (snakecase_ident (nm_snake N) t)) tasks)"

text \<open>\<open>rticx_functions.rs\<close>.\<close>

definition task_trait_check_fn_name :: "naming \<Rightarrow> ident \<Rightarrow> ident" where
  "task_trait_check_fn_name N trait = ''implements_'' @ nm_snake N trait"

definition trait_check_call_for :: "naming \<Rightarrow> rtic_task \<Rightarrow> gitem" where
  "trait_check_call_for N t = GTraitCheck (task_trait_check_fn_name N (ta_trait (rt_args t))) (task_name t)"

definition generate_trait_check_fn :: "naming \<Rightarrow> ident \<Rightarrow> ident \<times> ident" where
  "generate_trait_check_fn N trait = (task_trait_check_fn_name N trait, trait)"

definition generate_task_traits_check_functions :: "naming \<Rightarrow> analysis \<Rightarrow> (ident \<times> ident) set" where
  "generate_task_traits_check_functions N an = generate_trait_check_fn N ` task_traits an"

definition INTERRUPT_FREE_FN :: ident where
  "INTERRUPT_FREE_FN = ''__rticx_interrupt_free''"

definition get_interrupt_free_fn :: "backend \<Rightarrow> free_fn" where
  "get_interrupt_free_fn B = be_free B \<lparr>ff_ident = INTERRUPT_FREE_FN, ff_body = []\<rparr>"

definition get_resource_proxy_lock_fn :: "backend \<Rightarrow> app_args \<Rightarrow> sub_app \<Rightarrow> shared_element \<Rightarrow> ident \<Rightarrow> lock_fn" where
  "get_resource_proxy_lock_fn B args sa e static =
     be_lock B args sa \<lparr>lf_ceiling = se_priority e, lf_static = static, lf_field = se_ident e, lf_body = []\<rparr>"

text \<open>\<open>rticx_traits.rs\<close>.\<close>

definition MUTEX_TY :: ident where
  "MUTEX_TY = ''RticMutex''"

definition hw_task_trait :: trait_def where
  "hw_task_trait = \<lparr>tr_ident = HWT_TRAIT_TY, tr_assoc = None, tr_method = ''exec'', tr_closure = False, tr_diverges = False\<rparr>"

definition idle_task_trait :: trait_def where
  "idle_task_trait = \<lparr>tr_ident = IDLE_TRAIT_TY, tr_assoc = None, tr_method = ''exec'', tr_closure = False, tr_diverges = True\<rparr>"

definition mutex_trait :: trait_def where
  "mutex_trait = \<lparr>tr_ident = MUTEX_TY, tr_assoc = Some ''ResourceType'', tr_method = ''lock'', tr_closure = True, tr_diverges = False\<rparr>"

definition get_rticx_traits_mod :: "trait_def list" where
  "get_rticx_traits_mod = [hw_task_trait, idle_task_trait, mutex_trait]"

text \<open>\<open>shared_resources.rs\<close>.\<close>

definition get_proxy_name :: "ident \<Rightarrow> ident" where
  "get_proxy_name i = ''__'' @ i @ ''_mutex''"

definition shared_static :: "naming \<Rightarrow> shared_resources \<Rightarrow> ident" where
  "shared_static N sr = static_name N (st_ident (sr_struct sr))"

definition generate_shared_resources_def :: "naming \<Rightarrow> shared_resources \<Rightarrow> gitem list" where
  "generate_shared_resources_def N sr = [GStatic (shared_static N sr) (st_ident (sr_struct sr)), GStruct (sr_struct sr)]"

definition generate_resource_proxies :: "naming \<Rightarrow> backend \<Rightarrow> app_args \<Rightarrow> sub_app \<Rightarrow> shared_resources \<Rightarrow> gitem list" where
  "generate_resource_proxies N B args sa sr =
     map (\<lambda>e. GProxy (get_proxy_name (se_ident e)) (se_ty e)
       (get_resource_proxy_lock_fn B args sa e (shared_static N sr))) (sr_resources sr)"

definition generate_shared_for_task :: "naming \<Rightarrow> rtic_task \<Rightarrow> shared_resources \<Rightarrow> gitem list" where
  "generate_shared_for_task N t sr =
     (let idents = ta_shared (rt_args t) in
      if idents = [] then []
      else [GSharedFor (task_name t) (''__'' @ snakecase_ident (nm_snake N) (task_name t) @ ''_shared_resources'')
        (List.map_filter (\<lambda>r. map_option (\<lambda>e. (se_ident e, get_proxy_name (se_ident e), ta_priority (rt_args t)))
           (get_field r sr)) idents)
        (List.map_filter (\<lambda>r. map_option (\<lambda>e. (se_ident e, get_proxy_name (se_ident e))) (get_field r sr)) idents)])"

text \<open>\<open>hw_task.rs\<close>.\<close>

definition generate_priority_func :: "rtic_task \<Rightarrow> gitem" where
  "generate_priority_func t = GPriority (task_name t) (ta_priority (rt_args t))"

definition generate_task_def :: "naming \<Rightarrow> shared_resources option \<Rightarrow> rtic_task \<Rightarrow> gitem list" where
  "generate_task_def N shared t =
     [GStatic (static_name N (task_name t)) (task_name t), GStruct (rt_struct t), trait_check_call_for N t] @
     (case rt_impl t of None \<Rightarrow> [] | Some im \<Rightarrow> [GImpl im]) @
     [generate_priority_func t] @
     (case shared of None \<Rightarrow> [] | Some sr \<Rightarrow> generate_shared_for_task N t sr)"

definition task_init_call :: "naming \<Rightarrow> rtic_task \<Rightarrow> gstmt option" where
  "task_init_call N t =
     (if \<not> ta_generated (rt_args t) then None else Some (GWriteNew (static_name N (task_name t)) (task_name t)))"

definition generate_hw_task_to_irq_binding :: "naming \<Rightarrow> backend \<Rightarrow> rtic_task \<Rightarrow> gitem option" where
  "generate_hw_task_to_irq_binding N B t =
     (case ta_binds (rt_args t) of
        None \<Rightarrow> None
      | Some irq \<Rightarrow>
          let call = [GUnsafe [GExec (static_name N (task_name t))]] in
          Some (GHandler irq (be_task_attrs B irq) (case be_wrap B t call of None \<Rightarrow> call | Some w \<Rightarrow> w)))"

section \<open>Sub-applications\<close>

definition generate_idle_call :: "naming \<Rightarrow> rtic_task option \<Rightarrow> tokens option \<Rightarrow> gstmt" where
  "generate_idle_call N idle wfi =
     (case idle of
        None \<Rightarrow> GLoop wfi
      | Some t \<Rightarrow> GUnsafe
          ((if ta_generated (rt_args t) then [GWriteNew (static_name N (task_name t)) (task_name t)] else []) @
           [GExec (static_name N (task_name t))]))"

definition opt_toks :: "tokens option \<Rightarrow> gstmt list" where
  "opt_toks x = (case x of None \<Rightarrow> [] | Some t \<Rightarrow> [GToks t])"

text \<open>The name of the struct that \<open>#[init]\<close> returns.\<close>

definition task_inits_ident :: "naming \<Rightarrow> app \<Rightarrow> sub_app \<Rightarrow> ident" where
  "task_inits_ident N a sa =
     (if length (sub_apps a) = 1 then ''TaskInits'' else ''TaskInitsCore'' @ nm_nat N (unat (sa_core sa)))"

text \<open>\<open>init_system\<close>: the call of the user's init function and the writes of what it returns.\<close>

definition init_system :: "naming \<Rightarrow> app \<Rightarrow> sub_app \<Rightarrow> sub_analysis \<Rightarrow> gstmt list" where
  "init_system N a sa an =
     (let writes = (if late_resource_tasks an = [] then []
        else [generate_task_inits_write_calls N (late_resource_tasks an)])
      in case sa_shared sa of
        Some sr \<Rightarrow>
          [GCallInit (Some (st_ident (sr_struct sr))) (task_inits_ident N a sa) (in_ident (sa_init sa)),
           GUnsafe [GWriteShared (shared_static N sr)]] @ writes
      | None \<Rightarrow> GCallInit None (task_inits_ident N a sa) (in_ident (sa_init sa)) # writes)"

definition generated_task_inits_block :: "naming \<Rightarrow> sub_app \<Rightarrow> gstmt list" where
  "generated_task_inits_block N sa =
     (let calls = List.map_filter (task_init_call N) (sa_tasks sa) in if calls = [] then [] else [GUnsafe calls])"

definition user_post_init_call :: "sub_app \<Rightarrow> gstmt list" where
  "user_post_init_call sa =
     (case sa_post_init sa of None \<Rightarrow> [] | Some pi \<Rightarrow> [GFnDef (in_body pi), GCall (in_ident pi)])"

text \<open>The body of the entry function.\<close>

definition entry_body :: "naming \<Rightarrow> backend \<Rightarrow> injections \<Rightarrow> app \<Rightarrow> sub_app \<Rightarrow> sub_analysis \<Rightarrow> gstmt list" where
  "entry_body N B ij a sa an =
     inj_at (inj_entry_start ij) (sa_core sa) @
     [GFree
       (inj_at (inj_before_init ij) (sa_core sa) @
        init_system N a sa an @
        generated_task_inits_block N sa @
        inj_at (inj_before_post_init ij) (sa_core sa) @
        opt_toks (be_post_init B (app_args a) sa an))] @
     inj_at (inj_before_idle ij) (sa_core sa) @
     opt_toks (be_enable B) @
     user_post_init_call sa @
     [generate_idle_call N (sa_idle sa) (be_idle_loop B)]"

definition generate_sub_app :: "naming \<Rightarrow> backend \<Rightarrow> injections \<Rightarrow> app \<Rightarrow> sub_app \<Rightarrow> sub_analysis \<Rightarrow> gitem list" where
  "generate_sub_app N B ij a sa an =
     (case sa_shared sa of None \<Rightarrow> [] | Some sr \<Rightarrow> generate_shared_resources_def N sr) @
     [GInitFn (in_body (sa_init sa))] @
     (case sa_idle sa of None \<Rightarrow> [] | Some t \<Rightarrow> generate_task_def N (sa_shared sa) t) @
     concat (map (generate_task_def N (sa_shared sa)) (sa_tasks sa)) @
     List.map_filter (generate_hw_task_to_irq_binding N B) (sa_tasks sa) @
     (case sa_shared sa of None \<Rightarrow> [] | Some sr \<Rightarrow> generate_resource_proxies N B (app_args a) sa sr) @
     (case be_global_defs B (app_args a) sa an of None \<Rightarrow> [] | Some ts \<Rightarrow> [GDefs ts]) @
     [generate_task_inits_struct N (task_inits_ident N a sa) (late_resource_tasks an),
      GEntry (be_entry_name B (sa_core sa)) (be_entry_attrs B) (sa_core sa) (entry_body N B ij a sa an)]"

definition generate_sub_apps :: "naming \<Rightarrow> backend \<Rightarrow> injections \<Rightarrow> app \<Rightarrow> analysis \<Rightarrow> gitem list" where
  "generate_sub_apps N B ij a an =
     concat (map (\<lambda>(sa, s). generate_sub_app N B ij a sa s) (zip (sub_apps a) (sub_analyses an)))"

text \<open>One import per PAC path: the first occurrences, in order.\<close>

fun first_occurrences :: "'a list \<Rightarrow> 'a set \<Rightarrow> 'a list" where
  "first_occurrences [] seen = []"
| "first_occurrences (p # ps) seen =
     (if p \<in> seen then first_occurrences ps seen else p # first_occurrences ps (insert p seen))"

definition generate_use_pac_statement :: "app \<Rightarrow> path list" where
  "generate_use_pac_statement a = first_occurrences (aa_pacs (app_args a)) {}"

definition codegen_run :: "naming \<Rightarrow> backend \<Rightarrow> injections \<Rightarrow> app \<Rightarrow> analysis \<Rightarrow> gmodule" where
  "codegen_run N B ij a an = \<lparr>
     gm_ident = app_name a, gm_pacs = generate_use_pac_statement a, gm_includes = user_includes a,
     gm_warnings = aa_warnings (app_args a), gm_traits = get_rticx_traits_mod, gm_free = get_interrupt_free_fn B, gm_user = other_code a,
     gm_sub_apps = generate_sub_apps N B ij a an, gm_checks = generate_task_traits_check_functions N an\<rparr>"

section \<open>What the generated code does\<close>

text \<open>The statics that a statement initialises and those whose task it runs, in program order.\<close>

fun written :: "gstmt \<Rightarrow> ident list" where
  "written (GWriteShared s) = [s]"
| "written (GWriteInit s f) = [s]"
| "written (GWriteNew s t) = [s]"
| "written (GUnsafe ss) = concat (map written ss)"
| "written (GFree ss) = concat (map written ss)"
| "written (GClosure g p ss) = concat (map written ss)"
| "written (GToks t) = []"
| "written (GCallInit sh ti f) = []"
| "written (GExec s) = []"
| "written (GFnDef f) = []"
| "written (GCall f) = []"
| "written (GLoop t) = []"

fun executed :: "gstmt \<Rightarrow> ident list" where
  "executed (GExec s) = [s]"
| "executed (GUnsafe ss) = concat (map executed ss)"
| "executed (GFree ss) = concat (map executed ss)"
| "executed (GClosure g p ss) = concat (map executed ss)"
| "executed (GWriteShared s) = []"
| "executed (GWriteInit s f) = []"
| "executed (GWriteNew s t) = []"
| "executed (GToks t) = []"
| "executed (GCallInit sh ti f) = []"
| "executed (GFnDef f) = []"
| "executed (GCall f) = []"
| "executed (GLoop t) = []"

abbreviation all_written :: "gstmt list \<Rightarrow> ident list" where
  "all_written ss \<equiv> concat (map written ss)"

abbreviation all_executed :: "gstmt list \<Rightarrow> ident list" where
  "all_executed ss \<equiv> concat (map executed ss)"

lemma inj_at_inert [simp]: "all_written (inj_at m c) = []" "all_executed (inj_at m c) = []"
  by (simp_all add: inj_at_def comp_def)

lemma opt_toks_inert [simp]: "all_written (opt_toks x) = []" "all_executed (opt_toks x) = []"
  by (auto simp: opt_toks_def split: option.split)

lemma user_post_init_inert [simp]:
  "all_written (user_post_init_call sa) = []" "all_executed (user_post_init_call sa) = []"
  by (auto simp: user_post_init_call_def split: option.split)

lemma concat_singletons: "concat (map (\<lambda>x. [f x]) xs) = map f xs"
  by (induction xs) auto

lemma written_late: "all_written [generate_task_inits_write_calls N ts] = map (static_name N) ts"
  by (simp add: generate_task_inits_write_calls_def comp_def concat_singletons)

text \<open>The statics of the shared resources, of the late tasks and of the generated tasks.\<close>

definition shared_statics :: "naming \<Rightarrow> sub_app \<Rightarrow> ident list" where
  "shared_statics N sa = (case sa_shared sa of None \<Rightarrow> [] | Some sr \<Rightarrow> [shared_static N sr])"

definition task_static :: "naming \<Rightarrow> rtic_task \<Rightarrow> ident" where
  "task_static N t = static_name N (task_name t)"

definition idle_list :: "sub_app \<Rightarrow> rtic_task list" where
  "idle_list sa = (case sa_idle sa of None \<Rightarrow> [] | Some t \<Rightarrow> [t])"

lemma init_system_split:
  "\<exists>call rest. init_system N a sa an = call # rest \<and> (\<exists>sh ti. call = GCallInit sh ti (in_ident (sa_init sa))) \<and>
     all_written rest = shared_statics N sa @ map (static_name N) (late_resource_tasks an) \<and> all_executed rest = []"
  by (auto simp: init_system_def shared_statics_def Let_def generate_task_inits_write_calls_def comp_def concat_singletons
      split: option.split)

lemma generated_block:
  "all_written (generated_task_inits_block N sa) = map (task_static N) (filter (ta_generated \<circ> rt_args) (sa_tasks sa)) \<and>
   all_executed (generated_task_inits_block N sa) = []"
proof -
  have "concat (map written (List.map_filter (task_init_call N) ts)) = map (task_static N) (filter (ta_generated \<circ> rt_args) ts)"
    and "concat (map executed (List.map_filter (task_init_call N) ts)) = []" for ts
    by (induction ts) (auto simp: map_filter_Cons map_filter_Nil task_init_call_def task_static_def)
  from this [of "sa_tasks sa"] show ?thesis
    by (cases "List.map_filter (task_init_call N) (sa_tasks sa)") (auto simp: generated_task_inits_block_def Let_def)
qed

lemma late_names:
  "map (static_name N) (late_resource_tasks (sub_analysis_run sa))
     = map (task_static N) (filter (Not \<circ> ta_generated \<circ> rt_args) (sa_tasks sa @ idle_list sa))"
proof -
  have "map (static_name N) (List.map_filter (\<lambda>t. if ta_generated (rt_args t) then None else Some (task_name t)) ts)
      = map (task_static N) (filter (Not \<circ> ta_generated \<circ> rt_args) ts)" for ts
    by (induction ts) (auto simp: map_filter_Cons map_filter_Nil task_static_def)
  then show ?thesis by (simp add: sub_analysis_run_def idle_list_def)
qed

lemma idle_call:
  "written (generate_idle_call N (sa_idle sa) w) = map (task_static N) (filter (ta_generated \<circ> rt_args) (idle_list sa)) \<and>
   executed (generate_idle_call N (sa_idle sa) w) = map (task_static N) (idle_list sa)"
  by (auto simp: generate_idle_call_def idle_list_def task_static_def split: option.split)

lemma mset_partition: "mset (filter (Not \<circ> P) xs) + mset (filter P xs) = mset xs"
  by (induction xs) auto

lemma zip_analyses:
  assumes "analysis_run a0 = Ok (a, an)" and "(sa, s) \<in> set (zip (sub_apps a) (sub_analyses an))"
  shows "s = sub_analysis_run sa" and "sa \<in> set (sub_apps a)"
  using assms by (auto simp: analysis_run_def set_zip)


text \<open>A backend that adds nothing, and identity naming.\<close>

definition demo_backend :: backend where
  "demo_backend = \<lparr>be_post_init = (\<lambda>_ _ _. None), be_lock = (\<lambda>_ _ lf. lf\<lparr>lf_body := ''lock''\<rparr>), be_global_defs = (\<lambda>_ _ _. None),
     be_wrap = (\<lambda>_ _. None), be_entry_name = (\<lambda>_. ''main''), be_idle_loop = None, be_enable = None,
     be_free = (\<lambda>f. f), be_validate = (\<lambda>_ _. Ok ()), be_entry_attrs = [], be_task_attrs = (\<lambda>_. [])\<rparr>"

definition demo_naming :: naming where
  "demo_naming = \<lparr>nm_snake = (\<lambda>i. i), nm_upper = (\<lambda>i. i), nm_nat = (\<lambda>_. ''0'')\<rparr>"

definition no_injections :: injections where
  "no_injections = \<lparr>inj_entry_start = Map.empty, inj_before_init = Map.empty, inj_before_post_init = Map.empty,
     inj_before_idle = Map.empty\<rparr>"

lemma demo_zip:
  "(hd (sub_apps demo_result_app), sub_analysis_run (hd (sub_apps demo_result_app)))
     \<in> set (zip (sub_apps demo_result_app) (sub_analyses demo_analysis))"
  by (simp add: demo_analysis_def demo_result_app_def)


section \<open>Handlers\<close>

text \<open>The interrupts that the generated items bind.\<close>

definition handler_irqs :: "gitem list \<Rightarrow> ident list" where
  "handler_irqs items = List.map_filter (\<lambda>it. case it of GHandler irq attrs body \<Rightarrow> Some irq | _ \<Rightarrow> None) items"

lemma map_filter_append: "List.map_filter f (xs @ ys) = List.map_filter f xs @ List.map_filter f ys"
  by (simp add: List.map_filter_def)

lemma handler_irqs_append [simp]: "handler_irqs (xs @ ys) = handler_irqs xs @ handler_irqs ys"
  by (simp add: handler_irqs_def map_filter_append)

lemma no_handlers: "\<forall>it \<in> set xs. \<not> (\<exists>irq attrs body. it = GHandler irq attrs body) \<Longrightarrow> handler_irqs xs = []"
  by (induction xs) (auto simp: handler_irqs_def map_filter_Cons map_filter_Nil split: gitem.split)

lemma task_def_no_handler: "handler_irqs (generate_task_def N sh t) = []"
  by (rule no_handlers)
    (auto simp: generate_task_def_def trait_check_call_for_def generate_priority_func_def generate_shared_for_task_def Let_def
      split: option.splits if_splits)

lemma handler_irqs_concat: "(\<And>x. handler_irqs (f x) = []) \<Longrightarrow> handler_irqs (concat (map f xs)) = []"
  by (induction xs) (simp_all add: handler_irqs_def map_filter_Nil map_filter_append)

lemma binding_irqs:
  "handler_irqs (List.map_filter (generate_hw_task_to_irq_binding N B) ts) = List.map_filter (ta_binds \<circ> rt_args) ts"
  by (induction ts) (auto simp: handler_irqs_def map_filter_Cons map_filter_Nil generate_hw_task_to_irq_binding_def Let_def
      split: option.split)

lemma sub_app_irqs:
  "handler_irqs (generate_sub_app N B ij a sa s) = List.map_filter (ta_binds \<circ> rt_args) (sa_tasks sa)"
proof -
  have 1: "handler_irqs (case sa_shared sa of None \<Rightarrow> [] | Some sr \<Rightarrow> generate_shared_resources_def N sr) = []"
    by (rule no_handlers) (auto simp: generate_shared_resources_def_def split: option.splits)
  have 2: "handler_irqs (case sa_shared sa of None \<Rightarrow> [] | Some sr \<Rightarrow> generate_resource_proxies N B (app_args a) sa sr) = []"
    by (rule no_handlers) (auto simp: generate_resource_proxies_def split: option.splits)
  have 3: "handler_irqs (case sa_idle sa of None \<Rightarrow> [] | Some t \<Rightarrow> generate_task_def N (sa_shared sa) t) = []"
    by (simp add: task_def_no_handler handler_irqs_def [of "[]"] map_filter_Nil split: option.split)
  have 4: "handler_irqs [GInitFn f] = []" "handler_irqs [generate_task_inits_struct N i l, GEntry n at c b] = []"
    "handler_irqs (case x of None \<Rightarrow> [] | Some ts \<Rightarrow> [GDefs ts]) = []" for f i l n at c b x
    by (auto simp: handler_irqs_def map_filter_Cons map_filter_Nil generate_task_inits_struct_def split: option.split)
  show ?thesis
    unfolding generate_sub_app_def handler_irqs_append 1 2 3 4 binding_irqs
    by (simp add: handler_irqs_concat task_def_no_handler)
qed

text \<open>
  Interrupts: the handlers generated for a core are bound to exactly the interrupts that the
  analysis hands to the backend to enable (\<open>used_irqs\<close>), in the same order; the handler of a task
  that binds an interrupt runs that task, through the backend's wrapper where it has one, and the
  task's static is declared with its type.
\<close>

lemma handlers_match_used_irqs:
  assumes "analysis_run a0 = Ok (a, an)" and "(sa, s) \<in> set (zip (sub_apps a) (sub_analyses an))"
  shows "handler_irqs (generate_sub_app N B ij a sa s) = map ui_name (used_irqs s) \<and>
    (\<forall>t \<in> set (sa_tasks sa). \<forall>irq. ta_binds (rt_args t) = Some irq \<longrightarrow>
       GStatic (task_static N t) (task_name t) \<in> set (generate_sub_app N B ij a sa s) \<and>
       (let call = [GUnsafe [GExec (task_static N t)]] in
        GHandler irq (be_task_attrs B irq) (case be_wrap B t call of None \<Rightarrow> call | Some w \<Rightarrow> w)
          \<in> set (generate_sub_app N B ij a sa s)))"
proof (intro conjI ballI allI impI)
  have "map ui_name (used_irqs (sub_analysis_run sa)) = List.map_filter (ta_binds \<circ> rt_args) (sa_tasks sa)"
  proof -
    have "map ui_name (List.map_filter (\<lambda>t. map_option (\<lambda>b. \<lparr>ui_name = b, ui_priority = ta_priority (rt_args t)\<rparr>)
       (ta_binds (rt_args t))) ts) = List.map_filter (ta_binds \<circ> rt_args) ts" for ts
      by (induction ts) (auto simp: map_filter_Cons map_filter_Nil split: option.split)
    then show ?thesis by (simp add: sub_analysis_run_def)
  qed
  then show "handler_irqs (generate_sub_app N B ij a sa s) = map ui_name (used_irqs s)"
    by (simp add: sub_app_irqs zip_analyses(1) [OF assms])
next
  fix t irq assume t: "t \<in> set (sa_tasks sa)" "ta_binds (rt_args t) = Some irq"
  then show "GStatic (task_static N t) (task_name t) \<in> set (generate_sub_app N B ij a sa s)"
    by (auto simp: generate_sub_app_def generate_task_def_def task_static_def intro!: bexI [of _ t])
  let ?call = "[GUnsafe [GExec (task_static N t)]]"
  let ?h = "GHandler irq (be_task_attrs B irq) (case be_wrap B t ?call of None \<Rightarrow> ?call | Some w \<Rightarrow> w)"
  have "generate_hw_task_to_irq_binding N B t = Some ?h"
    using t(2) by (simp add: generate_hw_task_to_irq_binding_def task_static_def Let_def split: option.split)
  with t(1) have "?h \<in> set (List.map_filter (generate_hw_task_to_irq_binding N B) (sa_tasks sa))"
    by (force simp: List.map_filter_def)
  then show "let call = ?call in GHandler irq (be_task_attrs B irq) (case be_wrap B t call of None \<Rightarrow> call | Some w \<Rightarrow> w)
      \<in> set (generate_sub_app N B ij a sa s)" by (simp add: generate_sub_app_def Let_def)
qed

lemma handlers_match_used_irqs_witness:
  "handler_irqs (generate_sub_app demo_naming demo_backend no_injections demo_result_app
     (hd (sub_apps demo_result_app)) (sub_analysis_run (hd (sub_apps demo_result_app)))) = [''IRQ_A'', ''IRQ_B'']"
proof -
  have "map ui_name (used_irqs (sub_analysis_run (hd (sub_apps demo_result_app)))) = [''IRQ_A'', ''IRQ_B'']"
    by (simp add: sub_analysis_run_def demo_result_app_def demo_sub_app_def demo_task_def map_filter_Cons map_filter_Nil)
  with handlers_match_used_irqs [OF demo_analysis_run demo_zip, of demo_naming demo_backend no_injections] show ?thesis
    by metis
qed

section \<open>Resource proxies\<close>

lemma get_field_found:
  assumes "distinct (res_names sr)" and "e \<in> set (sr_resources sr)"
  shows "get_field (se_ident e) sr = Some e"
proof -
  have "\<exists>f. get_field (se_ident e) sr = Some f" unfolding get_field_def
    using assms(2) by (metis (mono_tags, lifting) find_None_iff not_Some_eq)
  then obtain f where f: "get_field (se_ident e) sr = Some f" ..
  then have "f \<in> set (sr_resources sr)" "se_ident f = se_ident e"
    by (auto simp: get_field_def find_Some_iff in_set_conv_nth)
  with assms f show ?thesis by (auto simp: res_names_def distinct_map inj_on_def)
qed

text \<open>
  For every resource that a task lists, the task's \<open>shared()\<close> struct has a proxy field with the task's
  own priority as const parameter, the app module defines that proxy with a lock function on the right
  field of the shared static, and the function's \<open>CEILING\<close> is at least the priority of every task of
  the core that uses the resource.  The assumption on the backend is the contract of
  \<open>generate_resource_proxy_lock_impl\<close>: it completes the given function and keeps its constants.
\<close>

lemma lock_constants:
  assumes "resources_fresh a0" and "analysis_run a0 = Ok (a, an)"
    and "(sa, s) \<in> set (zip (sub_apps a) (sub_analyses an))" and "sa_shared sa = Some sr"
    and "\<And>lf. be_lock B (app_args a) sa lf = lf\<lparr>lf_body := lf_body (be_lock B (app_args a) sa lf)\<rparr>"
    and "t \<in> set (sa_tasks sa)" and "r \<in> set (ta_shared (rt_args t))"
  shows "\<exists>strct fields inits ty lf.
    GSharedFor (task_name t) strct fields inits \<in> set (generate_sub_app N B ij a sa s) \<and>
    (r, get_proxy_name r, ta_priority (rt_args t)) \<in> set fields \<and>
    GProxy (get_proxy_name r) ty lf \<in> set (generate_sub_app N B ij a sa s) \<and>
    lf_static lf = shared_static N sr \<and> lf_field lf = r \<and> lf_ceiling lf = ceiling (sa_tasks sa) r"
proof -
  note sa = zip_analyses(2) [OF assms(2,3)]
  note A = analysis_sub_app [OF assms(1,2) sa assms(4)]
  from A(2) assms(6,7) have "r \<in> set (res_names sr)" by blast
  then obtain e where e: "e \<in> set (sr_resources sr)" "se_ident e = r" by (auto simp: res_names_def)
  have gf: "get_field r sr = Some e" using get_field_found [OF A(3) e(1)] e(2) by simp
  have fld: "(r, get_proxy_name r, ta_priority (rt_args t)) \<in> set (List.map_filter (\<lambda>r. map_option
      (\<lambda>e. (se_ident e, get_proxy_name (se_ident e), ta_priority (rt_args t))) (get_field r sr)) (ta_shared (rt_args t)))"
    using assms(7) gf e(2) by (force simp: List.map_filter_def)
  have ne: "ta_shared (rt_args t) \<noteq> []" using assms(7) by auto
  from ne fld obtain strct fields inits where g: "generate_shared_for_task N t sr = [GSharedFor (task_name t) strct fields inits]"
    "(r, get_proxy_name r, ta_priority (rt_args t)) \<in> set fields" by (auto simp: generate_shared_for_task_def Let_def)
  have "GSharedFor (task_name t) strct fields inits \<in> set (generate_task_def N (sa_shared sa) t)"
    using g(1) by (simp add: generate_task_def_def assms(4))
  then have 1: "GSharedFor (task_name t) strct fields inits \<in> set (generate_sub_app N B ij a sa s)"
    using assms(6) by (auto simp: generate_sub_app_def)
  let ?lf = "get_resource_proxy_lock_fn B (app_args a) sa e (shared_static N sr)"
  have lf: "lf_static ?lf = shared_static N sr" "lf_field ?lf = r" "lf_ceiling ?lf = se_priority e"
    using e(2) by (simp_all add: get_resource_proxy_lock_fn_def, (subst assms(5), simp)+)
  have 2: "GProxy (get_proxy_name r) (se_ty e) ?lf \<in> set (generate_sub_app N B ij a sa s)"
    using e assms(4) by (auto simp: generate_sub_app_def generate_resource_proxies_def)
  have "lf_ceiling ?lf = ceiling (sa_tasks sa) r" using A(1) e lf(3) by metis
  with 1 2 g(2) lf(1,2) show ?thesis by blast
qed

end
