(* ===== verification/ExpandLog.thy ===== *)
theory ExpandLog
  imports Syntax
begin

text \<open>
  The expansion log, \<open>rticx-core/src/expand_log.rs\<close>: where the snapshots of a macro invocation are
  written and how the files are named.  The environment is a finite map of variables, a path is
  its list of components (a relative override is one component), and the file system is the list of
  files written, newest last, with a flag for whether directories can be created.
\<close>

type_synonym env = "string \<rightharpoonup> string"

type_synonym dir = "string list"

record expand_log =
  el_dir :: dir
  el_stem :: string
  el_pass_dir :: "dir option"

definition TRIGGER_VAR :: string where "TRIGGER_VAR = ''RTICX_EXPAND''"

definition DIR_OVERRIDE_VAR :: string where "DIR_OVERRIDE_VAR = ''RTICX_EXPAND_PATH''"

definition PASS_DIR_VAR :: string where "PASS_DIR_VAR = ''RTICX_EXPAND_PASS_DIR''"

text \<open>\<open>PathBuf::from\<close>; the empty path has no component.\<close>

definition path_of :: "string \<Rightarrow> dir" where
  "path_of s = (if s = [] then [] else [s])"

definition non_empty_env :: "env \<Rightarrow> string \<Rightarrow> string option" where
  "non_empty_env env var = (case env var of Some v \<Rightarrow> if v = [] then None else Some v | None \<Rightarrow> None)"

text \<open>The output directory: the override, else the cargo target directory, else the manifest's.\<close>

definition log_dir :: "env \<Rightarrow> dir option" where
  "log_dir env =
     (case env DIR_OVERRIDE_VAR of
        Some d \<Rightarrow> Some (path_of d)
      | None \<Rightarrow> (case env ''CARGO_TARGET_DIR'' of
          Some d \<Rightarrow> Some (path_of d @ [''rticx-expand''])
        | None \<Rightarrow> map_option (\<lambda>d. path_of d @ [''target'', ''rticx-expand'']) (env ''CARGO_MANIFEST_DIR'')))"

text \<open>The stem: of the source file unless it is virtual, else the binary's or the package's name.
  The argument is \<open>Path::file_stem\<close> of the source file, where there is one.\<close>

definition log_stem :: "env \<Rightarrow> string option \<Rightarrow> string" where
  "log_stem env source_stem =
     (case source_stem of
        Some (c # cs) \<Rightarrow> if c \<noteq> CHR ''<'' then c # cs else (case non_empty_env env ''CARGO_BIN_NAME'' of
            Some n \<Rightarrow> n | None \<Rightarrow> (case non_empty_env env ''CARGO_PKG_NAME'' of Some n \<Rightarrow> n | None \<Rightarrow> ''app''))
      | _ \<Rightarrow> (case non_empty_env env ''CARGO_BIN_NAME'' of
            Some n \<Rightarrow> n | None \<Rightarrow> (case non_empty_env env ''CARGO_PKG_NAME'' of Some n \<Rightarrow> n | None \<Rightarrow> ''app'')))"

definition from_env :: "env \<Rightarrow> string option \<Rightarrow> expand_log option" where
  "from_env env source_stem =
     (case env TRIGGER_VAR of
        None \<Rightarrow> None
      | Some _ \<Rightarrow> map_option (\<lambda>d. \<lparr>el_dir = d, el_stem = log_stem env source_stem,
          el_pass_dir = (case env PASS_DIR_VAR of Some p \<Rightarrow> if p = [] then None else Some [p] | None \<Rightarrow> None)\<rparr>)
          (log_dir env))"

text \<open>\<open>sanitize\<close>: every character that is no ASCII letter, digit or underscore becomes an underscore.\<close>

definition is_ascii_alphanumeric :: "char \<Rightarrow> bool" where
  "is_ascii_alphanumeric c \<longleftrightarrow>
     (let n = of_char c :: nat in (48 \<le> n \<and> n \<le> 57) \<or> (65 \<le> n \<and> n \<le> 90) \<or> (97 \<le> n \<and> n \<le> 122))"

definition sanitize :: "string \<Rightarrow> string" where
  "sanitize label = map (\<lambda>ch. if is_ascii_alphanumeric ch \<or> ch = CHR ''_'' then ch else CHR ''_'') label"

text \<open>Decimal numerals, at least two digits wide: \<open>{index:02}\<close>.\<close>

fun digits :: "nat \<Rightarrow> string" where
  "digits n = (if n < 10 then [char_of (48 + n)] else digits (n div 10) @ [char_of (48 + n mod 10)])"

declare digits.simps [simp del]

definition pad2 :: "nat \<Rightarrow> string" where
  "pad2 n = (if n < 10 then CHR ''0'' # digits n else digits n)"

definition state_file_name :: "nat \<Rightarrow> string \<Rightarrow> string" where
  "state_file_name index label = pad2 index @ ''_'' @ sanitize label @ ''.rs''"

record file_system =
  fs_can_create :: "dir \<Rightarrow> bool"
  fs_files :: "(dir \<times> string) list"

definition fs_write :: "dir \<Rightarrow> string \<Rightarrow> file_system \<Rightarrow> file_system" where
  "fs_write path contents fs = fs\<lparr>fs_files := fs_files fs @ [(path, contents)]\<rparr>"

definition write_pass_state :: "expand_log \<Rightarrow> nat \<Rightarrow> string \<Rightarrow> string \<Rightarrow> file_system \<Rightarrow> file_system" where
  "write_pass_state log index label contents fs =
     (case el_pass_dir log of
        None \<Rightarrow> fs
      | Some d \<Rightarrow>
          if \<not> fs_can_create fs d then fs
          else fs_write (d @ [state_file_name index label]) contents fs)"

definition write_raw :: "expand_log \<Rightarrow> string \<Rightarrow> string \<Rightarrow> string \<Rightarrow> file_system \<Rightarrow> file_system" where
  "write_raw log label extension contents fs =
     (if el_dir log = [] then fs
      else if \<not> fs_can_create fs (el_dir log) then fs
      else fs_write (el_dir log @ [el_stem log @ ''_'' @ sanitize label @ ''.'' @ extension]) contents fs)"

text \<open>\<open>pass_dir\<close>: whether per-stage snapshots are logged.\<close>

definition log_pass_dir :: "expand_log \<Rightarrow> dir option" where
  "log_pass_dir log = el_pass_dir log"

text \<open>\<open>render_pass_state\<close> of the printed arguments and the printed module.\<close>

definition render_pass_state :: "string \<Rightarrow> string \<Rightarrow> string \<Rightarrow> string" where
  "render_pass_state context args app_mod =
     ''// ==================== '' @ context @ '' ===================='' @ [CHR 0x0A] @
     ''// #[app('' @ args @ '')]'' @ [CHR 0x0A] @ app_mod @ [CHR 0x0A]"

definition log_write :: "expand_log \<Rightarrow> string \<Rightarrow> string \<Rightarrow> file_system \<Rightarrow> file_system" where
  "log_write log label code fs = write_raw log label ''rs'' code fs"

section \<open>The text of a snapshot\<close>

text \<open>The text from the second line feed on.\<close>

fun after_line :: "string \<Rightarrow> string" where
  "after_line [] = []"
| "after_line (c # cs) = (if c = CHR 0x0A then cs else after_line cs)"

lemma after_line_append: "CHR 0x0A \<notin> set l \<Longrightarrow> after_line (l @ CHR 0x0A # r) = r"
  by (induction l) auto

text \<open>Two comment lines, then the module: what follows them is the module as it was printed.\<close>

lemma render_pass_state_module:
  assumes "CHR 0x0A \<notin> set context" and "CHR 0x0A \<notin> set args"
  shows "after_line (after_line (render_pass_state context args app_mod)) = app_mod @ [CHR 0x0A]"
proof -
  let ?l = "''// ==================== '' @ context @ '' ===================='' " and ?k = "''// #[app('' @ args @ '')]''"
  have r: "render_pass_state context args app_mod = ?l @ CHR 0x0A # ?k @ CHR 0x0A # app_mod @ [CHR 0x0A]"
    by (simp add: render_pass_state_def)
  have l: "CHR 0x0A \<notin> set ?l" and k: "CHR 0x0A \<notin> set ?k" using assms by simp_all
  show ?thesis unfolding r after_line_append [OF l] after_line_append [OF k] ..
qed

section \<open>File names\<close>

lemma sanitize_safe: "\<forall>c \<in> set (sanitize s). is_ascii_alphanumeric c \<or> c = CHR ''_''"
  by (auto simp: sanitize_def)

lemma sanitize_id: "\<forall>c \<in> set s. is_ascii_alphanumeric c \<or> c = CHR ''_'' \<Longrightarrow> sanitize s = s"
  unfolding sanitize_def by (rule map_idI) auto

lemma digit_lt: "(char_of (48 + m) :: char) = char_of (48 + n) \<longleftrightarrow> m = n" if "m < 10" "n < 10" for m n :: nat
proof -
  have "of_char (char_of (48 + k) :: char) = 48 + k" if "k < 10" for k :: nat
    using that by (simp add: of_char_of)
  with that show ?thesis by (metis add_left_cancel)
qed

text \<open>The zero-padded names order as the indices do, as long as there are at most 100 of them.\<close>

definition char_less :: "(char \<times> char) set" where
  "char_less = {(a, b). of_char a < (of_char b :: nat)}"

lemma of_char_digit: "k < 10 \<Longrightarrow> of_char (char_of (48 + k) :: char) = (48 + k :: nat)"
  by (simp add: of_char_of)

lemma pad2_two:
  "n < 100 \<Longrightarrow> pad2 n = [char_of (48 + n div 10), char_of (48 + n mod 10)]"
proof -
  have z: "CHR ''0'' = char_of (48 :: nat)" by code_simp
  assume n: "n < 100"
  show ?thesis
  proof (cases "n < 10")
    case True
    then show ?thesis by (simp add: pad2_def digits.simps [of n] z)
  next
    case False
    with n have "n div 10 < 10" by simp
    with False show ?thesis by (simp add: pad2_def digits.simps [of n] digits.simps [of "n div 10"])
  qed
qed

text \<open>
  The snapshot files of the stages sort lexicographically in pipeline order, whatever the labels
  are, for up to one hundred stages.
\<close>

lemma snapshot_names_sorted:
  assumes "i < j" and "j < 100"
  shows "(state_file_name i l, state_file_name j l') \<in> lexord char_less"
proof -
  have d: "i div 10 < j div 10 \<or> (i div 10 = j div 10 \<and> i mod 10 < j mod 10)"
  proof -
    have "i div 10 \<le> j div 10" using assms(1) by (simp add: div_le_mono)
    moreover have "i mod 10 < j mod 10" if "i div 10 = j div 10"
      using assms(1) div_mult_mod_eq [of i 10] div_mult_mod_eq [of j 10] unfolding that by linarith
    ultimately show ?thesis by linarith
  qed
  have b: "i div 10 < 10" "j div 10 < 10" "i mod 10 < 10" "j mod 10 < 10" using assms by auto
  have less: "(char_of (48 + m), char_of (48 + n)) \<in> char_less" if "m < n" "n < 10" for m n :: nat
    using that by (simp add: char_less_def of_char_digit)
  have "i < 100" using assms by simp
  from d show ?thesis
  proof
    assume "i div 10 < j div 10"
    with less [OF this b(2)] show ?thesis
      unfolding state_file_name_def pad2_two [OF \<open>i < 100\<close>] pad2_two [OF assms(2)] append_Cons
      by (simp only: lexord_cons_cons simp_thms)
  next
    assume "i div 10 = j div 10 \<and> i mod 10 < j mod 10"
    with less [of "i mod 10" "j mod 10", OF _ b(4)] show ?thesis
      unfolding state_file_name_def pad2_two [OF \<open>i < 100\<close>] pad2_two [OF assms(2)] append_Cons
      by (simp only: lexord_cons_cons simp_thms)
  qed
qed

lemma snapshot_names_sorted_witness:
  "(state_file_name 9 ''zz'', state_file_name 10 ''aa'') \<in> lexord char_less"
  by (rule snapshot_names_sorted) simp_all

text \<open>From the hundredth stage on they do not.\<close>

lemma snapshot_names_unsorted: "(state_file_name 100 l, state_file_name 99 l') \<in> lexord char_less"
  by (simp add: state_file_name_def pad2_def digits.simps char_less_def of_char_of)

end
