(* ===== verification/Pipeline.thy ===== *)
theory Pipeline
  imports Codegen ExpandLog
begin

text \<open>
  The information bus (\<open>rticx-core/src/info_bus.rs\<close>) and the macro pipeline (\<open>RticMacroBuilder\<close> in
  \<open>rticx-core/src/lib.rs\<close>): the pre-core passes in their order of insertion, the core pass (parser,
  analysis, code generation) and the collection of the injections.  A compilation pass is a parameter:
  a record of its name, its \<open>run_pass\<close> over the bus it subscribed to, and its \<open>main_injection\<close>.
\<close>

section \<open>The information bus\<close>

text \<open>\<open>Rc<dyn Any>\<close>: a value with its type name.  The two types that the core publishes are concrete,
  those of the passes are opaque.\<close>

datatype bus_value = VApp app | VAnalysis analysis | VOther ident tokens

fun type_name :: "bus_value \<Rightarrow> ident" where
  "type_name (VApp a) = ''rticx_core::parser::App''"
| "type_name (VAnalysis an) = ''rticx_core::analysis::Analysis''"
| "type_name (VOther ty v) = ty"

datatype bus_error = EntryOccupied ident | EntryNotFound ident | InvalidTargetType ident ident ident

type_synonym info_bus = "(ident \<times> ident \<times> bus_value) list"

definition bus_new :: info_bus where
  "bus_new = []"

definition publish :: "ident \<Rightarrow> bus_value \<Rightarrow> info_bus \<Rightarrow> (bus_error, info_bus) res" where
  "publish entry v bus =
     (case map_of bus entry of
        Some _ \<Rightarrow> Err (EntryOccupied entry)
      | None \<Rightarrow> Ok (AList.update entry (type_name v, v) bus))"

definition bus_get :: "ident \<Rightarrow> ident \<Rightarrow> info_bus \<Rightarrow> (bus_error, bus_value) res" where
  "bus_get ty entry bus =
     (case map_of bus entry of
        None \<Rightarrow> Err (EntryNotFound entry)
      | Some (stored_type, v) \<Rightarrow>
          if type_name v = ty then Ok v else Err (InvalidTargetType entry ty stored_type))"

text \<open>A caller that ignores a failed publication.\<close>

definition try_publish :: "info_bus \<Rightarrow> ident \<times> bus_value \<Rightarrow> info_bus" where
  "try_publish bus e = (case publish (fst e) (snd e) bus of Ok bus' \<Rightarrow> bus' | Err _ \<Rightarrow> bus)"

text \<open>The interface that passes and backends rely on: entries are written once.\<close>

locale write_once =
  fixes put :: "'k \<Rightarrow> 'v \<Rightarrow> 's \<Rightarrow> ('e, 's) res"
    and look :: "'k \<Rightarrow> 's \<Rightarrow> 'v option"
  assumes put_fresh: "look k s = None \<Longrightarrow> \<exists>s'. put k v s = Inr s' \<and> look k s' = Some v \<and> (\<forall>j. j \<noteq> k \<longrightarrow> look j s' = look j s)"
    and put_occupied: "look k s = Some w \<Longrightarrow> \<not> is_ok (put k v s)"
begin

definition put_all :: "'s \<Rightarrow> ('k \<times> 'v) list \<Rightarrow> 's" where
  "put_all s es = foldl (\<lambda>s e. case put (fst e) (snd e) s of Inr s' \<Rightarrow> s' | Inl _ \<Rightarrow> s) s es"

lemma first_wins: "look k (put_all s es) = (case look k s of Some v \<Rightarrow> Some v | None \<Rightarrow> map_of es k)"
proof (induction es arbitrary: s)
  case Nil
  then show ?case by (simp add: put_all_def split: option.split)
next
  case (Cons e es)
  let ?s = "case put (fst e) (snd e) s of Inr s' \<Rightarrow> s' | Inl _ \<Rightarrow> s"
  have step: "look k ?s = (case look k s of Some v \<Rightarrow> Some v | None \<Rightarrow> if k = fst e then Some (snd e) else None)"
  proof (cases "look (fst e) s")
    case None
    from put_fresh [OF this, of "snd e"] obtain s' where s': "put (fst e) (snd e) s = Inr s'"
      "look (fst e) s' = Some (snd e)" "\<forall>j. j \<noteq> fst e \<longrightarrow> look j s' = look j s" by blast
    show ?thesis
    proof (cases "k = fst e")
      case True
      with None s' show ?thesis by simp
    next
      case False
      with s' show ?thesis by (simp split: option.split)
    qed
  next
    case (Some w)
    from put_occupied [OF this, of "snd e"] obtain err where "put (fst e) (snd e) s = Inl err"
      by (cases "put (fst e) (snd e) s") auto
    with Some show ?thesis by (auto split: option.split)
  qed
  have "put_all s (e # es) = put_all ?s es" by (simp add: put_all_def)
  with Cons.IH [of ?s] step show ?case
    by (cases e) (auto split: option.split if_splits)
qed

end

definition bus_look :: "ident \<Rightarrow> info_bus \<Rightarrow> bus_value option" where
  "bus_look k bus = map_option snd (map_of bus k)"

interpretation bus: write_once publish bus_look
  by unfold_locales (auto simp: publish_def bus_look_def map_of_update)

definition bus_typed :: "info_bus \<Rightarrow> bool" where
  "bus_typed bus \<longleftrightarrow> (\<forall>k ty v. map_of bus k = Some (ty, v) \<longrightarrow> ty = type_name v)"

lemma try_publish_all: "foldl try_publish b es = bus.put_all b es"
proof -
  have "try_publish = (\<lambda>s e. case publish (fst e) (snd e) s of Inr s' \<Rightarrow> s' | Inl _ \<Rightarrow> s)"
    by (auto simp: try_publish_def fun_eq_iff split: sum.split)
  then show ?thesis by (simp add: bus.put_all_def)
qed

lemma try_publish_typed: "bus_typed b \<Longrightarrow> bus_typed (foldl try_publish b es)"
proof (induction es arbitrary: b)
  case Nil
  then show ?case by simp
next
  case (Cons e es)
  from Cons.prems have "bus_typed (try_publish b e)"
    by (auto simp: try_publish_def publish_def bus_typed_def map_of_update split: option.splits if_splits)
  with Cons.IH show ?case by simp
qed

text \<open>
  The bus is write-once and typed: after any sequence of publications, \<open>get\<close> finds an entry
  exactly when it has been published, returns the value published first, and only at the type it was
  published with; a wrong type is reported with the stored one.
\<close>

lemma bus_first_publication_wins:
  "bus_get ty k (foldl try_publish bus_new es) =
     (case map_of es k of
        None \<Rightarrow> Err (EntryNotFound k)
      | Some v \<Rightarrow> if type_name v = ty then Ok v else Err (InvalidTargetType k ty (type_name v)))"
proof -
  let ?b = "foldl try_publish bus_new es"
  have l: "bus_look k ?b = map_of es k"
    by (simp add: try_publish_all bus.first_wins) (simp add: bus_look_def bus_new_def)
  have t: "bus_typed ?b" by (rule try_publish_typed) (simp add: bus_typed_def bus_new_def)
  show ?thesis
  proof (cases "map_of ?b k")
    case None
    with l have "map_of es k = None" by (simp add: bus_look_def)
    with None show ?thesis by (simp add: bus_get_def)
  next
    case (Some e)
    with t have "fst e = type_name (snd e)" unfolding bus_typed_def by (metis prod.collapse)
    moreover from Some l have "map_of es k = Some (snd e)" by (simp add: bus_look_def)
    ultimately show ?thesis using Some by (cases e) (simp add: bus_get_def)
  qed
qed

section \<open>Passes and injections\<close>

datatype injection_point = EntryStart | BeforeInit | BeforePostInit | BeforeIdle

record pass =
  pa_name :: ident
  pa_run :: "info_bus \<Rightarrow> arg_tokens \<Rightarrow> item_mod \<Rightarrow> info_bus \<times> (arg_tokens \<times> item_mod) result"
  pa_inject :: "info_bus \<Rightarrow> injection_point \<Rightarrow> core \<Rightarrow> tokens option"

definition injections_default :: injections where
  "injections_default = \<lparr>inj_entry_start = Map.empty, inj_before_init = Map.empty,
     inj_before_post_init = Map.empty, inj_before_idle = Map.empty\<rparr>"

text \<open>\<open>entry(core).or_default().push(tokens)\<close>, if there are tokens.\<close>

definition push_at :: "core \<Rightarrow> tokens option \<Rightarrow> (core \<rightharpoonup> tokens list) \<Rightarrow> (core \<rightharpoonup> tokens list)" where
  "push_at core t m =
     (case t of
        None \<Rightarrow> m
      | Some tokens \<Rightarrow> m(core \<mapsto> (case m core of None \<Rightarrow> [] | Some ts \<Rightarrow> ts) @ [tokens]))"

definition inject_core :: "info_bus \<Rightarrow> pass \<Rightarrow> injections \<Rightarrow> core \<Rightarrow> injections" where
  "inject_core bus p ij core = \<lparr>
     inj_entry_start = push_at core (pa_inject p bus EntryStart core) (inj_entry_start ij),
     inj_before_init = push_at core (pa_inject p bus BeforeInit core) (inj_before_init ij),
     inj_before_post_init = push_at core (pa_inject p bus BeforePostInit core) (inj_before_post_init ij),
     inj_before_idle = push_at core (pa_inject p bus BeforeIdle core) (inj_before_idle ij)\<rparr>"

definition inject_pass :: "info_bus \<Rightarrow> core list \<Rightarrow> injections \<Rightarrow> pass \<Rightarrow> injections" where
  "inject_pass bus cores ij p = foldl (inject_core bus p) ij cores"

definition collect_injections :: "info_bus \<Rightarrow> core list \<Rightarrow> pass list \<Rightarrow> injections" where
  "collect_injections bus cores passes = foldl (inject_pass bus cores) injections_default passes"

section \<open>The pipeline\<close>

datatype outcome = Code gmodule | CompileError "string option" syn_error | Panic bus_error

text \<open>The printing of token streams is left to \<open>proc_macro2\<close>: the arguments, the module and the final code.\<close>

record printers =
  pr_args :: "arg_tokens \<Rightarrow> string"
  pr_mod :: "item_mod \<Rightarrow> string"
  pr_code :: "gmodule \<Rightarrow> string"

definition snapshot :: "printers \<Rightarrow> expand_log option \<Rightarrow> nat \<Rightarrow> string \<Rightarrow> string \<Rightarrow> arg_tokens \<Rightarrow> item_mod \<Rightarrow>
    file_system \<Rightarrow> file_system" where
  "snapshot P log index label title args m fs =
     (case log of
        Some l \<Rightarrow>
          if log_pass_dir l \<noteq> None then write_pass_state l index label (render_pass_state title (pr_args P args) (pr_mod P m)) fs
          else fs
      | None \<Rightarrow> fs)"

text \<open>The pre-core passes from the one with number \<open>idx\<close> on.\<close>

fun run_passes :: "printers \<Rightarrow> expand_log option \<Rightarrow> nat \<Rightarrow> pass list \<Rightarrow> info_bus \<Rightarrow> file_system \<Rightarrow> arg_tokens \<Rightarrow> item_mod \<Rightarrow>
    file_system \<times> (string \<times> syn_error, info_bus \<times> arg_tokens \<times> item_mod) res" where
  "run_passes P log idx [] bus fs args m = (fs, Ok (bus, args, m))"
| "run_passes P log idx (p # ps) bus fs args m =
     (case pa_run p bus args m of
        (bus', Inl e) \<Rightarrow>
          (snapshot P log (idx + 1) (pa_name p @ ''_input'') (''input to `'' @ pa_name p @ ''` (pass failed)'') args m fs,
           Err (''in `'' @ pa_name p @ ''` compilation pass'', e))
      | (bus', Inr (args', m')) \<Rightarrow>
          run_passes P log (idx + 1) ps bus'
            (snapshot P log (idx + 1) (pa_name p) (''output of `'' @ pa_name p @ ''`'') args' m' fs) args' m')"

definition PARSING :: string where
  "PARSING = ''in `core` compilation pass during the user code `parsing` phase''"

definition ANALYSIS :: string where
  "ANALYSIS = ''in `core` compilation pass during the user code `analysis` phase''"

text \<open>The core pass on the output of the passes.  The backend has subscribed to the bus, so its methods
  may read the state that the bus has when they are called.\<close>

definition core_pass :: "naming \<Rightarrow> (info_bus \<Rightarrow> backend) \<Rightarrow> pass list \<Rightarrow> info_bus \<Rightarrow> app \<Rightarrow> outcome" where
  "core_pass N B passes bus parsed =
     (case publish ''rticx_core::App'' (VApp parsed) bus of
        Inl e \<Rightarrow> Panic e
      | Inr bus1 \<Rightarrow>
     (case analysis_run parsed of
        Inl e \<Rightarrow> CompileError (Some ANALYSIS) e
      | Inr (a, an) \<Rightarrow>
     (case publish ''rticx_core::Analysis'' (VAnalysis an) bus1 of
        Inl e \<Rightarrow> Panic e
      | Inr bus2 \<Rightarrow>
     (case be_validate (B bus2) a an of
        Inl e \<Rightarrow> CompileError None e
      | Inr _ \<Rightarrow>
          Code (codegen_run N (B bus2) (collect_injections bus2 (core_list (aa_cores (app_args a))) passes) a an)))))"

definition log_code :: "printers \<Rightarrow> expand_log option \<Rightarrow> nat \<Rightarrow> outcome \<Rightarrow> file_system \<Rightarrow> file_system" where
  "log_code P log n r fs =
     (case (log, r) of
        (Some l, Code code) \<Rightarrow>
          (let fs' = log_write l ''expanded'' (pr_code P code) fs in
           if log_pass_dir l \<noteq> None then write_pass_state l n ''core'' (pr_code P code) fs' else fs')
      | _ \<Rightarrow> fs)"

definition build_rtic_macro2 :: "naming \<Rightarrow> printers \<Rightarrow> (info_bus \<Rightarrow> backend) \<Rightarrow> pass list \<Rightarrow> info_bus \<Rightarrow> expand_log option \<Rightarrow> file_system \<Rightarrow>
    arg_tokens \<Rightarrow> item_mod \<Rightarrow> file_system \<times> outcome" where
  "build_rtic_macro2 N P B passes bus log fs args m =
     (let fs0 = snapshot P log 0 ''original'' ''original app module (before all passes)'' args m fs in
      case run_passes P log 0 passes bus fs0 args m of
        (fs1, Inl (context, e)) \<Rightarrow> (fs1, CompileError (Some context) e)
      | (fs1, Inr (bus1, args1, m1)) \<Rightarrow>
          (case app_parse args1 m1 of
             Inl e \<Rightarrow>
               (snapshot P log (length passes + 1) ''post_passes'' ''state after all passes (core parsing failed)'' args1 m1 fs1,
                CompileError (Some PARSING) e)
           | Inr parsed \<Rightarrow>
               (let r = core_pass N B passes bus1 parsed in (log_code P log (length passes + 1) r fs1, r))))"

section \<open>The order of the passes\<close>

definition pass_step :: "info_bus \<times> arg_tokens \<times> item_mod \<Rightarrow> pass \<Rightarrow> (string \<times> syn_error, info_bus \<times> arg_tokens \<times> item_mod) res" where
  "pass_step s p =
     (case s of (bus, args, m) \<Rightarrow>
       (case pa_run p bus args m of
          (bus', Inl e) \<Rightarrow> Err (''in `'' @ pa_name p @ ''` compilation pass'', e)
        | (bus', Inr (args', m')) \<Rightarrow> Ok (bus', args', m')))"

lemma run_passes_chain: "snd (run_passes P log idx ps bus fs args m) = rfold pass_step (bus, args, m) ps"
proof (induction ps arbitrary: idx bus fs args m)
  case Nil
  then show ?case by simp
next
  case (Cons p ps)
  then show ?case by (simp add: pass_step_def split: prod.split sum.split)
qed

text \<open>The outcome of the macro, without the log.\<close>

definition build_outcome :: "naming \<Rightarrow> (info_bus \<Rightarrow> backend) \<Rightarrow> pass list \<Rightarrow> info_bus \<Rightarrow> arg_tokens \<Rightarrow> item_mod \<Rightarrow> outcome" where
  "build_outcome N B passes bus args m =
     (case rfold pass_step (bus, args, m) passes of
        Inl (context, e) \<Rightarrow> CompileError (Some context) e
      | Inr (bus1, args1, m1) \<Rightarrow>
          (case app_parse args1 m1 of
             Inl e \<Rightarrow> CompileError (Some PARSING) e
           | Inr parsed \<Rightarrow> core_pass N B passes bus1 parsed))"

text \<open>
  The pipeline is the composition of the passes in the order in which they were bound, stopped by
  the first error, followed by the core parser, the analysis and the code generation; the expansion
  log never changes the outcome, whether it is enabled, fails to create its directories or not.
\<close>

lemma pipeline_is_pass_chain:
  "snd (build_rtic_macro2 N P B passes bus log fs args m) = build_outcome N B passes bus args m"
proof -
  let ?fs = "snapshot P log 0 ''original'' ''original app module (before all passes)'' args m fs"
  obtain fs1 r where r: "run_passes P log 0 passes bus ?fs args m = (fs1, r)" by force
  with run_passes_chain [of P log 0 passes bus ?fs args m] have "rfold pass_step (bus, args, m) passes = r" by simp
  with r show ?thesis
    by (simp add: build_rtic_macro2_def build_outcome_def Let_def split: sum.split prod.split)
qed

section \<open>The order of the injections\<close>

fun inj_of :: "injection_point \<Rightarrow> injections \<Rightarrow> core \<rightharpoonup> tokens list" where
  "inj_of EntryStart ij = inj_entry_start ij"
| "inj_of BeforeInit ij = inj_before_init ij"
| "inj_of BeforePostInit ij = inj_before_post_init ij"
| "inj_of BeforeIdle ij = inj_before_idle ij"

definition injected :: "injection_point \<Rightarrow> injections \<Rightarrow> core \<Rightarrow> tokens list" where
  "injected pt ij c = (case inj_of pt ij c of None \<Rightarrow> [] | Some ts \<Rightarrow> ts)"

definition opt_list :: "'a option \<Rightarrow> 'a list" where
  "opt_list x = (case x of None \<Rightarrow> [] | Some y \<Rightarrow> [y])"

lemma injected_core:
  "injected pt (inject_core bus p ij c') c = injected pt ij c @ (if c = c' then opt_list (pa_inject p bus pt c) else [])"
  by (cases pt) (auto simp: injected_def inject_core_def push_at_def opt_list_def split: option.split)

lemma injected_pass:
  "distinct cores \<Longrightarrow> injected pt (inject_pass bus cores ij p) c
     = injected pt ij c @ (if c \<in> set cores then opt_list (pa_inject p bus pt c) else [])"
  unfolding inject_pass_def
  by (induction cores arbitrary: ij) (auto simp: injected_core)

lemma injected_passes:
  assumes "distinct cores"
  shows "injected pt (foldl (inject_pass bus cores) ij passes) c
     = injected pt ij c @ (if c \<in> set cores then List.map_filter (\<lambda>p. pa_inject p bus pt c) passes else [])"
  by (induction passes arbitrary: ij)
    (auto simp: injected_pass [OF assms] map_filter_Cons map_filter_Nil opt_list_def split: option.split)

text \<open>
  Injections: at every point of the entry function of a core of the app the passes' tokens appear
  in the order of the passes, each pass asked for exactly this core, and none for another core.
\<close>

lemma injections_in_pass_order:
  "injected pt (collect_injections bus (core_list n) passes) c =
     (if unat c < unat n then List.map_filter (\<lambda>p. pa_inject p bus pt c) passes else [])"
proof -
  have "injected pt injections_default c = []"
    by (cases pt) (simp_all add: injected_def injections_default_def)
  then show ?thesis
    unfolding collect_injections_def injected_passes [OF core_list_props(1)] core_list_props(2) by simp
qed

section \<open>From the module to the locks\<close>

lemma rfold_insert_shared:
  assumes "rfold insert_shared out0 ss = Inr out"
    and "\<forall>c sr. out0 c = Some sr \<longrightarrow> Q sr"
    and "\<And>s i core elems. (s, i) \<in> set ss \<Longrightarrow> rcollect shared_element_of (st_fields s) = Inr elems \<Longrightarrow>
        Q \<lparr>sr_core = core, sr_struct = s\<lparr>st_attrs := remove_nth i (st_attrs s)\<rparr>, sr_resources = elems\<rparr>"
  shows "\<forall>c sr. out c = Some sr \<longrightarrow> Q sr"
  using assms(1)
proof (rule rfold_invariant)
  show "\<forall>c sr. out0 c = Some sr \<longrightarrow> Q sr" by (rule assms(2))
next
  fix o1 x o2 assume o1: "\<forall>c sr. o1 c = Some sr \<longrightarrow> Q sr" and x: "x \<in> set ss" and o2: "insert_shared o1 x = Inr o2"
  obtain s i where si: "x = (s, i)" by (cases x)
  from o2 si obtain core elems where e: "rcollect shared_element_of (st_fields s) = Inr elems"
    "o2 = o1(core \<mapsto> \<lparr>sr_core = core, sr_struct = s\<lparr>st_attrs := remove_nth i (st_attrs s)\<rparr>, sr_resources = elems\<rparr>)"
    by (auto simp: insert_shared_def Let_def split: if_splits)
  from assms(3) [OF _ e(1)] x si e(2) o1 show "\<forall>c sr. o2 c = Some sr \<longrightarrow> Q sr" by simp
qed

lemma shared_elements:
  "rcollect shared_element_of fs = Inr elems \<Longrightarrow>
     map Some (map se_ident elems) = map fst fs \<and> (\<forall>e \<in> set elems. se_priority e = 0)"
  by (induction fs arbitrary: elems) (auto simp: shared_element_of_def split: option.splits)

text \<open>Struct definitions as the Rust compiler accepts them: no field name twice.\<close>

definition fields_distinct :: "item_mod \<Rightarrow> bool" where
  "fields_distinct m \<longleftrightarrow> (\<forall>items. mod_content m = Some items \<longrightarrow> (\<forall>s. IStruct s \<in> set items \<longrightarrow> distinct (map fst (st_fields s))))"

lemma collect_shared_sub: "(s, i) \<in> set (c_shared (foldl collect_item c items)) \<Longrightarrow> (s, i) \<in> set (c_shared c) \<or> IStruct s \<in> set items"
proof (induction items arbitrary: c)
  case Nil
  then show ?case by simp
next
  case (Cons x items)
  from Cons.prems Cons.IH [of "collect_item c x"] have "(s, i) \<in> set (c_shared (collect_item c x)) \<or> IStruct s \<in> set items"
    by simp
  then show ?case by (cases x) (auto simp: Let_def split: option.splits)
qed

lemma parsed_fresh:
  assumes "app_parse ts m = Ok a" and "fields_distinct m"
  shows "resources_fresh a"
proof -
  from assms(1) obtain items shared inits post_inits idles tasks and args :: app_args where p: "mod_content m = Some items"
    "construct_shared_resources (c_shared (collect_items items)) = Inr shared"
    "rcollect (build_sub_app shared inits post_inits idles (grouped tasks)) (core_list (aa_cores args)) = Inr (sub_apps a)"
    by (rule app_parse_Inr) blast
  have "\<forall>c sr. shared c = Some sr \<longrightarrow> distinct (res_names sr) \<and> (\<forall>e \<in> set (sr_resources sr). se_priority e = 0)"
  proof (rule rfold_insert_shared)
    show "rfold insert_shared Map.empty (c_shared (collect_items items)) = Inr shared"
      using p(2) by (simp add: construct_shared_resources_def)
  next
    fix s i core elems
    assume s: "(s, i) \<in> set (c_shared (collect_items items))" and e: "rcollect shared_element_of (st_fields s) = Inr elems"
    from collect_shared_sub s have "IStruct s \<in> set items" by (force simp: collect_items_def collected_empty_def)
    with assms(2) p(1) have "distinct (map fst (st_fields s))" by (auto simp: fields_distinct_def)
    with shared_elements [OF e] have "distinct (map Some (map se_ident elems))" by simp
    then have "distinct (map se_ident elems)" by (simp only: distinct_map [of Some])
    with shared_elements [OF e]
    show "distinct (res_names \<lparr>sr_core = core, sr_struct = s\<lparr>st_attrs := remove_nth i (st_attrs s)\<rparr>, sr_resources = elems\<rparr>) \<and>
      (\<forall>e \<in> set (sr_resources \<lparr>sr_core = core, sr_struct = s\<lparr>st_attrs := remove_nth i (st_attrs s)\<rparr>, sr_resources = elems\<rparr>). se_priority e = 0)"
      by (simp add: res_names_def)
  qed simp
  then show ?thesis using build_sub_app_Inr(2) [OF p(3)] by (force simp: resources_fresh_def)
qed

lemma core_pass_Code:
  assumes "core_pass N B passes bus parsed = Code g"
  obtains a an b where "analysis_run parsed = Ok (a, an)"
    "g = codegen_run N (B b) (collect_injections b (core_list (aa_cores (app_args a))) passes) a an"
  using assms by (auto simp: core_pass_def split: sum.splits)

lemma build_Code:
  assumes "snd (build_rtic_macro2 N P B passes bus log fs args m) = Code g"
  obtains bus1 args1 m1 parsed where "rfold pass_step (bus, args, m) passes = Ok (bus1, args1, m1)"
    "app_parse args1 m1 = Ok parsed" "core_pass N B passes bus1 parsed = Code g"
proof -
  let ?fs = "snapshot P log 0 ''original'' ''original app module (before all passes)'' args m fs"
  obtain fs1 r where r: "run_passes P log 0 passes bus ?fs args m = (fs1, r)" by force
  with run_passes_chain [of P log 0 passes bus ?fs args m] have c: "rfold pass_step (bus, args, m) passes = r" by simp
  with r assms that show thesis
    by (auto simp: build_rtic_macro2_def Let_def split: sum.splits prod.splits)
qed

lemma sub_app_items: "x \<in> set (generate_sub_app N B ij a sa s) \<Longrightarrow> (sa, s) \<in> set (zip (sub_apps a) (sub_analyses an)) \<Longrightarrow>
    x \<in> set (generate_sub_apps N B ij a an)"
  by (force simp: generate_sub_apps_def)

text \<open>The locks among generated items are sound for an app: every resource that a task lists has a
  proxy in the task's struct and a lock function whose ceiling is the highest priority of its users.\<close>

definition locks_sound :: "naming \<Rightarrow> gitem list \<Rightarrow> app \<Rightarrow> bool" where
  "locks_sound N items a \<longleftrightarrow>
    (\<forall>sa sr t r. sa \<in> set (sub_apps a) \<longrightarrow> sa_shared sa = Some sr \<longrightarrow> t \<in> set (sa_tasks sa) \<longrightarrow> r \<in> set (ta_shared (rt_args t)) \<longrightarrow>
      (\<exists>strct fields inits ty lf. GSharedFor (task_name t) strct fields inits \<in> set items \<and>
         (r, get_proxy_name r, ta_priority (rt_args t)) \<in> set fields \<and>
         GProxy (get_proxy_name r) ty lf \<in> set items \<and>
         lf_static lf = shared_static N sr \<and> lf_field lf = r \<and>
         lf_ceiling lf = ceiling (sa_tasks sa) r))"

lemma generated_locks:
  assumes "snd (build_rtic_macro2 N P B passes bus log fs args m) = Code g"
    and "\<And>bus' args' m'. rfold pass_step (bus, args, m) passes = Ok (bus', args', m') \<Longrightarrow> fields_distinct m'"
    and "\<And>b aargs sa lf. be_lock (B b) aargs sa lf = lf\<lparr>lf_body := lf_body (be_lock (B b) aargs sa lf)\<rparr>"
  shows "\<exists>bus' args' m' parsed a an. rfold pass_step (bus, args, m) passes = Ok (bus', args', m') \<and>
    app_parse args' m' = Ok parsed \<and> analysis_run parsed = Ok (a, an) \<and> locks_sound N (gm_sub_apps g) a"
proof -
  obtain bus1 args1 m1 parsed where b: "rfold pass_step (bus, args, m) passes = Ok (bus1, args1, m1)"
    "app_parse args1 m1 = Ok parsed" "core_pass N B passes bus1 parsed = Code g"
    using assms(1) by (rule build_Code)
  obtain a an b where c: "analysis_run parsed = Ok (a, an)"
    "g = codegen_run N (B b) (collect_injections b (core_list (aa_cores (app_args a))) passes) a an"
    using b(3) by (rule core_pass_Code)
  let ?ij = "collect_injections b (core_list (aa_cores (app_args a))) passes"
  have g: "gm_sub_apps g = generate_sub_apps N (B b) ?ij a an" by (simp add: c(2) codegen_run_def)
  have fresh: "resources_fresh parsed" by (rule parsed_fresh [OF b(2) assms(2) [OF b(1)]])
  have "\<exists>strct fields inits ty lf. GSharedFor (task_name t) strct fields inits \<in> set (gm_sub_apps g) \<and>
         (r, get_proxy_name r, ta_priority (rt_args t)) \<in> set fields \<and> GProxy (get_proxy_name r) ty lf \<in> set (gm_sub_apps g) \<and>
         lf_static lf = shared_static N sr \<and> lf_field lf = r \<and>
         lf_ceiling lf = ceiling (sa_tasks sa) r"
    if h: "sa \<in> set (sub_apps a)" "sa_shared sa = Some sr" "t \<in> set (sa_tasks sa)" "r \<in> set (ta_shared (rt_args t))" for sa sr t r
  proof -
    have z: "(sa, sub_analysis_run sa) \<in> set (zip (sub_apps a) (sub_analyses an))"
      using c(1) h(1) by (auto simp: analysis_run_def zip_map2 zip_same_conv_map)
    obtain strct fields inits ty lf where
      "GSharedFor (task_name t) strct fields inits \<in> set (generate_sub_app N (B b) ?ij a sa (sub_analysis_run sa))"
      "(r, get_proxy_name r, ta_priority (rt_args t)) \<in> set fields"
      "GProxy (get_proxy_name r) ty lf \<in> set (generate_sub_app N (B b) ?ij a sa (sub_analysis_run sa))"
      "lf_static lf = shared_static N sr" "lf_field lf = r"
      "lf_ceiling lf = ceiling (sa_tasks sa) r"
      using lock_constants [OF fresh c(1) z h(2) assms(3) h(3,4), where N = N and ij = ?ij] by blast
    with sub_app_items [OF _ z] show ?thesis unfolding g by blast
  qed
  then have "locks_sound N (gm_sub_apps g) a" unfolding locks_sound_def by blast
  with b(1,2) c(1) show ?thesis by blast
qed

text \<open>
  Locks, from the source module to the generated code: if the macro succeeds, every resource
  that a task lists is reached through a proxy of the generated module whose lock function points to
  that field of the shared static and has as its \<open>CEILING\<close> the highest priority of the tasks of the
  core that use the resource; the task's proxy carries the task's own priority.  This assumes of the
  backend what \<open>generate_resource_proxy_lock_impl\<close> asks for (the constants of the given function are
  kept) and that the structs of the module have no field twice, as the Rust compiler checks.
\<close>

lemma generated_locks_sound:
  assumes "snd (build_rtic_macro2 N P B passes bus log fs args m) = Code g"
    and "\<And>bus' args' m'. rfold pass_step (bus, args, m) passes = Ok (bus', args', m') \<Longrightarrow> fields_distinct m'"
    and "\<And>b aargs sa lf. be_lock (B b) aargs sa lf = lf\<lparr>lf_body := lf_body (be_lock (B b) aargs sa lf)\<rparr>"
  shows "\<exists>bus' args' m' parsed a an. rfold pass_step (bus, args, m) passes = Ok (bus', args', m') \<and>
    app_parse args' m' = Ok parsed \<and> analysis_run parsed = Ok (a, an) \<and> locks_sound N (gm_sub_apps g) a"
  using generated_locks [OF assms] .

text \<open>A module with a shared resource and two tasks that use it, expanded without pre-core passes.\<close>

definition lock_items :: "item list" where
  "lock_items =
     [IFn \<lparr>fn_attrs = [attr_of ''init'' []], fn_ident = ''init'', fn_body = ''...''\<rparr>,
      IStruct \<lparr>st_attrs = [attr_of ''shared'' []], st_ident = ''Shared'', st_fields = [(Some ''r'', ''u32'')]\<rparr>,
      IStruct \<lparr>st_attrs = [attr_of ''task'' [(''shared'', EArray [ident_expr ''r''])]], st_ident = ''A'', st_fields = []\<rparr>]"

definition lock_mod :: item_mod where
  "lock_mod = \<lparr>mod_ident = ''app'', mod_content = Some lock_items\<rparr>"

definition no_printers :: printers where
  "no_printers = \<lparr>pr_args = (\<lambda>_. []), pr_mod = (\<lambda>_. []), pr_code = (\<lambda>_. [])\<rparr>"

definition empty_fs :: file_system where
  "empty_fs = \<lparr>fs_can_create = (\<lambda>_. False), fs_files = []\<rparr>"

definition lock_task :: rtic_task where
  "lock_task = \<lparr>rt_args = \<lparr>ta_binds = None, ta_priority = 1, ta_shared = [''r''], ta_core = 0, ta_trait = ''RticTask'', ta_generated = False\<rparr>,
     rt_struct = \<lparr>st_attrs = [], st_ident = ''A'', st_fields = []\<rparr>, rt_impl = None\<rparr>"

definition lock_shared :: shared_resources where
  "lock_shared = \<lparr>sr_core = 0, sr_struct = \<lparr>st_attrs = [], st_ident = ''Shared'', st_fields = [(Some ''r'', ''u32'')]\<rparr>,
     sr_resources = [\<lparr>se_ident = ''r'', se_ty = ''u32'', se_priority = 0\<rparr>]\<rparr>"

definition lock_app :: app where
  "lock_app = \<lparr>app_name = ''app'', app_args = \<lparr>aa_pacs = [ident_path ''pac''], aa_cores = 1, aa_warnings = []\<rparr>,
     sub_apps = [\<lparr>sa_core = 0, sa_shared = Some lock_shared,
       sa_init = \<lparr>in_core = 0, in_ident = ''init'', in_body = \<lparr>fn_attrs = [], fn_ident = ''init'', fn_body = ''...''\<rparr>\<rparr>,
       sa_post_init = None, sa_idle = None, sa_tasks = [lock_task]\<rparr>],
     user_includes = [], other_code = []\<rparr>"

lemma lock_parse: "app_parse demo_args lock_mod = Ok lock_app"
  by (simp add: demo_app_simps lock_mod_def lock_items_def lock_app_def lock_task_def lock_shared_def
      insert_shared_def shared_element_of_def expr_ident_def DEFAULT_TASK_PRIORITY_def HWT_TRAIT_TY_def)

definition lock_app_analysed :: app where
  "lock_app_analysed = lock_app\<lparr>sub_apps := map (\<lambda>sa. sa\<lparr>sa_shared :=
     Some (lock_shared\<lparr>sr_resources := [\<lparr>se_ident = ''r'', se_ty = ''u32'', se_priority = 1\<rparr>]\<rparr>)\<rparr>) (sub_apps lock_app)\<rparr>"

lemma lock_analysis: "\<exists>an. analysis_run lock_app = Ok (lock_app_analysed, an)"
  by (simp add: analysis_run_def lock_app_def lock_app_analysed_def update_resource_priorities_def update_for_task_def lock_task_def
      lock_shared_def get_field_mut_def get_field_def raise_ceiling_def)

lemma lock_build:
  "\<exists>g. snd (build_rtic_macro2 demo_naming no_printers (\<lambda>_. demo_backend) [] bus_new None empty_fs demo_args lock_mod) = Code g"
proof -
  obtain an where "analysis_run lock_app = Ok (lock_app_analysed, an)" using lock_analysis by blast
  then show ?thesis
    by (simp add: build_rtic_macro2_def Let_def lock_parse core_pass_def publish_def bus_new_def demo_backend_def)
qed

lemma generated_locks_sound_witness:
  "\<exists>g ty lf. snd (build_rtic_macro2 demo_naming no_printers (\<lambda>_. demo_backend) [] bus_new None empty_fs demo_args lock_mod) = Code g \<and>
     GProxy ''__r_mutex'' ty lf \<in> set (gm_sub_apps g) \<and> lf_ceiling lf = 1"
proof -
  obtain g where g: "snd (build_rtic_macro2 demo_naming no_printers (\<lambda>_. demo_backend) [] bus_new None empty_fs demo_args lock_mod) = Code g"
    using lock_build by blast
  have f: "fields_distinct m'" if "rfold pass_step (bus_new, demo_args, lock_mod) [] = Ok (bus', args', m')" for bus' args' m'
    using that by (auto simp: fields_distinct_def lock_mod_def lock_items_def)
  have l: "be_lock demo_backend x y lf = lf\<lparr>lf_body := lf_body (be_lock demo_backend x y lf)\<rparr>" for x y lf
    by (simp add: demo_backend_def)
  have "\<exists>bus' args' m' parsed a an. rfold pass_step (bus_new, demo_args, lock_mod) [] = Ok (bus', args', m') \<and>
    app_parse args' m' = Ok parsed \<and> analysis_run parsed = Ok (a, an) \<and> locks_sound demo_naming (gm_sub_apps g) a"
    by (rule generated_locks_sound [OF g]) (erule f, rule l)
  then obtain a an where p: "analysis_run lock_app = Ok (a, an)" "locks_sound demo_naming (gm_sub_apps g) a"
    using lock_parse by auto
  from p(1) lock_analysis have "a = lock_app_analysed" by auto
  moreover obtain sa sr where sa: "sa \<in> set (sub_apps lock_app_analysed)" "sa_shared sa = Some sr" "sa_tasks sa = [lock_task]"
    by (auto simp: lock_app_analysed_def lock_app_def)
  moreover have r: "''r'' \<in> set (ta_shared (rt_args lock_task))" by (simp add: lock_task_def)
  moreover have "ceiling [lock_task] ''r'' = 1"
    using ceiling_ge [of lock_task "[lock_task]" "''r''"] ceiling_attained [of "[lock_task]" "''r''"] r
    by (auto simp: lock_task_def)
  ultimately obtain ty lf where "GProxy (get_proxy_name ''r'') ty lf \<in> set (gm_sub_apps g)" "lf_ceiling lf = 1"
    using p(2) unfolding locks_sound_def by (metis list.set_intros(1))
  with g show ?thesis by (auto simp: get_proxy_name_def)
qed

end
