(* ===== verification/SwPass.thy ===== *)
theory SwPass
  imports SwCommon Pipeline
begin

text \<open>
  The software-task pass, \<open>rticx-sw-pass/src/\<close>: its parser (\<open>parse/\<close>), analysis (\<open>analyze.rs\<close>), code
  generation (\<open>codegen/\<close> and the spawn template of \<open>common/codegen.rs\<close>) and the pass itself (\<open>lib.rs\<close>).
  The output module is a list of items again: structs and impl blocks are those the next pass sees,
  the other generated items are a datatype whose text is left to a printer.
\<close>

section \<open>Parsing\<close>

definition SWT_TRAIT_TY :: ident where
  "SWT_TRAIT_TY = ''RticSwTask''"

record software_task =
  sw_params :: task_params
  sw_attr :: rtic_attr
  sw_struct :: item_struct
  sw_impl :: "item_impl option"

definition sw_name :: "software_task \<Rightarrow> ident" where
  "sw_name t = st_ident (sw_struct t)"

record sw_sub_app =
  ss_core :: core
  ss_dispatchers :: "path list"
  ss_tasks :: "software_task list"
  ss_mc_tasks :: "software_task list"

record sw_app =
  sx_ident :: ident
  sx_params :: app_parameters
  sx_sub_apps :: "sw_sub_app list"
  sx_rest :: "item list"

text \<open>\<open>attr.path().is_ident(name)\<close>\<close>

fun find_is_ident :: "ident \<Rightarrow> meta list \<Rightarrow> nat option" where
  "find_is_ident name [] = None"
| "find_is_ident name (m # ms) =
     (if get_ident (meta_path m) = Some name then Some 0 else map_option Suc (find_is_ident name ms))"

definition find_sw_task_attr :: "meta list \<Rightarrow> nat option" where
  "find_sw_task_attr attrs = find_is_ident ''sw_task'' attrs"

definition get_sw_task_implementor :: "item_impl \<Rightarrow> ident option" where
  "get_sw_task_implementor im = get_task_implementor im SWT_TRAIT_TY"

record sw_collected =
  sc_structs :: "(item_struct \<times> nat) list"
  sc_impls :: "(ident \<times> item_impl) list"
  sc_rest :: "item list"

definition sw_collect_item :: "(item \<Rightarrow> meta list option) \<Rightarrow> sw_collected \<Rightarrow> item \<Rightarrow> sw_collected result" where
  "sw_collect_item oa c it =
     (let misplaced = (case it of IStruct s \<Rightarrow> None | _ \<Rightarrow> Option.bind (item_attrs oa it) find_sw_task_attr) in
      if misplaced \<noteq> None then Err (OnlyStructs ''sw_task'')
      else Ok (case it of
         IStruct s \<Rightarrow>
           (case find_sw_task_attr (st_attrs s) of
              Some i \<Rightarrow> c\<lparr>sc_structs := sc_structs c @ [(s, i)]\<rparr>
            | None \<Rightarrow> c\<lparr>sc_rest := sc_rest c @ [it]\<rparr>)
       | IImpl im \<Rightarrow>
           (case get_sw_task_implementor im of
              Some i \<Rightarrow> c\<lparr>sc_impls := sc_impls c @ [(i, im)]\<rparr>
            | None \<Rightarrow> c\<lparr>sc_rest := sc_rest c @ [it]\<rparr>)
       | _ \<Rightarrow> c\<lparr>sc_rest := sc_rest c @ [it]\<rparr>))"

definition sw_collect :: "(item \<Rightarrow> meta list option) \<Rightarrow> item list \<Rightarrow> sw_collected result" where
  "sw_collect oa items = rfold (sw_collect_item oa) \<lparr>sc_structs = [], sc_impls = [], sc_rest = []\<rparr> items"

text \<open>The loop over the task structs: the impl blocks left over and the tasks, core-local and cross-core
  ones told apart by \<open>is_local\<close> when the sub-applications are built.\<close>

definition sw_take_task :: "core \<Rightarrow> (ident \<times> item_impl) list \<times> software_task list \<Rightarrow> item_struct \<times> nat \<Rightarrow>
    ((ident \<times> item_impl) list \<times> software_task list) result" where
  "sw_take_task cores s si =
     (case (s, si) of ((impls, tasks), (strct, i)) \<Rightarrow>
       rbind (take_impl_for impls (st_ident strct) SWT_TRAIT_TY) (\<lambda>(impls', task_impl).
       rbind (from_meta (st_attrs strct ! i)) (\<lambda>attr.
       rbind (task_params_from_attr attr) (\<lambda>params.
       let task = \<lparr>sw_params = params, sw_attr = into_task_attr attr SWT_TRAIT_TY,
           sw_struct = strct\<lparr>st_attrs := remove_nth i (st_attrs strct)\<rparr>, sw_impl = task_impl\<rparr> in
       if cores \<le> tp_core params then Err (CoreRange (st_ident strct) (unat (tp_core params)))
       else if cores \<le> tp_spawn_by params then Err (SpawnByRange (st_ident strct) (unat (tp_spawn_by params)))
       else Ok (impls', tasks @ [task])))))"

definition is_local :: "software_task \<Rightarrow> bool" where
  "is_local t \<longleftrightarrow> tp_core (sw_params t) = tp_spawn_by (sw_params t)"

definition on_core :: "core \<Rightarrow> software_task \<Rightarrow> bool" where
  "on_core c t \<longleftrightarrow> tp_core (sw_params t) = c"

definition sw_sub_app_of :: "app_parameters \<Rightarrow> software_task list \<Rightarrow> core \<Rightarrow> sw_sub_app" where
  "sw_sub_app_of ps tasks core = \<lparr>ss_core = core,
     ss_dispatchers = (case ap_dispatchers ps core of None \<Rightarrow> [] | Some ds \<Rightarrow> ds),
     ss_tasks = filter (\<lambda>t. is_local t \<and> on_core core t) tasks,
     ss_mc_tasks = filter (\<lambda>t. \<not> is_local t \<and> on_core core t) tasks\<rparr>"

definition sw_app_parse :: "(item \<Rightarrow> meta list option) \<Rightarrow> arg_tokens \<Rightarrow> item_mod \<Rightarrow> sw_app result" where
  "sw_app_parse oa args m =
     rbind (app_parameters_parse args) (\<lambda>ps.
     let items = (case mod_content m of None \<Rightarrow> [] | Some items \<Rightarrow> items) in
     rbind (sw_collect oa items) (\<lambda>c.
     rbind (rfold (sw_take_task (ap_cores ps)) (sc_impls c, []) (sc_structs c)) (\<lambda>(impls, tasks).
     Ok \<lparr>sx_ident = mod_ident m, sx_params = ps,
         sx_sub_apps = map (sw_sub_app_of ps tasks) (core_list (ap_cores ps)),
         sx_rest = sc_rest c @ map (IImpl \<circ> snd) impls\<rparr>)))"

section \<open>Analysis\<close>

record sw_sub_analysis =
  sn_core :: core
  sn_groups :: priority_group
  sn_dispatchers :: "(prio \<times> path) list"

definition group_by_priority :: "software_task list \<Rightarrow> (software_task \<Rightarrow> core) \<Rightarrow> priority_group" where
  "group_by_priority tasks spawner_core =
     foldl (\<lambda>gs t. group_push (tp_priority (sw_params t)) (sw_name t, spawner_core t, tp_capacity (sw_params t)) gs) [] tasks"

definition analyse_subapp :: "sw_sub_app \<Rightarrow> sw_sub_analysis result" where
  "analyse_subapp sa =
     (let sw = group_by_priority (ss_tasks sa) (\<lambda>_. ss_core sa);
          mc = group_by_priority (ss_mc_tasks sa) (\<lambda>t. tp_spawn_by (sw_params t)) in
      rbind (check_disjoint_priorities sw mc (ss_core sa)) (\<lambda>_.
      rbind (check_uniform_spawn_by mc) (\<lambda>_.
      let groups = group_extend sw mc in
      rbind (assign_dispatchers groups (ss_dispatchers sa)) (\<lambda>ds.
      Ok \<lparr>sn_core = ss_core sa, sn_groups = groups, sn_dispatchers = ds\<rparr>))))"

definition sw_analysis_run :: "sw_app \<Rightarrow> sw_sub_analysis list result" where
  "sw_analysis_run a = rcollect analyse_subapp (sx_sub_apps a)"

section \<open>Code generation\<close>

definition SC_PEND_FN_NAME :: ident where "SC_PEND_FN_NAME = ''__rticx_local_irq_pend''"

definition MC_PEND_FN_NAME :: ident where "MC_PEND_FN_NAME = ''__rticx_cross_irq_pend''"

definition local_pend_fn_ident :: "naming \<Rightarrow> core \<Rightarrow> nat \<Rightarrow> ident" where
  "local_pend_fn_ident N core num_cores =
     (if num_cores = 1 then SC_PEND_FN_NAME else SC_PEND_FN_NAME @ ''_core'' @ nm_nat N (unat core))"

definition cross_pend_fn_ident :: "naming \<Rightarrow> core \<Rightarrow> ident" where
  "cross_pend_fn_ident N core = MC_PEND_FN_NAME @ ''_core'' @ nm_nat N (unat core)"

definition ident_uppercase :: "naming \<Rightarrow> ident \<Rightarrow> ident" where
  "ident_uppercase N i = nm_upper N (nm_snake N i)"

definition priority_ty_ident :: "naming \<Rightarrow> prio \<Rightarrow> core \<Rightarrow> ident" where
  "priority_ty_ident N priority core = ''Core'' @ nm_nat N (unat core) @ ''Prio'' @ nm_nat N (unat priority) @ ''Tasks''"

definition dispatcher_ident :: "naming \<Rightarrow> prio \<Rightarrow> core \<Rightarrow> ident" where
  "dispatcher_ident N priority core = ''Core'' @ nm_nat N (unat core) @ ''Priority'' @ nm_nat N (unat priority) @ ''Dispatcher''"

definition priority_queue_ident :: "ident \<Rightarrow> ident" where
  "priority_queue_ident prio_ty = ''__rticx_internal__'' @ prio_ty @ ''__RQ''"

definition sw_task_inputs_ident :: "ident \<Rightarrow> ident" where
  "sw_task_inputs_ident task_ident = ''__rticx_internal__'' @ task_ident @ ''__INPUTS''"

record sw_backend =
  sb_queue_path :: path
  sb_local_pend :: "core \<Rightarrow> ident \<times> path \<Rightarrow> tokens"
  sb_cross_pend :: "core \<Rightarrow> ident \<times> path \<Rightarrow> tokens option"
  sb_interrupt_path :: "core \<Rightarrow> path option"
  sb_current_core_id :: "tokens option"

definition join_path :: "path \<Rightarrow> ident \<Rightarrow> path" where
  "join_path p i = p\<lparr>segments := segments p @ [\<lparr>seg_ident = i, seg_args = False\<rparr>]\<rparr>"

definition get_interrupt_path :: "sw_backend \<Rightarrow> path list \<Rightarrow> core \<Rightarrow> path" where
  "get_interrupt_path B pacs core =
     (case sb_interrupt_path B core of Some p \<Rightarrow> p | None \<Rightarrow> join_path (pacs ! unat core) ''Interrupt'')"

text \<open>The pend call: function, interrupt type and interrupt; for a cross-core task its error is mapped.\<close>

record pend_call =
  pc_fn :: ident
  pc_interrupt_ty :: path
  pc_irq :: path

record spawn_api =
  sp_task :: ident
  sp_inputs :: ident
  sp_prio_ty :: ident
  sp_ready :: ident
  sp_queue_path :: path
  sp_size :: usize
  sp_flag :: ident
  sp_cross :: bool
  sp_pend :: "pend_call option"
  sp_core_check :: "(tokens \<times> core) option"

text \<open>The items of the templates.  \<open>SwQueue\<close> is a queue static with its element type and size,
  \<open>SwDispatcherImpl\<close> the \<open>RticTask\<close> implementation of a dispatcher with the ready queue and the
  branches of its match: task, input queue, static.\<close>

datatype sw_gen =
    SwStruct item_struct
  | SwImpl item_impl
  | SwSpawn spawn_api
  | SwEnum ident "ident list"
  | SwQueue ident ident usize
  | SwDispatcherImpl ident ident "(ident \<times> ident \<times> ident) list"
  | SwPendFn tokens
  | SwTrait ident
  | SwFlag ident

text \<open>Both branches of \<open>generate_spawn_api\<close>: the input-queue static and the impl block.\<close>

definition generate_spawn_api :: "spawn_api \<Rightarrow> sw_gen list" where
  "generate_spawn_api p = [SwQueue (sp_inputs p) (sp_task p) (sp_size p), SwSpawn p]"

definition task_spawn_api :: "naming \<Rightarrow> sw_backend \<Rightarrow> path \<Rightarrow> path \<Rightarrow> nat \<Rightarrow> software_task \<Rightarrow> spawn_api" where
  "task_spawn_api N B irq pac num_cores t =
     (let ps = sw_params t; cross = (tp_core ps \<noteq> tp_spawn_by ps);
          interrupt_ty = (case sb_interrupt_path B (tp_core ps) of Some p \<Rightarrow> p | None \<Rightarrow> join_path pac ''Interrupt'');
          prio_ty = priority_ty_ident N (tp_priority ps) (tp_core ps)
      in \<lparr>sp_task = sw_name t, sp_inputs = sw_task_inputs_ident (sw_name t), sp_prio_ty = prio_ty,
          sp_ready = priority_queue_ident prio_ty, sp_queue_path = sb_queue_path B, sp_size = tp_capacity ps + 1,
          sp_flag = ''__rticx_sw_system_initialized'', sp_cross = cross,
          sp_pend = Some \<lparr>pc_fn = (if cross then cross_pend_fn_ident N (tp_core ps) else local_pend_fn_ident N (tp_core ps) num_cores),
            pc_interrupt_ty = interrupt_ty, pc_irq = irq\<rparr>,
          sp_core_check = map_option (\<lambda>e. (e, if cross then tp_spawn_by ps else tp_core ps)) (sb_current_core_id B)\<rparr>)"

text \<open>A software task as the next pass reads it; a group always has a dispatcher after the analysis, where the code unwraps.\<close>

definition gen_sw_task :: "naming \<Rightarrow> sw_backend \<Rightarrow> sw_sub_analysis \<Rightarrow> path \<Rightarrow> nat \<Rightarrow> software_task \<Rightarrow> sw_gen list" where
  "gen_sw_task N B an pac num_cores t =
     [SwStruct ((sw_struct t)\<lparr>st_attrs := attr_tokens (sw_attr t) # st_attrs (sw_struct t)\<rparr>)] @
     (case sw_impl t of None \<Rightarrow> [] | Some im \<Rightarrow> [SwImpl im]) @
     generate_spawn_api (task_spawn_api N B (the (map_of (sn_dispatchers an) (tp_priority (sw_params t)))) pac num_cores t)"

text \<open>The attributes of a dispatcher struct.\<close>

definition dispatcher_attrs :: "path \<Rightarrow> prio \<Rightarrow> core \<Rightarrow> meta list" where
  "dispatcher_attrs irq priority core =
     [MList (ident_path ''doc'') (Some [(ident_path ''hidden'', None)]),
      MList (ident_path ''task'') (Some
        [(ident_path ''binds'', Some (EPath False irq)), (ident_path ''priority'', Some (EInt (unat priority))),
         (ident_path ''core'', Some (EInt (unat core))), (ident_path ''init'', Some (ident_expr ''generated''))])]"

definition gen_dispatcher :: "naming \<Rightarrow> sw_sub_analysis \<Rightarrow> prio \<times> group_entry list \<Rightarrow> sw_gen list" where
  "gen_dispatcher N an g =
     (case g of (p, tasks) \<Rightarrow>
       let prio_ty = priority_ty_ident N p (sn_core an);
           ready = priority_queue_ident prio_ty;
           ready_queue_size = sum_list (map (\<lambda>(_, _, capacity). capacity) tasks) + 1;
           ty = dispatcher_ident N p (sn_core an)
       in [SwEnum prio_ty (map fst tasks),
           SwQueue ready prio_ty ready_queue_size,
           SwStruct \<lparr>st_attrs = dispatcher_attrs (the (map_of (sn_dispatchers an) p)) p (sn_core an), st_ident = ty, st_fields = []\<rparr>,
           SwDispatcherImpl ty ready
             (map (\<lambda>(t, _, _). (t, sw_task_inputs_ident t, ident_uppercase N t)) tasks)])"

definition generate_dispatcher_tasks :: "naming \<Rightarrow> sw_sub_analysis \<Rightarrow> sw_gen list" where
  "generate_dispatcher_tasks N an = concat (map (gen_dispatcher N an) (sn_groups an))"

definition generate_subapp :: "naming \<Rightarrow> sw_backend \<Rightarrow> sw_app \<Rightarrow> sw_sub_app \<times> sw_sub_analysis \<Rightarrow> sw_gen list" where
  "generate_subapp N B a x =
     (case x of (sa, an) \<Rightarrow>
       concat (map (gen_sw_task N B an (ap_pacs (sx_params a) ! unat (ss_core sa)) (length (sx_sub_apps a)))
         (ss_tasks sa @ ss_mc_tasks sa)) @
       generate_dispatcher_tasks N an)"

definition generate_local_pend_fns :: "naming \<Rightarrow> sw_backend \<Rightarrow> (core \<times> path) list \<Rightarrow> nat \<Rightarrow> sw_gen list" where
  "generate_local_pend_fns N B cores num_cores =
     map (\<lambda>(core, ty). SwPendFn (sb_local_pend B core (local_pend_fn_ident N core num_cores, ty))) cores"

definition generate_cross_pend_fns :: "naming \<Rightarrow> sw_backend \<Rightarrow> (core \<times> path) list \<Rightarrow> sw_gen list" where
  "generate_cross_pend_fns N B cores =
     List.map_filter (\<lambda>(core, ty). map_option SwPendFn (sb_cross_pend B core (cross_pend_fn_ident N core, ty))) cores"

definition sw_cores :: "sw_backend \<Rightarrow> sw_app \<Rightarrow> sw_sub_app list \<Rightarrow> (core \<times> path) list" where
  "sw_cores B a sas = map (\<lambda>sa. (ss_core sa, get_interrupt_path B (ap_pacs (sx_params a)) (ss_core sa))) sas"

definition sw_codegen :: "naming \<Rightarrow> sw_backend \<Rightarrow> sw_app \<Rightarrow> sw_sub_analysis list \<Rightarrow> sw_gen list" where
  "sw_codegen N B a ans =
     concat (map (generate_subapp N B a) (zip (sx_sub_apps a) ans)) @
     [SwTrait SWT_TRAIT_TY] @
     generate_local_pend_fns N B (sw_cores B a (sx_sub_apps a)) (length (sx_sub_apps a)) @
     generate_cross_pend_fns N B (sw_cores B a (filter (\<lambda>sa. ss_mc_tasks sa \<noteq> []) (sx_sub_apps a))) @
     [SwFlag ''__rticx_sw_system_initialized'']"

text \<open>The generated items as the next pass parses them.\<close>

fun to_item :: "(sw_gen \<Rightarrow> tokens) \<Rightarrow> sw_gen \<Rightarrow> item" where
  "to_item pr (SwStruct s) = IStruct s"
| "to_item pr (SwImpl im) = IImpl im"
| "to_item pr (SwSpawn p) = IImpl \<lparr>im_trait = None, im_self = Some (ident_path (sp_task p)), im_body = pr (SwSpawn p)\<rparr>"
| "to_item pr (SwDispatcherImpl ty ready bs) =
     IImpl \<lparr>im_trait = Some (ident_path HWT_TRAIT_TY), im_self = Some (ident_path ty), im_body = pr (SwDispatcherImpl ty ready bs)\<rparr>"
| "to_item pr g = IOther (pr g)"

section \<open>The pass\<close>

definition INFO_APP :: ident where "INFO_APP = ''rticx_sw_pass::App''"

definition INFO_ANALYSIS :: ident where "INFO_ANALYSIS = ''rticx_sw_pass::Analysis''"

text \<open>\<open>run_pass\<close>, with the flag \<open>has_tasks\<close> that the pass keeps for its injection; the publication of the
  app and the analysis is the caller's, which panics when the entries are taken.\<close>

definition sw_run_pass :: "naming \<Rightarrow> (sw_gen \<Rightarrow> tokens) \<Rightarrow> (item \<Rightarrow> meta list option) \<Rightarrow> sw_backend \<Rightarrow> arg_tokens \<Rightarrow> item_mod \<Rightarrow>
    (bool \<times> sw_app \<times> sw_sub_analysis list \<times> arg_tokens \<times> item_mod) result" where
  "sw_run_pass N pr oa B args m =
     rbind (sw_app_parse oa args m) (\<lambda>parsed.
     let has_cross_core_tasks = (\<exists>s \<in> set (sx_sub_apps parsed). ss_mc_tasks s \<noteq> []) in
     if has_cross_core_tasks \<and> sb_current_core_id B = None then Err NoCoreId
     else
     rbind (sw_analysis_run parsed) (\<lambda>an.
     let has_any = (\<exists>s \<in> set (sx_sub_apps parsed). ss_tasks s \<noteq> [] \<or> ss_mc_tasks s \<noteq> []);
         code = \<lparr>mod_ident = sx_ident parsed, mod_content = Some (sx_rest parsed @ map (to_item pr) (sw_codegen N B parsed an))\<rparr> in
     rbind (parse_from_tokens args ''app'') (\<lambda>attr.
     Ok (has_any, parsed, an, args_tokens (attr\<lparr>elements := AList.delete ''dispatchers'' (elements attr)\<rparr>), code))))"

definition sw_main_injection :: "bool \<Rightarrow> injection_point \<Rightarrow> core \<Rightarrow> tokens option" where
  "sw_main_injection has_tasks point core =
     (if point = BeforePostInit \<and> has_tasks then Some ''unsafe { __rticx_sw_system_initialized = true; }'' else None)"

end
