(* ===== verification/SwProps.thy ===== *)
theory SwProps
  imports SwPass
begin

text \<open>
  Properties of the software-task pass: what the core pass reads back from a rewritten task attribute,
  and the exact result of the analysis.
\<close>

section \<open>Task attributes\<close>

lemma parse_attr_int_iff: "parse_attr_int a key d = Inr v \<longleftrightarrow> int_arg key a d v"
  by (auto simp: parse_attr_int_def int_arg_def unat_of_nat_small unsigned_less split: option.split expr.splits)

lemma into_task_attr_lookup:
  "get_expr k (into_task_attr a i) =
     (if k = ''task_trait'' then Some (ident_expr i)
      else if k \<in> {''spawn_by'', ''capacity''} then None else get_expr k a)"
  by (auto simp: into_task_attr_def get_expr_def map_of_update map_of_delete)

lemma into_task_attr_wf: "attr_wf a \<Longrightarrow> attr_wf (into_task_attr a i)"
  by (simp add: attr_wf_def into_task_attr_def distinct_update distinct_delete)

text \<open>What the two parsers make of one attribute.\<close>

lemma task_params_iff:
  "task_params_from_attr a = Inr ps \<longleftrightarrow>
     int_arg ''priority'' a 0 (tp_priority ps) \<and> int_arg ''core'' a 0 (tp_core ps) \<and>
     int_arg ''spawn_by'' a (tp_core ps) (tp_spawn_by ps) \<and> int_arg ''capacity'' a 1 (tp_capacity ps) \<and>
     tp_capacity ps \<noteq> 0"
  by (cases ps) (auto simp: task_params_from_attr_def parse_attr_int_iff split: if_splits)

lemma int_arg_unique: "int_arg k a d v \<Longrightarrow> int_arg k a d w \<Longrightarrow> v = w"
  by (auto simp: int_arg_def word_unat_eq_iff)

lemma ident_expr_trait: "expr_ident (ident_expr i) = Some i"
  by (simp add: expr_ident_def ident_expr_def ident_path_def)

lemma rewritten_attr_args:
  assumes "attr_wf a" and "task_params_from_attr a = Ok ps"
    and "task_args_parse (attr_tokens (into_task_attr a tr)) = Ok r"
  shows "ta_trait r = tr \<and> ta_core r = tp_core ps \<and>
    (if get_expr ''priority'' a = None then tp_priority ps = 0 \<and> ta_priority r = 1
     else ta_priority r = tp_priority ps)"
proof -
  let ?b = "into_task_attr a tr"
  obtain b where b: "from_meta (attr_tokens ?b) = Inr b" "\<forall>k. get_expr k b = get_expr k ?b"
    using from_meta_attr_tokens [OF into_task_attr_wf [OF assms(1)]] by blast
  with assms(3) have "task_args_spec b r" by (auto simp: task_args_parse_spec)
  with b(2) have r: "int_arg ''priority'' a 1 (ta_priority r)" "int_arg ''core'' a 0 (ta_core r)"
      "ta_trait r = tr"
    by (auto simp: task_args_spec_def int_arg_def ident_arg_def into_task_attr_lookup ident_expr_trait)
  have p: "int_arg ''priority'' a 0 (tp_priority ps)" "int_arg ''core'' a 0 (tp_core ps)"
    using assms(2) by (simp_all add: task_params_iff)
  have "ta_core r = tp_core ps" using r(2) p(2) by (rule int_arg_unique)
  moreover have "if get_expr ''priority'' a = None then tp_priority ps = 0 \<and> ta_priority r = 1
     else ta_priority r = tp_priority ps"
    using r(1) p(1) by (auto simp: int_arg_def word_unat_eq_iff)
  ultimately show ?thesis using r(3) by simp
qed

text \<open>
  A \<open>#[sw_task]\<close> struct reaches the core pass as a task of the software-task trait on the core that the
  pass recorded, and a priority that is written reaches it unchanged.  A priority that is omitted does
  not: the software-task pass groups the task under priority 0, with a dispatcher of that priority, while
  the core pass takes it to have priority 1.
\<close>

lemma sw_task_attr_agreement:
  assumes "attr_wf a" and "task_params_from_attr a = Ok ps"
    and "task_args_parse (attr_tokens (into_task_attr a SWT_TRAIT_TY)) = Ok r"
  shows "ta_trait r = SWT_TRAIT_TY \<and> ta_core r = tp_core ps \<and>
    (if get_expr ''priority'' a = None then tp_priority ps = 0 \<and> ta_priority r = 1
     else ta_priority r = tp_priority ps)"
  by (rule rewritten_attr_args [OF assms])

definition demo_sw_attr :: rtic_attr where
  "demo_sw_attr = \<lparr>attr_name = ''sw_task'', elements = [(''capacity'', EInt 4)]\<rparr>"

lemma demo_sw_attr_params:
  "task_params_from_attr demo_sw_attr = Ok \<lparr>tp_priority = 0, tp_core = 0, tp_spawn_by = 0, tp_capacity = 4\<rparr>"
  by (simp add: task_params_iff demo_sw_attr_def int_arg_def get_expr_def)

lemma demo_sw_attr_task:
  "task_args_parse (attr_tokens (into_task_attr demo_sw_attr SWT_TRAIT_TY)) = Ok
     \<lparr>ta_binds = None, ta_priority = 1, ta_shared = [], ta_core = 0, ta_trait = ''RticSwTask'', ta_generated = False\<rparr>"
proof -
  have "from_meta (attr_tokens (into_task_attr demo_sw_attr SWT_TRAIT_TY)) =
      Ok \<lparr>attr_name = ''task'', elements = [(''task_trait'', ident_expr ''RticSwTask'')]\<rparr>"
    by (simp add: from_meta_def attr_tokens_def args_tokens_def parse_from_tokens_def insert_arg_def
      into_task_attr_def demo_sw_attr_def SWT_TRAIT_TY_def)
  then show ?thesis
    by (auto simp: task_args_parse_spec task_args_spec_def get_expr_def int_arg_def ident_arg_def array_arg_def
      ident_expr_trait split: if_splits)
qed

lemma sw_task_attr_agreement_witness:
  "tp_priority \<lparr>tp_priority = 0, tp_core = 0, tp_spawn_by = 0, tp_capacity = 4\<rparr> = 0 \<and>
   ta_priority \<lparr>ta_binds = None, ta_priority = 1, ta_shared = [], ta_core = 0, ta_trait = ''RticSwTask'',
     ta_generated = False\<rparr> = 1"
  using sw_task_attr_agreement [OF _ demo_sw_attr_params demo_sw_attr_task]
  by (simp add: demo_sw_attr_def attr_wf_def get_expr_def)

section \<open>The analysis\<close>

lemma group_foldl:
  assumes "group_sorted gs"
  shows "group_sorted (foldl (\<lambda>gs t. group_push (p t) (e t) gs) gs ts) \<and>
    map_of (foldl (\<lambda>gs t. group_push (p t) (e t) gs) gs ts) q =
      (case map e (filter (\<lambda>t. p t = q) ts) of
         [] \<Rightarrow> map_of gs q
       | es \<Rightarrow> Some ((case map_of gs q of None \<Rightarrow> [] | Some l \<Rightarrow> l) @ es))"
  using assms
proof (induction ts arbitrary: gs)
  case Nil
  then show ?case by simp
next
  case (Cons t ts)
  have s: "group_sorted (group_push (p t) (e t) gs)" using Cons.prems by (rule group_push_sorted)
  show ?case
    using Cons.IH [OF s] group_push_lookup [OF Cons.prems, of "p t" "e t" q]
    by (auto split: list.splits option.splits)
qed

definition entry_of :: "(software_task \<Rightarrow> core) \<Rightarrow> software_task \<Rightarrow> group_entry" where
  "entry_of sc t = (sw_name t, sc t, tp_capacity (sw_params t))"

definition with_prio :: "prio \<Rightarrow> software_task list \<Rightarrow> software_task list" where
  "with_prio p ts = filter (\<lambda>t. tp_priority (sw_params t) = p) ts"

definition nonempty :: "'a list \<Rightarrow> 'a list option" where
  "nonempty xs = (if xs = [] then None else Some xs)"

lemma group_by_priority_spec:
  "group_sorted (group_by_priority ts sc) \<and>
   map_of (group_by_priority ts sc) q = nonempty (map (entry_of sc) (with_prio q ts))"
  using group_foldl [of "[]" "\<lambda>t. tp_priority (sw_params t)" "entry_of sc" ts q]
  by (simp add: group_by_priority_def entry_of_def with_prio_def nonempty_def split: list.splits)

lemma sorted_assoc_unique:
  assumes "group_sorted gs" "group_sorted hs" "map_of gs = map_of hs"
  shows "gs = hs"
proof -
  have "set (map fst gs) = set (map fst hs)"
    using assms(3) by (metis dom_map_of_conv_image_fst list.set_map)
  then have k: "map fst gs = map fst hs"
    using assms(1,2) by (simp add: sorted_distinct_set_unique strict_sorted_iff)
  have "map snd gs = map snd hs"
  proof (rule nth_equalityI)
    show "length (map snd gs) = length (map snd hs)" using k by (metis length_map)
    fix i assume i: "i < length (map snd gs)"
    then have "i < length hs" using k by (metis length_map)
    then have "map_of gs (fst (gs ! i)) = Some (snd (gs ! i))" "map_of hs (fst (hs ! i)) = Some (snd (hs ! i))"
      using i sorted_keys_distinct [OF assms(1)] sorted_keys_distinct [OF assms(2)] by simp_all
    moreover have "fst (gs ! i) = fst (hs ! i)" using arg_cong [OF k, of "\<lambda>l. l ! i"] i \<open>i < length hs\<close> by simp
    ultimately show "map snd gs ! i = map snd hs ! i" using assms(3) i \<open>i < length hs\<close> by simp
  qed
  with k show ?thesis by (metis zip_map_fst_snd)
qed

definition prios :: "software_task list \<Rightarrow> prio set" where
  "prios ts = (\<lambda>t. tp_priority (sw_params t)) ` set ts"

lemma group_keys: "fst ` set (group_by_priority ts sc) = prios ts"
proof -
  have "q \<in> fst ` set (group_by_priority ts sc) \<longleftrightarrow> q \<in> prios ts" for q
  proof -
    have "q \<in> fst ` set (group_by_priority ts sc) \<longleftrightarrow> map_of (group_by_priority ts sc) q \<noteq> None"
      by (simp add: map_of_eq_None_iff)
    also have "\<dots> \<longleftrightarrow> with_prio q ts \<noteq> []"
      using group_by_priority_spec [of ts sc q] by (simp add: nonempty_def)
    also have "\<dots> \<longleftrightarrow> q \<in> prios ts" by (auto simp: with_prio_def prios_def filter_empty_conv)
    finally show ?thesis .
  qed
  then show ?thesis by blast
qed

definition all_groups :: "sw_sub_app \<Rightarrow> prio \<Rightarrow> group_entry list" where
  "all_groups sa p = map (entry_of (\<lambda>_. ss_core sa)) (with_prio p (ss_tasks sa)) @
     map (entry_of (\<lambda>t. tp_spawn_by (sw_params t))) (with_prio p (ss_mc_tasks sa))"


text \<open>The two conditions on cross-core tasks.\<close>

definition disjoint_priorities :: "sw_sub_app \<Rightarrow> bool" where
  "disjoint_priorities sa \<longleftrightarrow> prios (ss_tasks sa) \<inter> prios (ss_mc_tasks sa) = {}"

definition uniform_spawners :: "sw_sub_app \<Rightarrow> bool" where
  "uniform_spawners sa \<longleftrightarrow> (\<forall>t \<in> set (ss_mc_tasks sa). \<forall>u \<in> set (ss_mc_tasks sa).
     tp_priority (sw_params t) = tp_priority (sw_params u) \<longrightarrow> tp_spawn_by (sw_params t) = tp_spawn_by (sw_params u))"

lemma disjoint_check:
  "check_disjoint_priorities (group_by_priority (ss_tasks sa) f) (group_by_priority (ss_mc_tasks sa) g) c = Ok () \<longleftrightarrow>
     disjoint_priorities sa"
proof -
  have "(\<forall>h \<in> set (group_by_priority (ss_mc_tasks sa) g). fst h \<notin> prios (ss_tasks sa)) \<longleftrightarrow>
      fst ` set (group_by_priority (ss_mc_tasks sa) g) \<inter> prios (ss_tasks sa) = {}" by blast
  then show ?thesis by (simp add: check_disjoint_ok group_keys disjoint_priorities_def Int_commute)
qed

lemma group_member:
  "h \<in> set (group_by_priority ts sc) \<Longrightarrow> snd h = map (entry_of sc) (with_prio (fst h) ts) \<and> snd h \<noteq> []"
  using group_by_priority_spec [of ts sc "fst h"]
  by (cases h) (auto simp: nonempty_def dest!: map_of_is_SomeI [OF sorted_keys_distinct] split: if_splits)

lemma uniform_check:
  "check_uniform_spawn_by (group_by_priority (ss_mc_tasks sa) (\<lambda>t. tp_spawn_by (sw_params t))) = Ok () \<longleftrightarrow>
     uniform_spawners sa" (is "?c \<longleftrightarrow> _")
proof
  let ?sp = "\<lambda>t. tp_spawn_by (sw_params t)"
  let ?g = "group_by_priority (ss_mc_tasks sa) ?sp"
  assume c: ?c
  show "uniform_spawners sa"
    unfolding uniform_spawners_def
  proof (intro ballI impI)
    fix t u assume t: "t \<in> set (ss_mc_tasks sa)" and u: "u \<in> set (ss_mc_tasks sa)"
      and p: "tp_priority (sw_params t) = tp_priority (sw_params u)"
    let ?p = "tp_priority (sw_params t)"
    have "?p \<in> fst ` set ?g" using t by (simp add: group_keys prios_def)
    then obtain h where h: "h \<in> set ?g" "fst h = ?p" by auto
    have "entry_of ?sp t \<in> set (snd h)" "entry_of ?sp u \<in> set (snd h)"
      using t u p group_member [OF h(1)] h(2) by (auto simp: with_prio_def)
    then have "fst (snd (entry_of ?sp t)) = fst (snd (entry_of ?sp u))"
      using c h(1) unfolding check_uniform_ok by blast
    then show "?sp t = ?sp u" by (simp add: entry_of_def)
  qed
next
  let ?sp = "\<lambda>t. tp_spawn_by (sw_params t)"
  assume u: "uniform_spawners sa"
  show ?c unfolding check_uniform_ok
  proof (intro ballI)
    fix h e x assume h: "h \<in> set (group_by_priority (ss_mc_tasks sa) ?sp)" "e \<in> set (snd h)" "x \<in> set (snd h)"
    have m: "\<exists>t \<in> set (with_prio (fst h) (ss_mc_tasks sa)). fst (snd y) = ?sp t" if "y \<in> set (snd h)" for y
      using that group_member [OF h(1)] by (auto simp: entry_of_def)
    obtain t where t: "t \<in> set (with_prio (fst h) (ss_mc_tasks sa))" "fst (snd e) = ?sp t"
      using m [OF h(2)] by blast
    obtain t' where t': "t' \<in> set (with_prio (fst h) (ss_mc_tasks sa))" "fst (snd x) = ?sp t'"
      using m [OF h(3)] by blast
    have "?sp t = ?sp t'" using u t(1) t'(1) by (simp add: uniform_spawners_def with_prio_def)
    then show "fst (snd e) = fst (snd x)" using t(2) t'(2) by simp
  qed
qed

lemma merged_groups:
  assumes "disjoint_priorities sa"
  defines "gs \<equiv> group_extend (group_by_priority (ss_tasks sa) (\<lambda>_. ss_core sa))
      (group_by_priority (ss_mc_tasks sa) (\<lambda>t. tp_spawn_by (sw_params t)))"
  shows "group_sorted gs" and "map_of gs p = nonempty (all_groups sa p)"
    and "length gs = card (prios (ss_tasks sa) \<union> prios (ss_mc_tasks sa))"
proof -
  note l = group_by_priority_spec [of "ss_tasks sa" "\<lambda>_. ss_core sa"]
  note m = group_by_priority_spec [of "ss_mc_tasks sa" "\<lambda>t. tp_spawn_by (sw_params t)"]
  have e: "group_sorted gs \<and> map_of gs = map_of (group_by_priority (ss_tasks sa) (\<lambda>_. ss_core sa)) ++
      map_of (group_by_priority (ss_mc_tasks sa) (\<lambda>t. tp_spawn_by (sw_params t)))"
    unfolding gs_def using l m sorted_keys_distinct by (intro group_extend_spec) blast+
  then show "group_sorted gs" ..
  have x: "with_prio p (ss_tasks sa) = [] \<or> with_prio p (ss_mc_tasks sa) = []"
    using assms(1) by (auto simp: disjoint_priorities_def prios_def with_prio_def filter_empty_conv)
  then show "map_of gs p = nonempty (all_groups sa p)"
    using e l [of p] m [of p] by (auto simp: map_add_def nonempty_def all_groups_def)
  have "fst ` set gs = dom (map_of gs)" by (simp add: dom_map_of_conv_image_fst)
  also have "\<dots> = prios (ss_tasks sa) \<union> prios (ss_mc_tasks sa)"
    using e by (simp add: dom_map_of_conv_image_fst group_keys Un_commute)
  finally have "set (map fst gs) = \<dots>" by simp
  moreover have "card (set (map fst gs)) = length gs"
    using e sorted_keys_distinct by (metis distinct_card length_map)
  ultimately show "length gs = card (prios (ss_tasks sa) \<union> prios (ss_mc_tasks sa))" by simp
qed

lemma analyse_subapp_iff:
  "analyse_subapp sa = Ok an \<longleftrightarrow>
     disjoint_priorities sa \<and> uniform_spawners sa \<and>
     card (prios (ss_tasks sa) \<union> prios (ss_mc_tasks sa)) \<le> length (ss_dispatchers sa) \<and>
     sn_core an = ss_core sa \<and> group_sorted (sn_groups an) \<and>
     (\<forall>p. map_of (sn_groups an) p = nonempty (all_groups sa p)) \<and>
     sn_dispatchers an = zip (map fst (sn_groups an)) (ss_dispatchers sa)" (is "_ \<longleftrightarrow> ?r")
proof -
  let ?gs = "group_extend (group_by_priority (ss_tasks sa) (\<lambda>_. ss_core sa))
      (group_by_priority (ss_mc_tasks sa) (\<lambda>t. tp_spawn_by (sw_params t)))"
  have "analyse_subapp sa = Ok an \<longleftrightarrow> disjoint_priorities sa \<and> uniform_spawners sa \<and>
      length ?gs \<le> length (ss_dispatchers sa) \<and> sn_core an = ss_core sa \<and> sn_groups an = ?gs \<and>
      sn_dispatchers an = zip (map fst ?gs) (ss_dispatchers sa)"
    by (cases an)
      (auto simp: analyse_subapp_def Let_def disjoint_check uniform_check assign_dispatchers_def split: if_splits)
  also have "\<dots> \<longleftrightarrow> ?r"
  proof (cases "disjoint_priorities sa")
    case True
    have "sn_groups an = ?gs \<longleftrightarrow> group_sorted (sn_groups an) \<and> (\<forall>p. map_of (sn_groups an) p = nonempty (all_groups sa p))"
    proof
      assume r: "group_sorted (sn_groups an) \<and> (\<forall>p. map_of (sn_groups an) p = nonempty (all_groups sa p))"
      then have "map_of (sn_groups an) = map_of ?gs" using merged_groups(2) [OF True] by (simp add: fun_eq_iff)
      with r merged_groups(1) [OF True] show "sn_groups an = ?gs" by (auto intro: sorted_assoc_unique)
    qed (simp add: merged_groups [OF True])
    then show ?thesis using merged_groups(3) [OF True] by auto
  qed simp
  finally show ?thesis .
qed

text \<open>
  (C22) The analysis of a core succeeds exactly when no cross-core task shares its priority with a
  core-local one, cross-core tasks of one priority have the same spawning core, and there is a
  dispatcher for every priority in use.  The result then has, in ascending order, one group per
  priority in use with the tasks of that priority in the order of their declaration, and the \<open>n\<close>th
  dispatcher listed goes to the \<open>n\<close>th lowest priority.
\<close>

theorem sw_analysis_exact:
  "analyse_subapp sa = Ok an \<longleftrightarrow>
     disjoint_priorities sa \<and> uniform_spawners sa \<and>
     card (prios (ss_tasks sa) \<union> prios (ss_mc_tasks sa)) \<le> length (ss_dispatchers sa) \<and>
     sn_core an = ss_core sa \<and> group_sorted (sn_groups an) \<and>
     (\<forall>p. map_of (sn_groups an) p = nonempty (all_groups sa p)) \<and>
     sn_dispatchers an = zip (map fst (sn_groups an)) (ss_dispatchers sa)"
  by (rule analyse_subapp_iff)

definition demo_sw_task :: "ident \<Rightarrow> prio \<Rightarrow> core \<Rightarrow> software_task" where
  "demo_sw_task i p s = \<lparr>sw_params = \<lparr>tp_priority = p, tp_core = 0, tp_spawn_by = s, tp_capacity = 2\<rparr>,
     sw_attr = demo_sw_attr, sw_struct = \<lparr>st_attrs = [], st_ident = i, st_fields = []\<rparr>, sw_impl = None\<rparr>"

definition demo_sw_sub :: sw_sub_app where
  "demo_sw_sub = \<lparr>ss_core = 0, ss_dispatchers = [ident_path ''I0'', ident_path ''I1''],
     ss_tasks = [demo_sw_task ''A'' 2 0, demo_sw_task ''B'' 2 0], ss_mc_tasks = [demo_sw_task ''C'' 1 1]\<rparr>"

lemma sw_analysis_exact_witness:
  "analyse_subapp demo_sw_sub = Ok \<lparr>sn_core = 0,
     sn_groups = [(1, [(''C'', 1, 2)]), (2, [(''A'', 0, 2), (''B'', 0, 2)])],
     sn_dispatchers = [(1, ident_path ''I0''), (2, ident_path ''I1'')]\<rparr>"
  by (subst sw_analysis_exact)
    (auto simp: demo_sw_sub_def demo_sw_task_def disjoint_priorities_def uniform_spawners_def prios_def
      all_groups_def with_prio_def nonempty_def entry_of_def sw_name_def)

end
