(* ===== verification/SwRuntime.thy ===== *)
theory SwRuntime
  imports Spsc SwProps "HOL-Library.Sublist"
begin

text \<open>
  The code that the software-task pass generates for one priority group, as it runs: the body of
  \<open>spawn\<close> and \<open>cross_spawn\<close> (\<open>generate_spawn_api\<close>) and of the dispatcher (\<open>generate_dispatcher_tasks\<close>) over
  the queues of \<open>rticx-spsc\<close>.  Between two queue operations any other step may happen: a dispatcher
  is not protected by a critical section, and the critical section of a cross-core spawn does not
  stop the dispatcher on the other core.  Only spawns exclude each other: they run in a critical section
  on the one core that the analysis lets spawn into the group.
\<close>

section \<open>The generated code\<close>

text \<open>Where the spawning call and the dispatcher stand.\<close>

datatype spawn_pc = SpIdle | SpReady ident | SpPend ident

datatype dispatch_pc = DpOff | DpLoop | DpFetched ident | DpRunning ident

text \<open>The statics of the group; \<open>gr_results\<close>, \<open>gr_accepted\<close> and \<open>gr_executed\<close> log the results of the spawn
  calls, the inputs enqueued and the calls of \<open>exec\<close>, \<open>gr_undefined\<close> records a broken contract of an
  unchecked queue operation.\<close>

record (overloaded) ('i, 'w) group_rt =
  gr_ready :: "(ident, 'w) queue"
  gr_inputs :: "ident \<rightharpoonup> ('i, 'w) queue"
  gr_initialized :: bool
  gr_pended :: bool
  gr_spawner :: spawn_pc
  gr_dispatcher :: dispatch_pc
  gr_results :: "('i option, unit) res list"
  gr_accepted :: "(ident \<times> 'i) list"
  gr_executed :: "(ident \<times> 'i) list"
  gr_undefined :: bool

text \<open>The statics of a group, with the sizes that the templates compute.\<close>

definition group_new :: "group_entry list \<Rightarrow> ('i, 'w::len) group_rt" where
  "group_new es = \<lparr>gr_ready = queue_new (unat (sum_list (map (\<lambda>(_, _, c). c) es) + 1)),
     gr_inputs = map_of (map (\<lambda>(t, _, c). (t, queue_new (unat (c + 1)))) es),
     gr_initialized = False, gr_pended = False, gr_spawner = SpIdle, gr_dispatcher = DpOff,
     gr_results = [], gr_accepted = [], gr_executed = [], gr_undefined = False\<rparr>"

text \<open>The call up to the enqueuing of the input: the core check, the initialisation flag, a full queue.
  The error of the core-local \<open>spawn\<close> is the input itself, here \<open>Some\<close> of it.\<close>

definition spawn_input :: "bool \<Rightarrow> ident \<Rightarrow> 'i \<Rightarrow> ('i, 'w::len) queue \<Rightarrow> ('i, 'w) group_rt \<Rightarrow> ('i, 'w) group_rt" where
  "spawn_input core_ok t x q s =
     (if \<not> core_ok then s\<lparr>gr_results := gr_results s @ [Err (Some x)]\<rparr>
      else if \<not> gr_initialized s then s\<lparr>gr_results := gr_results s @ [Err (Some x)]\<rparr>
      else case enqueue q x of
          (q', Inl y) \<Rightarrow> s\<lparr>gr_results := gr_results s @ [Err (Some y)]\<rparr>
        | (q', Inr _) \<Rightarrow> s\<lparr>gr_inputs := (gr_inputs s)(t \<mapsto> q'), gr_spawner := SpReady t,
              gr_accepted := gr_accepted s @ [(t, x)]\<rparr>)"

text \<open>The enqueuing into the ready queue, undefined if that is full.\<close>

definition spawn_ready :: "ident \<Rightarrow> ('i, 'w::len) group_rt \<Rightarrow> ('i, 'w) group_rt" where
  "spawn_ready t s = s\<lparr>gr_undefined := gr_undefined s \<or> snd (enqueue (gr_ready s) t) \<noteq> Ok (),
     gr_ready := enqueue_unchecked (gr_ready s) t, gr_spawner := SpPend t\<rparr>"

text \<open>The pending of the dispatcher; \<open>ok\<close> is False when the cross-core pend function fails.\<close>

definition spawn_pend :: "bool \<Rightarrow> ('i, 'w::len) group_rt \<Rightarrow> ('i, 'w) group_rt" where
  "spawn_pend ok s = s\<lparr>gr_pended := gr_pended s \<or> ok, gr_spawner := SpIdle,
     gr_results := gr_results s @ [if ok then Ok () else Err None]\<rparr>"

text \<open>One turn of the dispatcher's loop up to the fetched task; the end of the loop ends the handler.\<close>

definition dispatch_fetch :: "('i, 'w::len) group_rt \<Rightarrow> ('i, 'w) group_rt" where
  "dispatch_fetch s =
     (case dequeue (gr_ready s) of
        (q, None) \<Rightarrow> s\<lparr>gr_dispatcher := DpOff\<rparr>
      | (q, Some None) \<Rightarrow> s\<lparr>gr_undefined := True\<rparr>
      | (q, Some (Some t)) \<Rightarrow> s\<lparr>gr_ready := q, gr_dispatcher := DpFetched t\<rparr>)"

text \<open>The branch of the match: the input and the call of \<open>exec\<close>.  Reading an empty queue is undefined.\<close>

definition dispatch_exec :: "ident \<Rightarrow> ('i, 'w::len) queue \<Rightarrow> ('i, 'w) group_rt \<Rightarrow> ('i, 'w) group_rt" where
  "dispatch_exec t q s =
     (case dequeue_unchecked q of
        (q', None) \<Rightarrow> s\<lparr>gr_undefined := True\<rparr>
      | (q', Some x) \<Rightarrow> s\<lparr>gr_undefined := gr_undefined s \<or> snd (dequeue q) = None,
          gr_inputs := (gr_inputs s)(t \<mapsto> q'), gr_dispatcher := DpRunning t, gr_executed := gr_executed s @ [(t, x)]\<rparr>)"

datatype 'i rt_event = EvInit | EvSpawn bool ident 'i | EvReady | EvPend bool | EvEnter | EvFetch | EvExec | EvReturn

text \<open>\<open>None\<close> is an event that cannot happen in the state.\<close>

fun rt_step :: "'i rt_event \<Rightarrow> ('i, 'w::len) group_rt \<Rightarrow> ('i, 'w) group_rt option" where
  "rt_step EvInit s = Some (s\<lparr>gr_initialized := True\<rparr>)"
| "rt_step (EvSpawn core_ok t x) s =
     (case (gr_spawner s, gr_inputs s t) of
        (SpIdle, Some q) \<Rightarrow> Some (spawn_input core_ok t x q s)
      | _ \<Rightarrow> None)"
| "rt_step EvReady s = (case gr_spawner s of SpReady t \<Rightarrow> Some (spawn_ready t s) | _ \<Rightarrow> None)"
| "rt_step (EvPend ok) s = (case gr_spawner s of SpPend t \<Rightarrow> Some (spawn_pend ok s) | _ \<Rightarrow> None)"
| "rt_step EvEnter s =
     (if gr_dispatcher s = DpOff \<and> gr_pended s then Some (s\<lparr>gr_pended := False, gr_dispatcher := DpLoop\<rparr>) else None)"
| "rt_step EvFetch s = (if gr_dispatcher s = DpLoop then Some (dispatch_fetch s) else None)"
| "rt_step EvExec s =
     (case gr_dispatcher s of
        DpFetched t \<Rightarrow> (case gr_inputs s t of Some q \<Rightarrow> Some (dispatch_exec t q s) | None \<Rightarrow> None)
      | _ \<Rightarrow> None)"
| "rt_step EvReturn s = (case gr_dispatcher s of DpRunning t \<Rightarrow> Some (s\<lparr>gr_dispatcher := DpLoop\<rparr>) | _ \<Rightarrow> None)"

fun rt_run :: "'i rt_event list \<Rightarrow> ('i, 'w::len) group_rt \<Rightarrow> ('i, 'w) group_rt option" where
  "rt_run [] s = Some s"
| "rt_run (e # es) s = Option.bind (rt_step e s) (rt_run es)"

section \<open>The invariant\<close>

fun in_dispatcher :: "dispatch_pc \<Rightarrow> ident list" where
  "in_dispatcher (DpFetched t) = [t]"
| "in_dispatcher _ = []"

fun in_spawner :: "spawn_pc \<Rightarrow> ident list" where
  "in_spawner (SpReady t) = [t]"
| "in_spawner _ = []"

fun spawns :: "'i rt_event list \<Rightarrow> nat" where
  "spawns [] = 0"
| "spawns (EvSpawn _ _ _ # es) = Suc (spawns es)"
| "spawns (_ # es) = spawns es"

definition inputs_of :: "ident \<Rightarrow> (ident \<times> 'i) list \<Rightarrow> 'i list" where
  "inputs_of t es = map snd (filter (\<lambda>e. fst e = t) es)"

text \<open>The accepted inputs that have not been executed are, in order, those of the task fetched by the
  dispatcher, of the ready queue, and of the spawn under way; \<open>k\<close> spawns may still come.\<close>

definition rt_inv :: "(ident \<Rightarrow> nat) \<Rightarrow> ident list \<Rightarrow> nat \<Rightarrow> ('i, 'w::len) group_rt \<Rightarrow> (ident \<times> 'i) list \<Rightarrow> bool" where
  "rt_inv cap ts k s rest \<longleftrightarrow>
     gr_accepted s = gr_executed s @ rest \<and>
     map fst rest = in_dispatcher (gr_dispatcher s) @ contents (gr_ready s) @ in_spawner (gr_spawner s) \<and>
     fst ` set rest \<subseteq> set ts \<and>
     dom (gr_inputs s) = set ts \<and>
     (\<forall>t q. gr_inputs s t = Some q \<longrightarrow> contents q = inputs_of t rest \<and> ring_inv k q \<and> capacity q = cap t) \<and>
     ring_inv (k + length (in_spawner (gr_spawner s))) (gr_ready s) \<and>
     capacity (gr_ready s) = sum_list (map cap ts) \<and>
     \<not> gr_undefined s"

lemma inputs_of_simps [simp]:
  "inputs_of t [] = []" "inputs_of t (e # es) = (if fst e = t then snd e # inputs_of t es else inputs_of t es)"
  "inputs_of t (es @ fs) = inputs_of t es @ inputs_of t fs"
  by (simp_all add: inputs_of_def)

lemma sum_inputs:
  "distinct ts \<Longrightarrow> fst ` set rest \<subseteq> set ts \<Longrightarrow> length rest = sum_list (map (\<lambda>t. length (inputs_of t rest)) ts)"
proof (induction rest)
  case Nil
  then show ?case by (induction ts) auto
next
  case (Cons e rest)
  have "sum_list (map (\<lambda>t. length (inputs_of t (e # rest))) ts)
      = sum_list (map (\<lambda>t. length (inputs_of t rest)) ts) + sum_list (map (\<lambda>t. if t = fst e then 1 else 0) ts)"
    unfolding sum_list_addf [symmetric] by (rule arg_cong [of _ _ sum_list]) auto
  also have "sum_list (map (\<lambda>t. if t = fst e then 1 else 0) ts) = (1 :: nat)"
    using Cons.prems by (simp add: sum_list_distinct_conv_sum_set)
  finally show ?case using Cons by simp
qed


lemma rt_inv_bound:
  assumes "rt_inv cap ts k s rest" "distinct ts"
  shows "length rest \<le> sum_list (map cap ts)"
proof -
  have "length (inputs_of t rest) \<le> cap t" if "t \<in> set ts" for t
  proof -
    have "dom (gr_inputs s) = set ts" using assms(1) by (simp add: rt_inv_def)
    with that have "t \<in> dom (gr_inputs s)" by simp
    then obtain q where q: "gr_inputs s t = Some q" by blast
    then have "contents q = inputs_of t rest \<and> ring_inv k q \<and> capacity q = cap t"
      using assms(1) by (simp add: rt_inv_def)
    then show ?thesis using ring.bounded [of k q] by simp
  qed
  then have "sum_list (map (\<lambda>t. length (inputs_of t rest)) ts) \<le> sum_list (map cap ts)"
    by (simp add: sum_list_mono)
  moreover have "length rest = sum_list (map (\<lambda>t. length (inputs_of t rest)) ts)"
    using assms by (intro sum_inputs) (simp_all add: rt_inv_def)
  ultimately show ?thesis by simp
qed

lemma inv_spawn_input:
  assumes i: "rt_inv cap ts (Suc k) s rest" and q: "gr_inputs s t = Some q" and sp: "gr_spawner s = SpIdle"
  shows "\<exists>rest'. rt_inv cap ts k (spawn_input b t x q s) rest'"
proof -
  have tq: "contents q = inputs_of t rest" "ring_inv (Suc k) q" "capacity q = cap t" "t \<in> set ts"
    using i q by (auto simp: rt_inv_def)
  have weak: "rt_inv cap ts k s rest"
    using i sp ring.inv_le [of "Suc k" _ k] by (auto simp: rt_inv_def intro: ring_inv_antimono)
  show ?thesis
  proof (cases "b \<and> gr_initialized s")
    case False
    then have "spawn_input b t x q s = s\<lparr>gr_results := gr_results s @ [Err (Some x)]\<rparr>"
      by (auto simp: spawn_input_def)
    then show ?thesis using weak by (auto simp: rt_inv_def)
  next
    case True
    from tq(2) show ?thesis
    proof (cases rule: ring.enq_cases [of k q x])
      case full
      then have "spawn_input b t x q s = s\<lparr>gr_results := gr_results s @ [Err (Some x)]\<rparr>"
        using True by (simp add: spawn_input_def)
      then show ?thesis using weak by (auto simp: rt_inv_def)
    next
      case room
      have e: "spawn_input b t x q s = s\<lparr>gr_inputs := (gr_inputs s)(t \<mapsto> enqueue_unchecked q x), gr_spawner := SpReady t,
          gr_accepted := gr_accepted s @ [(t, x)]\<rparr>"
        using True room by (simp add: spawn_input_def)
      have "rt_inv cap ts k (spawn_input b t x q s) (rest @ [(t, x)])"
        using i weak sp tq room(3,4) unfolding e by (auto simp: rt_inv_def)
      then show ?thesis ..
    qed
  qed
qed

lemma inv_spawn_ready:
  assumes i: "rt_inv cap ts k s rest" and sp: "gr_spawner s = SpReady t" and "distinct ts"
  shows "rt_inv cap ts k (spawn_ready t s) rest"
proof -
  have r: "ring_inv (Suc k) (gr_ready s)" "capacity (gr_ready s) = sum_list (map cap ts)"
    "map fst rest = in_dispatcher (gr_dispatcher s) @ contents (gr_ready s) @ [t]"
    using i sp by (simp_all add: rt_inv_def)
  have "length rest = length (in_dispatcher (gr_dispatcher s)) + length (contents (gr_ready s)) + 1"
    using arg_cong [OF r(3), of length] by simp
  then have l: "length (contents (gr_ready s)) < capacity (gr_ready s)"
    using rt_inv_bound [OF i assms(3)] r(2) by simp
  show ?thesis
    using i sp r ring.enq_room [OF r(1) l, of t] ring.enq_contents [OF r(1) l, of t] ring.enq_inv [OF r(1) l, of t]
    by (simp add: rt_inv_def spawn_ready_def)
qed

text \<open>What a turn of the dispatcher does, by the head of the ready queue and of the waiting inputs.\<close>

lemma fetch_eq:
  assumes "rt_inv cap ts k s rest"
  shows "dispatch_fetch s = (case contents (gr_ready s) of
      [] \<Rightarrow> s\<lparr>gr_dispatcher := DpOff\<rparr>
    | t # _ \<Rightarrow> s\<lparr>gr_ready := fst (dequeue_unchecked (gr_ready s)), gr_dispatcher := DpFetched t\<rparr>)"
proof -
  have r: "ring_inv (k + length (in_spawner (gr_spawner s))) (gr_ready s)" using assms by (simp add: rt_inv_def)
  show ?thesis
    using ring.deq_empty [OF r] ring.deq_some [OF r] ring.deq_value [OF r]
    by (cases "contents (gr_ready s)") (simp_all add: dispatch_fetch_def)
qed

lemma exec_eq:
  assumes i: "rt_inv cap ts k s rest" and d: "gr_dispatcher s = DpFetched t" and q: "gr_inputs s t = Some q"
  obtains x rest' where "rest = (t, x) # rest'" "contents q = x # inputs_of t rest'"
    "dispatch_exec t q s = s\<lparr>gr_inputs := (gr_inputs s)(t \<mapsto> fst (dequeue_unchecked q)), gr_dispatcher := DpRunning t,
        gr_executed := gr_executed s @ [(t, x)]\<rparr>"
proof -
  have "map fst rest = t # contents (gr_ready s) @ in_spawner (gr_spawner s)" using i d by (simp add: rt_inv_def)
  then obtain x rest' where rest: "rest = (t, x) # rest'" by (cases rest) auto
  have tq: "contents q = x # inputs_of t rest'" "ring_inv k q" using i q rest by (auto simp: rt_inv_def)
  have e: "dequeue_unchecked q = (fst (dequeue_unchecked q), Some x)"
    using ring.deq_value [OF tq(2,1)] by (simp add: prod_eq_iff)
  have v: "snd (dequeue q) = Some (snd (dequeue_unchecked q))" using ring.deq_some [OF tq(2,1)] by simp
  show thesis by (rule that [OF rest tq(1)]) (unfold dispatch_exec_def v, subst e, simp)
qed

lemma inv_fetch:
  assumes i: "rt_inv cap ts k s rest" and d: "gr_dispatcher s = DpLoop"
  shows "rt_inv cap ts k (dispatch_fetch s) rest"
proof -
  have r: "ring_inv (k + length (in_spawner (gr_spawner s))) (gr_ready s)" using i by (simp add: rt_inv_def)
  show ?thesis
    using i d ring.deq_contents [OF r] ring.deq_inv [OF r] unfolding fetch_eq [OF i]
    by (cases "contents (gr_ready s)") (simp_all add: rt_inv_def)
qed

lemma inv_exec:
  assumes i: "rt_inv cap ts k s rest" and d: "gr_dispatcher s = DpFetched t" and q: "gr_inputs s t = Some q"
  shows "rt_inv cap ts k (dispatch_exec t q s) (tl rest)"
proof -
  from i d q obtain x rest' where e: "rest = (t, x) # rest'" "contents q = x # inputs_of t rest'"
    "dispatch_exec t q s = s\<lparr>gr_inputs := (gr_inputs s)(t \<mapsto> fst (dequeue_unchecked q)), gr_dispatcher := DpRunning t,
        gr_executed := gr_executed s @ [(t, x)]\<rparr>" by (rule exec_eq)
  have tq: "ring_inv k q" "capacity q = cap t" "t \<in> set ts" using i q by (auto simp: rt_inv_def)
  show ?thesis
    using i d tq ring.deq_contents [OF tq(1) e(2)] ring.deq_inv [OF tq(1) e(2)] unfolding e(1,3)
    by (auto simp: rt_inv_def)
qed

lemma inv_step:
  assumes "rt_inv cap ts (spawns (e # es)) s rest" "distinct ts" "rt_step e s = Some s'"
  shows "\<exists>rest'. rt_inv cap ts (spawns es) s' rest'"
proof (cases e)
  case (EvSpawn b t x)
  then show ?thesis using assms inv_spawn_input by (auto split: spawn_pc.splits option.splits)
next
  case EvReady
  with assms(3) obtain t where "gr_spawner s = SpReady t" "s' = spawn_ready t s" by (auto split: spawn_pc.splits)
  moreover from EvReady assms(1) have "rt_inv cap ts (spawns es) s rest" by simp
  ultimately show ?thesis using inv_spawn_ready [OF _ _ assms(2)] by blast
next
  case EvFetch
  then have "gr_dispatcher s = DpLoop" "s' = dispatch_fetch s" "rt_inv cap ts (spawns es) s rest"
    using assms by (auto split: if_splits)
  then show ?thesis using inv_fetch by blast
next
  case EvExec
  with assms obtain t q where "gr_dispatcher s = DpFetched t" "gr_inputs s t = Some q" "s' = dispatch_exec t q s"
      "rt_inv cap ts (spawns es) s rest"
    by (auto split: dispatch_pc.splits option.splits)
  then show ?thesis using inv_exec by blast
qed (use assms in \<open>auto simp: rt_inv_def spawn_pend_def split: spawn_pc.splits dispatch_pc.splits if_splits\<close>)

lemma inv_run:
  "rt_inv cap ts (spawns es) s rest \<Longrightarrow> distinct ts \<Longrightarrow> rt_run es s = Some s' \<Longrightarrow> \<exists>rest'. rt_inv cap ts 0 s' rest'"
proof (induction es arbitrary: s rest)
  case Nil
  then show ?case by auto
next
  case (Cons e es)
  then obtain s1 where s1: "rt_step e s = Some s1" "rt_run es s1 = Some s'" by (auto simp: bind_eq_Some_conv)
  from inv_step [OF Cons.prems(1,2) s1(1)] Cons.IH [OF _ Cons.prems(2) s1(2)] show ?case by blast
qed


section \<open>From the start\<close>

definition cap_of :: "group_entry list \<Rightarrow> ident \<Rightarrow> nat" where
  "cap_of es t = (case map_of es t of Some (_, c) \<Rightarrow> unat c | None \<Rightarrow> 0)"

definition total_cap :: "group_entry list \<Rightarrow> nat" where
  "total_cap es = sum_list (map (\<lambda>(_, _, c). unat c) es)"

text \<open>The sizes of the statics do not overflow, in the macro and on a target of word size \<open>'w\<close>.\<close>

definition sizes_fit :: "'w::len itself \<Rightarrow> group_entry list \<Rightarrow> bool" where
  "sizes_fit _ es \<longleftrightarrow> total_cap es + 1 < 2 ^ 64 \<and> total_cap es + 1 < 2 ^ LENGTH('w)"

lemma total_cap_sum: "distinct (map fst es) \<Longrightarrow> sum_list (map (cap_of es) (map fst es)) = total_cap es"
  unfolding total_cap_def map_map
  by (rule arg_cong [of _ _ sum_list]) (auto simp: cap_of_def)

lemma unat_sum_caps:
  "total_cap es < 2 ^ 64 \<Longrightarrow> unat (sum_list (map (\<lambda>(_, _, c). c) es)) = total_cap es"
proof (induction es)
  case Nil
  then show ?case by (simp add: total_cap_def)
next
  case (Cons e es)
  obtain t k c where e: "e = (t, k, c)" by (cases e)
  have "unat c + unat (sum_list (map (\<lambda>(_, _, c). c) es)) < 2 ^ 64" using Cons e by (simp add: total_cap_def)
  then have "unat (c + sum_list (map (\<lambda>(_, _, c). c) es)) = unat c + unat (sum_list (map (\<lambda>(_, _, c). c) es))"
    by (simp add: unat_add_lem [THEN iffD1])
  with Cons e show ?case by (simp add: total_cap_def)
qed

lemma unat_plus_one: "unat (c :: 64 word) + 1 < 2 ^ 64 \<Longrightarrow> unat (c + 1) = unat c + 1"
  by (simp add: unat_add_lem [THEN iffD1])

lemma cap_le_total: "(t, k, c) \<in> set es \<Longrightarrow> unat c \<le> total_cap es"
  unfolding total_cap_def by (induction es) auto

lemma inv_new:
  assumes d: "distinct (map fst es)" and f: "sizes_fit TYPE('w::len) es" and k: "k < 2 ^ LENGTH('w)"
  shows "rt_inv (cap_of es) (map fst es) k (group_new es :: ('i, 'w) group_rt) []"
proof -
  have u: "unat (sum_list (map (\<lambda>(_, _, c). c) es) + 1) = total_cap es + 1"
    using f unat_sum_caps [of es] by (simp add: sizes_fit_def unat_plus_one)
  have i: "contents q = inputs_of t [] \<and> ring_inv k q \<and> capacity q = cap_of es t"
    if "gr_inputs (group_new es :: ('i, 'w) group_rt) t = Some q" for t q
  proof -
    have m: "map_of (map (\<lambda>(t, _, c). (t, queue_new (unat (c + 1)))) es) t
        = map_option (\<lambda>(_, c). queue_new (unat (c + 1)) :: ('i, 'w) queue) (map_of es t)"
      by (induction es) auto
    with that obtain core c where c: "map_of es t = Some (core, c)" "q = queue_new (unat (c + 1))"
      by (auto simp: group_new_def)
    have "unat c \<le> total_cap es" using map_of_SomeD [OF c(1)] by (rule cap_le_total)
    then have "unat c + 1 < 2 ^ 64" "unat c + 1 < 2 ^ LENGTH('w)" using f by (simp_all add: sizes_fit_def)
    then show ?thesis using c k by (simp add: unat_plus_one ring_inv_new cap_of_def)
  qed
  have "fst ` set es = dom (gr_inputs (group_new es :: ('i, 'w) group_rt))"
    by (force simp: group_new_def dom_map_of_conv_image_fst)
  then show ?thesis
    using i f k u total_cap_sum [OF d] by (auto simp: rt_inv_def ring_inv_new group_new_def sizes_fit_def)
qed

text \<open>Two spawns of two tasks, of which the dispatcher has executed the first.\<close>

definition demo_group :: "group_entry list" where
  "demo_group = [(''A'', 0, 1), (''B'', 0, 2)]"

definition demo_events :: "nat rt_event list" where
  "demo_events = [EvInit, EvSpawn True ''A'' 7, EvReady, EvPend True, EvEnter, EvFetch, EvSpawn True ''B'' 8, EvExec, EvReady, EvPend True]"

lemma demo_group_run:
  "\<exists>s. rt_run demo_events (group_new demo_group :: (nat, 32) group_rt) = Some s \<and> gr_spawner s = SpIdle \<and>
     gr_accepted s = [(''A'', 7), (''B'', 8)] \<and> gr_executed s = [(''A'', 7)]"
  by (simp add: demo_events_def demo_group_def group_new_def spawn_input_def spawn_ready_def spawn_pend_def
    dispatch_fetch_def dispatch_exec_def queue_new_def enqueue_def dequeue_def enqueue_unchecked_def
    dequeue_unchecked_def DEPTH_def Let_def)

lemma demo_group_ok: "distinct (map fst demo_group)" "sizes_fit TYPE(32) demo_group" "spawns demo_events < 2 ^ LENGTH(32)"
  by (simp_all add: demo_group_def sizes_fit_def total_cap_def demo_events_def)

text \<open>
  (C26) However the spawns of a group and its dispatcher interleave, the unchecked queue operations of the
  generated code are within their contracts: the ready queue is never full when a task is enqueued and a
  fetched task always has an input.  Inputs are executed in the order in which the spawns accepted them,
  across all tasks of the group, each once and with its own task.
\<close>

theorem sw_dispatch_sound:
  assumes "distinct (map fst es)" and "sizes_fit TYPE('w::len) es" and "spawns evs < 2 ^ LENGTH('w)"
    and "rt_run evs (group_new es :: ('i, 'w) group_rt) = Some s"
  shows "\<not> gr_undefined s \<and> prefix (gr_executed s) (gr_accepted s)"
  using inv_run [OF inv_new [OF assms(1-3)] assms(1,4)] by (auto simp: rt_inv_def)

lemma sw_dispatch_sound_witness:
  "\<exists>s. rt_run demo_events (group_new demo_group :: (nat, 32) group_rt) = Some s \<and> \<not> gr_undefined s \<and>
     prefix (gr_executed s) (gr_accepted s)"
  using demo_group_run sw_dispatch_sound [OF demo_group_ok] by blast


section \<open>No spawn is lost\<close>

text \<open>An idle dispatcher with something in its ready queue has been pended or is about to be.\<close>

definition awake :: "('i, 'w::len) group_rt \<Rightarrow> bool" where
  "awake s \<longleftrightarrow> (gr_dispatcher s = DpOff \<and> contents (gr_ready s) \<noteq> [] \<longrightarrow>
     gr_pended s \<or> (\<exists>t. gr_spawner s = SpPend t))"

lemma awake_step:
  assumes i: "rt_inv cap ts k s rest" and a: "awake s" and e: "rt_step e s = Some s'" "e \<noteq> EvPend False"
  shows "awake s'"
proof (cases e)
  case (EvSpawn b t x)
  then obtain q where "gr_spawner s = SpIdle" "s' = spawn_input b t x q s" using e(1) by (auto split: spawn_pc.splits option.splits)
  then show ?thesis using a by (auto simp: awake_def spawn_input_def split: sum.split prod.split)
next
  case EvFetch
  then have "s' = dispatch_fetch s" using e(1) by (simp split: if_splits)
  then show ?thesis unfolding fetch_eq [OF i] by (simp add: awake_def split: list.split)
next
  case EvExec
  then obtain t q where "gr_dispatcher s = DpFetched t" "gr_inputs s t = Some q" "s' = dispatch_exec t q s"
    using e(1) by (auto split: dispatch_pc.splits option.splits)
  with i show ?thesis by (auto elim: exec_eq simp: awake_def)
qed (use a e in \<open>auto simp: awake_def spawn_pend_def spawn_ready_def split: spawn_pc.splits dispatch_pc.splits if_splits\<close>)

lemma awake_run:
  "rt_inv cap ts (spawns es) s rest \<Longrightarrow> distinct ts \<Longrightarrow> awake s \<Longrightarrow> EvPend False \<notin> set es \<Longrightarrow>
     rt_run es s = Some s' \<Longrightarrow> awake s'"
proof (induction es arbitrary: s rest)
  case Nil
  then show ?case by auto
next
  case (Cons e es)
  then obtain s1 where s1: "rt_step e s = Some s1" "rt_run es s1 = Some s'" by (auto simp: bind_eq_Some_conv)
  obtain rest1 where "rt_inv cap ts (spawns es) s1 rest1" using inv_step [OF Cons.prems(1,2) s1(1)] ..
  moreover have "awake s1" using awake_step [OF Cons.prems(1,3) s1(1)] Cons.prems(4) by auto
  ultimately show ?case using Cons.IH Cons.prems(2,4) s1(2) by simp
qed

definition dispatcher_events :: "'i rt_event set" where
  "dispatcher_events = {EvEnter, EvFetch, EvExec, EvReturn}"

definition drains :: "('i, 'w::len) group_rt \<Rightarrow> bool" where
  "drains s \<longleftrightarrow> (\<exists>evs s'. set evs \<subseteq> dispatcher_events \<and> rt_run evs s = Some s' \<and>
     gr_dispatcher s' = DpOff \<and> \<not> gr_undefined s' \<and> gr_executed s' = gr_accepted s)"

lemma drains_step:
  assumes "rt_step e s = Some s1" "e \<in> dispatcher_events" "gr_accepted s1 = gr_accepted s" "drains s1"
  shows "drains s"
proof -
  obtain evs s' where "set evs \<subseteq> dispatcher_events" "rt_run evs s1 = Some s'"
      "gr_dispatcher s' = DpOff" "\<not> gr_undefined s'" "gr_executed s' = gr_accepted s1"
    using assms(4) by (auto simp: drains_def)
  with assms(1-3) have "set (e # evs) \<subseteq> dispatcher_events \<and> rt_run (e # evs) s = Some s' \<and>
     gr_dispatcher s' = DpOff \<and> \<not> gr_undefined s' \<and> gr_executed s' = gr_accepted s" by simp
  then show ?thesis unfolding drains_def by blast
qed

lemma drains_loop:
  "rt_inv cap ts k s rest \<Longrightarrow> gr_spawner s = SpIdle \<Longrightarrow> gr_dispatcher s \<noteq> DpOff \<Longrightarrow> drains s"
proof (induction rest arbitrary: s)
  case Nil
  then have c: "contents (gr_ready s) = []" "gr_accepted s = gr_executed s" "in_dispatcher (gr_dispatcher s) = []"
    "\<not> gr_undefined s" by (simp_all add: rt_inv_def)
  have loop: "drains s1" if "gr_dispatcher s1 = DpLoop" "rt_inv cap ts k s1 []" for s1 :: "('a, 'b) group_rt"
  proof -
    have "contents (gr_ready s1) = []" "gr_accepted s1 = gr_executed s1" "\<not> gr_undefined s1"
      using that by (simp_all add: rt_inv_def)
    then have "set [EvFetch] \<subseteq> dispatcher_events \<and> rt_run [EvFetch] s1 = Some (s1\<lparr>gr_dispatcher := DpOff\<rparr>) \<and>
        gr_dispatcher (s1\<lparr>gr_dispatcher := DpOff\<rparr>) = DpOff \<and> \<not> gr_undefined (s1\<lparr>gr_dispatcher := DpOff\<rparr>) \<and>
        gr_executed (s1\<lparr>gr_dispatcher := DpOff\<rparr>) = gr_accepted s1"
      using that by (simp add: fetch_eq [OF that(2)] dispatcher_events_def)
    then show ?thesis unfolding drains_def by blast
  qed
  show ?case
  proof (cases "gr_dispatcher s")
    case (DpRunning t)
    have "rt_inv cap ts k (s\<lparr>gr_dispatcher := DpLoop\<rparr>) []" using Nil.prems(1,2) DpRunning by (simp add: rt_inv_def)
    then show ?thesis
      by (intro drains_step [of EvReturn s "s\<lparr>gr_dispatcher := DpLoop\<rparr>"] loop) (simp_all add: DpRunning dispatcher_events_def)
  qed (use Nil.prems loop c in auto)
next
  case (Cons e rest)
  have fetched: "drains s1" if d: "gr_dispatcher s1 = DpFetched t" and i: "rt_inv cap ts k s1 (e # rest)"
      and sp: "gr_spawner s1 = SpIdle" for s1 :: "('a, 'b) group_rt" and t
  proof -
    have "fst e = t" "dom (gr_inputs s1) = set ts" "fst e \<in> set ts" using i d by (auto simp: rt_inv_def)
    then have "t \<in> dom (gr_inputs s1)" by simp
    then obtain q where q: "gr_inputs s1 t = Some q" by blast
    from i d q obtain x rest' where x: "dispatch_exec t q s1 = s1\<lparr>gr_inputs := (gr_inputs s1)(t \<mapsto> fst (dequeue_unchecked q)),
        gr_dispatcher := DpRunning t, gr_executed := gr_executed s1 @ [(t, x)]\<rparr>" by (rule exec_eq)
    let ?s2 = "dispatch_exec t q s1"
    have "rt_inv cap ts k ?s2 rest" using inv_exec [OF i d q] by simp
    then have "drains ?s2" by (rule Cons.IH) (simp_all add: x sp)
    then show ?thesis
      by (rule drains_step [of EvExec s1 ?s2, rotated 3]) (simp_all add: d q x dispatcher_events_def)
  qed
  have loop: "drains s1" if d: "gr_dispatcher s1 = DpLoop" and i: "rt_inv cap ts k s1 (e # rest)"
      and sp: "gr_spawner s1 = SpIdle" for s1 :: "('a, 'b) group_rt"
  proof -
    have "fst e # map fst rest = contents (gr_ready s1)" using i d sp by (simp add: rt_inv_def)
    then obtain t c where "contents (gr_ready s1) = t # c" by (cases "contents (gr_ready s1)") simp_all
    then have f: "dispatch_fetch s1 = s1\<lparr>gr_ready := fst (dequeue_unchecked (gr_ready s1)), gr_dispatcher := DpFetched t\<rparr>"
      by (simp add: fetch_eq [OF i])
    have "drains (dispatch_fetch s1)" using inv_fetch [OF i d] by (intro fetched) (simp_all add: f sp)
    then show ?thesis
      by (rule drains_step [of EvFetch s1 "dispatch_fetch s1", rotated 3]) (simp_all add: d f dispatcher_events_def)
  qed
  show ?case
  proof (cases "gr_dispatcher s")
    case (DpRunning t)
    have "rt_inv cap ts k (s\<lparr>gr_dispatcher := DpLoop\<rparr>) (e # rest)" using Cons.prems(1) DpRunning by (simp add: rt_inv_def)
    then show ?thesis
      by (intro drains_step [of EvReturn s "s\<lparr>gr_dispatcher := DpLoop\<rparr>"] loop)
        (simp_all add: DpRunning dispatcher_events_def Cons.prems(2))
  qed (use Cons.prems loop fetched in auto)
qed

lemma drains_awake:
  assumes i: "rt_inv cap ts k s rest" and sp: "gr_spawner s = SpIdle" and "awake s"
  shows "drains s"
proof (cases "gr_dispatcher s = DpOff")
  case False
  with i sp show ?thesis by (intro drains_loop)
next
  case True
  show ?thesis
  proof (cases "gr_pended s")
    case p: True
    let ?s1 = "s\<lparr>gr_pended := False, gr_dispatcher := DpLoop\<rparr>"
    have "rt_inv cap ts k ?s1 rest" using i True by (simp add: rt_inv_def)
    then have "drains ?s1" by (rule drains_loop) (simp_all add: sp)
    then show ?thesis
      by (rule drains_step [of EvEnter s ?s1, rotated 3]) (simp_all add: True p dispatcher_events_def)
  next
    case False
    with True assms(3) sp have "contents (gr_ready s) = []" by (auto simp: awake_def)
    with i sp True have "set [] \<subseteq> (dispatcher_events :: 'a rt_event set) \<and> rt_run [] s = Some s \<and>
     gr_dispatcher s = DpOff \<and> \<not> gr_undefined s \<and> gr_executed s = gr_accepted s"
      by (simp add: rt_inv_def)
    then show ?thesis unfolding drains_def by blast
  qed
qed

text \<open>
  (C27) No spawn is lost: unless a cross-core pend fails, in every reachable state without a spawn under
  way the dispatcher, run on its own, ends after finitely many steps with every accepted input
  executed.  In particular a dispatcher that is neither running nor pended leaves nothing behind.
\<close>

theorem sw_spawn_not_lost:
  assumes "distinct (map fst es)" and "sizes_fit TYPE('w::len) es" and "spawns evs < 2 ^ LENGTH('w)"
    and "rt_run evs (group_new es :: ('i, 'w) group_rt) = Some s"
    and "EvPend False \<notin> set evs" and "gr_spawner s = SpIdle"
  shows "\<exists>devs s'. set devs \<subseteq> {EvEnter, EvFetch, EvExec, EvReturn} \<and> rt_run devs s = Some s' \<and>
    gr_dispatcher s' = DpOff \<and> \<not> gr_undefined s' \<and> gr_executed s' = gr_accepted s"
proof -
  have n: "rt_inv (cap_of es) (map fst es) (spawns evs) (group_new es :: ('i, 'w) group_rt) []"
    using assms(1-3) by (rule inv_new)
  have "awake (group_new es :: ('i, 'w) group_rt)" by (simp add: awake_def group_new_def)
  then have "awake s" using awake_run [OF n assms(1) _ assms(5,4)] by blast
  moreover obtain rest where "rt_inv (cap_of es) (map fst es) 0 s rest" using inv_run [OF n assms(1,4)] ..
  ultimately have "drains s" using assms(6) by (intro drains_awake)
  then show ?thesis by (simp add: drains_def dispatcher_events_def)
qed


lemma sw_spawn_not_lost_witness:
  "\<exists>s devs s'. rt_run demo_events (group_new demo_group :: (nat, 32) group_rt) = Some s \<and> rt_run devs s = Some s' \<and>
     gr_executed s' = [(''A'', 7), (''B'', 8)]"
proof -
  obtain s where s: "rt_run demo_events (group_new demo_group :: (nat, 32) group_rt) = Some s" "gr_spawner s = SpIdle"
    "gr_accepted s = [(''A'', 7), (''B'', 8)]" using demo_group_run by blast
  have "EvPend False \<notin> set demo_events" by (simp add: demo_events_def)
  from sw_spawn_not_lost [OF demo_group_ok s(1) this s(2)] s show ?thesis by metis
qed

end
