(* ===== verification/AsyncPass.thy ===== *)
theory AsyncPass
  imports SwProps
begin

text \<open>
  The async-task pass, \<open>rticx-async-pass/src/\<close>: its parser (\<open>parse/\<close>), analysis (\<open>analyze.rs\<close>), code generation
  (\<open>codegen/\<close>) and the pass itself (\<open>lib.rs\<close>).  An \<open>AsyncTask\<close> has the fields of a \<open>SoftwareTask\<close> and the pass
  uses the infrastructure of the software-task pass, so do the definitions here.
\<close>

section \<open>Parsing\<close>

definition ASYNC_TASK_TRAIT_TY :: ident where
  "ASYNC_TASK_TRAIT_TY = ''RticAsyncTask''"

type_synonym async_task = software_task

definition find_async_task_attr :: "meta list \<Rightarrow> nat option" where
  "find_async_task_attr attrs = find_is_ident ''async_task'' attrs"

definition get_async_task_implementor :: "item_impl \<Rightarrow> ident option" where
  "get_async_task_implementor im = get_task_implementor im ASYNC_TASK_TRAIT_TY"

record async_collected = sw_collected +
  ac_user_idle :: bool

definition async_collect_item :: "(item \<Rightarrow> meta list option) \<Rightarrow> async_collected \<Rightarrow> item \<Rightarrow> async_collected result" where
  "async_collect_item oa c it =
     (let misplaced = (case it of IStruct s \<Rightarrow> None | _ \<Rightarrow> Option.bind (item_attrs oa it) find_async_task_attr) in
      if misplaced \<noteq> None then Err (OnlyStructs ''async_task'')
      else Ok (case it of
         IStruct s \<Rightarrow>
           (case find_async_task_attr (st_attrs s) of
              Some i \<Rightarrow> c\<lparr>sc_structs := sc_structs c @ [(s, i)]\<rparr>
            | None \<Rightarrow> c\<lparr>sc_rest := sc_rest c @ [it],
                ac_user_idle := ac_user_idle c \<or> find_is_ident ''idle'' (st_attrs s) \<noteq> None\<rparr>)
       | IImpl im \<Rightarrow>
           (case get_async_task_implementor im of
              Some i \<Rightarrow> c\<lparr>sc_impls := sc_impls c @ [(i, im)]\<rparr>
            | None \<Rightarrow> c\<lparr>sc_rest := sc_rest c @ [it]\<rparr>)
       | _ \<Rightarrow> c\<lparr>sc_rest := sc_rest c @ [it]\<rparr>))"

definition async_collect :: "(item \<Rightarrow> meta list option) \<Rightarrow> item list \<Rightarrow> async_collected result" where
  "async_collect oa items =
     rfold (async_collect_item oa) \<lparr>sc_structs = [], sc_impls = [], sc_rest = [], ac_user_idle = False\<rparr> items"

definition async_take_task :: "core \<Rightarrow> (ident \<times> item_impl) list \<times> async_task list \<Rightarrow> item_struct \<times> nat \<Rightarrow>
    ((ident \<times> item_impl) list \<times> async_task list) result" where
  "async_take_task cores s si =
     (case (s, si) of ((impls, tasks), (strct, i)) \<Rightarrow>
       rbind (take_impl_for impls (st_ident strct) ASYNC_TASK_TRAIT_TY) (\<lambda>(impls', task_impl).
       rbind (from_meta (st_attrs strct ! i)) (\<lambda>attr.
       rbind (task_params_from_attr attr) (\<lambda>params.
       let task = \<lparr>sw_params = params, sw_attr = into_task_attr attr ASYNC_TASK_TRAIT_TY,
           sw_struct = strct\<lparr>st_attrs := remove_nth i (st_attrs strct)\<rparr>, sw_impl = task_impl\<rparr> in
       if cores \<le> tp_core params then Err (CoreRange (st_ident strct) (unat (tp_core params)))
       else if cores \<le> tp_spawn_by params then Err (SpawnByRange (st_ident strct) (unat (tp_spawn_by params)))
       else Ok (impls', tasks @ [task])))))"

definition is_prio_0 :: "async_task \<Rightarrow> bool" where
  "is_prio_0 t \<longleftrightarrow> tp_priority (sw_params t) = 0"

definition has_prio_0 :: "sw_sub_app list \<Rightarrow> bool" where
  "has_prio_0 sas \<longleftrightarrow> (\<exists>sa \<in> set sas. \<exists>t \<in> set (ss_tasks sa @ ss_mc_tasks sa). is_prio_0 t)"

definition async_app_parse :: "(item \<Rightarrow> meta list option) \<Rightarrow> arg_tokens \<Rightarrow> item_mod \<Rightarrow> sw_app result" where
  "async_app_parse oa args m =
     rbind (app_parameters_parse args) (\<lambda>ps.
     let items = (case mod_content m of None \<Rightarrow> [] | Some items \<Rightarrow> items) in
     rbind (async_collect oa items) (\<lambda>c.
     rbind (rfold (async_take_task (ap_cores ps)) (sc_impls c, []) (sc_structs c)) (\<lambda>(impls, tasks).
     let sub_apps = map (sw_sub_app_of ps tasks) (core_list (ap_cores ps)) in
     if has_prio_0 sub_apps \<and> ac_user_idle c then Err IdleWithPrioZero
     else Ok \<lparr>sx_ident = mod_ident m, sx_params = ps, sx_sub_apps = sub_apps,
         sx_rest = sc_rest c @ map (IImpl \<circ> snd) impls\<rparr>)))"

section \<open>Analysis\<close>

record async_sub_analysis = sw_sub_analysis +
  an_prio_0 :: "group_entry list"

definition async_push_local :: "core \<Rightarrow> priority_group \<times> group_entry list \<Rightarrow> async_task \<Rightarrow> priority_group \<times> group_entry list" where
  "async_push_local core s t =
     (let e = (sw_name t, core, tp_capacity (sw_params t)) in
      if is_prio_0 t then (fst s, snd s @ [e])
      else (group_push (tp_priority (sw_params t)) e (fst s), snd s))"

definition async_push_mc :: "priority_group \<Rightarrow> async_task \<Rightarrow> priority_group result" where
  "async_push_mc gs t =
     (if is_prio_0 t then Err (PrioZeroCrossCore (sw_name t))
      else Ok (group_push (tp_priority (sw_params t))
        (sw_name t, tp_spawn_by (sw_params t), tp_capacity (sw_params t)) gs))"

definition async_analyse_subapp :: "sw_sub_app \<Rightarrow> async_sub_analysis result" where
  "async_analyse_subapp sa =
     (let l = foldl (async_push_local (ss_core sa)) ([], []) (ss_tasks sa) in
      rbind (rfold async_push_mc [] (ss_mc_tasks sa)) (\<lambda>mc.
      rbind (check_disjoint_priorities (fst l) mc (ss_core sa)) (\<lambda>_.
      rbind (check_uniform_spawn_by mc) (\<lambda>_.
      let groups = group_extend (fst l) mc in
      rbind (assign_dispatchers groups (ss_dispatchers sa)) (\<lambda>ds.
      Ok \<lparr>sn_core = ss_core sa, sn_groups = groups, sn_dispatchers = ds, an_prio_0 = snd l\<rparr>)))))"

definition async_analysis_run :: "sw_app \<Rightarrow> async_sub_analysis list result" where
  "async_analysis_run a = rcollect async_analyse_subapp (sx_sub_apps a)"

section \<open>Code generation\<close>

definition WAKE_PEND_FN_NAME :: ident where "WAKE_PEND_FN_NAME = ''__rticx_wake_irq_pend''"

definition wake_pend_fn_ident :: "naming \<Rightarrow> core \<Rightarrow> nat \<Rightarrow> ident" where
  "wake_pend_fn_ident N core num_cores =
     (if num_cores = 1 then WAKE_PEND_FN_NAME else WAKE_PEND_FN_NAME @ ''_core'' @ nm_nat N (unat core))"

definition overflow_queue_ident :: "ident \<Rightarrow> ident" where
  "overflow_queue_ident prio_ty = ''__rticx_internal__'' @ prio_ty @ ''__OQ''"

definition install_fn_ident :: "ident \<Rightarrow> ident" where
  "install_fn_ident prio_ty = ''__rticx_internal__'' @ prio_ty @ ''__try_install''"

definition exec_wake_ident :: "ident \<Rightarrow> ident" where
  "exec_wake_ident t = ''__rticx_internal__'' @ t @ ''__wake''"

definition async_wrapper_ident :: "ident \<Rightarrow> ident" where
  "async_wrapper_ident t = ''__rticx_async_'' @ t"

definition exec_ptr_ident :: "ident \<Rightarrow> ident" where
  "exec_ptr_ident t = ''__rticx_internal__'' @ t @ ''__PTR''"

definition idle_executor_ident :: "naming \<Rightarrow> core \<Rightarrow> ident" where
  "idle_executor_ident N core = ''__RticxAsyncPrio0ExecutorCore'' @ nm_nat N (unat core)"

record async_backend = sw_backend +
  ab_wake_pend :: "core \<Rightarrow> ident \<times> path \<Rightarrow> tokens"
  ab_runtime :: path
  ab_stack_check :: "core \<Rightarrow> tokens option"

text \<open>One arm of \<open>try_install\<close>, and one poll statement.\<close>

record install_arm =
  ia_task :: ident
  ia_static :: ident
  ia_inputs :: ident
  ia_wrapper :: ident
  ia_ptr :: ident

record poll_stmt =
  pl_wrapper :: ident
  pl_ptr :: ident
  pl_wake :: ident

text \<open>The items of the templates.  \<open>AgDispatcher\<close> and \<open>AgIdle\<close> are the implementations of \<open>exec\<close>: ready queue,
  overflow queue, install function, poll statements, length of \<open>deferred\<close>, and for the former the pend call.\<close>

datatype async_gen =
    AgStruct item_struct
  | AgImpl item_impl
  | AgSpawn spawn_api
  | AgQueue ident ident usize
  | AgWrapper ident ident
  | AgPtr ident
  | AgWake ident ident ident "pend_call option"
  | AgEnum ident "ident list"
  | AgInstall ident ident "install_arm list"
  | AgDispatcher ident ident ident ident "poll_stmt list" usize pend_call
  | AgIdle ident ident ident ident "poll_stmt list" usize
  | AgPendFn tokens
  | AgTrait ident
  | AgPrioLimit "8 word"
  | AgFlag ident

definition async_spawn_items :: "spawn_api \<Rightarrow> async_gen list" where
  "async_spawn_items p = [AgQueue (sp_inputs p) (sp_task p) (sp_size p), AgSpawn p]"

definition async_interrupt_ty :: "async_backend \<Rightarrow> path \<Rightarrow> core \<Rightarrow> path" where
  "async_interrupt_ty B pac core = (case sb_interrupt_path B core of Some p \<Rightarrow> p | None \<Rightarrow> join_path pac ''Interrupt'')"

definition async_spawn_api_prio_0 :: "naming \<Rightarrow> async_backend \<Rightarrow> async_task \<Rightarrow> spawn_api" where
  "async_spawn_api_prio_0 N B t =
     (let ps = sw_params t; prio_ty = priority_ty_ident N 0 (tp_core ps)
      in \<lparr>sp_task = sw_name t, sp_inputs = sw_task_inputs_ident (sw_name t), sp_prio_ty = prio_ty,
          sp_ready = priority_queue_ident prio_ty, sp_queue_path = sb_queue_path B, sp_size = tp_capacity ps + 1,
          sp_flag = ''__rticx_async_system_initialized'', sp_cross = False, sp_pend = None,
          sp_core_check = map_option (\<lambda>e. (e, tp_core ps)) (sb_current_core_id B)\<rparr>)"

definition async_spawn_api :: "naming \<Rightarrow> async_backend \<Rightarrow> path \<Rightarrow> path \<Rightarrow> nat \<Rightarrow> async_task \<Rightarrow> spawn_api" where
  "async_spawn_api N B irq pac num_cores t =
     (let ps = sw_params t; cross = (tp_core ps \<noteq> tp_spawn_by ps);
          prio_ty = priority_ty_ident N (tp_priority ps) (tp_core ps)
      in \<lparr>sp_task = sw_name t, sp_inputs = sw_task_inputs_ident (sw_name t), sp_prio_ty = prio_ty,
          sp_ready = priority_queue_ident prio_ty, sp_queue_path = sb_queue_path B, sp_size = tp_capacity ps + 1,
          sp_flag = ''__rticx_async_system_initialized'', sp_cross = cross,
          sp_pend = Some \<lparr>pc_fn = (if cross then cross_pend_fn_ident N (tp_core ps) else local_pend_fn_ident N (tp_core ps) num_cores),
            pc_interrupt_ty = async_interrupt_ty B pac (tp_core ps), pc_irq = irq\<rparr>,
          sp_core_check = map_option (\<lambda>e. (e, if cross then tp_spawn_by ps else tp_core ps)) (sb_current_core_id B)\<rparr>)"


text \<open>\<open>generate_exec_static_and_wake\<close>: wrapper, pointer static and wake function; the pend call of the wake function
  is missing for a task of priority 0.\<close>

definition generate_exec_static_and_wake :: "naming \<Rightarrow> async_sub_analysis \<Rightarrow> nat \<Rightarrow> path \<Rightarrow> async_task \<Rightarrow> async_gen \<times> async_gen \<times> async_gen" where
  "generate_exec_static_and_wake N an num_cores interrupt_ty t =
     (let n = sw_name t; wrapper = async_wrapper_ident n; ptr = exec_ptr_ident n
      in (AgWrapper wrapper n, AgPtr ptr,
          AgWake (exec_wake_ident n) wrapper ptr
            (if is_prio_0 t then None
             else Some \<lparr>pc_fn = wake_pend_fn_ident N (tp_core (sw_params t)) num_cores, pc_interrupt_ty = interrupt_ty,
                pc_irq = the (map_of (sn_dispatchers an) (tp_priority (sw_params t)))\<rparr>)))"

definition async_task_items :: "naming \<Rightarrow> async_backend \<Rightarrow> async_sub_analysis \<Rightarrow> path \<Rightarrow> nat \<Rightarrow> async_task \<Rightarrow> async_gen list" where
  "async_task_items N B an pac num_cores t =
     [AgStruct ((sw_struct t)\<lparr>st_attrs := attr_tokens (sw_attr t) # st_attrs (sw_struct t)\<rparr>)] @
     (case sw_impl t of None \<Rightarrow> [] | Some im \<Rightarrow> [AgImpl im]) @
     async_spawn_items
       (if is_prio_0 t then async_spawn_api_prio_0 N B t
        else async_spawn_api N B (the (map_of (sn_dispatchers an) (tp_priority (sw_params t)))) pac num_cores t)"

definition install_arms :: "naming \<Rightarrow> group_entry list \<Rightarrow> install_arm list" where
  "install_arms N es = map (\<lambda>(t, _, _). \<lparr>ia_task = t, ia_static = ident_uppercase N t, ia_inputs = sw_task_inputs_ident t,
     ia_wrapper = async_wrapper_ident t, ia_ptr = exec_ptr_ident t\<rparr>) es"

definition poll_stmts :: "group_entry list \<Rightarrow> poll_stmt list" where
  "poll_stmts es = map (\<lambda>(t, _, _). \<lparr>pl_wrapper = async_wrapper_ident t, pl_ptr = exec_ptr_ident t, pl_wake = exec_wake_ident t\<rparr>) es"

definition async_ready_size :: "group_entry list \<Rightarrow> usize" where
  "async_ready_size es = sum_list (map (\<lambda>(_, _, capacity). capacity) es) + 1"

definition async_dispatcher :: "naming \<Rightarrow> async_sub_analysis \<Rightarrow> nat \<Rightarrow> path \<Rightarrow> prio \<times> group_entry list \<Rightarrow> async_gen list" where
  "async_dispatcher N an num_cores interrupt_ty g =
     (case g of (p, tasks) \<Rightarrow>
       let prio_ty = priority_ty_ident N p (sn_core an);
           ready = priority_queue_ident prio_ty; overflow = overflow_queue_ident prio_ty;
           install = install_fn_ident prio_ty;
           size = async_ready_size tasks;
           irq = the (map_of (sn_dispatchers an) p);
           ty = dispatcher_ident N p (sn_core an)
       in [AgEnum prio_ty (map fst tasks), AgQueue ready prio_ty size, AgQueue overflow prio_ty size,
           AgInstall install prio_ty (install_arms N tasks),
           AgStruct \<lparr>st_attrs = dispatcher_attrs irq p (sn_core an), st_ident = ty, st_fields = []\<rparr>,
           AgDispatcher ty ready overflow install (poll_stmts tasks) (size - 1)
             \<lparr>pc_fn = wake_pend_fn_ident N (sn_core an) num_cores, pc_interrupt_ty = interrupt_ty, pc_irq = irq\<rparr>])"

definition async_dispatcher_tasks :: "naming \<Rightarrow> async_sub_analysis \<Rightarrow> nat \<Rightarrow> path \<Rightarrow> async_gen list" where
  "async_dispatcher_tasks N an num_cores interrupt_ty = concat (map (async_dispatcher N an num_cores interrupt_ty) (sn_groups an))"

definition generate_idle_executor :: "naming \<Rightarrow> group_entry list \<Rightarrow> core \<Rightarrow> async_gen list" where
  "generate_idle_executor N tasks core =
     (if tasks = [] then []
      else
        let prio_ty = priority_ty_ident N 0 core;
            ready = priority_queue_ident prio_ty; overflow = overflow_queue_ident prio_ty;
            install = install_fn_ident prio_ty;
            size = async_ready_size tasks;
            ty = idle_executor_ident N core
        in [AgEnum prio_ty (map fst tasks), AgQueue ready prio_ty size, AgQueue overflow prio_ty size,
            AgInstall install prio_ty (install_arms N tasks),
            AgStruct \<lparr>st_attrs = [attr_of ''idle'' [(''core'', EInt (unat core)), (''init'', ident_expr ''generated'')]],
              st_ident = ty, st_fields = []\<rparr>,
            AgIdle ty ready overflow install (poll_stmts tasks) (size - 1)])"

definition async_generate_subapp :: "naming \<Rightarrow> async_backend \<Rightarrow> sw_app \<Rightarrow> sw_sub_app \<times> async_sub_analysis \<Rightarrow> async_gen list" where
  "async_generate_subapp N B a x =
     (case x of (sa, an) \<Rightarrow>
       let pac = ap_pacs (sx_params a) ! unat (ss_core sa);
           interrupt_ty = async_interrupt_ty B pac (ss_core sa);
           num_cores = length (sx_sub_apps a);
           tasks = ss_tasks sa @ ss_mc_tasks sa;
           execs = map (generate_exec_static_and_wake N an num_cores interrupt_ty) tasks
       in concat (map (async_task_items N B an pac num_cores) tasks) @
          map fst execs @ map (fst \<circ> snd) execs @ map (snd \<circ> snd) execs @
          async_dispatcher_tasks N an num_cores interrupt_ty @
          generate_idle_executor N (an_prio_0 an) (sn_core an))"

text \<open>\<open>saturating_add\<close> and the clamp to \<open>u8\<close>.\<close>

definition saturating_inc :: "prio \<Rightarrow> prio" where
  "saturating_inc p = (if p = - 1 then p else p + 1)"

definition async_prio_limit :: "async_sub_analysis list \<Rightarrow> 8 word" where
  "async_prio_limit ans =
     (let keys = concat (map (\<lambda>sa. map fst (sn_groups sa)) ans);
          limit = (if keys = [] then - 1 else saturating_inc (Max (set keys)))
      in ucast (min limit 255))"

text \<open>The initialisations of the executor slots, per core: the pointer static and the wrapper.\<close>

definition push_slot_inits :: "sw_app \<Rightarrow> async_sub_analysis list \<Rightarrow> core \<Rightarrow> (ident \<times> ident) list" where
  "push_slot_inits a ans core =
     concat (map (\<lambda>(sa, _). if ss_core sa = core
         then map (\<lambda>t. (exec_ptr_ident (sw_name t), async_wrapper_ident (sw_name t))) (ss_tasks sa @ ss_mc_tasks sa)
         else [])
       (zip (sx_sub_apps a) ans))"

definition async_local_pend_fns :: "naming \<Rightarrow> async_backend \<Rightarrow> sw_app \<Rightarrow> async_gen list" where
  "async_local_pend_fns N B a = map (\<lambda>sa. AgPendFn (sb_local_pend B (ss_core sa)
     (local_pend_fn_ident N (ss_core sa) (length (sx_sub_apps a)),
      async_interrupt_ty B (ap_pacs (sx_params a) ! unat (ss_core sa)) (ss_core sa)))) (sx_sub_apps a)"

definition async_cross_pend_fns :: "naming \<Rightarrow> async_backend \<Rightarrow> sw_app \<Rightarrow> async_gen list" where
  "async_cross_pend_fns N B a = List.map_filter (\<lambda>sa. map_option AgPendFn (sb_cross_pend B (ss_core sa)
     (cross_pend_fn_ident N (ss_core sa), async_interrupt_ty B (ap_pacs (sx_params a) ! unat (ss_core sa)) (ss_core sa))))
     (filter (\<lambda>sa. ss_mc_tasks sa \<noteq> []) (sx_sub_apps a))"

definition get_wake_pend_fns :: "naming \<Rightarrow> async_backend \<Rightarrow> sw_app \<Rightarrow> async_gen list" where
  "get_wake_pend_fns N B a = map (\<lambda>sa. AgPendFn (ab_wake_pend B (ss_core sa)
     (wake_pend_fn_ident N (ss_core sa) (length (sx_sub_apps a)),
      async_interrupt_ty B (ap_pacs (sx_params a) ! unat (ss_core sa)) (ss_core sa)))) (sx_sub_apps a)"

definition async_codegen :: "naming \<Rightarrow> async_backend \<Rightarrow> sw_app \<Rightarrow> async_sub_analysis list \<Rightarrow> async_gen list" where
  "async_codegen N B a ans =
     concat (map (async_generate_subapp N B a) (zip (sx_sub_apps a) ans)) @
     [AgTrait ASYNC_TASK_TRAIT_TY] @
     async_local_pend_fns N B a @ get_wake_pend_fns N B a @ async_cross_pend_fns N B a @
     [AgPrioLimit (async_prio_limit ans), AgFlag ''__rticx_async_system_initialized'']"

text \<open>The generated items as the next pass parses them.\<close>

fun async_to_item :: "(async_gen \<Rightarrow> tokens) \<Rightarrow> async_gen \<Rightarrow> item" where
  "async_to_item pr (AgStruct s) = IStruct s"
| "async_to_item pr (AgImpl im) = IImpl im"
| "async_to_item pr (AgSpawn p) = IImpl \<lparr>im_trait = None, im_self = Some (ident_path (sp_task p)), im_body = pr (AgSpawn p)\<rparr>"
| "async_to_item pr (AgDispatcher ty rq oq inst ps n pend) =
     IImpl \<lparr>im_trait = Some (ident_path HWT_TRAIT_TY), im_self = Some (ident_path ty), im_body = pr (AgDispatcher ty rq oq inst ps n pend)\<rparr>"
| "async_to_item pr (AgIdle ty rq oq inst ps n) =
     IImpl \<lparr>im_trait = Some (ident_path IDLE_TRAIT_TY), im_self = Some (ident_path ty), im_body = pr (AgIdle ty rq oq inst ps n)\<rparr>"
| "async_to_item pr g = IOther (pr g)"

section \<open>The pass\<close>

definition ASYNC_INFO_APP :: ident where "ASYNC_INFO_APP = ''rticx_async_pass::App''"

definition ASYNC_INFO_ANALYSIS :: ident where "ASYNC_INFO_ANALYSIS = ''rticx_async_pass::Analysis''"

text \<open>\<open>run_pass\<close>; the state that the pass keeps for its injections is \<open>has_tasks\<close> and the slot initialisations.\<close>

definition async_run_pass :: "naming \<Rightarrow> (async_gen \<Rightarrow> tokens) \<Rightarrow> (item \<Rightarrow> meta list option) \<Rightarrow> async_backend \<Rightarrow> arg_tokens \<Rightarrow> item_mod \<Rightarrow>
    ((bool \<times> (core \<Rightarrow> (ident \<times> ident) list)) \<times> sw_app \<times> async_sub_analysis list \<times> arg_tokens \<times> item_mod) result" where
  "async_run_pass N pr oa B args m =
     rbind (async_app_parse oa args m) (\<lambda>parsed.
     let has_cross_core_tasks = (\<exists>s \<in> set (sx_sub_apps parsed). ss_mc_tasks s \<noteq> []) in
     if has_cross_core_tasks \<and> sb_current_core_id B = None then Err NoCoreId
     else
     rbind (async_analysis_run parsed) (\<lambda>an.
     let has_any = (\<exists>s \<in> set (sx_sub_apps parsed). ss_tasks s \<noteq> [] \<or> ss_mc_tasks s \<noteq> []);
         code = \<lparr>mod_ident = sx_ident parsed, mod_content = Some (sx_rest parsed @ map (async_to_item pr) (async_codegen N B parsed an))\<rparr> in
     rbind (parse_from_tokens args ''app'') (\<lambda>attr.
     Ok ((has_any, push_slot_inits parsed an), parsed, an,
       args_tokens (attr\<lparr>elements := AList.delete ''dispatchers'' (elements attr)\<rparr>), code))))"

text \<open>\<open>main_injection\<close>; \<open>slot_init\<close> prints the initialisation of a slot.\<close>

definition async_main_injection :: "((ident \<times> ident) \<Rightarrow> tokens) \<Rightarrow> async_backend \<Rightarrow> bool \<times> (core \<Rightarrow> (ident \<times> ident) list) \<Rightarrow>
    injection_point \<Rightarrow> core \<Rightarrow> tokens option" where
  "async_main_injection slot_init B st point core =
     (case point of
        BeforePostInit \<Rightarrow> if fst st then Some ''unsafe { __rticx_async_system_initialized = true; }'' else None
      | EntryStart \<Rightarrow>
          if \<not> fst st then None
          else Some (concat (map slot_init (snd st core)) @ (case ab_stack_check B core of None \<Rightarrow> [] | Some c \<Rightarrow> c))
      | _ \<Rightarrow> None)"

section \<open>The analysis is that of the software-task pass\<close>

lemma async_local_loop:
  "foldl (async_push_local c) (gs, zs) ts =
     (foldl (\<lambda>gs t. group_push (tp_priority (sw_params t)) (sw_name t, c, tp_capacity (sw_params t)) gs) gs (filter (\<lambda>t. \<not> is_prio_0 t) ts),
      zs @ map (entry_of (\<lambda>_. c)) (filter is_prio_0 ts))"
  by (induction ts arbitrary: gs zs) (simp_all add: async_push_local_def entry_of_def Let_def)

lemma async_mc_loop:
  "rfold async_push_mc gs ts =
     (case List.find is_prio_0 ts of
        Some t \<Rightarrow> Err (PrioZeroCrossCore (sw_name t))
      | None \<Rightarrow> Ok (foldl (\<lambda>gs t. group_push (tp_priority (sw_params t))
          (sw_name t, tp_spawn_by (sw_params t), tp_capacity (sw_params t)) gs) gs ts))"
  by (induction ts arbitrary: gs) (simp_all add: async_push_mc_def split: option.split)

lemma rmap_rbind: "rmap f (rbind r g) = rbind r (\<lambda>x. rmap f (g x))"
  by (cases r) simp_all

lemma async_analyse_eq:
  "async_analyse_subapp sa =
     (case List.find is_prio_0 (ss_mc_tasks sa) of
        Some t \<Rightarrow> Err (PrioZeroCrossCore (sw_name t))
      | None \<Rightarrow> rmap (\<lambda>an. \<lparr>sn_core = sn_core an, sn_groups = sn_groups an, sn_dispatchers = sn_dispatchers an,
            an_prio_0 = map (entry_of (\<lambda>_. ss_core sa)) (filter is_prio_0 (ss_tasks sa))\<rparr>)
          (analyse_subapp (sa\<lparr>ss_tasks := filter (\<lambda>t. \<not> is_prio_0 t) (ss_tasks sa)\<rparr>)))"
proof (cases "List.find is_prio_0 (ss_mc_tasks sa)")
  case None
  then show ?thesis
    unfolding async_analyse_subapp_def analyse_subapp_def Let_def async_local_loop async_mc_loop
    by (simp add: group_by_priority_def rmap_rbind)
next
  case (Some t)
  then show ?thesis
    unfolding async_analyse_subapp_def Let_def async_mc_loop by simp
qed

text \<open>
  The async analysis of a core is the software-task analysis of its tasks of nonzero priority, with the
  tasks of priority 0 set aside in the order of their declaration; a cross-core task of priority 0 is an error.
  So every priority in use above 0 gets a dispatcher, exactly as for software tasks, and priority 0 needs none.
\<close>

lemma async_analysis_is_sw_analysis:
  "async_analyse_subapp sa =
     (case List.find is_prio_0 (ss_mc_tasks sa) of
        Some t \<Rightarrow> Err (PrioZeroCrossCore (sw_name t))
      | None \<Rightarrow> rmap (\<lambda>an. \<lparr>sn_core = sn_core an, sn_groups = sn_groups an, sn_dispatchers = sn_dispatchers an,
            an_prio_0 = map (entry_of (\<lambda>_. ss_core sa)) (filter is_prio_0 (ss_tasks sa))\<rparr>)
          (analyse_subapp (sa\<lparr>ss_tasks := filter (\<lambda>t. \<not> is_prio_0 t) (ss_tasks sa)\<rparr>)))"
  by (rule async_analyse_eq)

lemma async_prio_limit_eq:
  "unat (async_prio_limit ans) =
     (let keys = concat (map (\<lambda>sa. map fst (sn_groups sa)) ans) in
      if keys = [] then 255 else min 255 (Suc (unat (Max (set keys)))))"
proof -
  have u: "unat (ucast (min l 255) :: 8 word) = min (unat l) 255" for l :: prio
  proof -
    have "unat (min l 255) = min (unat l) 255" by (simp add: min_def word_le_nat_alt)
    moreover have "unat (ucast (min l 255) :: 8 word) = unat (min l 255) mod 256" by (simp add: unsigned_ucast_eq take_bit_eq_mod)
    ultimately show ?thesis by simp
  qed
  have s: "min (unat (saturating_inc p)) 255 = min 255 (Suc (unat p))" for p :: prio
  proof (cases "p = - 1")
    case True
    then show ?thesis by (simp add: saturating_inc_def unat_minus_one_eq)
  next
    case False
    then have "1 + p \<noteq> 0" by (metis add.commute add_eq_0_iff2)
    then have "unat (1 + p) = Suc (unat p)" by (rule unatSuc)
    with False show ?thesis by (simp add: saturating_inc_def add.commute min.commute)
  qed
  show ?thesis unfolding async_prio_limit_def Let_def u by (simp add: s unat_minus_one_eq split: if_split)
qed

text \<open>
  The symbol \<open>RTIC_ASYNC_MAX_LOGICAL_PRIO\<close> is greater than every priority below 255 of an async task with a
  dispatcher, on every core, so that a timer set to it preempts those tasks.
\<close>

lemma async_prio_limit_preempts:
  assumes "an \<in> set ans" and "p \<in> fst ` set (sn_groups an)" and "p < 255"
  shows "unat p < unat (async_prio_limit ans)"
proof -
  let ?keys = "concat (map (\<lambda>sa. map fst (sn_groups sa)) ans)"
  have p: "p \<in> set ?keys" using assms(1,2) by auto
  then have "unat p \<le> unat (Max (set ?keys))" unfolding word_le_nat_alt [symmetric] by (intro Max_ge) simp_all
  moreover have "unat p < 255" using assms(3) by (simp add: word_less_nat_alt)
  ultimately show ?thesis using p unfolding async_prio_limit_eq Let_def by auto
qed


lemma async_prio_limit_preempts_witness:
  "unat (3 :: prio) < unat (async_prio_limit [\<lparr>sn_core = 0, sn_groups = [(3, [(''T'', 0, 1)]), (5, [(''U'', 0, 1)])],
     sn_dispatchers = [], an_prio_0 = []\<rparr>])"
  by (rule async_prio_limit_preempts) auto

end
