(* ===== verification/AsyncRuntime.thy ===== *)
theory AsyncRuntime
  imports Executor SwRuntime AsyncPass
begin

text \<open>
  The code that the async pass generates for one priority group, as it runs: the dispatcher of a group and the idle
  executor of priority 0 (\<open>codegen/mod.rs\<close>) over the queues of \<open>rticx-spsc\<close> and the executor slots of \<open>rticx-async\<close>.
  Spawns and wake-ups may happen between any two steps of the dispatcher; each of its steps is one access to a queue
  or one call on a slot.  A future is a state with a poll function, as for the slots: \<open>start t x\<close> is the future of task
  \<open>t\<close> on input \<open>x\<close> before its first poll, \<open>F t\<close> polls a future of \<open>t\<close>.
\<close>

section \<open>The generated code\<close>

text \<open>Where the dispatcher stands; in the poll statements with the tasks to be polled, in the second phase with the
  deferred tasks to be tried, and whether one has been installed.\<close>

datatype async_pc =
    AOff | AReady | AFetched ident | APolling "ident list" | ADrain "ident list" | ADeferred "ident list" bool

record (overloaded) ('i, 'f, 'w) async_rt =
  ar_tasks :: "ident list"
  ar_idle :: bool
  ar_ready :: "(ident, 'w) queue"
  ar_overflow :: "(ident, 'w) queue"
  ar_sum_capacity :: nat
  ar_inputs :: "ident \<rightharpoonup> ('i, 'w) queue"
  ar_slots :: "ident \<Rightarrow> 'f exec_slot"
  ar_initialized :: bool
  ar_pended :: bool
  ar_waking :: nat
  ar_spawner :: spawn_pc
  ar_dispatcher :: async_pc
  ar_results :: "('i option, unit) res list"
  ar_accepted :: "(ident \<times> 'i) list"
  ar_started :: "(ident \<times> 'i) list"
  ar_undefined :: bool

text \<open>The statics of a group and the slots of its tasks; \<open>idle\<close> for the idle executor.\<close>

definition async_group_new :: "bool \<Rightarrow> group_entry list \<Rightarrow> ('i, 'f, 'w::len) async_rt" where
  "async_group_new idle es = \<lparr>ar_tasks = map fst es, ar_idle = idle,
     ar_ready = queue_new (unat (async_ready_size es)), ar_overflow = queue_new (unat (async_ready_size es)),
     ar_sum_capacity = unat (async_ready_size es - 1),
     ar_inputs = map_of (map (\<lambda>(t, _, c). (t, queue_new (unat (c + 1)))) es), ar_slots = (\<lambda>_. slot_new),
     ar_initialized = False, ar_pended = False, ar_waking = 0, ar_spawner = SpIdle,
     ar_dispatcher = (if idle then AReady else AOff),
     ar_results = [], ar_accepted = [], ar_started = [], ar_undefined = False\<rparr>"

text \<open>The spawn functions are those of the software-task pass, from the same template.\<close>

definition async_spawn_input :: "bool \<Rightarrow> ident \<Rightarrow> 'i \<Rightarrow> ('i, 'w::len) queue \<Rightarrow> ('i, 'f, 'w) async_rt \<Rightarrow> ('i, 'f, 'w) async_rt" where
  "async_spawn_input core_ok t x q s =
     (if \<not> core_ok then s\<lparr>ar_results := ar_results s @ [Err (Some x)]\<rparr>
      else if \<not> ar_initialized s then s\<lparr>ar_results := ar_results s @ [Err (Some x)]\<rparr>
      else case enqueue q x of
          (q', Inl y) \<Rightarrow> s\<lparr>ar_results := ar_results s @ [Err (Some y)]\<rparr>
        | (q', Inr _) \<Rightarrow> s\<lparr>ar_inputs := (ar_inputs s)(t \<mapsto> q'), ar_spawner := SpReady t,
              ar_accepted := ar_accepted s @ [(t, x)]\<rparr>)"

definition async_spawn_ready :: "ident \<Rightarrow> ('i, 'f, 'w::len) async_rt \<Rightarrow> ('i, 'f, 'w) async_rt" where
  "async_spawn_ready t s = s\<lparr>ar_undefined := ar_undefined s \<or> snd (enqueue (ar_ready s) t) \<noteq> Ok (),
     ar_ready := enqueue_unchecked (ar_ready s) t, ar_spawner := SpPend t\<rparr>"

text \<open>A spawn of priority 0 has no pend statement.\<close>

definition async_spawn_pend :: "bool \<Rightarrow> ('i, 'f, 'w::len) async_rt \<Rightarrow> ('i, 'f, 'w) async_rt" where
  "async_spawn_pend ok s =
     (if ar_idle s then s\<lparr>ar_spawner := SpIdle, ar_results := ar_results s @ [Ok ()]\<rparr>
      else s\<lparr>ar_pended := ar_pended s \<or> ok, ar_spawner := SpIdle,
        ar_results := ar_results s @ [if ok then Ok () else Err None]\<rparr>)"

text \<open>The wake function of a task: the pending flag, then the pend call.\<close>

definition wake_set :: "ident \<Rightarrow> ('i, 'f, 'w::len) async_rt \<Rightarrow> ('i, 'f, 'w) async_rt" where
  "wake_set t s = s\<lparr>ar_slots := (ar_slots s)(t := set_pending (ar_slots s t)), ar_waking := Suc (ar_waking s)\<rparr>"

definition wake_pend :: "('i, 'f, 'w::len) async_rt \<Rightarrow> ('i, 'f, 'w) async_rt" where
  "wake_pend s = s\<lparr>ar_waking := ar_waking s - 1, ar_pended := ar_pended s \<or> \<not> ar_idle s\<rparr>"

text \<open>\<open>try_install\<close>: undefined are a read of an empty input queue and the write over a live future.\<close>

definition try_install :: "(ident \<Rightarrow> 'i \<Rightarrow> 'f) \<Rightarrow> ident \<Rightarrow> ('i, 'w::len) queue \<Rightarrow> ('i, 'f, 'w) async_rt \<Rightarrow> ('i, 'f, 'w) async_rt \<times> bool" where
  "try_install start t q s =
     (case try_allocate (ar_slots s t) of
        (sl, False) \<Rightarrow> (s\<lparr>ar_slots := (ar_slots s)(t := sl)\<rparr>, False)
      | (sl, True) \<Rightarrow>
          (case dequeue_unchecked q of
             (q', None) \<Rightarrow> (s\<lparr>ar_undefined := True\<rparr>, True)
           | (q', Some x) \<Rightarrow> (s\<lparr>ar_undefined := ar_undefined s \<or> snd (dequeue q) = None \<or> es_future sl \<noteq> None,
                 ar_inputs := (ar_inputs s)(t \<mapsto> q'), ar_slots := (ar_slots s)(t := spawn sl (start t x)),
                 ar_started := ar_started s @ [(t, x)]\<rparr>, True)))"

definition defer_spawn :: "ident \<Rightarrow> ('i, 'f, 'w::len) async_rt \<Rightarrow> ('i, 'f, 'w) async_rt" where
  "defer_spawn t s = s\<lparr>ar_undefined := ar_undefined s \<or> snd (enqueue (ar_overflow s) t) \<noteq> Ok (),
     ar_overflow := enqueue_unchecked (ar_overflow s) t\<rparr>"

text \<open>The first phase: a task from the ready queue, and its installation or deferral.\<close>

definition phase_a_fetch :: "('i, 'f, 'w::len) async_rt \<Rightarrow> ('i, 'f, 'w) async_rt" where
  "phase_a_fetch s =
     (case dequeue (ar_ready s) of
        (q, None) \<Rightarrow> s\<lparr>ar_dispatcher := APolling (ar_tasks s)\<rparr>
      | (q, Some None) \<Rightarrow> s\<lparr>ar_undefined := True\<rparr>
      | (q, Some (Some t)) \<Rightarrow> s\<lparr>ar_ready := q, ar_dispatcher := AFetched t\<rparr>)"

definition phase_a_install :: "(ident \<Rightarrow> 'i \<Rightarrow> 'f) \<Rightarrow> ident \<Rightarrow> ('i, 'w::len) queue \<Rightarrow> ('i, 'f, 'w) async_rt \<Rightarrow> ('i, 'f, 'w) async_rt" where
  "phase_a_install start t q s =
     (case try_install start t q s of
        (s1, True) \<Rightarrow> s1\<lparr>ar_dispatcher := AReady\<rparr>
      | (s1, False) \<Rightarrow> (defer_spawn t s1)\<lparr>ar_dispatcher := AReady\<rparr>)"

text \<open>A poll statement; a future that wakes itself while it is polled also pends the dispatcher.\<close>

definition poll_task :: "(ident \<Rightarrow> 'f fut) \<Rightarrow> ident \<Rightarrow> ident list \<Rightarrow> ('i, 'f, 'w::len) async_rt \<Rightarrow> ('i, 'f, 'w) async_rt" where
  "poll_task F t ts s =
     (case poll_slot (F t) (ar_slots s t) of
        (sl, _, e) \<Rightarrow> s\<lparr>ar_slots := (ar_slots s)(t := sl), ar_dispatcher := APolling ts,
          ar_pended := ar_pended s \<or> (\<not> ar_idle s \<and> (case e of Polled n \<Rightarrow> 0 < n | _ \<Rightarrow> False)),
          ar_undefined := ar_undefined s \<or> e = PolledUninit\<rparr>)"

text \<open>The second phase: the overflow queue goes into the array \<open>deferred\<close>, whose bound is checked.\<close>

definition phase_b_drain :: "ident list \<Rightarrow> ('i, 'f, 'w::len) async_rt \<Rightarrow> ('i, 'f, 'w) async_rt" where
  "phase_b_drain ds s =
     (case dequeue (ar_overflow s) of
        (q, None) \<Rightarrow> s\<lparr>ar_dispatcher := ADeferred ds False\<rparr>
      | (q, Some None) \<Rightarrow> s\<lparr>ar_undefined := True\<rparr>
      | (q, Some (Some t)) \<Rightarrow> s\<lparr>ar_overflow := q, ar_dispatcher := ADrain (ds @ [t]),
            ar_undefined := ar_undefined s \<or> length ds \<ge> ar_sum_capacity s\<rparr>)"

definition phase_b_install :: "(ident \<Rightarrow> 'i \<Rightarrow> 'f) \<Rightarrow> ident \<Rightarrow> ident list \<Rightarrow> bool \<Rightarrow> ('i, 'w::len) queue \<Rightarrow>
    ('i, 'f, 'w) async_rt \<Rightarrow> ('i, 'f, 'w) async_rt" where
  "phase_b_install start t ds installed q s =
     (case try_install start t q s of
        (s1, True) \<Rightarrow> s1\<lparr>ar_dispatcher := ADeferred ds True\<rparr>
      | (s1, False) \<Rightarrow> (defer_spawn t s1)\<lparr>ar_dispatcher := ADeferred ds installed\<rparr>)"

text \<open>The end of a run: the dispatcher pends itself after an installation, the idle executor starts over.\<close>

definition phase_b_end :: "bool \<Rightarrow> ('i, 'f, 'w::len) async_rt \<Rightarrow> ('i, 'f, 'w) async_rt" where
  "phase_b_end installed s =
     (if ar_idle s then s\<lparr>ar_dispatcher := AReady\<rparr>
      else s\<lparr>ar_dispatcher := AOff, ar_pended := ar_pended s \<or> installed\<rparr>)"

datatype 'i async_event = AvInit | AvSpawn bool ident 'i | AvReady | AvPend bool | AvWakeSet ident | AvWakePend | AvEnter | AvRun

text \<open>The next step of the dispatcher.\<close>

definition async_dispatch :: "(ident \<Rightarrow> 'i \<Rightarrow> 'f) \<Rightarrow> (ident \<Rightarrow> 'f fut) \<Rightarrow> ('i, 'f, 'w::len) async_rt \<Rightarrow> ('i, 'f, 'w) async_rt option" where
  "async_dispatch start F s =
     (case ar_dispatcher s of
        AOff \<Rightarrow> None
      | AReady \<Rightarrow> Some (phase_a_fetch s)
      | AFetched t \<Rightarrow> map_option (\<lambda>q. phase_a_install start t q s) (ar_inputs s t)
      | APolling [] \<Rightarrow> Some (s\<lparr>ar_dispatcher := ADrain []\<rparr>)
      | APolling (t # ts) \<Rightarrow> Some (poll_task F t ts s)
      | ADrain ds \<Rightarrow> Some (phase_b_drain ds s)
      | ADeferred [] installed \<Rightarrow> Some (phase_b_end installed s)
      | ADeferred (t # ds) installed \<Rightarrow> map_option (\<lambda>q. phase_b_install start t ds installed q s) (ar_inputs s t))"

fun async_step :: "(ident \<Rightarrow> 'i \<Rightarrow> 'f) \<Rightarrow> (ident \<Rightarrow> 'f fut) \<Rightarrow> 'i async_event \<Rightarrow> ('i, 'f, 'w::len) async_rt \<Rightarrow>
    ('i, 'f, 'w) async_rt option" where
  "async_step start F AvInit s = Some (s\<lparr>ar_initialized := True\<rparr>)"
| "async_step start F (AvSpawn core_ok t x) s =
     (case (ar_spawner s, ar_inputs s t) of
        (SpIdle, Some q) \<Rightarrow> Some (async_spawn_input core_ok t x q s)
      | _ \<Rightarrow> None)"
| "async_step start F AvReady s = (case ar_spawner s of SpReady t \<Rightarrow> Some (async_spawn_ready t s) | _ \<Rightarrow> None)"
| "async_step start F (AvPend ok) s = (case ar_spawner s of SpPend t \<Rightarrow> Some (async_spawn_pend ok s) | _ \<Rightarrow> None)"
| "async_step start F (AvWakeSet t) s = Some (wake_set t s)"
| "async_step start F AvWakePend s = (if 0 < ar_waking s then Some (wake_pend s) else None)"
| "async_step start F AvEnter s =
     (if ar_dispatcher s = AOff \<and> ar_pended s then Some (s\<lparr>ar_pended := False, ar_dispatcher := AReady\<rparr>) else None)"
| "async_step start F AvRun s = async_dispatch start F s"

fun async_run :: "(ident \<Rightarrow> 'i \<Rightarrow> 'f) \<Rightarrow> (ident \<Rightarrow> 'f fut) \<Rightarrow> 'i async_event list \<Rightarrow> ('i, 'f, 'w::len) async_rt \<Rightarrow>
    ('i, 'f, 'w) async_rt option" where
  "async_run start F [] s = Some s"
| "async_run start F (e # es) s = Option.bind (async_step start F e s) (async_run start F es)"


section \<open>The invariant\<close>

fun held :: "async_pc \<Rightarrow> ident list" where
  "held (AFetched t) = [t]"
| "held (ADrain ds) = ds"
| "held (ADeferred ds _) = ds"
| "held _ = []"

text \<open>The spawns under way, one entry for each input that waits in an input queue.\<close>

definition tickets :: "('i, 'f, 'w::len) async_rt \<Rightarrow> ident list" where
  "tickets s = held (ar_dispatcher s) @ contents (ar_overflow s) @ contents (ar_ready s) @ in_spawner (ar_spawner s)"

text \<open>\<open>k\<close> steps may still come.\<close>

definition input_ok :: "(ident \<Rightarrow> nat) \<Rightarrow> nat \<Rightarrow> ('i, 'f, 'w::len) async_rt \<Rightarrow> ident \<Rightarrow> ('i, 'w) queue \<Rightarrow> bool" where
  "input_ok cap k s t q \<longleftrightarrow> ring_inv k q \<and> capacity q = cap t \<and> length (contents q) = count_list (tickets s) t \<and>
     inputs_of t (ar_accepted s) = inputs_of t (ar_started s) @ contents q"

definition async_inv :: "(ident \<Rightarrow> nat) \<Rightarrow> nat \<Rightarrow> ('i, 'f, 'w::len) async_rt \<Rightarrow> bool" where
  "async_inv cap k s \<longleftrightarrow>
     distinct (ar_tasks s) \<and> dom (ar_inputs s) = set (ar_tasks s) \<and> set (tickets s) \<subseteq> set (ar_tasks s) \<and>
     (\<forall>t q. ar_inputs s t = Some q \<longrightarrow> input_ok cap k s t q) \<and>
     ring_inv k (ar_ready s) \<and> ring_inv k (ar_overflow s) \<and>
     capacity (ar_ready s) = sum_list (map cap (ar_tasks s)) \<and>
     capacity (ar_overflow s) = sum_list (map cap (ar_tasks s)) \<and>
     ar_sum_capacity s = sum_list (map cap (ar_tasks s)) \<and>
     (\<forall>t. slot_inv (ar_slots s t)) \<and> \<not> ar_undefined s"

lemma async_invD:
  assumes "async_inv cap k s"
  shows "distinct (ar_tasks s)" "dom (ar_inputs s) = set (ar_tasks s)" "set (tickets s) \<subseteq> set (ar_tasks s)"
    "ar_inputs s t = Some q \<Longrightarrow> input_ok cap k s t q"
    "ring_inv k (ar_ready s)" "ring_inv k (ar_overflow s)"
    "capacity (ar_ready s) = sum_list (map cap (ar_tasks s))" "capacity (ar_overflow s) = sum_list (map cap (ar_tasks s))"
    "ar_sum_capacity s = sum_list (map cap (ar_tasks s))" "slot_inv (ar_slots s t)" "\<not> ar_undefined s"
  using assms by (auto simp: async_inv_def)

lemma async_inv_weaken: "async_inv cap (Suc k) s \<Longrightarrow> async_inv cap k s"
  by (auto simp: async_inv_def input_ok_def ring_inv_antimono)

lemma tickets_bound:
  assumes "async_inv cap k s"
  shows "length (tickets s) \<le> sum_list (map cap (ar_tasks s))"
proof -
  note d = async_invD [OF assms]
  have "count_list (tickets s) t \<le> cap t" if "t \<in> set (ar_tasks s)" for t
  proof -
    from that d(2) have "t \<in> dom (ar_inputs s)" by simp
    then obtain q where "ar_inputs s t = Some q" by blast
    from d(4) [OF this] show ?thesis using ring.bounded [of k q] by (auto simp: input_ok_def)
  qed
  then have "(\<Sum>t \<in> set (ar_tasks s). count_list (tickets s) t) \<le> (\<Sum>t \<in> set (ar_tasks s). cap t)"
    by (rule sum_mono)
  moreover have "(\<Sum>t \<in> set (ar_tasks s). count_list (tickets s) t) = length (tickets s)"
    using d(3) by (intro sum_count_set) simp_all
  moreover have "(\<Sum>t \<in> set (ar_tasks s). cap t) = sum_list (map cap (ar_tasks s))"
    using d(1) by (simp add: sum_list_distinct_conv_sum_set)
  ultimately show ?thesis by simp
qed

text \<open>A step that keeps the inputs, the logs and the number of tickets of each task.\<close>

lemma async_inv_cong:
  assumes "async_inv cap k s"
    and "ar_tasks s' = ar_tasks s" "ar_inputs s' = ar_inputs s" "ar_sum_capacity s' = ar_sum_capacity s"
    and "ar_accepted s' = ar_accepted s" "ar_started s' = ar_started s"
    and "ring_inv k (ar_ready s')" "capacity (ar_ready s') = capacity (ar_ready s)"
    and "ring_inv k (ar_overflow s')" "capacity (ar_overflow s') = capacity (ar_overflow s)"
    and "\<not> ar_undefined s'" "mset (tickets s') = mset (tickets s)" "\<And>t. slot_inv (ar_slots s' t)"
  shows "async_inv cap k s'"
proof -
  have "count_list (tickets s') t = count_list (tickets s) t" for t
    using assms(12) by (metis count_mset)
  moreover have "set (tickets s') = set (tickets s)" using assms(12) by (metis set_mset_mset)
  ultimately show ?thesis using assms by (simp add: async_inv_def input_ok_def)
qed

lemma inv_async_spawn_input:
  assumes i: "async_inv cap (Suc k) s" and q: "ar_inputs s t = Some q" and sp: "ar_spawner s = SpIdle"
  shows "async_inv cap k (async_spawn_input b t x q s)"
proof -
  note w = async_inv_weaken [OF i]
  note d = async_invD [OF w]
  have tq: "ring_inv (Suc k) q" "capacity q = cap t" "length (contents q) = count_list (tickets s) t"
    "inputs_of t (ar_accepted s) = inputs_of t (ar_started s) @ contents q"
    using async_invD(4) [OF i q] by (simp_all add: input_ok_def)
  have t: "t \<in> set (ar_tasks s)" using d(2) q by blast
  have rej: "async_inv cap k (s\<lparr>ar_results := r\<rparr>)" for r
    by (rule async_inv_cong [OF w]) (use d in \<open>simp_all add: tickets_def\<close>)
  show ?thesis
  proof (cases "b \<and> ar_initialized s \<and> length (contents q) < capacity q")
    case False
    moreover have "enqueue q x = (q, Err x)" if "\<not> length (contents q) < capacity q"
      using ring.enq_full [OF tq(1)] ring.bounded [OF tq(1)] that by simp
    ultimately have "\<exists>r. async_spawn_input b t x q s = s\<lparr>ar_results := r\<rparr>"
      by (cases "b \<and> ar_initialized s") (auto simp: async_spawn_input_def)
    then show ?thesis using rej by auto
  next
    case True
    let ?q = "enqueue_unchecked q x"
    have e: "async_spawn_input b t x q s = s\<lparr>ar_inputs := (ar_inputs s)(t \<mapsto> ?q), ar_spawner := SpReady t,
        ar_accepted := ar_accepted s @ [(t, x)]\<rparr>"
      using True ring.enq_room [OF tq(1)] by (simp add: async_spawn_input_def)
    have n: "tickets (async_spawn_input b t x q s) = tickets s @ [t]" by (simp add: e tickets_def sp)
    have "input_ok cap k (async_spawn_input b t x q s) u p"
      if "ar_inputs (async_spawn_input b t x q s) u = Some p" for u p
    proof (cases "u = t")
      case True
      then have "p = ?q" using that by (simp add: e)
      moreover have "length (contents q) < capacity q" using \<open>b \<and> _\<close> by simp
      ultimately show ?thesis
        using True tq ring.enq_contents [OF tq(1)] ring.enq_inv [OF tq(1)] unfolding input_ok_def n
        by (simp add: e)
    next
      case False
      then have "ar_inputs s u = Some p" using that by (simp add: e)
      from d(4) [OF this] False show ?thesis unfolding input_ok_def n by (simp add: e)
    qed
    then show ?thesis using d t n unfolding async_inv_def by (auto simp: e)
  qed
qed

lemma inv_async_spawn_ready:
  assumes i: "async_inv cap (Suc k) s" and sp: "ar_spawner s = SpReady t"
  shows "async_inv cap k (async_spawn_ready t s)"
proof -
  note w = async_inv_weaken [OF i]
  note d = async_invD [OF i]
  have "length (contents (ar_ready s)) < length (tickets s)" by (simp add: tickets_def sp)
  with tickets_bound [OF i] d(7) have l: "length (contents (ar_ready s)) < capacity (ar_ready s)" by simp
  show ?thesis
    by (rule async_inv_cong [OF w])
      (use async_invD [OF w] sp ring.enq_room [OF d(5) l] ring.enq_contents [OF d(5) l] ring.enq_inv [OF d(5) l] in
        \<open>simp_all add: async_spawn_ready_def tickets_def\<close>)
qed

lemma inv_defer:
  assumes i: "async_inv cap (Suc k) s" and s': "s' = (defer_spawn t s)\<lparr>ar_dispatcher := pc\<rparr>"
    and h: "mset (held (ar_dispatcher s)) = add_mset t (mset (held pc))"
  shows "async_inv cap k s'"
proof -
  note w = async_inv_weaken [OF i]
  note d = async_invD [OF i]
  have "length (held (ar_dispatcher s)) = Suc (length (held pc))"
    using arg_cong [OF h, of size] by simp
  then have "length (contents (ar_overflow s)) < length (tickets s)" by (simp add: tickets_def)
  with tickets_bound [OF i] d(8) have l: "length (contents (ar_overflow s)) < capacity (ar_overflow s)" by simp
  show ?thesis
    unfolding s'
    by (rule async_inv_cong [OF w])
      (use async_invD [OF w] h ring.enq_room [OF d(6) l] ring.enq_contents [OF d(6) l] ring.enq_inv [OF d(6) l] in
        \<open>simp_all add: defer_spawn_def tickets_def\<close>)
qed

lemma try_install_cases:
  assumes i: "async_inv cap k s" and q: "ar_inputs s t = Some q" and h: "t \<in> set (held (ar_dispatcher s))"
  obtains (busy) "es_running (ar_slots s t)" "try_install start t q s = (s, False)"
  | (free) x ys where "\<not> es_running (ar_slots s t)" "contents q = x # ys"
      "try_install start t q s = (s\<lparr>ar_inputs := (ar_inputs s)(t \<mapsto> fst (dequeue_unchecked q)),
        ar_slots := (ar_slots s)(t := \<lparr>es_future = Some (start t x), es_running = True, es_pending = True\<rparr>),
        ar_started := ar_started s @ [(t, x)]\<rparr>, True)"
proof (cases "es_running (ar_slots s t)")
  case True
  then show ?thesis by (intro busy) (simp_all add: try_install_def try_allocate_def)
next
  case False
  have ok: "input_ok cap k s t q" using async_invD(4) [OF i q] .
  have "t \<in> set (tickets s)" using h by (simp add: tickets_def)
  then have "count_list (tickets s) t \<noteq> 0" by (simp add: count_list_0_iff)
  with ok obtain x ys where c: "contents q = x # ys" by (cases "contents q") (auto simp: input_ok_def)
  have r: "ring_inv k q" using ok by (simp add: input_ok_def)
  have v: "snd (dequeue q) = Some (Some x)" using ring.deq_some [OF r c] ring.deq_value [OF r c] by simp
  have f: "es_future (ar_slots s t) = None" using False async_invD(10) [OF i, of t] by (simp add: slot_inv_def)
  have sl: "spawn ((ar_slots s t)\<lparr>es_running := True\<rparr>) (start t x) =
      \<lparr>es_future = Some (start t x), es_running = True, es_pending = True\<rparr>"
    by (cases "ar_slots s t") (simp add: spawn_def set_pending_def)
  show ?thesis
    by (rule free [OF False c])
      (simp add: try_install_def try_allocate_def False f sl v case_prod_beta ring.deq_value [OF r c])
qed

lemma inv_installed:
  assumes i: "async_inv cap k s" and q: "ar_inputs s t = Some q" and c: "contents q = x # ys"
    and s': "s' = s\<lparr>ar_inputs := (ar_inputs s)(t \<mapsto> fst (dequeue_unchecked q)),
        ar_slots := (ar_slots s)(t := \<lparr>es_future = Some f, es_running = True, es_pending = True\<rparr>),
        ar_started := ar_started s @ [(t, x)], ar_dispatcher := pc\<rparr>"
    and h: "mset (held (ar_dispatcher s)) = add_mset t (mset (held pc))"
  shows "async_inv cap k s'"
proof -
  note d = async_invD [OF i]
  have m: "mset (tickets s) = add_mset t (mset (tickets s'))" using h by (simp add: tickets_def s')
  have n: "count_list (tickets s) u = (if u = t then Suc (count_list (tickets s') u) else count_list (tickets s') u)" for u
    using arg_cong [OF m, of "\<lambda>m. count m u"] by (auto simp: count_mset)
  have sub: "set (tickets s') \<subseteq> set (ar_tasks s)"
    using d(3) arg_cong [OF m, of set_mset] by auto
  have t: "t \<in> set (ar_tasks s)" using d(2) q by blast
  have ok: "ring_inv k q" "capacity q = cap t" "length (contents q) = count_list (tickets s) t"
      "inputs_of t (ar_accepted s) = inputs_of t (ar_started s) @ contents q"
    using d(4) [OF q] by (simp_all add: input_ok_def)
  have "input_ok cap k s' u p" if p: "ar_inputs s' u = Some p" for u p
  proof (cases "u = t")
    case True
    then have "p = fst (dequeue_unchecked q)" using p by (simp add: s')
    with True ok c show ?thesis
      using ring.deq_contents [OF ok(1) c] ring.deq_inv [OF ok(1) c] n [of t] unfolding input_ok_def by (simp add: s')
  next
    case False
    then have "ar_inputs s u = Some p" using p by (simp add: s')
    from d(4) [OF this] False show ?thesis using n [of u] unfolding input_ok_def by (simp add: s')
  qed
  then show ?thesis using d sub t unfolding async_inv_def by (auto simp: s' slot_inv_def)
qed


lemma phase_a_fetch_eq:
  assumes "async_inv cap k s"
  shows "phase_a_fetch s = (case contents (ar_ready s) of
      [] \<Rightarrow> s\<lparr>ar_dispatcher := APolling (ar_tasks s)\<rparr>
    | t # _ \<Rightarrow> s\<lparr>ar_ready := fst (dequeue_unchecked (ar_ready s)), ar_dispatcher := AFetched t\<rparr>)"
proof -
  note r = async_invD(5) [OF assms]
  show ?thesis
    using ring.deq_empty [OF r] ring.deq_some [OF r] ring.deq_value [OF r]
    by (cases "contents (ar_ready s)") (simp_all add: phase_a_fetch_def)
qed

lemma phase_b_drain_eq:
  assumes i: "async_inv cap k s" and d: "ar_dispatcher s = ADrain ds"
  shows "phase_b_drain ds s = (case contents (ar_overflow s) of
      [] \<Rightarrow> s\<lparr>ar_dispatcher := ADeferred ds False\<rparr>
    | t # _ \<Rightarrow> s\<lparr>ar_overflow := fst (dequeue_unchecked (ar_overflow s)), ar_dispatcher := ADrain (ds @ [t])\<rparr>)"
proof (cases "contents (ar_overflow s)")
  case Nil
  with ring.deq_empty [OF async_invD(6) [OF i]] show ?thesis by (simp add: phase_b_drain_def)
next
  case (Cons t c)
  note r = async_invD(6) [OF i]
  have "length ds < length (tickets s)" using d Cons by (simp add: tickets_def)
  then have "\<not> ar_sum_capacity s \<le> length ds" using tickets_bound [OF i] async_invD(9) [OF i] by simp
  with Cons ring.deq_some [OF r Cons] ring.deq_value [OF r Cons] async_invD(11) [OF i] show ?thesis
    by (simp add: phase_b_drain_def)
qed

lemma inv_async_dispatch:
  assumes i: "async_inv cap (Suc k) s" and e: "async_dispatch start F s = Some s'"
  shows "async_inv cap k s'"
proof (cases "ar_dispatcher s")
  case AOff
  with e show ?thesis by (simp add: async_dispatch_def)
next
  case AReady
  note w = async_inv_weaken [OF i]
  note d = async_invD [OF w]
  from AReady e have s': "s' = phase_a_fetch s" by (simp add: async_dispatch_def)
  show ?thesis
    unfolding s' phase_a_fetch_eq [OF w]
    using AReady ring.deq_contents [OF d(5)] ring.deq_inv [OF d(5)] d(5-11)
    by (cases "contents (ar_ready s)") (auto intro!: async_inv_cong [OF w] simp: tickets_def)
next
  case (AFetched t)
  with e obtain q where q: "ar_inputs s t = Some q" "s' = phase_a_install start t q s" by (auto simp: async_dispatch_def)
  have "t \<in> set (held (ar_dispatcher s))" using AFetched by simp
  from i q(1) this show ?thesis
  proof (cases rule: try_install_cases [where start = start])
    case busy
    then have "s' = (defer_spawn t s)\<lparr>ar_dispatcher := AReady\<rparr>" by (simp add: q(2) phase_a_install_def)
    then show ?thesis by (rule inv_defer [OF i]) (simp add: AFetched)
  next
    case (free x ys)
    then show ?thesis
      by (intro inv_installed [OF async_inv_weaken [OF i] q(1) free(2), where f = "start t x" and pc = AReady])
        (simp_all add: q(2) phase_a_install_def AFetched)
  qed
next
  case (APolling ts)
  note w = async_inv_weaken [OF i]
  note d = async_invD [OF w]
  show ?thesis
  proof (cases ts)
    case Nil
    with APolling e have "s' = s\<lparr>ar_dispatcher := ADrain []\<rparr>" by (simp add: async_dispatch_def)
    then show ?thesis using APolling d by (auto intro!: async_inv_cong [OF w] simp: tickets_def)
  next
    case (Cons t us)
    with APolling e have s': "s' = poll_task F t us s" by (simp add: async_dispatch_def)
    obtain sl b e where p: "poll_slot (F t) (ar_slots s t) = (sl, b, e)" by (rule prod_cases3)
    have "e \<noteq> PolledUninit"
      using d(10) [of t] p by (cases rule: poll_slot_cases [where F = "F t"]) auto
    then show ?thesis
      using APolling d slot_inv_poll [OF d(10) [of t], of "F t"] p
      by (intro async_inv_cong [OF w]) (simp_all add: s' poll_task_def tickets_def)
  qed
next
  case (ADrain ds)
  note w = async_inv_weaken [OF i]
  note d = async_invD [OF w]
  from ADrain e have s': "s' = phase_b_drain ds s" by (simp add: async_dispatch_def)
  show ?thesis
    unfolding s' phase_b_drain_eq [OF w ADrain]
    using ADrain ring.deq_contents [OF d(6)] ring.deq_inv [OF d(6)] d(5-11)
    by (cases "contents (ar_overflow s)") (auto intro!: async_inv_cong [OF w] simp: tickets_def)
next
  case (ADeferred ds b)
  show ?thesis
  proof (cases ds)
    case Nil
    note w = async_inv_weaken [OF i]
    note d = async_invD [OF w]
    from Nil ADeferred e have "s' = phase_b_end b s" by (simp add: async_dispatch_def)
    then show ?thesis using ADeferred Nil d
      by (intro async_inv_cong [OF w]) (simp_all add: phase_b_end_def tickets_def)
  next
    case (Cons t us)
    with ADeferred e obtain q where q: "ar_inputs s t = Some q" "s' = phase_b_install start t us b q s"
      by (auto simp: async_dispatch_def)
    have "t \<in> set (held (ar_dispatcher s))" using ADeferred Cons by simp
    from i q(1) this show ?thesis
    proof (cases rule: try_install_cases [where start = start])
      case busy
      then have "s' = (defer_spawn t s)\<lparr>ar_dispatcher := ADeferred us b\<rparr>" by (simp add: q(2) phase_b_install_def)
      then show ?thesis by (rule inv_defer [OF i]) (simp add: ADeferred Cons)
    next
      case (free x ys)
      then show ?thesis
        by (intro inv_installed [OF async_inv_weaken [OF i] q(1) free(2), where f = "start t x" and pc = "ADeferred us True"])
          (simp_all add: q(2) phase_b_install_def ADeferred Cons)
    qed
  qed
qed

lemma inv_async_step:
  assumes i: "async_inv cap (Suc k) s" and e: "async_step start F e s = Some s'"
  shows "async_inv cap k s'"
proof (cases e)
  case (AvSpawn b t x)
  then obtain q where "ar_spawner s = SpIdle" "ar_inputs s t = Some q" "s' = async_spawn_input b t x q s"
    using e by (auto split: spawn_pc.splits option.splits)
  then show ?thesis using inv_async_spawn_input [OF i] by simp
next
  case AvReady
  then obtain t where "ar_spawner s = SpReady t" "s' = async_spawn_ready t s" using e by (auto split: spawn_pc.splits)
  then show ?thesis using inv_async_spawn_ready [OF i] by simp
next
  case (AvPend ok)
  then obtain t where "ar_spawner s = SpPend t" "s' = async_spawn_pend ok s" using e by (auto split: spawn_pc.splits)
  then show ?thesis using async_invD [OF async_inv_weaken [OF i]]
    by (intro async_inv_cong [OF async_inv_weaken [OF i]]) (simp_all add: async_spawn_pend_def tickets_def)
next
  case AvRun
  then show ?thesis using e inv_async_dispatch [OF i] by simp
next
  case (AvWakeSet t)
  then have "s' = wake_set t s" using e by simp
  then show ?thesis using async_invD [OF async_inv_weaken [OF i]]
    by (intro async_inv_cong [OF async_inv_weaken [OF i]])
      (auto simp: wake_set_def tickets_def slot_inv_def set_pending_def)
qed (use e async_invD [OF async_inv_weaken [OF i]] in
    \<open>auto intro!: async_inv_cong [OF async_inv_weaken [OF i]] simp: wake_pend_def tickets_def split: if_splits\<close>)

lemma inv_async_run:
  "async_inv cap (length es + k) s \<Longrightarrow> async_run start F es s = Some s' \<Longrightarrow> async_inv cap k s'"
proof (induction es arbitrary: s)
  case (Cons e es)
  then obtain s1 where s1: "async_step start F e s = Some s1" "async_run start F es s1 = Some s'"
    by (auto simp: bind_eq_Some_conv)
  have "async_inv cap (length es + k) s1" using inv_async_step [OF _ s1(1)] Cons.prems(1) by simp
  then show ?case using Cons.IH s1(2) by blast
qed simp

lemma try_install_tasks [simp]:
  "ar_tasks (fst (try_install start t q s)) = ar_tasks s" "ar_idle (fst (try_install start t q s)) = ar_idle s"
  by (auto simp: try_install_def split: prod.split option.split bool.split)

lemma dispatch_tasks:
  "async_dispatch start F s = Some s' \<Longrightarrow> ar_tasks s' = ar_tasks s \<and> ar_idle s' = ar_idle s"
  using try_install_tasks [of start _ _ s]
  by (auto simp: async_dispatch_def phase_a_fetch_def phase_a_install_def poll_task_def phase_b_drain_def phase_b_install_def
      phase_b_end_def defer_spawn_def case_prod_beta split: async_pc.splits list.splits option.splits bool.splits if_splits)

lemma step_tasks: "async_step start F e s = Some s' \<Longrightarrow> ar_tasks s' = ar_tasks s \<and> ar_idle s' = ar_idle s"
  by (cases e) (auto simp: async_spawn_input_def async_spawn_ready_def async_spawn_pend_def wake_set_def wake_pend_def
      dispatch_tasks split: spawn_pc.splits option.splits if_splits prod.splits sum.splits)

lemma run_tasks: "async_run start F es s = Some s' \<Longrightarrow> ar_tasks s' = ar_tasks s \<and> ar_idle s' = ar_idle s"
proof (induction es arbitrary: s)
  case (Cons e es)
  then obtain s1 where s1: "async_step start F e s = Some s1" "async_run start F es s1 = Some s'"
    by (auto simp: bind_eq_Some_conv)
  from Cons.IH [OF s1(2)] step_tasks [OF s1(1)] show ?case by simp
qed simp

section \<open>From the start\<close>

lemma inv_async_new:
  assumes d: "distinct (map fst es)" and f: "sizes_fit TYPE('w::len) es" and k: "k < 2 ^ LENGTH('w)"
  shows "async_inv (cap_of es) k (async_group_new idle es :: ('i, 'f, 'w) async_rt)"
proof -
  have u: "unat (async_ready_size es) = total_cap es + 1" "unat (async_ready_size es - 1) = total_cap es"
    using f unat_sum_caps [of es] by (simp_all add: sizes_fit_def unat_plus_one async_ready_size_def)
  have i: "contents q = [] \<and> ring_inv k q \<and> capacity q = cap_of es t"
    if "map_of (map (\<lambda>(t, _, c). (t, queue_new (unat (c + 1)) :: ('i, 'w) queue)) es) t = Some q" for t q
    using inv_new [OF d f k, where 'i = 'i] that by (simp add: rt_inv_def group_new_def)
  have "fst ` set es = dom (map_of (map (\<lambda>(t, _, c). (t, queue_new (unat (c + 1)) :: ('i, 'w) queue)) es))"
    by (force simp: dom_map_of_conv_image_fst)
  then show ?thesis
    using i f k u total_cap_sum [OF d] d
    by (auto simp: async_inv_def input_ok_def tickets_def ring_inv_new async_group_new_def sizes_fit_def slot_inv_new
      split: if_splits)
qed

text \<open>A task whose future counts its input down and is never woken; the second spawn is deferred.\<close>

definition demo_start :: "ident \<Rightarrow> nat \<Rightarrow> nat" where
  "demo_start t x = x"

definition demo_poll :: "ident \<Rightarrow> nat fut" where
  "demo_poll t n = (if n = 0 then (0, Ready (), 0) else (n - 1, Pending, 0))"

definition demo_async_group :: "group_entry list" where
  "demo_async_group = [(''A'', 0, 2)]"

definition demo_async_events :: "nat async_event list" where
  "demo_async_events = [AvInit, AvSpawn True ''A'' 1, AvReady, AvPend True, AvEnter,
     AvRun, AvRun, AvRun, AvRun, AvRun, AvRun, AvRun, AvSpawn True ''A'' 5, AvReady, AvPend True, AvEnter,
     AvRun, AvRun, AvRun, AvRun, AvRun, AvRun, AvRun, AvRun, AvRun]"

lemma demo_async_run:
  "\<exists>s. async_run demo_start demo_poll demo_async_events (async_group_new False demo_async_group :: (nat, nat, 32) async_rt) = Some s \<and>
     ar_dispatcher s = AOff \<and> \<not> ar_pended s \<and> ar_waking s = 0 \<and> ar_spawner s = SpIdle \<and>
     ar_accepted s = [(''A'', 1), (''A'', 5)] \<and> ar_started s = [(''A'', 1)]"
  by (simp add: demo_async_events_def demo_async_group_def async_group_new_def async_spawn_input_def async_spawn_ready_def
    async_spawn_pend_def async_dispatch_def phase_a_fetch_def phase_a_install_def try_install_def defer_spawn_def
    poll_task_def phase_b_drain_def phase_b_install_def phase_b_end_def poll_slot_def try_allocate_def spawn_def
    set_pending_def is_running_def check_and_clear_pending_def slot_new_def demo_start_def demo_poll_def async_ready_size_def
    queue_new_def enqueue_def dequeue_def enqueue_unchecked_def dequeue_unchecked_def DEPTH_def Let_def)

lemma demo_async_ok:
  "distinct (map fst demo_async_group)" "sizes_fit TYPE(32) demo_async_group" "length demo_async_events < 2 ^ LENGTH(32)"
  "''A'' \<in> fst ` set demo_async_group"
  by (simp_all add: demo_async_group_def sizes_fit_def total_cap_def demo_async_events_def)

text \<open>
  (C32) However spawns, wake-ups and the dispatcher (or the idle executor) of a group of async tasks interleave,
  the generated code stays within the contracts of the unchecked operations: neither the ready nor the overflow
  queue nor the array of deferred spawns overflows, an installed spawn has an input, no future is written over a
  live one and no empty slot is polled.  The futures of a task are started in the order of its accepted spawns,
  one for each.
\<close>

theorem async_dispatch_sound:
  assumes "distinct (map fst es)" and "sizes_fit TYPE('w::len) es" and "length evs < 2 ^ LENGTH('w)"
    and "async_run start F evs (async_group_new idle es :: ('i, 'f, 'w) async_rt) = Some s" and "t \<in> fst ` set es"
  shows "\<not> ar_undefined s \<and> prefix (inputs_of t (ar_started s)) (inputs_of t (ar_accepted s)) \<and>
    length (inputs_of t (ar_accepted s)) \<le> length (inputs_of t (ar_started s)) + cap_of es t"
proof -
  have i: "async_inv (cap_of es) 0 s" using inv_async_run [OF _ assms(4), of "cap_of es" 0] inv_async_new [OF assms(1-3), where idle = idle]
    by simp
  have "ar_tasks s = map fst es" using run_tasks [OF assms(4)] by (simp add: async_group_new_def)
  with async_invD(2) [OF i] assms(5) have "t \<in> dom (ar_inputs s)" by simp
  then obtain q where "ar_inputs s t = Some q" by blast
  from async_invD(4,11) [OF i] this ring.bounded [of 0 q] show ?thesis by (auto simp: input_ok_def)
qed


lemma async_dispatch_sound_witness:
  "\<exists>s. async_run demo_start demo_poll demo_async_events (async_group_new False demo_async_group :: (nat, nat, 32) async_rt) = Some s \<and>
     \<not> ar_undefined s \<and> prefix (inputs_of ''A'' (ar_started s)) (inputs_of ''A'' (ar_accepted s))"
  using demo_async_run async_dispatch_sound [OF demo_async_ok(1-3) _ demo_async_ok(4), of demo_start demo_poll False]
  by blast

section \<open>Nothing is stuck\<close>

text \<open>Where the dispatcher is about to poll a slot whose future has been woken.\<close>

fun will_poll :: "async_pc \<Rightarrow> ident \<Rightarrow> bool" where
  "will_poll AReady t = True"
| "will_poll (AFetched _) t = True"
| "will_poll (APolling ts) t = (t \<in> set ts)"
| "will_poll (ADeferred _ installed) t = installed"
| "will_poll _ t = False"

text \<open>Where the ready queue will be drained, and where deferred spawns will be tried.\<close>

fun will_drain :: "async_pc \<Rightarrow> bool" where
  "will_drain AReady = True"
| "will_drain (AFetched _) = True"
| "will_drain _ = False"

fun will_try :: "async_pc \<Rightarrow> bool" where
  "will_try AOff = False"
| "will_try (ADeferred _ _) = False"
| "will_try _ = True"

definition alert :: "('i, 'f, 'w::len) async_rt \<Rightarrow> bool" where
  "alert s \<longleftrightarrow> \<not> ar_idle s \<and>
     (\<forall>t \<in> set (ar_tasks s). es_running (ar_slots s t) \<and> es_pending (ar_slots s t) \<longrightarrow>
        ar_pended s \<or> 0 < ar_waking s \<or> will_poll (ar_dispatcher s) t) \<and>
     (contents (ar_ready s) \<noteq> [] \<longrightarrow>
        ar_pended s \<or> (\<exists>t. ar_spawner s = SpPend t) \<or> will_drain (ar_dispatcher s)) \<and>
     (\<forall>t \<in> set (contents (ar_overflow s)). es_running (ar_slots s t) \<or> will_try (ar_dispatcher s))"

lemma alertI:
  assumes "\<not> ar_idle s"
    and "\<And>t. t \<in> set (ar_tasks s) \<Longrightarrow> es_running (ar_slots s t) \<Longrightarrow> es_pending (ar_slots s t) \<Longrightarrow>
      ar_pended s \<or> 0 < ar_waking s \<or> will_poll (ar_dispatcher s) t"
    and "contents (ar_ready s) \<noteq> [] \<Longrightarrow> ar_pended s \<or> (\<exists>t. ar_spawner s = SpPend t) \<or> will_drain (ar_dispatcher s)"
    and "\<And>t. t \<in> set (contents (ar_overflow s)) \<Longrightarrow> es_running (ar_slots s t) \<or> will_try (ar_dispatcher s)"
  shows "alert s"
  using assms by (simp add: alert_def)

lemma overflow_deferred:
  assumes "async_inv cap (Suc k) s" "t \<in> set (held (ar_dispatcher s))"
  shows "contents (enqueue_unchecked (ar_overflow s) t) = contents (ar_overflow s) @ [t]"
proof -
  note d = async_invD [OF assms(1)]
  have "held (ar_dispatcher s) \<noteq> []" using assms(2) by auto
  then have "length (contents (ar_overflow s)) < length (tickets s)" by (cases "held (ar_dispatcher s)") (simp_all add: tickets_def)
  with tickets_bound [OF assms(1)] d(8) have "length (contents (ar_overflow s)) < capacity (ar_overflow s)" by simp
  then show ?thesis by (rule ring.enq_contents [OF d(6)])
qed

lemma alert_dispatch:
  assumes i: "async_inv cap (Suc k) s" and a: "alert s" and e: "async_dispatch start F s = Some s'"
  shows "alert s'"
proof (cases "ar_dispatcher s")
  case AOff
  with e show ?thesis by (simp add: async_dispatch_def)
next
  case AReady
  then have "s' = phase_a_fetch s" using e by (simp add: async_dispatch_def)
  with a AReady show ?thesis
    unfolding phase_a_fetch_eq [OF i] by (cases "contents (ar_ready s)") (simp_all add: alert_def)
next
  case (AFetched t)
  with e obtain q where q: "ar_inputs s t = Some q" "s' = phase_a_install start t q s" by (auto simp: async_dispatch_def)
  have h: "t \<in> set (held (ar_dispatcher s))" using AFetched by simp
  from i q(1) h show ?thesis
  proof (cases rule: try_install_cases [where start = start])
    case busy
    with a AFetched overflow_deferred [OF i h] show ?thesis
      by (simp add: q(2) phase_a_install_def alert_def defer_spawn_def)
  next
    case (free x ys)
    with a AFetched show ?thesis by (simp add: q(2) phase_a_install_def alert_def)
  qed
next
  case (APolling ts)
  show ?thesis
  proof (cases ts)
    case Nil
    with APolling e have "s' = s\<lparr>ar_dispatcher := ADrain []\<rparr>" by (simp add: async_dispatch_def)
    with a APolling Nil show ?thesis by (simp add: alert_def)
  next
    case (Cons t us)
    with APolling e have s': "s' = poll_task F t us s" by (simp add: async_dispatch_def)
    from async_invD(10) [OF i, of t] show ?thesis
      by (cases rule: poll_slot_cases [where F = "F t"])
        (use a APolling Cons in \<open>auto simp: s' poll_task_def alert_def\<close>)
  qed
next
  case (ADrain ds)
  then have "s' = phase_b_drain ds s" using e by (simp add: async_dispatch_def)
  with a ADrain ring.deq_contents [OF async_invD(6) [OF i]] show ?thesis
    unfolding phase_b_drain_eq [OF i ADrain]
    by (cases "contents (ar_overflow s)") (simp_all add: alert_def)
next
  case (ADeferred ds b)
  show ?thesis
  proof (cases ds)
    case Nil
    with ADeferred e have "s' = phase_b_end b s" by (simp add: async_dispatch_def)
    with a ADeferred Nil show ?thesis by (auto simp: alert_def phase_b_end_def)
  next
    case (Cons t us)
    with ADeferred e obtain q where q: "ar_inputs s t = Some q" "s' = phase_b_install start t us b q s"
      by (auto simp: async_dispatch_def)
    have h: "t \<in> set (held (ar_dispatcher s))" using ADeferred Cons by simp
    from i q(1) h show ?thesis
    proof (cases rule: try_install_cases [where start = start])
      case busy
      with a ADeferred overflow_deferred [OF i h] show ?thesis
        by (auto simp: q(2) phase_b_install_def alert_def defer_spawn_def)
    next
      case (free x ys)
      with a ADeferred show ?thesis by (auto simp: q(2) phase_b_install_def alert_def)
    qed
  qed
qed

lemma alert_step:
  assumes i: "async_inv cap (Suc k) s" and a: "alert s" and e: "async_step start F e s = Some s'" "e \<noteq> AvPend False"
  shows "alert s'"
proof (cases e)
  case (AvSpawn b t x)
  then obtain q where "ar_spawner s = SpIdle" "s' = async_spawn_input b t x q s"
    using e(1) by (auto split: spawn_pc.splits option.splits)
  then show ?thesis using a by (auto simp: alert_def async_spawn_input_def split: sum.split prod.split)
next
  case AvRun
  then show ?thesis using e(1) alert_dispatch [OF i a] by simp
next
  case (AvWakeSet t)
  then show ?thesis using e(1) a by (auto simp: alert_def wake_set_def set_pending_def)
qed (use a e in \<open>auto simp: alert_def async_spawn_ready_def async_spawn_pend_def wake_pend_def
    split: spawn_pc.splits if_splits\<close>)

lemma alert_run:
  "async_inv cap (length es + k) s \<Longrightarrow> alert s \<Longrightarrow> AvPend False \<notin> set es \<Longrightarrow> async_run start F es s = Some s' \<Longrightarrow> alert s'"
proof (induction es arbitrary: s)
  case (Cons e es)
  then obtain s1 where s1: "async_step start F e s = Some s1" "async_run start F es s1 = Some s'"
    by (auto simp: bind_eq_Some_conv)
  have i: "async_inv cap (Suc (length es + k)) s" using Cons.prems(1) by simp
  have "async_inv cap (length es + k) s1" using inv_async_step [OF i s1(1)] .
  moreover have "alert s1" using alert_step [OF i Cons.prems(2) s1(1)] Cons.prems(3) by auto
  ultimately show ?case using Cons.IH Cons.prems(3) s1(2) by simp
qed simp

text \<open>
  (C33) Nothing is stuck: unless a cross-core pend fails, whenever the dispatcher of a group is neither running nor
  pended and no spawn and no wake-up is under way, no started future has an unserved wake-up, and every task with an
  accepted input that has not been started is still running its previous future, at whose end the input is started.
\<close>

theorem async_quiescent:
  assumes "distinct (map fst es)" and "sizes_fit TYPE('w::len) es" and "length evs < 2 ^ LENGTH('w)"
    and "async_run start F evs (async_group_new False es :: ('i, 'f, 'w) async_rt) = Some s"
    and "AvPend False \<notin> set evs" and "ar_dispatcher s = AOff" and "\<not> ar_pended s" and "ar_waking s = 0"
    and "ar_spawner s = SpIdle" and "t \<in> fst ` set es"
  shows "\<not> (es_running (ar_slots s t) \<and> es_pending (ar_slots s t)) \<and>
    (inputs_of t (ar_started s) \<noteq> inputs_of t (ar_accepted s) \<longrightarrow> es_running (ar_slots s t))"
proof -
  let ?s0 = "async_group_new False es :: ('i, 'f, 'w) async_rt"
  have n: "async_inv (cap_of es) (length evs + 0) ?s0" using inv_async_new [OF assms(1-3), where idle = False] by simp
  have "alert ?s0" by (simp add: alert_def async_group_new_def slot_new_def)
  with n have a: "alert s" using assms(5,4) by (rule alert_run)
  have i: "async_inv (cap_of es) 0 s" using inv_async_run [OF n assms(4)] .
  have ts: "ar_tasks s = map fst es" using run_tasks [OF assms(4)] by (simp add: async_group_new_def)
  have "t \<in> dom (ar_inputs s)" using async_invD(2) [OF i] assms(10) ts by simp
  then obtain q where q: "ar_inputs s t = Some q" by blast
  have ok: "length (contents q) = count_list (tickets s) t" "inputs_of t (ar_accepted s) = inputs_of t (ar_started s) @ contents q"
    using async_invD(4) [OF i q] by (simp_all add: input_ok_def)
  have tk: "tickets s = contents (ar_overflow s)" using a assms(6-9) by (auto simp: alert_def tickets_def)
  have "es_running (ar_slots s t)" if "contents q \<noteq> []"
  proof -
    have "length (contents q) \<noteq> 0" using that by (simp del: length_contents)
    then have "count_list (tickets s) t \<noteq> 0" using ok(1) by simp
    then have "t \<in> set (contents (ar_overflow s))" by (simp add: count_list_0_iff tk)
    then show ?thesis using a assms(6) by (auto simp: alert_def)
  qed
  moreover have "\<not> (es_running (ar_slots s t) \<and> es_pending (ar_slots s t))"
    using a assms(6-8,10) ts by (auto simp: alert_def)
  ultimately show ?thesis using ok(2) by auto
qed


lemma async_quiescent_witness:
  "\<exists>s. async_run demo_start demo_poll demo_async_events (async_group_new False demo_async_group :: (nat, nat, 32) async_rt) = Some s \<and>
     inputs_of ''A'' (ar_started s) \<noteq> inputs_of ''A'' (ar_accepted s) \<and> es_running (ar_slots s ''A'')"
proof -
  obtain s where s: "async_run demo_start demo_poll demo_async_events
      (async_group_new False demo_async_group :: (nat, nat, 32) async_rt) = Some s"
    "ar_dispatcher s = AOff" "\<not> ar_pended s" "ar_waking s = 0" "ar_spawner s = SpIdle"
    "ar_accepted s = [(''A'', 1), (''A'', 5)]" "ar_started s = [(''A'', 1)]" using demo_async_run by blast
  have "AvPend False \<notin> set demo_async_events" by (simp add: demo_async_events_def)
  from async_quiescent [OF demo_async_ok(1-3) s(1) this s(2-5) demo_async_ok(4)] s show ?thesis by auto
qed

end
