(* ===== verification/AsyncEnds.thy ===== *)
theory AsyncEnds
  imports AsyncRuntime
begin

text \<open>
  The dispatcher of a group of async tasks returns: its loops over the ready queue, the poll statements, the overflow
  queue and the deferred spawns (\<open>generate_dispatcher_tasks\<close> in \<open>rticx-async-pass/src/codegen/mod.rs\<close>) end after a
  number of steps that the queues and the number of tasks bound.  Spawns and wake-ups from contexts that preempt it only
  add to the queues between its steps, so the bound is about an activation that is not preempted.
\<close>

section \<open>A measure of the steps left\<close>

fun pc_left :: "nat \<Rightarrow> nat \<Rightarrow> nat \<Rightarrow> async_pc \<Rightarrow> nat" where
  "pc_left r v n AOff = 0"
| "pc_left r v n AReady = 4 * r + 2 * v + n + 5"
| "pc_left r v n (AFetched t) = 4 * r + 2 * v + n + 8"
| "pc_left r v n (APolling ts) = 2 * v + length ts + 4"
| "pc_left r v n (ADrain ds) = 2 * v + length ds + 3"
| "pc_left r v n (ADeferred ds b) = length ds + 1"

definition steps_left :: "('i, 'f, 'w::len) async_rt \<Rightarrow> nat" where
  "steps_left s = pc_left (length (contents (ar_ready s))) (length (contents (ar_overflow s))) (length (ar_tasks s)) (ar_dispatcher s)"

definition ready_drained :: "('i, 'f, 'w::len) async_rt \<Rightarrow> bool" where
  "ready_drained s \<longleftrightarrow> will_drain (ar_dispatcher s) \<or> contents (ar_ready s) = []"

lemma dispatch_decreases:
  assumes i: "async_inv cap (Suc k) s" and p: "ar_dispatcher s \<noteq> AOff" "\<not> ar_idle s"
  shows "\<exists>s'. async_dispatch start F s = Some s' \<and> steps_left s' < steps_left s \<and> (ready_drained s \<longrightarrow> ready_drained s')"
proof -
  have input: "\<exists>q. ar_inputs s t = Some q" if "t \<in> set (held (ar_dispatcher s))" for t
    using that async_invD(2,3) [OF i] by (fastforce simp: tickets_def)
  show ?thesis
  proof (cases "ar_dispatcher s")
    case AReady
    then show ?thesis using ring.deq_contents [OF async_invD(5) [OF i]]
      by (cases "contents (ar_ready s)")
        (simp_all add: async_dispatch_def phase_a_fetch_eq [OF i] steps_left_def ready_drained_def del: length_contents)
  next
    case (AFetched t)
    have h: "t \<in> set (held (ar_dispatcher s))" using AFetched by simp
    then obtain q where q: "ar_inputs s t = Some q" using input by blast
    from i q h show ?thesis
    proof (cases rule: try_install_cases [where start = start])
      case busy
      then show ?thesis using AFetched q overflow_deferred [OF i h]
        by (simp add: async_dispatch_def phase_a_install_def steps_left_def ready_drained_def defer_spawn_def del: length_contents)
    next
      case (free x ys)
      then show ?thesis using AFetched q
        by (simp add: async_dispatch_def phase_a_install_def steps_left_def ready_drained_def del: length_contents)
    qed
  next
    case (APolling ts)
    then show ?thesis
      by (cases ts) (auto simp: async_dispatch_def poll_task_def steps_left_def ready_drained_def split: prod.split)
  next
    case (ADrain ds)
    then show ?thesis using ring.deq_contents [OF async_invD(6) [OF i]]
      by (cases "contents (ar_overflow s)")
        (simp_all add: async_dispatch_def phase_b_drain_eq [OF i ADrain] steps_left_def ready_drained_def del: length_contents)
  next
    case (ADeferred ds b)
    show ?thesis
    proof (cases ds)
      case Nil
      then show ?thesis using ADeferred p(2)
        by (simp add: async_dispatch_def phase_b_end_def steps_left_def ready_drained_def)
    next
      case (Cons t us)
      have h: "t \<in> set (held (ar_dispatcher s))" using ADeferred Cons by simp
      then obtain q where q: "ar_inputs s t = Some q" using input by blast
      from i q h show ?thesis
      proof (cases rule: try_install_cases [where start = start])
        case busy
        then show ?thesis using ADeferred Cons q
          by (simp add: async_dispatch_def phase_b_install_def steps_left_def ready_drained_def defer_spawn_def)
      next
        case (free x ys)
        then show ?thesis using ADeferred Cons q
          by (simp add: async_dispatch_def phase_b_install_def steps_left_def ready_drained_def)
      qed
    qed
  qed (use p in simp)
qed

lemma dispatch_returns:
  assumes "async_inv cap k s" and "steps_left s \<le> k" and "\<not> ar_idle s" and "ready_drained s"
  shows "\<exists>n \<le> steps_left s. \<exists>s'. async_run start F (replicate n AvRun) s = Some s' \<and> ar_dispatcher s' = AOff \<and> contents (ar_ready s') = []"
  using assms
proof (induction k arbitrary: s)
  case 0
  then have "ar_dispatcher s = AOff" by (cases "ar_dispatcher s") (simp_all add: steps_left_def)
  then show ?case using 0(4) by (intro exI [of _ 0]) (simp add: ready_drained_def)
next
  case (Suc k)
  show ?case
  proof (cases "ar_dispatcher s = AOff")
    case True
    then show ?thesis using Suc.prems(4) by (intro exI [of _ 0]) (simp add: ready_drained_def)
  next
    case False
    then obtain s1 where s1: "async_dispatch start F s = Some s1" "steps_left s1 < steps_left s" "ready_drained s1"
      using dispatch_decreases [OF Suc.prems(1) _ Suc.prems(3), of start F] Suc.prems(4) by blast
    have "\<exists>n \<le> steps_left s1. \<exists>s'. async_run start F (replicate n AvRun) s1 = Some s' \<and> ar_dispatcher s' = AOff \<and> contents (ar_ready s') = []"
      using inv_async_dispatch [OF Suc.prems(1) s1(1)] Suc.prems(2,3) s1 dispatch_tasks [OF s1(1)] by (intro Suc.IH) simp_all
    then obtain n s' where n: "n \<le> steps_left s1" "async_run start F (replicate n AvRun) s1 = Some s'" "ar_dispatcher s' = AOff"
        "contents (ar_ready s') = []" by blast
    then have "async_run start F (replicate (Suc n) AvRun) s = Some s'" using s1(1) by simp
    with n s1(2) show ?thesis by (intro exI [of _ "Suc n"] conjI exI [of _ s']) simp_all
  qed
qed

lemma steps_left_tickets:
  "ar_dispatcher s = AReady \<Longrightarrow> steps_left s \<le> 4 * length (tickets s) + length (ar_tasks s) + 5"
  by (simp add: steps_left_def tickets_def del: length_contents)

lemma async_run_append:
  "async_run start F (xs @ ys) z = Option.bind (async_run start F xs z) (async_run start F ys)"
  by (induction xs arbitrary: z) (auto split: Option.bind_split)

text \<open>
  (C34) The dispatcher returns: whatever has happened to a group before, once the dispatcher starts (at the head of the
  loop over the ready queue) and is not preempted, it ends within 4 steps for every unit of capacity of the group's tasks,
  one for every task and 5 more, and leaves the ready queue empty.  It never needs a step that the code cannot take.
\<close>

theorem async_dispatcher_returns:
  assumes "distinct (map fst es)" and "sizes_fit TYPE('w::len) es"
    and "async_run start F evs (async_group_new False es :: ('i, 'f, 'w) async_rt) = Some s" and "ar_dispatcher s = AReady"
    and "length evs + 4 * total_cap es + length es + 5 < 2 ^ LENGTH('w)"
  shows "\<exists>n \<le> 4 * total_cap es + length es + 5. \<exists>s'. async_run start F (evs @ replicate n AvRun)
      (async_group_new False es :: ('i, 'f, 'w) async_rt) = Some s' \<and>
    ar_dispatcher s' = AOff \<and> contents (ar_ready s') = []"
proof -
  let ?b = "4 * total_cap es + length es + 5"
  have n: "async_inv (cap_of es) (length evs + ?b) (async_group_new False es :: ('i, 'f, 'w) async_rt)"
    using assms(1,2,5) by (intro inv_async_new) simp_all
  have i: "async_inv (cap_of es) ?b s" by (rule inv_async_run [OF n assms(3)])
  have t: "ar_tasks s = map fst es" "\<not> ar_idle s" using run_tasks [OF assms(3)] by (simp_all add: async_group_new_def)
  have "steps_left s \<le> ?b"
    using steps_left_tickets [OF assms(4)] tickets_bound [OF i] total_cap_sum [OF assms(1)] by (simp add: t(1))
  then obtain k s' where k: "k \<le> steps_left s" "async_run start F (replicate k AvRun) s = Some s'" "ar_dispatcher s' = AOff"
      "contents (ar_ready s') = []"
    using dispatch_returns [OF i _ t(2), of start F] assms(4) by (auto simp: ready_drained_def)
  show ?thesis
    using k \<open>steps_left s \<le> ?b\<close> assms(3) by (intro exI [of _ k] conjI exI [of _ s']) (simp_all add: async_run_append)
qed

text \<open>A spawn, and the activation that it pends.\<close>

definition demo_enter :: "nat async_event list" where
  "demo_enter = [AvInit, AvSpawn True ''A'' 1, AvReady, AvPend True, AvEnter]"

lemma demo_enter_run:
  "\<exists>s. async_run demo_start demo_poll demo_enter (async_group_new False demo_async_group :: (nat, nat, 32) async_rt) = Some s \<and>
     ar_dispatcher s = AReady"
  by (simp add: demo_enter_def demo_async_group_def async_group_new_def async_spawn_input_def async_spawn_ready_def
    async_spawn_pend_def async_ready_size_def queue_new_def enqueue_def enqueue_unchecked_def DEPTH_def Let_def)

lemma async_dispatcher_returns_witness:
  "\<exists>n \<le> 14. \<exists>s'. async_run demo_start demo_poll (demo_enter @ replicate n AvRun)
       (async_group_new False demo_async_group :: (nat, nat, 32) async_rt) = Some s' \<and>
     ar_dispatcher s' = AOff \<and> contents (ar_ready s') = []"
proof -
  obtain s where s: "async_run demo_start demo_poll demo_enter (async_group_new False demo_async_group :: (nat, nat, 32) async_rt) = Some s"
    "ar_dispatcher s = AReady" using demo_enter_run by blast
  have b: "4 * total_cap demo_async_group + length demo_async_group + 5 = 14" by (simp add: total_cap_def demo_async_group_def)
  from async_dispatcher_returns [OF demo_async_ok(1,2) s, unfolded b] show ?thesis by (simp add: demo_enter_def b)
qed

end
