(* ===== verification/Compose.thy ===== *)
theory Compose
  imports SwProps CoreAnalysis
begin

text \<open>
  Two passes in a row: what the software-task pass writes into the module is what the core pass reads.  The structs of the
  dispatchers (\<open>generate_dispatcher_tasks\<close> in \<open>rticx-sw-pass/src/codegen/mod.rs\<close>) become hardware tasks of the core pass, bound
  to their interrupts with the priority of their group, and the structs of the software tasks become tasks of the same core.
\<close>

section \<open>A task struct through the core parser\<close>

lemma rcollect_image: "rcollect f xs = Ok ys \<Longrightarrow> x \<in> set xs \<Longrightarrow> \<exists>y \<in> set ys. f x = Ok y"
  by (induction xs arbitrary: ys) auto

lemma app_parse_struct:
  assumes "app_parse ts m = Ok a" and "mod_content m = Some items" and "IStruct s \<in> set items"
    and "is_struct_with_attr s ''task'' = Some i"
  shows "\<exists>t. task_args_parse (st_attrs s ! i) = Ok (rt_args t) \<and> task_name t = st_ident s \<and>
    (\<forall>sa \<in> set (sub_apps a). sa_core sa = ta_core (rt_args t) \<longrightarrow> t \<in> set (sa_tasks sa))"
proof -
  obtain tasks impls where p: "rcollect (task_of impls) (List.map_filter task_item items) = Ok tasks"
    "map sa_core (sub_apps a) = core_list (aa_cores (app_args a))"
    "\<And>sa. sa \<in> set (sub_apps a) \<Longrightarrow> sa_tasks sa = filter (\<lambda>t. ta_core (rt_args t) = sa_core sa) tasks"
    using assms(1,2) by (rule app_parse_tasks) blast
  have "(s, i) \<in> set (List.map_filter task_item items)"
    using assms(3,4) by (force simp: List.map_filter_def task_item_def)
  then obtain t where t: "t \<in> set tasks" "task_of impls (s, i) = Ok t"
    using rcollect_image [OF p(1)] by blast
  from t(2) have r: "task_args_parse (st_attrs s ! i) = Ok (rt_args t)" "task_name t = st_ident s"
    by (auto simp: task_of_def task_name_def)
  show ?thesis
    by (rule exI [of _ t]) (use r t(1) p(3) in simp)
qed

lemma dispatcher_struct:
  "is_struct_with_attr \<lparr>st_attrs = dispatcher_attrs irq p c, st_ident = n, st_fields = []\<rparr> ''task'' = Some 1"
  by (simp add: is_struct_with_attr_def dispatcher_attrs_def names_attr_def ident_path_def)

lemma dispatcher_args:
  assumes "task_args_parse (dispatcher_attrs irq p c ! 1) = Ok r"
  shows "ta_priority r = p \<and> ta_core r = c \<and> ta_generated r \<and> (\<exists>i. expr_ident (EPath False irq) = Some i \<and> ta_binds r = Some i)"
proof -
  have "from_meta (dispatcher_attrs irq p c ! 1) = Ok \<lparr>attr_name = ''task'', elements =
      [(''binds'', EPath False irq), (''priority'', EInt (unat p)), (''core'', EInt (unat c)), (''init'', ident_expr ''generated'')]\<rparr>"
    by (simp add: dispatcher_attrs_def from_meta_list insert_arg_def)
  with assms have "task_args_spec \<lparr>attr_name = ''task'', elements =
      [(''binds'', EPath False irq), (''priority'', EInt (unat p)), (''core'', EInt (unat c)), (''init'', ident_expr ''generated'')]\<rparr> r"
    by (auto simp: task_args_parse_spec)
  then show ?thesis
    by (auto simp: task_args_spec_def int_arg_def ident_arg_def get_expr_def word_unat_eq_iff split: if_splits)
qed

lemma task_struct:
  "attr_name at = ''task'' \<Longrightarrow> is_struct_with_attr (s\<lparr>st_attrs := attr_tokens at # as\<rparr>) ''task'' = Some 0"
  by (simp add: is_struct_with_attr_def attr_tokens_def names_attr_def ident_path_def)

section \<open>The cores agree\<close>

lemma app_args_cores:
  "app_args_parse ts = Ok args \<Longrightarrow> \<exists>at. parse_from_tokens ts ''app'' = Ok at \<and> int_arg ''cores'' at 1 (aa_cores args)"
  unfolding int_arg_iff by (auto simp: app_args_parse_def case_prod_beta Let_def)

lemma rbind_OkE: "rbind r f = Ok y \<Longrightarrow> (\<And>x. r = Ok x \<Longrightarrow> f x = Ok y \<Longrightarrow> P) \<Longrightarrow> P"
  by auto

lemma app_parameters_Ok: "Ok \<lparr>ap_dispatchers = d, ap_pacs = p, ap_cores = c\<rparr> = Ok ps \<Longrightarrow> ap_cores ps = c"
  by auto

lemma app_parameters_cores:
  assumes "app_parameters_parse ts = Ok ps"
  shows "\<exists>at. parse_from_tokens ts ''app'' = Ok at \<and> int_arg ''cores'' at 1 (ap_cores ps)"
proof -
  note defs = assms [unfolded app_parameters_parse_def Let_def case_prod_beta]
  from defs obtain at and c :: "core option" where a: "parse_from_tokens ts ''app'' = Ok at" "snd (take_int ''cores'' at) = Ok c"
    by (elim rbind_OkE) (rule that)
  from defs have "ap_cores ps = (case c of None \<Rightarrow> 1 | Some n \<Rightarrow> n)"
    unfolding a rbind.simps
    apply (split if_split_asm)
     apply simp
    apply (elim conjE rbind_OkE)
    apply (split if_split_asm)
     apply simp
    apply (erule app_parameters_Ok)
    done
  with a show ?thesis unfolding int_arg_iff by blast
qed

lemma args_without_dispatchers:
  assumes "parse_from_tokens ts ''app'' = Ok at"
    and "parse_from_tokens (args_tokens (at\<lparr>elements := AList.delete ''dispatchers'' (elements at)\<rparr>)) ''app'' = Ok bt"
  shows "get_expr ''cores'' bt = get_expr ''cores'' at"
proof -
  let ?a = "at\<lparr>elements := AList.delete ''dispatchers'' (elements at)\<rparr>"
  have w: "attr_wf ?a" "attr_name at = ''app''"
    using parse_from_tokens_wf [OF assms(1)] by (simp_all add: attr_wf_def distinct_delete)
  obtain b where "from_meta (attr_tokens ?a) = Ok b" "\<forall>k. get_expr k b = get_expr k ?a"
    using from_meta_attr_tokens [OF w(1)] by blast
  with assms(2) w(2) show ?thesis by (simp add: from_meta_def attr_tokens_def get_expr_def map_of_delete)
qed

lemma cores_agree:
  assumes "app_parameters_parse ts = Ok ps" and "parse_from_tokens ts ''app'' = Ok at"
    and "app_args_parse (args_tokens (at\<lparr>elements := AList.delete ''dispatchers'' (elements at)\<rparr>)) = Ok args"
  shows "aa_cores args = ap_cores ps"
proof -
  obtain bt where b: "parse_from_tokens (args_tokens (at\<lparr>elements := AList.delete ''dispatchers'' (elements at)\<rparr>)) ''app'' = Ok bt"
    "int_arg ''cores'' bt 1 (aa_cores args)" using app_args_cores [OF assms(3)] by blast
  have "int_arg ''cores'' at 1 (ap_cores ps)" using app_parameters_cores [OF assms(1)] assms(2) by auto
  moreover have "int_arg ''cores'' at 1 (aa_cores args)"
    using b(2) args_without_dispatchers [OF assms(2) b(1)] by (simp add: int_arg_def)
  ultimately show ?thesis by (metis int_arg_unique)
qed

section \<open>The tasks as they were declared\<close>

definition declared :: "ident \<Rightarrow> software_task \<Rightarrow> bool" where
  "declared tr t \<longleftrightarrow> (\<exists>at. attr_wf at \<and> task_params_from_attr at = Ok (sw_params t) \<and> sw_attr t = into_task_attr at tr)"

lemma sw_take_declared:
  assumes "sw_take_task cores s si = Ok s'" and "\<forall>t \<in> set (snd s). declared SWT_TRAIT_TY t"
  shows "\<forall>t \<in> set (snd s'). declared SWT_TRAIT_TY t"
proof -
  obtain impls tasks strct i where e: "s = (impls, tasks)" "si = (strct, i)" by (cases s, cases si) blast
  obtain at ps im where p: "from_meta (st_attrs strct ! i) = Ok at" "task_params_from_attr at = Ok ps"
      "snd s' = tasks @ [\<lparr>sw_params = ps, sw_attr = into_task_attr at SWT_TRAIT_TY,
         sw_struct = strct\<lparr>st_attrs := remove_nth i (st_attrs strct)\<rparr>, sw_impl = im\<rparr>]"
    using assms(1) by (auto simp: sw_take_task_def e Let_def split: if_splits)
  from p(1,2) have "declared SWT_TRAIT_TY \<lparr>sw_params = ps, sw_attr = into_task_attr at SWT_TRAIT_TY,
         sw_struct = strct\<lparr>st_attrs := remove_nth i (st_attrs strct)\<rparr>, sw_impl = im\<rparr>"
    by (auto simp: declared_def dest: from_meta_wf)
  with assms(2) p(3) show ?thesis by (simp add: e(1))
qed

lemma sw_parsed:
  assumes "sw_app_parse oa args m = Ok parsed"
  shows "app_parameters_parse args = Ok (sx_params parsed)"
    and "map ss_core (sx_sub_apps parsed) = core_list (ap_cores (sx_params parsed))"
    and "sa \<in> set (sx_sub_apps parsed) \<Longrightarrow> t \<in> set (ss_tasks sa @ ss_mc_tasks sa) \<Longrightarrow>
      tp_core (sw_params t) = ss_core sa \<and> declared SWT_TRAIT_TY t"
proof -
  from assms [unfolded sw_app_parse_def Let_def] obtain ps and c :: sw_collected and r where q: "app_parameters_parse args = Ok ps"
      "rfold (sw_take_task (ap_cores ps)) (sc_impls c, []) (sc_structs c) = Ok r"
      "(case r of (impls, tasks) \<Rightarrow> Ok \<lparr>sx_ident = mod_ident m, sx_params = ps,
         sx_sub_apps = map (sw_sub_app_of ps tasks) (core_list (ap_cores ps)),
         sx_rest = sc_rest c @ map (IImpl \<circ> snd) impls\<rparr>) = (Ok parsed :: sw_app result)"
    by (elim rbind_OkE) (rule that)
  obtain impls tasks where "r = (impls, tasks)" by (cases r)
  note p = q(1) q(2) [unfolded this] q(3) [unfolded this]
  show "app_parameters_parse args = Ok (sx_params parsed)" using p(1,3) by auto
  show "map ss_core (sx_sub_apps parsed) = core_list (ap_cores (sx_params parsed))"
    using p(3) by (auto simp: sw_sub_app_of_def comp_def)
  have "\<forall>t \<in> set (snd (impls, tasks)). declared SWT_TRAIT_TY t"
    by (rule rfold_invariant [OF p(2), where P = "\<lambda>s. \<forall>t \<in> set (snd s). declared SWT_TRAIT_TY t"])
      (simp, rule sw_take_declared)
  then show "sa \<in> set (sx_sub_apps parsed) \<Longrightarrow> t \<in> set (ss_tasks sa @ ss_mc_tasks sa) \<Longrightarrow>
      tp_core (sw_params t) = ss_core sa \<and> declared SWT_TRAIT_TY t"
    using p(3) by (auto simp: sw_sub_app_of_def on_core_def)
qed

lemma sw_analysed:
  assumes "sw_analysis_run parsed = Ok ans" and "(sa, an) \<in> set (zip (sx_sub_apps parsed) ans)"
  shows "analyse_subapp sa = Ok an" and "sn_core an = ss_core sa"
proof -
  show "analyse_subapp sa = Ok an" using assms by (auto simp: sw_analysis_run_def rcollect_Inr_iff list_all2_iff)
  then show "sn_core an = ss_core sa" by (simp add: analyse_subapp_iff)
qed

section \<open>The core pass reads the dispatchers and the tasks\<close>

definition dispatcher_of :: "naming \<Rightarrow> 'a sw_sub_analysis_scheme \<Rightarrow> prio \<Rightarrow> rtic_task \<Rightarrow> bool" where
  "dispatcher_of N an p d \<longleftrightarrow> task_name d = dispatcher_ident N p (sn_core an) \<and> ta_priority (rt_args d) = p \<and>
     ta_generated (rt_args d) \<and>
     (\<exists>irq. expr_ident (EPath False (the (map_of (sn_dispatchers an) p))) = Some irq \<and> ta_binds (rt_args d) = Some irq)"

text \<open>The sub-application of a core that the pass has parsed.\<close>

lemma sub_app_of_core:
  assumes "app_parameters_parse args = Ok ps" and "parse_from_tokens args ''app'' = Ok attr"
    and "app_parse (args_tokens (attr\<lparr>elements := AList.delete ''dispatchers'' (elements attr)\<rparr>)) m' = Ok a"
    and "mod_content m' = Some items" and "c \<in> set (core_list (ap_cores ps))"
  shows "\<exists>s \<in> set (sub_apps a). sa_core s = c"
proof -
  have "app_args_parse (args_tokens (attr\<lparr>elements := AList.delete ''dispatchers'' (elements attr)\<rparr>)) = Ok (app_args a)"
    using assms(3) by (elim app_parse_Inr) simp
  then have "aa_cores (app_args a) = ap_cores ps" using cores_agree [OF assms(1,2)] by simp
  moreover have "map sa_core (sub_apps a) = core_list (aa_cores (app_args a))"
    using assms(3,4) by (rule app_parse_tasks) blast
  ultimately have "c \<in> set (map sa_core (sub_apps a))" using assms(5) by simp
  then show ?thesis by auto
qed

lemma dispatcher_reaches_core:
  assumes "app_parse ts m = Ok a" and "mod_content m = Some items" and "s \<in> set (sub_apps a)"
    and "IStruct \<lparr>st_attrs = dispatcher_attrs irq q (sa_core s), st_ident = n, st_fields = []\<rparr> \<in> set items"
  shows "\<exists>d \<in> set (sa_tasks s). task_name d = n \<and> ta_priority (rt_args d) = q \<and> ta_generated (rt_args d) \<and>
    (\<exists>i. expr_ident (EPath False irq) = Some i \<and> ta_binds (rt_args d) = Some i) \<and>
    \<lparr>ui_name = the (ta_binds (rt_args d)), ui_priority = q\<rparr> \<in> set (used_irqs (sub_analysis_run s))"
proof -
  from app_parse_struct [OF assms(1,2,4) dispatcher_struct] obtain d where
    d: "task_args_parse (dispatcher_attrs irq q (sa_core s) ! 1) = Ok (rt_args d)" "task_name d = n"
      "sa_core s = ta_core (rt_args d) \<longrightarrow> d \<in> set (sa_tasks s)" using assms(3) by auto
  note r = dispatcher_args [OF d(1)]
  have m: "d \<in> set (sa_tasks s)" using d(3) r by simp
  moreover from m r have "\<lparr>ui_name = the (ta_binds (rt_args d)), ui_priority = q\<rparr> \<in> set (used_irqs (sub_analysis_run s))"
    by (force simp: sub_analysis_run_def List.map_filter_def)
  ultimately show ?thesis using d(2) r by blast
qed

lemma task_reaches_core:
  assumes "app_parse ts m = Ok a" and "mod_content m = Some items" and "s \<in> set (sub_apps a)"
    and "attr_wf at" and "task_params_from_attr at = Ok ps" and "tp_core ps = sa_core s"
    and "IStruct (st\<lparr>st_attrs := attr_tokens (into_task_attr at tr) # as\<rparr>) \<in> set items"
  shows "\<exists>u \<in> set (sa_tasks s). task_name u = st_ident st \<and> ta_trait (rt_args u) = tr \<and>
    (ta_priority (rt_args u) = tp_priority ps \<or> tp_priority ps = 0 \<and> ta_priority (rt_args u) = 1)"
proof -
  have "is_struct_with_attr (st\<lparr>st_attrs := attr_tokens (into_task_attr at tr) # as\<rparr>) ''task'' = Some 0"
    by (rule task_struct) (simp add: into_task_attr_def)
  then obtain u where u: "task_args_parse (attr_tokens (into_task_attr at tr)) = Ok (rt_args u)" "task_name u = st_ident st"
      "sa_core s = ta_core (rt_args u) \<longrightarrow> u \<in> set (sa_tasks s)"
    using app_parse_struct [OF assms(1,2,7)] assms(3) by auto
  from rewritten_attr_args [OF assms(4,5) u(1)] u assms(6) show ?thesis by (auto split: if_splits)
qed

text \<open>
  (C23) What the software-task pass hands to the core pass, when both succeed: for every core there is the sub-application of
  this core; for every priority group of the analysis it has the group's dispatcher, a hardware task bound to the interrupt
  that the analysis gave the group, with the priority of the group, which is then among the used interrupts of the
  sub-application with this priority; and every software task of the core is a task of it, with the software-task
  trait, and with its priority if one is written.
\<close>

theorem sw_tasks_reach_core:
  assumes "sw_run_pass N pr oa B args m = Ok (has, parsed, ans, args', m')" and "app_parse args' m' = Ok a"
    and "(sa, an) \<in> set (zip (sx_sub_apps parsed) ans)"
  shows "\<exists>s \<in> set (sub_apps a). sa_core s = ss_core sa \<and>
    (\<forall>p \<in> fst ` set (sn_groups an). \<exists>d \<in> set (sa_tasks s). dispatcher_of N an p d \<and>
       \<lparr>ui_name = the (ta_binds (rt_args d)), ui_priority = p\<rparr> \<in> set (used_irqs (sub_analysis_run s))) \<and>
    (\<forall>t \<in> set (ss_tasks sa @ ss_mc_tasks sa). \<exists>u \<in> set (sa_tasks s). task_name u = sw_name t \<and>
       ta_trait (rt_args u) = SWT_TRAIT_TY \<and>
       (ta_priority (rt_args u) = tp_priority (sw_params t) \<or> tp_priority (sw_params t) = 0 \<and> ta_priority (rt_args u) = 1))"
proof -
  obtain attr where p: "sw_app_parse oa args m = Ok parsed" "sw_analysis_run parsed = Ok ans"
      "parse_from_tokens args ''app'' = Ok attr" "args' = args_tokens (attr\<lparr>elements := AList.delete ''dispatchers'' (elements attr)\<rparr>)"
      "mod_content m' = Some (sx_rest parsed @ map (to_item pr) (sw_codegen N B parsed ans))"
    using assms(1) by (auto simp: sw_run_pass_def Let_def split: if_splits)
  let ?items = "sx_rest parsed @ map (to_item pr) (sw_codegen N B parsed ans)"
  note an = sw_analysed [OF p(2) assms(3)]
  have sa: "sa \<in> set (sx_sub_apps parsed)" using assms(3) by (rule set_zip_leftD)
  then have "ss_core sa \<in> set (core_list (ap_cores (sx_params parsed)))"
    unfolding sw_parsed(2) [OF p(1), symmetric] by simp
  from sub_app_of_core [OF sw_parsed(1) [OF p(1)] p(3) assms(2) [unfolded p(4)] p(5) this]
  obtain s where s: "s \<in> set (sub_apps a)" "sa_core s = ss_core sa" by blast
  have item: "to_item pr g \<in> set ?items" if "g \<in> set (generate_subapp N B parsed (sa, an))" for g
    using that assms(3) by (force simp: sw_codegen_def)
  have "\<exists>d \<in> set (sa_tasks s). dispatcher_of N an q d \<and>
       \<lparr>ui_name = the (ta_binds (rt_args d)), ui_priority = q\<rparr> \<in> set (used_irqs (sub_analysis_run s))"
    if q: "q \<in> fst ` set (sn_groups an)" for q
  proof -
    obtain es where es: "(q, es) \<in> set (sn_groups an)" using q by auto
    let ?st = "\<lparr>st_attrs = dispatcher_attrs (the (map_of (sn_dispatchers an) q)) q (sa_core s),
      st_ident = dispatcher_ident N q (sn_core an), st_fields = []\<rparr>"
    have "SwStruct ?st \<in> set (gen_dispatcher N an (q, es))" by (simp add: gen_dispatcher_def Let_def s(2) an(2))
    then have "SwStruct ?st \<in> set (generate_subapp N B parsed (sa, an))"
      using es by (force simp: generate_subapp_def generate_dispatcher_tasks_def)
    from item [OF this] have "IStruct ?st \<in> set ?items" by simp
    from dispatcher_reaches_core [OF assms(2) p(5) s(1) this] show ?thesis by (auto simp: dispatcher_of_def)
  qed
  moreover have "\<exists>u \<in> set (sa_tasks s). task_name u = sw_name t \<and> ta_trait (rt_args u) = SWT_TRAIT_TY \<and>
       (ta_priority (rt_args u) = tp_priority (sw_params t) \<or> tp_priority (sw_params t) = 0 \<and> ta_priority (rt_args u) = 1)"
    if t: "t \<in> set (ss_tasks sa @ ss_mc_tasks sa)" for t
  proof -
    obtain at where at: "attr_wf at" "task_params_from_attr at = Ok (sw_params t)" "sw_attr t = into_task_attr at SWT_TRAIT_TY"
      and c: "tp_core (sw_params t) = sa_core s"
      using sw_parsed(3) [OF p(1) sa t] s(2) unfolding declared_def by auto
    have "SwStruct ((sw_struct t)\<lparr>st_attrs := attr_tokens (sw_attr t) # st_attrs (sw_struct t)\<rparr>) \<in>
        set (generate_subapp N B parsed (sa, an))"
      using t by (auto simp: generate_subapp_def gen_sw_task_def)
    from item [OF this] have "IStruct ((sw_struct t)\<lparr>st_attrs := attr_tokens (into_task_attr at SWT_TRAIT_TY) # st_attrs (sw_struct t)\<rparr>) \<in> set ?items"
      by (simp add: at(3))
    from task_reaches_core [OF assms(2) p(5) s(1) at(1,2) c this] show ?thesis by (simp add: sw_name_def)
  qed
  ultimately show ?thesis using s by blast
qed

text \<open>A module with a software task of priority 2, through both passes.\<close>

definition demo_two_args :: arg_tokens where
  "demo_two_args = Some [(ident_path ''device'', Some (ident_expr ''pac'')),
     (ident_path ''dispatchers'', Some (EArray [ident_expr ''I0'']))]"

definition demo_two_mod :: item_mod where
  "demo_two_mod = \<lparr>mod_ident = ''app'', mod_content = Some
     [IFn \<lparr>fn_attrs = [attr_of ''init'' []], fn_ident = ''init'', fn_body = ''...''\<rparr>,
      IStruct \<lparr>st_attrs = [attr_of ''sw_task'' [(''priority'', EInt 2)]], st_ident = ''B'', st_fields = []\<rparr>]\<rparr>"

definition demo_two_backend :: sw_backend where
  "demo_two_backend = \<lparr>sb_queue_path = ident_path ''Queue'', sb_local_pend = (\<lambda>_ _. []), sb_cross_pend = (\<lambda>_ _. None),
     sb_interrupt_path = (\<lambda>_. None), sb_current_core_id = None\<rparr>"

lemma demo_two_passes:
  "case sw_run_pass N (\<lambda>_. []) (\<lambda>_. None) demo_two_backend demo_two_args demo_two_mod of
     Inl e \<Rightarrow> False
   | Inr (has, parsed, ans, args', m') \<Rightarrow> is_ok (app_parse args' m') \<and>
       (\<exists>sa an. zip (sx_sub_apps parsed) ans = [(sa, an)] \<and> map fst (sn_groups an) = [2] \<and>
          sn_dispatchers an = [(2, ident_path ''I0'')])"
  by (simp add: sw_run_pass_def sw_app_parse_def app_parameters_parse_def demo_two_args_def parse_from_tokens_def insert_arg_def take_int_def
      take_expr_def ident_expr_def parse_dispatchers_def insert_dispatcher_def dispatcher_path_def get_expr_def ident_path_def demo_two_mod_def
      sw_collect_def sw_collect_item_def find_sw_task_attr_def attr_of_def get_ident_def item_attrs_def sw_take_task_def
      take_impl_for_def from_meta_def task_params_from_attr_def parse_attr_int_def remove_nth_def sw_sub_app_of_def core_list_def
      is_local_def on_core_def Let_def sw_analysis_run_def analyse_subapp_def group_by_priority_def
      sw_name_def check_disjoint_priorities_def check_uniform_spawn_by_def group_extend_def assign_dispatchers_def
      args_tokens_def attr_tokens_def into_task_attr_def sw_codegen_def generate_subapp_def gen_sw_task_def generate_spawn_api_def
      generate_dispatcher_tasks_def gen_dispatcher_def dispatcher_attrs_def generate_local_pend_fns_def generate_cross_pend_fns_def
      sw_cores_def demo_two_backend_def map_filter_Nil demo_app_simps insert_shared_def expr_ident_def SWT_TRAIT_TY_def HWT_TRAIT_TY_def
      DEFAULT_TASK_PRIORITY_def capture_trait_impl_def last_ident_def impls_of_def impl_trait_str_def)

lemma sw_tasks_reach_core_witness:
  "\<forall>N. \<exists>has parsed ans args' m' a. sw_run_pass N (\<lambda>_. []) (\<lambda>_. None) demo_two_backend demo_two_args demo_two_mod =
       Ok (has, parsed, ans, args', m') \<and> app_parse args' m' = Ok a \<and>
     (\<exists>s \<in> set (sub_apps a). \<exists>d \<in> set (sa_tasks s). ta_priority (rt_args d) = 2 \<and> ta_binds (rt_args d) = Some ''I0'')"
proof
  fix N
  obtain has parsed ans args' m' where r:
    "sw_run_pass N (\<lambda>_. []) (\<lambda>_. None) demo_two_backend demo_two_args demo_two_mod = Ok (has, parsed, ans, args', m')"
    "is_ok (app_parse args' m')" and z: "\<exists>sa an. zip (sx_sub_apps parsed) ans = [(sa, an)] \<and> map fst (sn_groups an) = [2] \<and>
          sn_dispatchers an = [(2, ident_path ''I0'')]"
    using demo_two_passes [of N] by (auto split: sum.splits prod.splits)
  obtain a where a: "app_parse args' m' = Ok a" using r(2) by (auto simp: is_ok_iff)
  obtain sa an where g: "zip (sx_sub_apps parsed) ans = [(sa, an)]" "map fst (sn_groups an) = [2]"
      "sn_dispatchers an = [(2, ident_path ''I0'')]" using z by (elim exE conjE) (rule that)
  have "(2 :: prio) \<in> set (map fst (sn_groups an))" unfolding g(2) by simp
  then have "2 \<in> fst ` set (sn_groups an)" by simp
  moreover have "(sa, an) \<in> set (zip (sx_sub_apps parsed) ans)" by (simp add: g(1))
  ultimately obtain s d where d: "s \<in> set (sub_apps a)" "d \<in> set (sa_tasks s)" "dispatcher_of N an 2 d"
    using sw_tasks_reach_core [OF r(1) a] by blast
  then have "ta_priority (rt_args d) = 2" "ta_binds (rt_args d) = Some ''I0''"
    by (simp_all add: dispatcher_of_def g(3) expr_ident_def ident_path_def)
  with r(1) a d(1,2) show "\<exists>has parsed ans args' m' a. sw_run_pass N (\<lambda>_. []) (\<lambda>_. None) demo_two_backend demo_two_args demo_two_mod =
       Ok (has, parsed, ans, args', m') \<and> app_parse args' m' = Ok a \<and>
     (\<exists>s \<in> set (sub_apps a). \<exists>d \<in> set (sa_tasks s). ta_priority (rt_args d) = 2 \<and> ta_binds (rt_args d) = Some ''I0'')"
    by blast
qed

end
