(* ===== verification/AsyncSlots.thy ===== *)
theory AsyncSlots
  imports AsyncPass Executor
begin

text \<open>
  The executor slots of a generated application: the pointer statics \<open>ExecSlotPtr\<close> and \<open>recover_slot\<close> of
  \<open>rticx-async/src/executor.rs\<close>, the statements that \<open>push_slot_inits\<close> puts at the start of a core's entry function, and
  the places of the generated code that recover a slot.  The wiring of the generated items from the spawn function of a
  task to the dispatcher that polls it is here too.
\<close>

section \<open>Slots in memory\<close>

text \<open>
  A slot lives in the local variable of an entry function.  Its type \<open>ExecSlot<F>\<close> is given by the function whose future
  it holds, the witness; \<open>so_alive\<close> says that the variable is still in scope.  An address is a position of the list.
\<close>

record 'f slot_object =
  so_witness :: ident
  so_slot :: "'f exec_slot"
  so_alive :: bool

record 'f slot_memory =
  sm_objects :: "'f slot_object list"
  sm_ptrs :: "ident \<Rightarrow> nat option"

text \<open>\<open>ExecSlotPtr::new\<close> is the null pointer.\<close>

definition slot_ptr_new :: "nat option" where
  "slot_ptr_new = None"

definition slot_ptr_store :: "ident \<Rightarrow> nat \<Rightarrow> 'f slot_memory \<Rightarrow> 'f slot_memory" where
  "slot_ptr_store ptr a m = m\<lparr>sm_ptrs := (sm_ptrs m)(ptr := Some a)\<rparr>"

definition new_from_witness :: "ident \<Rightarrow> 'f slot_object" where
  "new_from_witness w = \<lparr>so_witness = w, so_slot = slot_new, so_alive = True\<rparr>"

definition memory_new :: "'f slot_memory" where
  "memory_new = \<lparr>sm_objects = [], sm_ptrs = (\<lambda>_. slot_ptr_new)\<rparr>"

text \<open>What \<open>recover_slot\<close> finds behind a pointer; only the last one is a reference that may be used.\<close>

datatype recovered = Null_pointer | Wrong_future nat | Dangling nat | Recovered nat

definition recover_slot :: "ident \<Rightarrow> ident \<Rightarrow> 'f slot_memory \<Rightarrow> recovered" where
  "recover_slot witness ptr m =
     (case sm_ptrs m ptr of
        None \<Rightarrow> Null_pointer
      | Some a \<Rightarrow>
          let s = sm_objects m ! a
          in if so_witness s \<noteq> witness then Wrong_future a
             else if \<not> so_alive s then Dangling a
             else Recovered a)"

text \<open>The two statements for a slot: \<open>let __s = ...\<close> and the store of its address.\<close>

definition let_and_store :: "ident \<times> ident \<Rightarrow> 'f slot_memory \<Rightarrow> 'f slot_memory" where
  "let_and_store x m =
     slot_ptr_store (fst x) (length (sm_objects m)) (m\<lparr>sm_objects := sm_objects m @ [new_from_witness (snd x)]\<rparr>)"

text \<open>A block ends the life of the variables that it declared.\<close>

definition in_block :: "('f slot_memory \<Rightarrow> 'f slot_memory) \<Rightarrow> 'f slot_memory \<Rightarrow> 'f slot_memory" where
  "in_block f m =
     (let m' = f m; n = length (sm_objects m)
      in m'\<lparr>sm_objects := take n (sm_objects m') @ map (so_alive_update (\<lambda>_. False)) (drop n (sm_objects m'))\<rparr>)"

text \<open>\<open>push_slot_inits\<close> wraps the two statements in a block of their own.\<close>

definition slot_init :: "ident \<times> ident \<Rightarrow> 'f slot_memory \<Rightarrow> 'f slot_memory" where
  "slot_init x = in_block (let_and_store x)"

text \<open>The uses of \<open>recover_slot\<close> in the generated items: witness and pointer.\<close>

fun recover_sites :: "async_gen \<Rightarrow> (ident \<times> ident) list" where
  "recover_sites (AgWake f w p pend) = [(w, p)]"
| "recover_sites (AgInstall f ty arms) = map (\<lambda>a. (ia_wrapper a, ia_ptr a)) arms"
| "recover_sites (AgDispatcher ty rq oq inst ps n pend) = map (\<lambda>p. (pl_wrapper p, pl_ptr p)) ps"
| "recover_sites (AgIdle ty rq oq inst ps n) = map (\<lambda>p. (pl_wrapper p, pl_ptr p)) ps"
| "recover_sites g = []"

definition slot_of :: "ident \<Rightarrow> ident \<times> ident" where
  "slot_of t = (exec_ptr_ident t, async_wrapper_ident t)"

lemma slot_of_inject: "exec_ptr_ident t = exec_ptr_ident u \<longleftrightarrow> t = u" "async_wrapper_ident t = async_wrapper_ident u \<longleftrightarrow> t = u"
  by (simp_all add: exec_ptr_ident_def async_wrapper_ident_def)

section \<open>What the entry functions leave behind\<close>

text \<open>After the statements for the tasks \<open>ts\<close>, the pointer of each holds an address whose object was made for it.\<close>

definition stored :: "nat \<Rightarrow> bool \<Rightarrow> ident list \<Rightarrow> 'f slot_memory \<Rightarrow> bool" where
  "stored n alive ts m \<longleftrightarrow>
     (\<forall>t \<in> set ts. \<exists>a. sm_ptrs m (exec_ptr_ident t) = Some a \<and> n \<le> a \<and> a < length (sm_objects m) \<and>
        so_witness (sm_objects m ! a) = async_wrapper_ident t \<and> so_alive (sm_objects m ! a) = alive)"

lemma slot_init_eq:
  "slot_init x m = slot_ptr_store (fst x) (length (sm_objects m))
     (m\<lparr>sm_objects := sm_objects m @ [(new_from_witness (snd x))\<lparr>so_alive := False\<rparr>]\<rparr>)"
  by (simp add: slot_init_def in_block_def let_and_store_def slot_ptr_store_def Let_def)

lemma stored_step:
  assumes "stored n b ts m" and "n \<le> length (sm_objects m)"
  shows "stored n b (t # ts) (slot_ptr_store (exec_ptr_ident t) (length (sm_objects m))
      (m\<lparr>sm_objects := sm_objects m @ [\<lparr>so_witness = async_wrapper_ident t, so_slot = s, so_alive = b\<rparr>]\<rparr>))"
  using assms unfolding stored_def slot_ptr_store_def
  by (auto simp: slot_of_inject nth_append)

lemma stored_run:
  assumes step: "\<And>t m. F (slot_of t) m = slot_ptr_store (exec_ptr_ident t) (length (sm_objects m))
      (m\<lparr>sm_objects := sm_objects m @ [\<lparr>so_witness = async_wrapper_ident t, so_slot = s, so_alive = b\<rparr>]\<rparr>)"
  shows "stored (length (sm_objects m)) b ts (fold F (map slot_of ts) m)
    \<and> length (sm_objects m) \<le> length (sm_objects (fold F (map slot_of ts) m))"
proof (induction ts rule: rev_induct)
  case Nil
  then show ?case by (simp add: stored_def)
next
  case (snoc t ts)
  let ?m = "fold F (map slot_of ts) m"
  have "stored (length (sm_objects m)) b (t # ts) (F (slot_of t) ?m)"
    unfolding step by (rule stored_step) (use snoc in auto)
  moreover have "length (sm_objects m) \<le> length (sm_objects (F (slot_of t) ?m))"
    using snoc by (simp add: step slot_ptr_store_def)
  ultimately show ?case by (simp add: stored_def)
qed

lemma stored_recover:
  "stored n b ts m \<Longrightarrow> t \<in> set ts \<Longrightarrow>
     \<exists>a \<ge> n. sm_ptrs m (exec_ptr_ident t) = Some a \<and>
       recover_slot (async_wrapper_ident t) (exec_ptr_ident t) m = (if b then Recovered a else Dangling a)"
  by (force simp: stored_def recover_slot_def Let_def)

lemma recover_after_inits:
  assumes "t \<in> set ts"
  shows "\<exists>a. recover_slot (async_wrapper_ident t) (exec_ptr_ident t) (fold let_and_store (map slot_of ts) m) = Recovered a"
    and "\<exists>a. recover_slot (async_wrapper_ident t) (exec_ptr_ident t) (fold slot_init (map slot_of ts) m) = Dangling a"
proof -
  have "stored (length (sm_objects m)) True ts (fold let_and_store (map slot_of ts) m)"
    by (rule stored_run [THEN conjunct1]) (simp add: let_and_store_def slot_of_def new_from_witness_def)
  from stored_recover [OF this assms] show "\<exists>a. recover_slot (async_wrapper_ident t) (exec_ptr_ident t)
      (fold let_and_store (map slot_of ts) m) = Recovered a" by auto
  have "stored (length (sm_objects m)) False ts (fold slot_init (map slot_of ts) m)"
    by (rule stored_run [THEN conjunct1]) (simp add: slot_init_eq slot_of_def new_from_witness_def)
  from stored_recover [OF this assms] show "\<exists>a. recover_slot (async_wrapper_ident t) (exec_ptr_ident t)
      (fold slot_init (map slot_of ts) m) = Dangling a" by auto
qed

section \<open>The groups of a core\<close>

abbreviation core_tasks :: "sw_sub_app \<Rightarrow> async_task list" where
  "core_tasks sa \<equiv> ss_tasks sa @ ss_mc_tasks sa"

lemma async_groupsE:
  assumes "async_analyse_subapp sa = Ok an"
  obtains "sn_core an = ss_core sa" "group_sorted (sn_groups an)"
    "\<And>p. map_of (sn_groups an) p = nonempty (all_groups (sa\<lparr>ss_tasks := filter (\<lambda>t. \<not> is_prio_0 t) (ss_tasks sa)\<rparr>) p)"
    "an_prio_0 an = map (entry_of (\<lambda>_. ss_core sa)) (filter is_prio_0 (ss_tasks sa))"
    "\<forall>t \<in> set (ss_mc_tasks sa). \<not> is_prio_0 t"
proof -
  let ?sa = "sa\<lparr>ss_tasks := filter (\<lambda>t. \<not> is_prio_0 t) (ss_tasks sa)\<rparr>"
  have f: "List.find is_prio_0 (ss_mc_tasks sa) = None"
    using assms by (simp add: async_analyse_eq split: option.splits)
  with assms obtain an' where a: "analyse_subapp ?sa = Ok an'"
    "an = \<lparr>sn_core = sn_core an', sn_groups = sn_groups an', sn_dispatchers = sn_dispatchers an',
            an_prio_0 = map (entry_of (\<lambda>_. ss_core sa)) (filter is_prio_0 (ss_tasks sa))\<rparr>"
    by (auto simp: async_analyse_eq)
  from f have "\<forall>t \<in> set (ss_mc_tasks sa). \<not> is_prio_0 t" by (simp add: find_None_iff)
  with a(1) show thesis by (intro that) (simp_all add: analyse_subapp_iff a(2))
qed

lemma group_names:
  assumes "async_analyse_subapp sa = Ok an" and "(p, es) \<in> set (sn_groups an)" and "e \<in> set es"
  shows "fst e \<in> sw_name ` set (core_tasks sa)"
  using assms(1)
proof (rule async_groupsE)
  assume g: "group_sorted (sn_groups an)"
    "\<And>p. map_of (sn_groups an) p = nonempty (all_groups (sa\<lparr>ss_tasks := filter (\<lambda>t. \<not> is_prio_0 t) (ss_tasks sa)\<rparr>) p)"
  have "map_of (sn_groups an) p = Some es" using assms(2) g(1) by (simp add: sorted_keys_distinct)
  then have "es = all_groups (sa\<lparr>ss_tasks := filter (\<lambda>t. \<not> is_prio_0 t) (ss_tasks sa)\<rparr>) p"
    by (simp add: g(2) nonempty_def split: if_splits)
  then show ?thesis using assms(3) by (auto simp: all_groups_def with_prio_def entry_of_def)
qed

lemma prio_0_names:
  "async_analyse_subapp sa = Ok an \<Longrightarrow> e \<in> set (an_prio_0 an) \<Longrightarrow> fst e \<in> sw_name ` set (core_tasks sa)"
  by (erule async_groupsE) (auto simp: entry_of_def)

text \<open>Every task has its entry: in the idle executor at priority 0, in the group of its priority otherwise.\<close>

lemma task_entry:
  assumes "async_analyse_subapp sa = Ok an" and "t \<in> set (core_tasks sa)"
  obtains (idle) "is_prio_0 t" "sw_name t \<in> fst ` set (an_prio_0 an)"
  | (group) es where "\<not> is_prio_0 t" "(tp_priority (sw_params t), es) \<in> set (sn_groups an)" "sw_name t \<in> fst ` set es"
  using assms(1)
proof (rule async_groupsE)
  let ?sa = "sa\<lparr>ss_tasks := filter (\<lambda>t. \<not> is_prio_0 t) (ss_tasks sa)\<rparr>" and ?p = "tp_priority (sw_params t)"
  assume g: "\<And>p. map_of (sn_groups an) p = nonempty (all_groups ?sa p)"
    "an_prio_0 an = map (entry_of (\<lambda>_. ss_core sa)) (filter is_prio_0 (ss_tasks sa))"
    "\<forall>t \<in> set (ss_mc_tasks sa). \<not> is_prio_0 t"
  show thesis
  proof (cases "is_prio_0 t")
    case True
    then have "t \<in> set (filter is_prio_0 (ss_tasks sa))" using assms(2) g(3) by auto
    then show ?thesis using idle True by (force simp: g(2) entry_of_def)
  next
    case False
    then have "sw_name t \<in> fst ` set (all_groups ?sa ?p)"
      using assms(2) by (force simp: all_groups_def with_prio_def entry_of_def)
    moreover from this have "map_of (sn_groups an) ?p = Some (all_groups ?sa ?p)" by (auto simp: g(1) nonempty_def)
    ultimately show ?thesis using group False by (meson map_of_SomeD)
  qed
qed

section \<open>The recover sites of the generated code\<close>

lemma async_task_items_sites: "g \<in> set (async_task_items N B an pac n t) \<Longrightarrow> recover_sites g = []"
  by (auto simp: async_task_items_def async_spawn_items_def split: option.splits if_splits)

lemma arm_sites:
  "map (\<lambda>a. (ia_wrapper a, ia_ptr a)) (install_arms N es) = map (prod.swap \<circ> slot_of \<circ> fst) es"
  "map (\<lambda>p. (pl_wrapper p, pl_ptr p)) (poll_stmts es) = map (prod.swap \<circ> slot_of \<circ> fst) es"
  by (auto simp: install_arms_def poll_stmts_def slot_of_def)

lemma dispatcher_sites:
  "g \<in> set (async_dispatcher N an n ty (p, es)) \<Longrightarrow> recover_sites g = [] \<or> recover_sites g = map (prod.swap \<circ> slot_of \<circ> fst) es"
  by (auto simp: async_dispatcher_def Let_def arm_sites)

lemma idle_sites:
  "g \<in> set (generate_idle_executor N es c) \<Longrightarrow> recover_sites g = [] \<or> recover_sites g = map (prod.swap \<circ> slot_of \<circ> fst) es"
  by (auto simp: generate_idle_executor_def Let_def arm_sites split: if_splits)

lemma entry_site:
  "recover_sites g = [] \<or> recover_sites g = map (prod.swap \<circ> slot_of \<circ> fst) es \<Longrightarrow> (w, q) \<in> set (recover_sites g) \<Longrightarrow>
     \<exists>e \<in> set es. (q, w) = slot_of (fst e)"
  by (force simp: slot_of_def)

lemma exec_sites:
  "(f, p, k) = generate_exec_static_and_wake N an n ty t \<Longrightarrow> g \<in> {f, p, k} \<Longrightarrow> (w, q) \<in> set (recover_sites g) \<Longrightarrow>
     (q, w) = slot_of (sw_name t)"
  by (auto simp: generate_exec_static_and_wake_def Let_def slot_of_def)

lemma subapp_sites:
  assumes "async_analyse_subapp sa = Ok an"
    and "g \<in> set (async_generate_subapp N B a (sa, an))" and "(w, q) \<in> set (recover_sites g)"
  shows "\<exists>t \<in> set (core_tasks sa). (q, w) = slot_of (sw_name t)"
proof -
  let ?pac = "ap_pacs (sx_params a) ! unat (ss_core sa)" and ?n = "length (sx_sub_apps a)"
  let ?ty = "async_interrupt_ty B ?pac (ss_core sa)"
  let ?x = "generate_exec_static_and_wake N an ?n ?ty"
  consider (items) t where "g \<in> set (async_task_items N B an ?pac ?n t)"
    | (exec) t where "t \<in> set (core_tasks sa)" "g \<in> {fst (?x t), fst (snd (?x t)), snd (snd (?x t))}"
    | (disp) p es where "(p, es) \<in> set (sn_groups an)" "g \<in> set (async_dispatcher N an ?n ?ty (p, es))"
    | (idle) "g \<in> set (generate_idle_executor N (an_prio_0 an) (sn_core an))"
    using assms(2) by (auto simp: async_generate_subapp_def async_dispatcher_tasks_def Let_def)
  then show ?thesis
  proof cases
    case items
    then show ?thesis using async_task_items_sites assms(3) by fastforce
  next
    case exec
    then show ?thesis using exec_sites [OF _ exec(2) assms(3)] by (metis prod.collapse)
  next
    case disp
    then show ?thesis using entry_site [OF dispatcher_sites [OF disp(2)] assms(3)] group_names [OF assms(1) disp(1)] by fastforce
  next
    case idle
    then show ?thesis using entry_site [OF idle_sites [OF idle] assms(3)] prio_0_names [OF assms(1)] by fastforce
  qed
qed

definition slot_tasks :: "sw_app \<Rightarrow> core \<Rightarrow> async_sub_analysis list \<Rightarrow> ident list" where
  "slot_tasks a c ans = concat (map (\<lambda>(sa, _). if ss_core sa = c then map sw_name (core_tasks sa) else []) (zip (sx_sub_apps a) ans))"

lemma push_slot_inits_eq: "push_slot_inits a ans c = map slot_of (slot_tasks a c ans)"
  unfolding push_slot_inits_def slot_tasks_def map_concat map_map
  by (rule arg_cong [where f = concat]) (auto simp: slot_of_def)

lemma analysed_member:
  "async_analysis_run a = Ok ans \<Longrightarrow> (sa, an) \<in> set (zip (sx_sub_apps a) ans) \<Longrightarrow> async_analyse_subapp sa = Ok an"
  by (auto simp: async_analysis_run_def rcollect_Inr_iff list_all2_iff)

text \<open>
  (C36) Whatever slot the generated code of a core recovers, in a wake function, in the install function or for a poll, the
  pointer static was stored, by the statements at the start of the core's entry function, with the address of a slot that
  was created for the same future type: it is never the null pointer and never a slot of another type, in whatever order
  the entry functions of the cores run.  But \<open>push_slot_inits\<close> puts the \<open>let\<close> of each slot in a block of its own,
  so that the variable is out of scope when the pointer is used; without the block it would be the slot itself.
\<close>

theorem async_slots_recovered:
  assumes "async_analysis_run a = Ok ans" and "(sa, an) \<in> set (zip (sx_sub_apps a) ans)" and "ss_core sa \<in> set cs"
    and "g \<in> set (async_generate_subapp N B a (sa, an))" and "(w, p) \<in> set (recover_sites g)"
  shows "(\<exists>d. recover_slot w p (fold slot_init (concat (map (push_slot_inits a ans) cs)) m) = Dangling d) \<and>
    (\<exists>d. recover_slot w p (fold let_and_store (concat (map (push_slot_inits a ans) cs)) m) = Recovered d)"
proof -
  obtain t where t: "t \<in> set (core_tasks sa)" "(p, w) = slot_of (sw_name t)"
    using subapp_sites [OF analysed_member [OF assms(1,2)] assms(4,5)] by blast
  have l: "concat (map (push_slot_inits a ans) cs) = map slot_of (concat (map (\<lambda>c. slot_tasks a c ans) cs))"
    unfolding map_concat map_map comp_def push_slot_inits_eq [symmetric] ..
  have "sw_name t \<in> set (slot_tasks a (ss_core sa) ans)"
    using t(1) assms(2) unfolding slot_tasks_def by force
  then have "sw_name t \<in> set (concat (map (\<lambda>c. slot_tasks a c ans) cs))" using assms(3) by auto
  note r = recover_after_inits [OF this, of m]
  have "p = exec_ptr_ident (sw_name t)" "w = async_wrapper_ident (sw_name t)" using t(2) by (simp_all add: slot_of_def)
  with r show ?thesis unfolding l by blast
qed

text \<open>A core with a task of priority 0 and one of priority 2, and the sites of its generated code.\<close>

definition demo_async_task :: "ident \<Rightarrow> prio \<Rightarrow> async_task" where
  "demo_async_task i p = demo_sw_task i p 0"

definition demo_async_sub :: sw_sub_app where
  "demo_async_sub = \<lparr>ss_core = 0, ss_dispatchers = [ident_path ''I0''],
     ss_tasks = [demo_async_task ''A'' 0, demo_async_task ''B'' 2], ss_mc_tasks = []\<rparr>"

definition demo_async_an :: async_sub_analysis where
  "demo_async_an = \<lparr>sn_core = 0, sn_groups = [(2, [(''B'', 0, 2)])], sn_dispatchers = [(2, ident_path ''I0'')],
     an_prio_0 = [(''A'', 0, 2)]\<rparr>"

definition demo_async_app :: sw_app where
  "demo_async_app = \<lparr>sx_ident = ''app'', sx_params = \<lparr>ap_dispatchers = [0 \<mapsto> [ident_path ''I0'']], ap_pacs = [ident_path ''pac''], ap_cores = 1\<rparr>,
     sx_sub_apps = [demo_async_sub], sx_rest = []\<rparr>"

lemma demo_async_analysis: "async_analysis_run demo_async_app = Ok [demo_async_an]"
  by (simp add: async_analysis_run_def demo_async_app_def demo_async_an_def async_analyse_subapp_def demo_async_sub_def
      async_push_local_def demo_async_task_def demo_sw_task_def is_prio_0_def Let_def sw_name_def check_disjoint_priorities_def
      check_uniform_spawn_by_def group_extend_def assign_dispatchers_def)

lemma demo_async_site:
  "AgWake (exec_wake_ident ''A'') (async_wrapper_ident ''A'') (exec_ptr_ident ''A'') None
     \<in> set (async_generate_subapp N B demo_async_app (demo_async_sub, demo_async_an))"
  by (simp add: async_generate_subapp_def Let_def demo_async_sub_def generate_exec_static_and_wake_def demo_async_task_def
      demo_sw_task_def sw_name_def is_prio_0_def)

lemma async_slots_recovered_witness:
  "\<exists>d. recover_slot (async_wrapper_ident ''A'') (exec_ptr_ident ''A'')
     (fold slot_init (push_slot_inits demo_async_app [demo_async_an] 0) (memory_new :: unit slot_memory)) = Dangling d"
proof -
  have z: "(demo_async_sub, demo_async_an) \<in> set (zip (sx_sub_apps demo_async_app) [demo_async_an])"
    by (simp add: demo_async_app_def)
  have c: "ss_core demo_async_sub \<in> set [0]" by (simp add: demo_async_sub_def)
  show ?thesis
    using async_slots_recovered [OF demo_async_analysis z c demo_async_site, of "async_wrapper_ident ''A''" "exec_ptr_ident ''A''" "memory_new :: unit slot_memory"]
    by simp
qed

section \<open>From spawn to poll\<close>

lemma async_parse_places:
  "async_app_parse oa args m = Ok a \<Longrightarrow> sa \<in> set (sx_sub_apps a) \<Longrightarrow> t \<in> set (core_tasks sa) \<Longrightarrow>
     tp_core (sw_params t) = ss_core sa"
  by (auto simp: async_app_parse_def Let_def sw_sub_app_of_def on_core_def split: prod.splits if_splits)

text \<open>
  The path of a spawn through the generated items: the spawn function of the task puts a ticket into the ready queue of the
  task's priority type; the item that drains this queue is a dispatcher, bound to the interrupt that the spawn function
  pends, or the idle executor if it pends none; its install function has an arm for the task, which takes the input from
  the queue that the spawn function filled and installs the future in the task's slot; it polls this slot; and the wake
  function it polls with pends the same interrupt.
\<close>

definition wired :: "async_gen list \<Rightarrow> async_task \<Rightarrow> bool" where
  "wired items t \<longleftrightarrow> (\<exists>p ov inst arms polls n w q f.
     AgSpawn p \<in> set items \<and> sp_task p = sw_name t \<and> AgQueue (sp_inputs p) (sp_task p) (sp_size p) \<in> set items \<and>
     AgQueue (sp_ready p) (sp_prio_ty p) n \<in> set items \<and> AgQueue ov (sp_prio_ty p) n \<in> set items \<and>
     AgInstall inst (sp_prio_ty p) arms \<in> set items \<and>
     (\<exists>arm \<in> set arms. ia_task arm = sw_name t \<and> ia_inputs arm = sp_inputs p \<and> ia_wrapper arm = w \<and> ia_ptr arm = q) \<and>
     \<lparr>pl_wrapper = w, pl_ptr = q, pl_wake = f\<rparr> \<in> set polls \<and>
     AgWrapper w (sw_name t) \<in> set items \<and> AgPtr q \<in> set items \<and>
     (case sp_pend p of
        None \<Rightarrow> AgWake f w q None \<in> set items \<and> (\<exists>ty. AgIdle ty (sp_ready p) ov inst polls (n - 1) \<in> set items)
      | Some c \<Rightarrow> \<exists>d. pc_irq d = pc_irq c \<and> pc_interrupt_ty d = pc_interrupt_ty c \<and> AgWake f w q (Some d) \<in> set items \<and>
          (\<exists>ty. AgStruct \<lparr>st_attrs = dispatcher_attrs (pc_irq c) (tp_priority (sw_params t)) (tp_core (sw_params t)),
              st_ident = ty, st_fields = []\<rparr> \<in> set items \<and>
            AgDispatcher ty (sp_ready p) ov inst polls (n - 1) d \<in> set items)))"

text \<open>What every task has of this, given the queues, the arms and the polls of a group with an entry for it.\<close>

lemma wiredI:
  assumes "set (async_spawn_items p) \<subseteq> set items" and "sp_task p = sw_name t" and "sp_inputs p = sw_task_inputs_ident (sw_name t)"
    and "AgQueue (sp_ready p) (sp_prio_ty p) n \<in> set items" and "AgQueue ov (sp_prio_ty p) n \<in> set items"
    and "AgInstall inst (sp_prio_ty p) (install_arms N es) \<in> set items" and "sw_name t \<in> fst ` set es"
    and "AgWrapper (async_wrapper_ident (sw_name t)) (sw_name t) \<in> set items" and "AgPtr (exec_ptr_ident (sw_name t)) \<in> set items"
    and "case sp_pend p of
        None \<Rightarrow> AgWake (exec_wake_ident (sw_name t)) (async_wrapper_ident (sw_name t)) (exec_ptr_ident (sw_name t)) None \<in> set items \<and>
          (\<exists>ty. AgIdle ty (sp_ready p) ov inst (poll_stmts es) (n - 1) \<in> set items)
      | Some c \<Rightarrow> \<exists>d. pc_irq d = pc_irq c \<and> pc_interrupt_ty d = pc_interrupt_ty c \<and>
          AgWake (exec_wake_ident (sw_name t)) (async_wrapper_ident (sw_name t)) (exec_ptr_ident (sw_name t)) (Some d) \<in> set items \<and>
          (\<exists>ty. AgStruct \<lparr>st_attrs = dispatcher_attrs (pc_irq c) (tp_priority (sw_params t)) (tp_core (sw_params t)),
              st_ident = ty, st_fields = []\<rparr> \<in> set items \<and>
            AgDispatcher ty (sp_ready p) ov inst (poll_stmts es) (n - 1) d \<in> set items)"
  shows "wired items t"
proof -
  let ?i = "sw_name t"
  have arm: "\<exists>arm \<in> set (install_arms N es). ia_task arm = ?i \<and> ia_inputs arm = sp_inputs p \<and>
      ia_wrapper arm = async_wrapper_ident ?i \<and> ia_ptr arm = exec_ptr_ident ?i"
    using assms(7) unfolding assms(3) by (force simp: install_arms_def)
  have poll: "\<lparr>pl_wrapper = async_wrapper_ident ?i, pl_ptr = exec_ptr_ident ?i, pl_wake = exec_wake_ident ?i\<rparr> \<in> set (poll_stmts es)"
    using assms(7) by (force simp: poll_stmts_def)
  have "AgSpawn p \<in> set items" "AgQueue (sp_inputs p) (sp_task p) (sp_size p) \<in> set items"
    using assms(1) by (simp_all add: async_spawn_items_def)
  then show ?thesis unfolding wired_def using assms(2,4-6,8,9,10) arm poll
    by (intro exI [of _ p] exI [of _ ov] exI [of _ inst] exI [of _ "install_arms N es"] exI [of _ "poll_stmts es"] exI [of _ n]
        exI [of _ "async_wrapper_ident ?i"] exI [of _ "exec_ptr_ident ?i"] exI [of _ "exec_wake_ident ?i"] conjI)
qed

lemma subapp_items:
  fixes a :: sw_app and B :: async_backend
  defines "pac sa \<equiv> ap_pacs (sx_params a) ! unat (ss_core sa)" and "n \<equiv> length (sx_sub_apps a)"
  defines "ty sa \<equiv> async_interrupt_ty B (pac sa) (ss_core sa)"
  shows "t \<in> set (core_tasks sa) \<Longrightarrow> g \<in> set (async_task_items N B an (pac sa) n t) \<Longrightarrow> g \<in> set (async_generate_subapp N B a (sa, an))"
    and "t \<in> set (core_tasks sa) \<Longrightarrow> g = fst (generate_exec_static_and_wake N an n (ty sa) t) \<Longrightarrow> g \<in> set (async_generate_subapp N B a (sa, an))"
    and "t \<in> set (core_tasks sa) \<Longrightarrow> g = fst (snd (generate_exec_static_and_wake N an n (ty sa) t)) \<Longrightarrow> g \<in> set (async_generate_subapp N B a (sa, an))"
    and "t \<in> set (core_tasks sa) \<Longrightarrow> g = snd (snd (generate_exec_static_and_wake N an n (ty sa) t)) \<Longrightarrow> g \<in> set (async_generate_subapp N B a (sa, an))"
    and "h \<in> set (sn_groups an) \<Longrightarrow> g \<in> set (async_dispatcher N an n (ty sa) h) \<Longrightarrow> g \<in> set (async_generate_subapp N B a (sa, an))"
    and "g \<in> set (generate_idle_executor N (an_prio_0 an) (sn_core an)) \<Longrightarrow> g \<in> set (async_generate_subapp N B a (sa, an))"
  by (auto simp: async_generate_subapp_def async_dispatcher_tasks_def Let_def pac_def n_def ty_def)

lemma entry_arm:
  "i \<in> fst ` set es \<Longrightarrow> \<lparr>ia_task = i, ia_static = ident_uppercase N i, ia_inputs = sw_task_inputs_ident i,
     ia_wrapper = async_wrapper_ident i, ia_ptr = exec_ptr_ident i\<rparr> \<in> set (install_arms N es)"
  by (force simp: install_arms_def)

lemma entry_poll:
  "i \<in> fst ` set es \<Longrightarrow>
     \<lparr>pl_wrapper = async_wrapper_ident i, pl_ptr = exec_ptr_ident i, pl_wake = exec_wake_ident i\<rparr> \<in> set (poll_stmts es)"
  by (force simp: poll_stmts_def)

text \<open>
  (C35) In a parsed and analysed application every async task is wired: its spawn function, the dispatcher of its priority
  (or the idle executor of its core), its slot and its wake function refer to the same queues, slot and interrupt.
\<close>

theorem async_tasks_wired:
  assumes "async_app_parse oa args m = Ok a" and "async_analysis_run a = Ok ans"
    and "(sa, an) \<in> set (zip (sx_sub_apps a) ans)" and "t \<in> set (core_tasks sa)"
  shows "wired (async_generate_subapp N B a (sa, an)) t"
proof -
  let ?items = "async_generate_subapp N B a (sa, an)" and ?i = "sw_name t"
  let ?pac = "ap_pacs (sx_params a) ! unat (ss_core sa)" and ?n = "length (sx_sub_apps a)"
  let ?ty = "async_interrupt_ty B ?pac (ss_core sa)"
  note an = analysed_member [OF assms(2,3)]
  have c: "tp_core (sw_params t) = ss_core sa" by (rule async_parse_places [OF assms(1) set_zip_leftD [OF assms(3)] assms(4)])
  have s: "sn_core an = ss_core sa" using an by (rule async_groupsE)
  note si = subapp_items [where N = N and B = B and a = a and an = an and sa = sa]
  have w: "AgWrapper (async_wrapper_ident ?i) ?i \<in> set ?items"
    by (rule si(2) [OF assms(4)]) (simp add: generate_exec_static_and_wake_def Let_def)
  have p: "AgPtr (exec_ptr_ident ?i) \<in> set ?items"
    by (rule si(3) [OF assms(4)]) (simp add: generate_exec_static_and_wake_def Let_def)
  from an assms(4) show ?thesis
  proof (cases rule: task_entry)
    case idle
    let ?p = "async_spawn_api_prio_0 N B t" and ?es = "an_prio_0 an"
    have e: "?es \<noteq> []" using idle(2) by auto
    have f: "AgWake (exec_wake_ident ?i) (async_wrapper_ident ?i) (exec_ptr_ident ?i) None \<in> set ?items"
      by (rule si(4) [OF assms(4)]) (simp add: generate_exec_static_and_wake_def Let_def idle(1))
    have "set (async_spawn_items ?p) \<subseteq> set ?items"
      by (auto intro!: si(1) [OF assms(4)] simp: async_task_items_def idle(1))
    then show ?thesis
    proof (rule wiredI [where N = N and n = "async_ready_size ?es" and ov = "overflow_queue_ident (sp_prio_ty ?p)"
        and inst = "install_fn_ident (sp_prio_ty ?p)", OF _ _ _ _ _ _ idle(2) w p], goal_cases)
      case 6
      show ?case using f si(6) e by (auto simp: async_spawn_api_prio_0_def Let_def generate_idle_executor_def s c)
    qed ((rule si(6))?, simp add: async_spawn_api_prio_0_def Let_def generate_idle_executor_def s c e)+
  next
    case (group es)
    let ?prio = "tp_priority (sw_params t)" and ?irq = "the (map_of (sn_dispatchers an) (tp_priority (sw_params t)))"
    let ?p = "async_spawn_api N B ?irq ?pac ?n t"
    let ?d = "\<lparr>pc_fn = wake_pend_fn_ident N (ss_core sa) ?n, pc_interrupt_ty = ?ty, pc_irq = ?irq\<rparr>"
    have f: "AgWake (exec_wake_ident ?i) (async_wrapper_ident ?i) (exec_ptr_ident ?i) (Some ?d) \<in> set ?items"
      by (rule si(4) [OF assms(4)]) (simp add: generate_exec_static_and_wake_def Let_def group(1) c)
    have "set (async_spawn_items ?p) \<subseteq> set ?items"
      by (auto intro!: si(1) [OF assms(4)] simp: async_task_items_def group(1))
    then show ?thesis
    proof (rule wiredI [where N = N and n = "async_ready_size es" and ov = "overflow_queue_ident (sp_prio_ty ?p)"
        and inst = "install_fn_ident (sp_prio_ty ?p)", OF _ _ _ _ _ _ group(3) w p], goal_cases)
      case 6
      have "AgStruct \<lparr>st_attrs = dispatcher_attrs ?irq ?prio (ss_core sa), st_ident = dispatcher_ident N ?prio (ss_core sa), st_fields = []\<rparr> \<in> set ?items"
        by (rule si(5) [OF group(2)]) (simp add: async_dispatcher_def Let_def s)
      moreover have "AgDispatcher (dispatcher_ident N ?prio (ss_core sa)) (sp_ready ?p) (overflow_queue_ident (sp_prio_ty ?p))
          (install_fn_ident (sp_prio_ty ?p)) (poll_stmts es) (async_ready_size es - 1) ?d \<in> set ?items"
        by (rule si(5) [OF group(2)]) (simp add: async_dispatcher_def async_spawn_api_def Let_def s c)
      ultimately show ?case using f by (force simp: async_spawn_api_def Let_def c)
    qed ((rule si(5) [OF group(2)])?, simp add: async_spawn_api_def async_dispatcher_def Let_def s c)+
  qed
qed

text \<open>A module with one async task of priority 2, and its analysis.\<close>

definition demo_wired_args :: arg_tokens where
  "demo_wired_args = Some [(ident_path ''device'', Some (ident_expr ''pac'')),
     (ident_path ''dispatchers'', Some (EArray [ident_expr ''I0'']))]"

definition demo_wired_mod :: item_mod where
  "demo_wired_mod = \<lparr>mod_ident = ''app'', mod_content = Some
     [IStruct \<lparr>st_attrs = [attr_of ''async_task'' [(''priority'', EInt 2)]], st_ident = ''B'', st_fields = []\<rparr>]\<rparr>"

definition demo_wired_task :: async_task where
  "demo_wired_task = \<lparr>sw_params = \<lparr>tp_priority = 2, tp_core = 0, tp_spawn_by = 0, tp_capacity = 1\<rparr>,
     sw_attr = into_task_attr \<lparr>attr_name = ''async_task'', elements = [(''priority'', EInt 2)]\<rparr> ASYNC_TASK_TRAIT_TY,
     sw_struct = \<lparr>st_attrs = [], st_ident = ''B'', st_fields = []\<rparr>, sw_impl = None\<rparr>"

definition demo_wired_app :: sw_app where
  "demo_wired_app = \<lparr>sx_ident = ''app'', sx_params = \<lparr>ap_dispatchers = [0 \<mapsto> [ident_path ''I0'']], ap_pacs = [ident_path ''pac''], ap_cores = 1\<rparr>,
     sx_sub_apps = [\<lparr>ss_core = 0, ss_dispatchers = [ident_path ''I0''], ss_tasks = [demo_wired_task], ss_mc_tasks = []\<rparr>], sx_rest = []\<rparr>"

lemma demo_wired_parse: "async_app_parse (\<lambda>_. None) demo_wired_args demo_wired_mod = Ok demo_wired_app"
  by (simp add: async_app_parse_def app_parameters_parse_def demo_wired_args_def parse_from_tokens_def insert_arg_def take_int_def
      take_expr_def ident_expr_def parse_dispatchers_def insert_dispatcher_def dispatcher_path_def get_expr_def ident_path_def demo_wired_mod_def
      async_collect_def async_collect_item_def find_async_task_attr_def attr_of_def get_ident_def item_attrs_def async_take_task_def
      take_impl_for_def from_meta_def task_params_from_attr_def parse_attr_int_def remove_nth_def sw_sub_app_of_def core_list_def
      is_local_def on_core_def has_prio_0_def demo_wired_app_def demo_wired_task_def Let_def)

lemma demo_wired_analysis:
  "async_analysis_run demo_wired_app = Ok [\<lparr>sn_core = 0, sn_groups = [(2, [(''B'', 0, 1)])], sn_dispatchers = [(2, ident_path ''I0'')],
     an_prio_0 = []\<rparr>]"
  by (simp add: async_analysis_run_def demo_wired_app_def async_analyse_subapp_def async_push_local_def demo_wired_task_def
      is_prio_0_def Let_def sw_name_def check_disjoint_priorities_def check_uniform_spawn_by_def group_extend_def assign_dispatchers_def)

lemma async_tasks_wired_witness:
  "\<forall>N B. \<exists>sa an. wired (async_generate_subapp N B demo_wired_app (sa, an)) demo_wired_task"
proof (intro allI)
  fix N B
  let ?sa = "\<lparr>ss_core = 0, ss_dispatchers = [ident_path ''I0''], ss_tasks = [demo_wired_task], ss_mc_tasks = []\<rparr>"
  let ?an = "\<lparr>sn_core = 0, sn_groups = [(2, [(''B'', 0, 1)])], sn_dispatchers = [(2, ident_path ''I0'')], an_prio_0 = []\<rparr>"
  have "wired (async_generate_subapp N B demo_wired_app (?sa, ?an)) demo_wired_task"
    by (rule async_tasks_wired [OF demo_wired_parse demo_wired_analysis]) (simp_all add: demo_wired_app_def)
  then show "\<exists>sa an. wired (async_generate_subapp N B demo_wired_app (sa, an)) demo_wired_task" by blast
qed

end
