(* ===== verification/CortexM.thy ===== *)
theory CortexM
  imports Codegen
begin

text \<open>
  The Cortex-M distribution: the run-time support of \<open>rticx-cortex-m/src/export.rs\<close> (priority
  conversion, the BASEPRI lock, the interrupt source masking lock) and the core backend of
  \<open>rticx-cortex-m/rticx-macro/src/lib.rs\<close>.  The registers are those of the \<open>cortex_m\<close> crate: parameters
  with their documented behaviour as a predicate.  \<open>u8\<close> arithmetic is that of a release build, which
  wraps and takes shift amounts modulo the width.
\<close>

unbundle bit_operations_syntax

section \<open>Priorities\<close>

definition cortex_logical2hw :: "8 word \<Rightarrow> 8 word \<Rightarrow> 8 word" where
  "cortex_logical2hw logical nvic_prio_bits =
     push_bit (unat (8 - nvic_prio_bits) mod 8) (push_bit (unat nvic_prio_bits mod 8) 1 - logical)"

section \<open>The BASEPRI lock\<close>

text \<open>The registers and \<open>interrupt::free\<close>, over a machine state \<open>'s\<close>; closures are state transformers
  with a result.\<close>

record ('s, 'r) cortex =
  bp_read :: "'s \<Rightarrow> 8 word"
  bp_write :: "8 word \<Rightarrow> 's \<Rightarrow> 's"
  bp_max_write :: "8 word \<Rightarrow> 's \<Rightarrow> 's"
  primask :: "'s \<Rightarrow> bool"
  irq_free :: "('s \<Rightarrow> 'r \<times> 's) \<Rightarrow> 's \<Rightarrow> 'r \<times> 's"
  irq_off :: "'s \<Rightarrow> 's"
  irq_on :: "'s \<Rightarrow> 's"

text \<open>What the Arm manual and the crate document: BASEPRI reads back; a write to BASEPRI\_MAX takes
  effect if the value is nonzero and lower than a nonzero BASEPRI; \<open>interrupt::free\<close> disables
  interrupts for the closure and enables them again if they were enabled.\<close>

definition documented :: "('s, 'r) cortex \<Rightarrow> bool" where
  "documented M \<longleftrightarrow>
     (\<forall>v s. bp_read M (bp_write M v s) = v \<and> primask M (bp_write M v s) = primask M s) \<and>
     (\<forall>v s. bp_max_write M v s = (if v \<noteq> 0 \<and> (bp_read M s = 0 \<or> v < bp_read M s) then bp_write M v s else s)) \<and>
     (\<forall>s. primask M (irq_off M s) \<and> bp_read M (irq_off M s) = bp_read M s) \<and>
     (\<forall>s. \<not> primask M (irq_on M s) \<and> bp_read M (irq_on M s) = bp_read M s) \<and>
     (\<forall>f s. irq_free M f s = (case f (irq_off M s) of (r, s') \<Rightarrow> (r, if primask M s then s' else irq_on M s')))"

definition run :: "('s, 'r) cortex \<Rightarrow> 8 word \<Rightarrow> ('s \<Rightarrow> 's) \<Rightarrow> 's \<Rightarrow> 's" where
  "run M priority f s =
     (if priority = 1 then bp_write M 0 (f s)
      else let initial = bp_read M s in bp_write M initial (f s))"

definition lock :: "('s, 'r) cortex \<Rightarrow> 8 word \<Rightarrow> 8 word \<Rightarrow> ('s \<Rightarrow> 'r \<times> 's) \<Rightarrow> 's \<Rightarrow> 'r \<times> 's" where
  "lock M clg nvic_prio_bits f s =
     (if clg = push_bit (unat nvic_prio_bits mod 8) 1 then irq_free M f s
      else
        let current = bp_read M s;
            s1 = bp_max_write M (cortex_logical2hw clg nvic_prio_bits) s
        in case f s1 of (r, s2) \<Rightarrow> (r, bp_write M current s2))"

text \<open>The exceptions that cannot be taken: all if PRIMASK is set, those of hardware priority number
  at least BASEPRI if that is nonzero.\<close>

definition masked :: "('s, 'r) cortex \<Rightarrow> 's \<Rightarrow> 8 word \<Rightarrow> bool" where
  "masked M s hw \<longleftrightarrow> primask M s \<or> (bp_read M s \<noteq> 0 \<and> bp_read M s \<le> hw)"

section \<open>Interrupt source masking\<close>

type_synonym mask = "32 word list"

definition bitor_assign :: "mask \<Rightarrow> mask \<Rightarrow> mask" where
  "bitor_assign a b = map2 (OR) a b"

text \<open>\<open>None\<close> is the panic for a bit outside the mask.\<close>

definition mask_set_bit :: "32 word \<Rightarrow> mask \<Rightarrow> mask option" where
  "mask_set_bit b m =
     (let block = b div 32 in
      if unat block \<ge> length m then None
      else
        let offset = b - block * 32 in
        Some (m[unat block := m ! unat block OR push_bit (unat offset) 1]))"

fun set_bits :: "32 word list \<Rightarrow> mask \<Rightarrow> mask option" where
  "set_bits [] m = Some m"
| "set_bits (b # bs) m = Option.bind (mask_set_bit b m) (set_bits bs)"

definition create_mask :: "nat \<Rightarrow> 32 word list \<Rightarrow> mask option" where
  "create_mask M list_of_shifts = set_bits list_of_shifts (replicate M 0)"

text \<open>The loop for the maximum, and the number of chunks; \<open>usize\<close> is 32 bits wide on these cores.\<close>

fun max_id :: "32 word list \<Rightarrow> 32 word \<Rightarrow> 32 word" where
  "max_id [] m = m"
| "max_id (i # is) m = max_id is (if m < i then i else m)"

definition compute_mask_chunks :: "32 word list \<Rightarrow> nat" where
  "compute_mask_chunks ids = unat ((max_id ids 0 + 32) div 32)"

text \<open>The enable registers of the NVIC: writing ones to ISER or ICER enables or disables, and
  \<open>enabled s i\<close> is the state of interrupt \<open>i\<close>.\<close>

record 's nvic =
  iser_write :: "nat \<Rightarrow> 32 word \<Rightarrow> 's \<Rightarrow> 's"
  icer_write :: "nat \<Rightarrow> 32 word \<Rightarrow> 's \<Rightarrow> 's"
  enabled :: "'s \<Rightarrow> nat \<Rightarrow> bool"

definition nvic_documented :: "'s nvic \<Rightarrow> bool" where
  "nvic_documented V \<longleftrightarrow>
     (\<forall>i v s n. enabled V (iser_write V i v s) n = (enabled V s n \<or> (n div 32 = i \<and> bit v (n mod 32)))) \<and>
     (\<forall>i v s n. enabled V (icer_write V i v s) n = (enabled V s n \<and> \<not> (n div 32 = i \<and> bit v (n mod 32))))"

text \<open>The loops over the chunks from number \<open>i\<close> on.\<close>

fun write_chunks :: "(nat \<Rightarrow> 32 word \<Rightarrow> 's \<Rightarrow> 's) \<Rightarrow> nat \<Rightarrow> mask \<Rightarrow> 's \<Rightarrow> 's" where
  "write_chunks w i [] s = s"
| "write_chunks w i (m # ms) s = write_chunks w (Suc i) ms (if m \<noteq> 0 then w i m s else s)"

definition set_enable_mask :: "'s nvic \<Rightarrow> mask \<Rightarrow> 's \<Rightarrow> 's" where
  "set_enable_mask V m s = write_chunks (iser_write V) 0 m s"

definition clear_enable_mask :: "'s nvic \<Rightarrow> mask \<Rightarrow> 's \<Rightarrow> 's" where
  "clear_enable_mask V m s = write_chunks (icer_write V) 0 m s"

text \<open>The slice \<open>masks[from..to]\<close>; its bounds hold where \<open>lock\<close> calls it.\<close>

definition compute_mask :: "nat \<Rightarrow> nat \<Rightarrow> nat \<Rightarrow> mask list \<Rightarrow> mask" where
  "compute_mask M from_prio to_prio masks = foldl bitor_assign (replicate M 0) (take (to_prio - from_prio) (drop from_prio masks))"

definition source_lock :: "('s, 'r) cortex \<Rightarrow> 's nvic \<Rightarrow> nat \<Rightarrow> prio \<Rightarrow> prio \<Rightarrow> mask list \<Rightarrow> ('s \<Rightarrow> 'r \<times> 's) \<Rightarrow> 's \<Rightarrow> 'r \<times> 's" where
  "source_lock C V M priority clg masks f s =
     (let current = priority in
      if current < clg then
        (if clg \<ge> 4 then irq_free C f s
         else
           let mask = compute_mask M (unat (ucast current :: 8 word)) (unat (ucast clg :: 8 word)) masks;
               s1 = clear_enable_mask V mask s
           in case f s1 of (r, s2) \<Rightarrow> (r, set_enable_mask V mask s2))
      else f s)"

section \<open>The core backend\<close>

definition CONFIGURABLE_EXCEPTIONS :: "ident list" where
  "CONFIGURABLE_EXCEPTIONS =
     [''MemoryManagement'', ''BusFault'', ''UsageFault'', ''SecureFault'', ''SVCall'', ''DebugMonitor'', ''PendSV'', ''SysTick'']"

definition NON_CONFIGURABLE_EXCEPTIONS :: "ident list" where
  "NON_CONFIGURABLE_EXCEPTIONS = [''NonMaskableInt'', ''HardFault'']"

definition is_exception :: "ident \<Rightarrow> bool" where
  "is_exception name \<longleftrightarrow> name \<in> set CONFIGURABLE_EXCEPTIONS"

text \<open>The statements of \<open>post_init\<close>, in the forms of the templates.\<close>

datatype cm_stmt =
    AssertPriority path prio
  | ScbSetPriority ident "8 word" path
  | NvicSetPriority path ident "8 word"
  | NvicUnmask path ident
  | StealPeripherals

definition irq_stmts :: "path \<Rightarrow> used_irq \<Rightarrow> cm_stmt list" where
  "irq_stmts pac irq =
     AssertPriority pac (ui_priority irq) #
     (if is_exception (ui_name irq) then [ScbSetPriority (ui_name irq) (ucast (ui_priority irq)) pac]
      else [NvicSetPriority pac (ui_name irq) (ucast (ui_priority irq)), NvicUnmask pac (ui_name irq)])"

definition cm_post_init :: "app_args \<Rightarrow> sub_app \<Rightarrow> sub_analysis \<Rightarrow> cm_stmt list" where
  "cm_post_init args sa an =
     StealPeripherals # concat (map (irq_stmts (aa_pacs args ! unat (sa_core sa))) (used_irqs an))"

text \<open>The body of the lock function: the arguments of \<open>export::lock\<close>.\<close>

datatype lock_call = BasepriLock path | SourceLock

definition cm_lock_impl :: "bool \<Rightarrow> app_args \<Rightarrow> lock_call" where
  "cm_lock_impl armv6m args = (if armv6m then SourceLock else BasepriLock (aa_pacs args ! 0))"

definition cm_wrap :: "bool \<Rightarrow> rtic_task \<Rightarrow> gstmt list \<Rightarrow> gstmt list option" where
  "cm_wrap armv6m t call =
     (if armv6m then None else Some [GClosure ''rticx_cortex_m::export::run'' (ta_priority (rt_args t)) call])"

definition cm_validate_task :: "rtic_task \<Rightarrow> unit result" where
  "cm_validate_task t =
     (case ta_binds (rt_args t) of
        None \<Rightarrow> Ok ()
      | Some name \<Rightarrow> if name \<in> set NON_CONFIGURABLE_EXCEPTIONS then Err (PassError name) else Ok ())"

definition pre_codegen_validation :: "app \<Rightarrow> unit result" where
  "pre_codegen_validation a =
     rfold (\<lambda>_ sa. rfold (\<lambda>_ t. cm_validate_task t) () (sa_tasks sa)) () (sub_apps a)"

text \<open>The mask table of the source masking lock: the interrupts whose numbers size the chunks, and
  those of the three priority levels.\<close>

definition nvic_tasks :: "sub_app \<Rightarrow> rtic_task list" where
  "nvic_tasks sa = filter (\<lambda>t. case ta_binds (rt_args t) of None \<Rightarrow> False | Some n \<Rightarrow> \<not> is_exception n) (sa_tasks sa)"

definition source_mask_irqs :: "sub_app \<Rightarrow> ident list" where
  "source_mask_irqs sa = List.map_filter (ta_binds \<circ> rt_args) (nvic_tasks sa)"

definition irqs_of_level :: "sub_app \<Rightarrow> nat \<Rightarrow> ident list" where
  "irqs_of_level sa level =
     List.map_filter (\<lambda>t. if unat (ta_priority (rt_args t)) = level then ta_binds (rt_args t) else None) (nvic_tasks sa)"

definition generate_source_mask_globals :: "sub_app \<Rightarrow> ident list \<times> ident list list" where
  "generate_source_mask_globals sa = (source_mask_irqs sa, map (irqs_of_level sa) [1, 2, 3])"

text \<open>The values of the two constants, for the numbers of the PAC's interrupts.\<close>

definition mask_table :: "(ident \<Rightarrow> 32 word) \<Rightarrow> sub_app \<Rightarrow> mask list option" where
  "mask_table nr sa =
     (case generate_source_mask_globals sa of (all, levels) \<Rightarrow>
       those (map (\<lambda>l. create_mask (compute_mask_chunks (map nr all)) (map nr l)) levels))"

text \<open>The backend record; how the statements are written is left to \<open>quote\<close>.\<close>

record cm_printers =
  cp_stmts :: "cm_stmt list \<Rightarrow> tokens"
  cp_lock :: "lock_call \<Rightarrow> tokens"
  cp_masks :: "path \<Rightarrow> ident list \<times> ident list list \<Rightarrow> tokens"

definition cm_interrupt_free_fn :: "free_fn \<Rightarrow> free_fn" where
  "cm_interrupt_free_fn f = f\<lparr>ff_body := ''rticx_cortex_m::export::interrupt::free(|_| f())''\<rparr>"

definition cm_global_definitions :: "cm_printers \<Rightarrow> bool \<Rightarrow> app_args \<Rightarrow> sub_app \<Rightarrow> tokens option" where
  "cm_global_definitions C armv6m args sa =
     (if armv6m then Some (cp_masks C (aa_pacs args ! unat (sa_core sa)) (generate_source_mask_globals sa)) else None)"

definition cm_resource_proxy_lock_impl :: "cm_printers \<Rightarrow> bool \<Rightarrow> app_args \<Rightarrow> lock_fn \<Rightarrow> lock_fn" where
  "cm_resource_proxy_lock_impl C armv6m args lf = lf\<lparr>lf_body := lf_body lf @ cp_lock C (cm_lock_impl armv6m args)\<rparr>"

definition cortex_backend :: "cm_printers \<Rightarrow> bool \<Rightarrow> backend" where
  "cortex_backend C armv6m = \<lparr>
     be_post_init = (\<lambda>args sa an. Some (cp_stmts C (cm_post_init args sa an))),
     be_lock = (\<lambda>args sa lf. cm_resource_proxy_lock_impl C armv6m args lf),
     be_global_defs = (\<lambda>args sa an. cm_global_definitions C armv6m args sa),
     be_wrap = cm_wrap armv6m, be_entry_name = (\<lambda>core. ''main''),
     be_idle_loop = Some ''rticx_cortex_m::export::wfi();'', be_enable = None,
     be_free = cm_interrupt_free_fn, be_validate = (\<lambda>a an. pre_codegen_validation a),
     be_entry_attrs = [], be_task_attrs = (\<lambda>irq. [])\<rparr>"

text \<open>The passes that the features of the crate bind, in this order.\<close>

definition cm_passes :: "bool \<Rightarrow> bool \<Rightarrow> 'p \<Rightarrow> 'p \<Rightarrow> 'p list" where
  "cm_passes swtasks async sw_pass async_pass = (if swtasks then [sw_pass] else []) @ (if async then [async_pass] else [])"

lemma cortex_backend_keeps_constants:
  "be_lock (cortex_backend C armv6m) args sa lf = lf\<lparr>lf_body := lf_body (be_lock (cortex_backend C armv6m) args sa lf)\<rparr>"
  by (simp add: cortex_backend_def cm_resource_proxy_lock_impl_def)

lemma pre_codegen_validation_ok:
  "pre_codegen_validation a = Ok () \<longleftrightarrow>
     (\<forall>sa \<in> set (sub_apps a). \<forall>t \<in> set (sa_tasks sa). ta_binds (rt_args t) \<notin> Some ` set NON_CONFIGURABLE_EXCEPTIONS)"
  by (auto simp: pre_codegen_validation_def rfold_unit cm_validate_task_def split: option.splits if_splits)

section \<open>Priorities and BASEPRI\<close>

text \<open>The numbers of priority bits that the conversion is meant for.\<close>

definition prio_bits :: "8 word \<Rightarrow> bool" where
  "prio_bits b \<longleftrightarrow> 0 < unat b \<and> unat b < 8"

lemma pow2_word8: "n < 8 \<Longrightarrow> unat (2 ^ n :: 8 word) = 2 ^ n"
proof -
  assume n: "n < 8"
  have "(2 :: nat) ^ n \<le> 2 ^ 7" using n by (intro power_increasing) auto
  then have "(2 :: nat) ^ n < 2 ^ LENGTH(8)" by simp
  from unat_of_nat_small [OF this] show ?thesis by simp
qed

lemma unat_hw:
  assumes "prio_bits b" and "unat p \<le> 2 ^ unat b"
  shows "unat (cortex_logical2hw p b) = (2 ^ unat b - unat p) * 2 ^ (8 - unat b) mod 256"
proof -
  have b: "unat b mod 8 = unat b" "unat (8 - b) = 8 - unat b" "(8 - unat b) mod 8 = 8 - unat b"
    using assms(1) by (auto simp: prio_bits_def unat_sub word_le_nat_alt)
  have pow: "unat (push_bit (unat b) 1 :: 8 word) = 2 ^ unat b" using assms(1) by (simp add: prio_bits_def pow2_word8)
  have "unat (push_bit (unat b) 1 - p) = 2 ^ unat b - unat p"
    using assms(2) pow by (simp add: unat_sub word_le_nat_alt)
  moreover have "unat (push_bit n x) = unat x * 2 ^ n mod 256" for n and x :: "8 word"
  proof -
    have "push_bit n x = of_nat (unat x * 2 ^ n)" by (simp add: push_bit_eq_mult)
    then show ?thesis by (simp only: unat_of_nat) simp
  qed
  ultimately show ?thesis by (simp add: cortex_logical2hw_def b)
qed

lemma unat_hw_small:
  assumes "prio_bits b" and "1 \<le> unat p" and "unat p \<le> 2 ^ unat b"
  shows "unat (cortex_logical2hw p b) = (2 ^ unat b - unat p) * 2 ^ (8 - unat b)"
proof -
  have "(2 ^ unat b - unat p) * 2 ^ (8 - unat b) < 2 ^ unat b * (2 :: nat) ^ (8 - unat b)"
    using assms(2) by (intro mult_strict_right_mono) auto
  also have "\<dots> = 2 ^ (unat b + (8 - unat b))" by (simp add: power_add)
  also have "unat b + (8 - unat b) = 8" using assms(1) by (auto simp: prio_bits_def)
  finally show ?thesis using unat_hw [OF assms(1,3)] by simp
qed

lemma hw_le_iff:
  assumes "prio_bits b" and "1 \<le> unat p" and "unat p \<le> 2 ^ unat b" and "1 \<le> unat q" and "unat q \<le> 2 ^ unat b"
  shows "cortex_logical2hw p b \<le> cortex_logical2hw q b \<longleftrightarrow> q \<le> p"
  using assms by (auto simp: word_le_nat_alt unat_hw_small)

lemma hw_zero_iff:
  assumes "prio_bits b" and "1 \<le> unat p" and "unat p \<le> 2 ^ unat b"
  shows "cortex_logical2hw p b = 0 \<longleftrightarrow> unat p = 2 ^ unat b"
proof -
  have "cortex_logical2hw p b = 0 \<longleftrightarrow> unat (cortex_logical2hw p b) = 0" by (simp add: unat_eq_zero)
  with unat_hw_small [OF assms] assms(3) show ?thesis by auto
qed

text \<open>Priority 0 is converted to the highest hardware priority, which no value of BASEPRI masks.\<close>

lemma priority_zero_is_highest:
  assumes "prio_bits b" and "documented M" and "\<not> primask M s"
  shows "cortex_logical2hw 0 b = 0 \<and> \<not> masked M s (cortex_logical2hw 0 b)"
proof -
  have "2 ^ unat b * (2 :: nat) ^ (8 - unat b) = 2 ^ (unat b + (8 - unat b))" by (simp add: power_add)
  also have "unat b + (8 - unat b) = 8" using assms(1) by (auto simp: prio_bits_def)
  finally have "unat (cortex_logical2hw 0 b) = 0" using unat_hw [OF assms(1), of 0] by simp
  then have "cortex_logical2hw 0 b = 0" by (simp add: unat_eq_zero)
  with assms(3) show ?thesis by (simp add: masked_def)
qed

lemmas documentedD =
  documented_def [THEN iffD1, THEN conjunct1, rule_format]
  documented_def [THEN iffD1, THEN conjunct2, THEN conjunct1, rule_format]
  documented_def [THEN iffD1, THEN conjunct2, THEN conjunct2, THEN conjunct1, rule_format]
  documented_def [THEN iffD1, THEN conjunct2, THEN conjunct2, THEN conjunct2, THEN conjunct1, rule_format]
  documented_def [THEN iffD1, THEN conjunct2, THEN conjunct2, THEN conjunct2, THEN conjunct2, rule_format]

text \<open>The state in which the closure of a lock runs.\<close>

definition lock_entry :: "('s, 'r) cortex \<Rightarrow> 8 word \<Rightarrow> 8 word \<Rightarrow> 's \<Rightarrow> 's" where
  "lock_entry M c b s = (if unat c = 2 ^ unat b then irq_off M s else bp_max_write M (cortex_logical2hw c b) s)"

lemma lock_calls:
  assumes "documented M" and "prio_bits b"
  shows "fst (lock M c b f s) = fst (f (lock_entry M c b s))"
proof -
  have e: "c = push_bit (unat b mod 8) 1 \<longleftrightarrow> unat c = 2 ^ unat b"
    using assms(2) by (simp add: prio_bits_def word_unat_eq_iff pow2_word8)
  show ?thesis
  proof (cases "unat c = 2 ^ unat b")
    case True
    with e show ?thesis by (simp add: lock_def lock_entry_def documentedD(5) [OF assms(1)] split: prod.split)
  next
    case False
    with e show ?thesis by (simp add: lock_def lock_entry_def Let_def split: prod.split)
  qed
qed

lemma lock_entry_masks:
  assumes D: "documented M" and b: "prio_bits b"
    and c: "1 \<le> unat c" "unat c \<le> 2 ^ unat b" and p: "1 \<le> unat p" "unat p \<le> 2 ^ unat b"
  shows "masked M (lock_entry M c b s) (cortex_logical2hw p b) \<longleftrightarrow> masked M s (cortex_logical2hw p b) \<or> p \<le> c"
proof (cases "unat c = 2 ^ unat b")
  case True
  with p have "p \<le> c" by (simp add: word_le_nat_alt)
  with True documentedD(3) [OF D] show ?thesis by (simp add: lock_entry_def masked_def)
next
  case False
  let ?h = "cortex_logical2hw c b" and ?k = "cortex_logical2hw p b"
  have h0: "?h \<noteq> 0" using False hw_zero_iff [OF b c] by simp
  have hk: "?h \<le> ?k \<longleftrightarrow> p \<le> c" by (rule hw_le_iff [OF b c p])
  show ?thesis
  proof (cases "bp_read M s = 0 \<or> ?h < bp_read M s")
    case True
    then have "lock_entry M c b s = bp_write M ?h s"
      using False h0 documentedD(2) [OF D] by (simp add: lock_entry_def)
    then have "masked M (lock_entry M c b s) ?k \<longleftrightarrow> primask M s \<or> p \<le> c"
      using documentedD(1) [OF D] h0 hk by (simp add: masked_def)
    moreover have "p \<le> c" if "bp_read M s \<noteq> 0" "bp_read M s \<le> ?k"
      using True that hk by (metis order.strict_trans2 order.strict_implies_order)
    ultimately show ?thesis by (auto simp: masked_def)
  next
    case other: False
    then have "lock_entry M c b s = s" using False documentedD(2) [OF D] by (simp add: lock_entry_def)
    moreover have "bp_read M s \<le> ?k" if "p \<le> c" using other that hk by (meson not_le order.trans)
    ultimately show ?thesis using other by (auto simp: masked_def)
  qed
qed

text \<open>
  (C20) The BASEPRI lock raises the system ceiling and restores it: in the state in which the closure
  runs, an interrupt of logical priority \<open>p\<close> is masked exactly if it was masked before or \<open>p\<close> is at
  most the ceiling, and afterwards BASEPRI and PRIMASK are what they were, if the closure leaves them
  as it finds them, as a nested lock does.
\<close>

theorem basepri_lock_srp:
  assumes "documented M" and "prio_bits b" and "1 \<le> unat c" and "unat c \<le> 2 ^ unat b"
    and "\<And>s. bp_read M (snd (f s)) = bp_read M s \<and> primask M (snd (f s)) = primask M s"
  shows "fst (lock M c b f s) = fst (f (lock_entry M c b s)) \<and>
    (\<forall>p. 1 \<le> unat p \<and> unat p \<le> 2 ^ unat b \<longrightarrow>
       masked M (lock_entry M c b s) (cortex_logical2hw p b) = (masked M s (cortex_logical2hw p b) \<or> p \<le> c)) \<and>
    bp_read M (snd (lock M c b f s)) = bp_read M s \<and> primask M (snd (lock M c b f s)) = primask M s"
proof (intro conjI allI impI)
  show "fst (lock M c b f s) = fst (f (lock_entry M c b s))" by (rule lock_calls [OF assms(1,2)])
  show "masked M (lock_entry M c b s) (cortex_logical2hw p b) = (masked M s (cortex_logical2hw p b) \<or> p \<le> c)"
    if "1 \<le> unat p \<and> unat p \<le> 2 ^ unat b" for p
    using lock_entry_masks [OF assms(1-4)] that by blast
  note D = documentedD [OF assms(1)]
  have m: "primask M (bp_max_write M v s) = primask M s" for v s
    by (simp add: D(1,2))
  have f: "bp_read M s2 = bp_read M s1" "primask M s2 = primask M s1" if "f s1 = (r, s2)" for s1 s2 r
    using assms(5) [of s1] that by simp_all
  show "bp_read M (snd (lock M c b f s)) = bp_read M s"
    by (auto simp: lock_def Let_def D f split: prod.split)
  show "primask M (snd (lock M c b f s)) = primask M s"
    by (auto simp: lock_def Let_def D(1,3,4,5) m f split: prod.split)
qed

text \<open>A concrete core: BASEPRI and PRIMASK as a pair.\<close>

definition demo_core :: "(8 word \<times> bool, 'r) cortex" where
  "demo_core = \<lparr>bp_read = fst, bp_write = (\<lambda>v s. (v, snd s)),
     bp_max_write = (\<lambda>v s. if v \<noteq> 0 \<and> (fst s = 0 \<or> v < fst s) then (v, snd s) else s), primask = snd,
     irq_free = (\<lambda>f s. case f (fst s, True) of (r, s') \<Rightarrow> (r, if snd s then s' else (fst s', False))),
     irq_off = (\<lambda>s. (fst s, True)), irq_on = (\<lambda>s. (fst s, False))\<rparr>"

lemma demo_core_documented: "documented demo_core"
  by (simp add: documented_def demo_core_def split: prod.split)

lemma basepri_lock_srp_witness:
  "masked (demo_core :: (_, unit) cortex) (lock_entry (demo_core :: (_, unit) cortex) 3 4 (0, False)) (cortex_logical2hw 2 4) \<and>
   \<not> masked (demo_core :: (_, unit) cortex) (lock_entry (demo_core :: (_, unit) cortex) 3 4 (0, False)) (cortex_logical2hw 5 4)"
proof -
  have b: "prio_bits 4" by (simp add: prio_bits_def)
  have T: "\<forall>p. 1 \<le> unat p \<and> unat p \<le> 2 ^ unat (4 :: 8 word) \<longrightarrow>
       masked (demo_core :: (_, unit) cortex) (lock_entry (demo_core :: (_, unit) cortex) 3 4 (0, False)) (cortex_logical2hw p 4)
         = (masked (demo_core :: (_, unit) cortex) (0, False) (cortex_logical2hw p 4) \<or> p \<le> 3)"
    by (rule basepri_lock_srp [OF demo_core_documented b, where c = 3 and f = "Pair ()" and s = "(0, False)",
          THEN conjunct2, THEN conjunct1]) simp_all
  from T [rule_format, of 2] T [rule_format, of 5] show ?thesis by (simp add: masked_def demo_core_def)
qed

text \<open>The wrapper of a handler restores BASEPRI: a handler of priority 1 is only taken while BASEPRI is 0.\<close>

lemma run_restores_basepri:
  assumes "documented M" and "prio_bits b" and "1 \<le> unat p" and "unat p \<le> 2 ^ unat b"
    and "bp_read M s = 0 \<or> (\<exists>c. 1 \<le> unat c \<and> unat c \<le> 2 ^ unat b \<and> bp_read M s = cortex_logical2hw c b)"
    and "\<not> masked M s (cortex_logical2hw p b)"
  shows "bp_read M (run M p f s) = bp_read M s"
proof (cases "p = 1")
  case True
  have "bp_read M s = 0"
  proof (rule ccontr)
    assume n: "bp_read M s \<noteq> 0"
    with assms(5) obtain c where c: "1 \<le> unat c" "unat c \<le> 2 ^ unat b" "bp_read M s = cortex_logical2hw c b" by blast
    have "p \<le> c" using True c(1) by (simp add: word_le_nat_alt)
    with hw_le_iff [OF assms(2) c(1,2) assms(3,4)] c(3) n assms(6) show False by (simp add: masked_def)
  qed
  with True documentedD(1) [OF assms(1)] show ?thesis by (simp add: run_def)
next
  case False
  with documentedD(1) [OF assms(1)] show ?thesis by (simp add: run_def Let_def)
qed

text \<open>A lock at the ceiling of a resource masks every task that lists the resource, at the priority that
  \<open>post_init\<close> gives its interrupt.\<close>

definition prio_ok :: "8 word \<Rightarrow> rtic_task \<Rightarrow> bool" where
  "prio_ok b t \<longleftrightarrow> 1 \<le> unat (ta_priority (rt_args t)) \<and> unat (ta_priority (rt_args t)) \<le> 2 ^ unat b"

lemma ceiling_excludes:
  assumes "documented M" and "prio_bits b" and "\<forall>t \<in> set ts. prio_ok b t"
    and "u \<in> set ts" and "r \<in> set (ta_shared (rt_args u))"
  shows "fst (lock M (ucast (ceiling ts r)) b (\<lambda>s. (masked M s (cortex_logical2hw (ucast (ta_priority (rt_args u))) b), s)) s)"
proof -
  have small: "unat (ucast q :: 8 word) = unat q" if "unat q \<le> 2 ^ unat b" for q :: prio
  proof -
    have "(2 :: nat) ^ unat b \<le> 2 ^ 7" using assms(2) by (intro power_increasing) (auto simp: prio_bits_def)
    with that have "unat q < 2 ^ 8" by simp
    then show ?thesis by (simp add: unsigned_ucast_eq take_bit_nat_eq_self)
  qed
  have ge: "ta_priority (rt_args u) \<le> ceiling ts r" by (rule ceiling_ge [OF assms(4,5)])
  have pos: "1 \<le> unat (ta_priority (rt_args u))" "unat (ta_priority (rt_args u)) \<le> 2 ^ unat b"
    using assms(3,4) by (auto simp: prio_ok_def)
  have "ceiling ts r \<noteq> 0" using ge pos(1) by auto
  with ceiling_attained [of ts r] obtain t where t: "t \<in> set ts" "ta_priority (rt_args t) = ceiling ts r" by auto
  then have c: "1 \<le> unat (ceiling ts r)" "unat (ceiling ts r) \<le> 2 ^ unat b"
    using assms(3) unfolding prio_ok_def by (metis, metis)
  let ?c = "ucast (ceiling ts r) :: 8 word" and ?p = "ucast (ta_priority (rt_args u)) :: 8 word"
  have "?p \<le> ?c" using ge small pos(2) c(2) by (simp add: word_le_nat_alt)
  with lock_entry_masks [OF assms(1,2), of ?c ?p s] small c pos
  have "masked M (lock_entry M ?c b s) (cortex_logical2hw ?p b)" by simp
  with lock_calls [OF assms(1,2), of ?c "\<lambda>s. (masked M s (cortex_logical2hw ?p b), s)" s] show ?thesis by simp
qed

section \<open>Source masks\<close>

text \<open>The interrupts that a mask contains.\<close>

definition mask_has :: "mask \<Rightarrow> nat \<Rightarrow> bool" where
  "mask_has m n \<longleftrightarrow> n div 32 < length m \<and> bit (m ! (n div 32)) (n mod 32)"

lemma bit_or_single: "k < 32 \<Longrightarrow> bit (w OR 2 ^ j :: 32 word) k = (bit w k \<or> k = j)"
  by (auto simp: bit_or_iff bit_exp_iff)

lemma mask_set_bit_has:
  assumes "mask_set_bit b m = Some m'"
  shows "length m' = length m \<and> (\<forall>n. mask_has m' n \<longleftrightarrow> mask_has m n \<or> n = unat b)"
proof -
  have bl: "unat (b div 32) = unat b div 32" by (simp add: unat_div)
  have "b - b div 32 * 32 = b mod 32" by (simp add: minus_div_mult_eq_mod)
  then have off: "unat (b - b div 32 * 32) = unat b mod 32" by (simp add: unat_mod)
  from assms have l: "unat b div 32 < length m" and
    m': "m' = m[unat b div 32 := m ! (unat b div 32) OR push_bit (unat b mod 32) 1]"
    by (auto simp: mask_set_bit_def Let_def bl off split: if_splits)
  have "mask_has m' n \<longleftrightarrow> mask_has m n \<or> n = unat b" for n
  proof (cases "n div 32 = unat b div 32")
    case True
    then have "n = unat b \<longleftrightarrow> n mod 32 = unat b mod 32" by (metis div_mult_mod_eq)
    with True l show ?thesis by (simp add: mask_has_def m' bit_or_single)
  next
    case False
    then have "n \<noteq> unat b" by auto
    with False l show ?thesis by (auto simp: mask_has_def m')
  qed
  with m' show ?thesis by simp
qed

lemma set_bits_has:
  "set_bits bs m = Some m' \<Longrightarrow> length m' = length m \<and> (\<forall>n. mask_has m' n \<longleftrightarrow> mask_has m n \<or> n \<in> unat ` set bs)"
proof (induction bs arbitrary: m)
  case Nil
  then show ?case by simp
next
  case (Cons b bs)
  then obtain m1 where "mask_set_bit b m = Some m1" "set_bits bs m1 = Some m'" by (auto split: bind_splits)
  with mask_set_bit_has [OF this(1)] Cons.IH [of m1] show ?case by auto
qed

lemma set_bits_total: "(\<forall>b \<in> set bs. unat b div 32 < length m) \<Longrightarrow> \<exists>m'. set_bits bs m = Some m'"
proof (induction bs arbitrary: m)
  case Nil
  then show ?case by simp
next
  case (Cons b bs)
  have "unat (b div 32) = unat b div 32" by (simp add: unat_div)
  with Cons.prems obtain m1 where m1: "mask_set_bit b m = Some m1" by (auto simp: mask_set_bit_def Let_def)
  with mask_set_bit_has [OF this] Cons show ?case by auto
qed

lemma max_id_Cons: "max_id (i # xs) m = max_id xs (max m i)"
proof -
  have "(if m < i then i else m) = max m i" unfolding max_def by (metis le_less)
  then show ?thesis by simp
qed

lemma max_id_ge: "m \<le> max_id xs m \<and> (\<forall>i \<in> set xs. i \<le> max_id xs m)"
proof (induction xs arbitrary: m)
  case Nil
  then show ?case by simp
next
  case (Cons i xs)
  from Cons [of "max m i"] show ?case unfolding max_id_Cons by auto
qed

lemma max_id_in: "max_id xs m = m \<or> max_id xs m \<in> set xs"
proof (induction xs arbitrary: m)
  case Nil
  then show ?case by simp
next
  case (Cons i xs)
  from Cons [of "max m i"] show ?case unfolding max_id_Cons by (auto simp: max_def split: if_splits)
qed

text \<open>
  The compile-time mask table never panics and is exact: for interrupt numbers small enough that
  the number of chunks does not overflow (there are at most 480), the mask built for any part of the
  interrupts in use exists and contains exactly those interrupts.
\<close>

lemma create_mask_exact:
  assumes "set ids \<subseteq> set all" and "\<forall>i \<in> set all. unat i < 2 ^ 32 - 32"
  shows "\<exists>m. create_mask (compute_mask_chunks all) ids = Some m \<and> length m = compute_mask_chunks all \<and>
    (\<forall>n. mask_has m n \<longleftrightarrow> n \<in> unat ` set ids)"
proof -
  let ?M = "max_id all 0"
  have M: "unat ?M < 2 ^ 32 - 32" using max_id_in [of all 0] assms(2) by auto
  then have "unat (?M + 32) = unat ?M + 32" by (simp add: unat_word_ariths)
  then have ch: "compute_mask_chunks all = (unat ?M + 32) div 32" by (simp add: compute_mask_chunks_def unat_div)
  have "unat b div 32 < length (replicate (compute_mask_chunks all) (0 :: 32 word))" if "b \<in> set ids" for b
  proof -
    have "b \<le> ?M" using max_id_ge [of 0 all] assms(1) that by auto
    then have "unat b div 32 \<le> unat ?M div 32" by (simp add: word_le_nat_alt div_le_mono)
    then show ?thesis by (simp add: ch)
  qed
  then obtain m where m: "set_bits ids (replicate (compute_mask_chunks all) 0) = Some m"
    using set_bits_total by blast
  have "\<not> mask_has (replicate k 0) n" for k n by (auto simp: mask_has_def)
  with set_bits_has [OF m] m show ?thesis by (auto simp: create_mask_def)
qed

lemma create_mask_exact_witness:
  "\<exists>m. create_mask (compute_mask_chunks [3, 40]) [40] = Some m \<and> mask_has m 40 \<and> \<not> mask_has m 3"
  using create_mask_exact [of "[40]" "[3, 40]"] by auto

section \<open>The source masking lock\<close>

lemma mask_has_or: "length a = length b \<Longrightarrow> mask_has (bitor_assign a b) n \<longleftrightarrow> mask_has a n \<or> mask_has b n"
  by (auto simp: mask_has_def bitor_assign_def bit_or_iff)

lemma bitor_fold:
  assumes "length a = M" and "\<forall>m \<in> set ms. length m = M"
  shows "length (foldl bitor_assign a ms) = M \<and> (mask_has (foldl bitor_assign a ms) n \<longleftrightarrow> mask_has a n \<or> (\<exists>m \<in> set ms. mask_has m n))"
  using assms
proof (induction ms arbitrary: a)
  case Nil
  then show ?case by simp
next
  case (Cons m ms)
  then have "length (bitor_assign a m) = M" by (simp add: bitor_assign_def)
  with Cons mask_has_or [of a m n] show ?case by auto
qed

lemma compute_mask_has:
  assumes "\<forall>m \<in> set masks. length m = M"
  shows "mask_has (compute_mask M from to masks) n \<longleftrightarrow> (\<exists>k. from \<le> k \<and> k < to \<and> k < length masks \<and> mask_has (masks ! k) n)"
proof -
  let ?sl = "take (to - from) (drop from masks)"
  have "\<forall>m \<in> set ?sl. length m = M" using assms by (meson in_set_dropD in_set_takeD)
  with bitor_fold [of "replicate M 0" M ?sl n] have
    "mask_has (compute_mask M from to masks) n \<longleftrightarrow> (\<exists>m \<in> set ?sl. mask_has m n)"
    by (auto simp: compute_mask_def mask_has_def)
  also have "\<dots> \<longleftrightarrow> (\<exists>j < length ?sl. mask_has (?sl ! j) n)" by (metis in_set_conv_nth)
  also have "\<dots> \<longleftrightarrow> (\<exists>k. from \<le> k \<and> k < to \<and> k < length masks \<and> mask_has (masks ! k) n)"
  proof
    assume "\<exists>j < length ?sl. mask_has (?sl ! j) n"
    then obtain j where "j < length ?sl" "mask_has (?sl ! j) n" by blast
    then show "\<exists>k. from \<le> k \<and> k < to \<and> k < length masks \<and> mask_has (masks ! k) n"
      by (intro exI [of _ "from + j"]) auto
  next
    assume "\<exists>k. from \<le> k \<and> k < to \<and> k < length masks \<and> mask_has (masks ! k) n"
    then obtain k where "from \<le> k" "k < to" "k < length masks" "mask_has (masks ! k) n" by blast
    then show "\<exists>j < length ?sl. mask_has (?sl ! j) n" by (intro exI [of _ "k - from"]) auto
  qed
  finally show ?thesis .
qed

lemma nvic_documentedD:
  assumes "nvic_documented V"
  shows "enabled V (iser_write V i v s) n = (enabled V s n \<or> (n div 32 = i \<and> bit v (n mod 32)))"
    "enabled V (icer_write V i v s) n = (enabled V s n \<and> \<not> (n div 32 = i \<and> bit v (n mod 32)))"
  using assms unfolding nvic_documented_def by blast+

text \<open>A chunk of the mask counts from position \<open>i\<close> on.\<close>

definition chunk_has :: "nat \<Rightarrow> mask \<Rightarrow> nat \<Rightarrow> bool" where
  "chunk_has i m n \<longleftrightarrow> i \<le> n div 32 \<and> n div 32 - i < length m \<and> bit (m ! (n div 32 - i)) (n mod 32)"

lemma chunk_has_simps:
  "\<not> chunk_has i [] n"
  "chunk_has i (m # ms) n \<longleftrightarrow> (n div 32 = i \<and> bit m (n mod 32)) \<or> chunk_has (Suc i) ms n"
proof -
  show "chunk_has i (m # ms) n \<longleftrightarrow> (n div 32 = i \<and> bit m (n mod 32)) \<or> chunk_has (Suc i) ms n"
    by (auto simp: chunk_has_def nth_Cons')
qed (simp add: chunk_has_def)

lemma write_chunks_iser:
  assumes "nvic_documented V"
  shows "enabled V (write_chunks (iser_write V) i m s) n \<longleftrightarrow> enabled V s n \<or> chunk_has i m n"
proof (induction m arbitrary: i s)
  case Nil
  then show ?case by (simp add: chunk_has_simps)
next
  case (Cons m ms)
  then show ?case by (auto simp: chunk_has_simps nvic_documentedD [OF assms])
qed

lemma write_chunks_icer:
  assumes "nvic_documented V"
  shows "enabled V (write_chunks (icer_write V) i m s) n \<longleftrightarrow> enabled V s n \<and> \<not> chunk_has i m n"
proof (induction m arbitrary: i s)
  case Nil
  then show ?case by (simp add: chunk_has_simps)
next
  case (Cons m ms)
  then show ?case by (auto simp: chunk_has_simps nvic_documentedD [OF assms])
qed

lemma chunk_has_mask: "chunk_has 0 m n = mask_has m n"
  by (simp add: chunk_has_def mask_has_def)

lemma set_enable_mask_has: "nvic_documented V \<Longrightarrow> enabled V (set_enable_mask V m s) n \<longleftrightarrow> enabled V s n \<or> mask_has m n"
  by (simp add: set_enable_mask_def write_chunks_iser chunk_has_mask)

lemma clear_enable_mask_has: "nvic_documented V \<Longrightarrow> enabled V (clear_enable_mask V m s) n \<longleftrightarrow> enabled V s n \<and> \<not> mask_has m n"
  by (simp add: clear_enable_mask_def write_chunks_icer chunk_has_mask)

text \<open>The interrupts of the levels above the task's priority up to the ceiling.\<close>

definition raised_levels :: "prio \<Rightarrow> prio \<Rightarrow> mask list \<Rightarrow> nat \<Rightarrow> bool" where
  "raised_levels p c masks n \<longleftrightarrow> (\<exists>level. unat p < level \<and> level \<le> unat c \<and> level \<le> length masks \<and> mask_has (masks ! (level - 1)) n)"

lemma source_mask_has:
  assumes "\<forall>m \<in> set masks. length m = M" and "p < c" and "c < (4 :: prio)"
  shows "mask_has (compute_mask M (unat (ucast p :: 8 word)) (unat (ucast c :: 8 word)) masks) n \<longleftrightarrow> raised_levels p c masks n"
proof -
  have "unat p < unat c" "unat c < 4" using assms(2,3) by (simp_all add: word_less_nat_alt)
  then have "unat (ucast p :: 8 word) = unat p" "unat (ucast c :: 8 word) = unat c"
    by (simp_all add: unsigned_ucast_eq take_bit_nat_eq_self)
  moreover have "(\<exists>k. unat p \<le> k \<and> k < unat c \<and> k < length masks \<and> mask_has (masks ! k) n) \<longleftrightarrow> raised_levels p c masks n"
  proof
    assume "\<exists>k. unat p \<le> k \<and> k < unat c \<and> k < length masks \<and> mask_has (masks ! k) n"
    then obtain k where "unat p \<le> k" "k < unat c" "k < length masks" "mask_has (masks ! k) n" by blast
    then show "raised_levels p c masks n" unfolding raised_levels_def by (intro exI [of _ "Suc k"]) simp
  next
    assume "raised_levels p c masks n"
    then obtain l where "unat p < l" "l \<le> unat c" "l \<le> length masks" "mask_has (masks ! (l - 1)) n"
      by (auto simp: raised_levels_def)
    then show "\<exists>k. unat p \<le> k \<and> k < unat c \<and> k < length masks \<and> mask_has (masks ! k) n"
      by (intro exI [of _ "l - 1"]) auto
  qed
  ultimately show ?thesis using compute_mask_has [OF assms(1)] by simp
qed

text \<open>
  (C21) The source masking lock, not nested: below ceiling 4 its closure runs with exactly the interrupts
  of the levels above the task's priority up to the ceiling disabled, all others as before, and
  afterwards the enabled interrupts are those before, if all of these levels were enabled and the
  closure changes none.
\<close>

theorem source_lock_masks_levels:
  assumes "nvic_documented V" and "\<forall>m \<in> set masks. length m = M" and "p < c" and "c < (4 :: prio)"
    and "\<forall>n. raised_levels p c masks n \<longrightarrow> enabled V s n" and "\<And>s n. enabled V (snd (f s)) n = enabled V s n"
  shows "\<exists>s1. fst (source_lock C V M p c masks f s) = fst (f s1) \<and>
    (\<forall>n. enabled V s1 n \<longleftrightarrow> enabled V s n \<and> \<not> raised_levels p c masks n) \<and>
    (\<forall>n. enabled V (snd (source_lock C V M p c masks f s)) n = enabled V s n)"
proof -
  let ?m = "compute_mask M (unat (ucast p :: 8 word)) (unat (ucast c :: 8 word)) masks"
  let ?s1 = "clear_enable_mask V ?m s"
  note H = source_mask_has [OF assms(2-4)]
  have e: "source_lock C V M p c masks f s = (case f ?s1 of (r, s2) \<Rightarrow> (r, set_enable_mask V ?m s2))"
    using assms(3) assms(4)[folded not_le] by (simp add: source_lock_def Let_def)
  obtain r s2 where f: "f ?s1 = (r, s2)" by force
  have s2: "enabled V s2 n = enabled V ?s1 n" for n using assms(6) [of ?s1 n] f by simp
  have "enabled V (set_enable_mask V ?m s2) n = enabled V s n" for n
    using assms(5) by (auto simp: set_enable_mask_has [OF assms(1)] s2 clear_enable_mask_has [OF assms(1)] H)
  then show ?thesis
    by (intro exI [of _ ?s1]) (simp add: e f clear_enable_mask_has [OF assms(1)] H)
qed

text \<open>A controller whose state is the set of enabled interrupts, and a mask table for the interrupts
  0, 1 and 2 of the levels 1, 2 and 3.\<close>

definition demo_nvic :: "(nat \<Rightarrow> bool) nvic" where
  "demo_nvic = \<lparr>iser_write = (\<lambda>i v s n. s n \<or> (n div 32 = i \<and> bit v (n mod 32))),
     icer_write = (\<lambda>i v s n. s n \<and> \<not> (n div 32 = i \<and> bit v (n mod 32))), enabled = (\<lambda>s. s)\<rparr>"

text \<open>A core without BASEPRI, for the locks that never turn interrupts off.\<close>

definition demo_v6m :: "(nat \<Rightarrow> bool, 'r) cortex" where
  "demo_v6m = \<lparr>bp_read = (\<lambda>_. 0), bp_write = (\<lambda>_ s. s), bp_max_write = (\<lambda>_ s. s), primask = (\<lambda>_. False),
     irq_free = (\<lambda>f s. f s), irq_off = (\<lambda>s. s), irq_on = (\<lambda>s. s)\<rparr>"

lemma demo_nvic_documented: "nvic_documented demo_nvic"
  by (simp add: nvic_documented_def demo_nvic_def)

definition demo_masks :: "mask list" where
  "demo_masks = [[1], [2], [4]]"

lemma demo_raised: "raised_levels 1 3 demo_masks 1" "raised_levels 1 2 demo_masks 1"
  by (auto simp: raised_levels_def demo_masks_def mask_has_def intro!: exI [of _ 2])

lemma source_lock_masks_levels_witness:
  "\<exists>s1. fst (source_lock demo_v6m demo_nvic 1 1 3 demo_masks (\<lambda>s. (s 1, s)) (\<lambda>_. True)) = fst ((\<lambda>s. (s 1, s)) s1) \<and> \<not> s1 1"
proof -
  have m: "\<forall>m \<in> set demo_masks. length m = 1" by (simp add: demo_masks_def)
  have en: "enabled demo_nvic = (\<lambda>s. s)" by (simp add: demo_nvic_def)
  show ?thesis
    using source_lock_masks_levels [OF demo_nvic_documented m, where p = 1 and c = 3 and s = "\<lambda>_. True"
        and f = "\<lambda>s. (s 1, s)" and C = demo_v6m] demo_raised(1) by (auto simp: en)
qed

text \<open>
  The source masking lock does not nest: a task of priority \<open>p\<close> that takes a lock of ceiling \<open>c'\<close>
  inside a lock of a higher or equal ceiling \<open>c\<close> gets the interrupts up to \<open>c'\<close> enabled when the
  inner lock ends, although the closure of the outer lock still runs: \<open>lock\<close> raises the ceiling from
  the task's static priority and not from the current ceiling.
\<close>

lemma nested_source_lock_unmasks:
  assumes "nvic_documented V" and "\<forall>m \<in> set masks. length m = M" and "p < c'" and "c' \<le> c" and "c < (4 :: prio)"
    and "raised_levels p c' masks n"
  shows "fst (source_lock C V M p c masks (\<lambda>s1. (enabled V s1 n, s1)) s) = False \<and>
    fst (source_lock C V M p c masks (\<lambda>s1. case source_lock C V M p c' masks g s1 of (r, s2) \<Rightarrow> (enabled V s2 n, s2)) s) = True"
proof -
  have pc: "p < c" "c' < 4" using assms(3,4,5) by auto
  have r: "raised_levels p c masks n"
    using assms(4,6) unfolding raised_levels_def word_le_nat_alt by (meson order.trans)
  have o: "fst (source_lock C V M p c masks h s) = fst (h (clear_enable_mask V
      (compute_mask M (unat (ucast p :: 8 word)) (unat (ucast c :: 8 word)) masks) s))" for h
    using pc(1) assms(5)[folded not_le] by (simp add: source_lock_def Let_def split: prod.split)
  have i: "enabled V (snd (source_lock C V M p c' masks g s1)) n" for s1
    using assms(3) pc(2)[folded not_le] source_mask_has [OF assms(2,3) pc(2), of n] assms(6)
    by (simp add: source_lock_def Let_def set_enable_mask_has [OF assms(1)] split: prod.split)
  have "(case source_lock C V M p c' masks g s1 of (r, s2) \<Rightarrow> (enabled V s2 n, s2)) = (True, snd (source_lock C V M p c' masks g s1))" for s1
    using i [of s1] by (auto split: prod.split)
  then show ?thesis
    unfolding o using r source_mask_has [OF assms(2) pc(1) assms(5), of n]
    by (simp add: clear_enable_mask_has [OF assms(1)])
qed

lemma nested_source_lock_unmasks_witness:
  "fst (source_lock demo_v6m demo_nvic 1 1 3 demo_masks
     (\<lambda>s1. case source_lock demo_v6m demo_nvic 1 1 2 demo_masks (\<lambda>s. (False, s)) s1 of (r, s2) \<Rightarrow> (enabled demo_nvic s2 1, s2)) (\<lambda>_. True))"
  using nested_source_lock_unmasks [OF demo_nvic_documented, of demo_masks 1 1 2 3 1] demo_raised(2)
  by (simp add: demo_masks_def)

end
