(* ===== verification/CortexApp.thy ===== *)
theory CortexApp
  imports CortexM AsyncPass
begin

text \<open>
  The distribution for single-core Cortex-M, \<open>rticx-macro/src/lib.rs\<close>: the backend of the software and async passes, and
  the macro \<open>app\<close> as a whole, the pipeline of \<open>rticx-core\<close> with the Cortex-M backend.  The mock backend of
  \<open>rticx-core/src/mock_backend.rs\<close> is here too.
\<close>

section \<open>The backend of the passes\<close>

definition cm_queue_path :: path where
  "cm_queue_path = join_path (join_path (ident_path ''rticx_cortex_m'') ''export'') ''Queue''"

text \<open>The bodies of the pend functions, whose parameters are the interrupt and its type; there is no second core.\<close>

definition cm_pend :: "core \<Rightarrow> ident \<times> path \<Rightarrow> tokens" where
  "cm_pend core f = ''rticx_cortex_m::export::NVIC::pend(irq_nbr);''"

definition cm_sw_backend :: sw_backend where
  "cm_sw_backend = \<lparr>sb_queue_path = cm_queue_path, sb_local_pend = cm_pend, sb_cross_pend = (\<lambda>_ _. None),
     sb_interrupt_path = (\<lambda>_. None), sb_current_core_id = None\<rparr>"

definition cm_stack_overflow_check :: "core \<Rightarrow> tokens option" where
  "cm_stack_overflow_check core = Some
     (''{ unsafe extern '' @ [CHR 0x22] @ ''C'' @ [CHR 0x22] @ '' { static _stack_start: u32; static __ebss: u32; } '' @
      ''let stack_start = unsafe { &_stack_start as *const _ as u32 }; let ebss = unsafe { &__ebss as *const _ as u32 }; '' @
      ''if stack_start > ebss { if rticx_cortex_m::export::msp::read() <= ebss { '' @
      ''::core::panic!('' @ [CHR 0x22] @ ''Stack overflow after allocating executors'' @ [CHR 0x22] @ ''); } } }'')"

definition cm_async_backend :: async_backend where
  "cm_async_backend = \<lparr>sb_queue_path = cm_queue_path, sb_local_pend = cm_pend, sb_cross_pend = (\<lambda>_ _. None),
     sb_interrupt_path = (\<lambda>_. None), sb_current_core_id = None,
     ab_wake_pend = cm_pend,
     ab_runtime = join_path (join_path (ident_path ''rticx_cortex_m'') ''export'') ''async_rt'',
     ab_stack_check = cm_stack_overflow_check\<rparr>"

section \<open>The mock backend\<close>

definition mock_backend :: "(nat \<Rightarrow> ident) \<Rightarrow> backend" where
  "mock_backend show_nat = \<lparr>
     be_post_init = (\<lambda>_ _ _. None),
     be_lock = (\<lambda>_ _ lf. lf\<lparr>lf_body := ''f(unsafe { &mut *resource_ptr })''\<rparr>),
     be_global_defs = (\<lambda>_ _ _. Some []),
     be_wrap = (\<lambda>_ call. Some call),
     be_entry_name = (\<lambda>core. if core = 0 then ''main'' else ''main_'' @ show_nat (unat core)),
     be_idle_loop = None, be_enable = None,
     be_free = (\<lambda>f. f\<lparr>ff_body := ''f()''\<rparr>),
     be_validate = (\<lambda>_ _. Ok ()), be_entry_attrs = [], be_task_attrs = (\<lambda>_. [])\<rparr>"

text \<open>It keeps the constants of the lock functions, as every backend has to.\<close>

lemma mock_keeps_constants:
  "be_lock (mock_backend sn) args sa lf = lf\<lparr>lf_body := lf_body (be_lock (mock_backend sn) args sa lf)\<rparr>"
  by (simp add: mock_backend_def)

section \<open>The macro\<close>

text \<open>\<open>app\<close>, with the features of the crate; the two passes are given with their state.\<close>

definition cortex_app :: "naming \<Rightarrow> printers \<Rightarrow> cm_printers \<Rightarrow> bool \<Rightarrow> bool \<Rightarrow> bool \<Rightarrow> pass \<Rightarrow> pass \<Rightarrow>
    expand_log option \<Rightarrow> file_system \<Rightarrow> arg_tokens \<Rightarrow> item_mod \<Rightarrow> file_system \<times> outcome" where
  "cortex_app N P C armv6m swtasks async sw_pass async_pass log fs args m =
     build_rtic_macro2 N P (\<lambda>_. cortex_backend C armv6m) (cm_passes swtasks async sw_pass async_pass) bus_new log fs args m"

text \<open>The statement of \<open>post_init\<close> that gives a task's interrupt its priority.\<close>

definition sets_priority :: "app_args \<Rightarrow> sub_app \<Rightarrow> rtic_task \<Rightarrow> bool" where
  "sets_priority args sa t \<longleftrightarrow>
     (\<forall>irq. ta_binds (rt_args t) = Some irq \<longrightarrow>
        (let pac = aa_pacs args ! unat (sa_core sa); p = ta_priority (rt_args t);
             stmts = set (cm_post_init args sa (sub_analysis_run sa))
         in AssertPriority pac p \<in> stmts \<and>
            (if is_exception irq then ScbSetPriority irq (ucast p) pac \<in> stmts
             else NvicSetPriority pac irq (ucast p) \<in> stmts \<and> NvicUnmask pac irq \<in> stmts)))"

lemma post_init_sets_priority: "t \<in> set (sa_tasks sa) \<Longrightarrow> sets_priority args sa t"
proof -
  assume t: "t \<in> set (sa_tasks sa)"
  have "set (irq_stmts (aa_pacs args ! unat (sa_core sa)) \<lparr>ui_name = irq, ui_priority = ta_priority (rt_args t)\<rparr>) \<subseteq>
      set (cm_post_init args sa (sub_analysis_run sa))" if "ta_binds (rt_args t) = Some irq" for irq
  proof -
    have "\<lparr>ui_name = irq, ui_priority = ta_priority (rt_args t)\<rparr> \<in> set (used_irqs (sub_analysis_run sa))"
      using t that by (force simp: sub_analysis_run_def List.map_filter_def)
    then show ?thesis by (force simp: cm_post_init_def)
  qed
  then show ?thesis
    unfolding sets_priority_def Let_def irq_stmts_def by (auto split: if_splits)
qed

text \<open>
  What a lock promises: for every resource that a task of the core lists there is the lock function of the resource in the
  generated module, and while \<open>export::lock\<close> runs a critical section with the ceiling of that function, the interrupt
  of every task that lists the resource is masked; \<open>post_init\<close> has given it the priority the mask is compared with.
\<close>

definition locks_exclude :: "('s, bool) cortex \<Rightarrow> 8 word \<Rightarrow> naming \<Rightarrow> gitem list \<Rightarrow> app \<Rightarrow> bool" where
  "locks_exclude M b N items a \<longleftrightarrow>
     (\<forall>sa \<in> set (sub_apps a). \<forall>sr t r. sa_shared sa = Some sr \<and> (\<forall>v \<in> set (sa_tasks sa). prio_ok b v) \<and>
        t \<in> set (sa_tasks sa) \<and> r \<in> set (ta_shared (rt_args t)) \<longrightarrow>
      (\<exists>ty lf. GProxy (get_proxy_name r) ty lf \<in> set items \<and>
         lf_static lf = shared_static N sr \<and> lf_field lf = r \<and>
         (\<forall>u \<in> set (sa_tasks sa). r \<in> set (ta_shared (rt_args u)) \<longrightarrow>
            sets_priority (app_args a) sa u \<and>
            (\<forall>s. fst (lock M (ucast (lf_ceiling lf)) b
               (\<lambda>s. (masked M s (cortex_logical2hw (ucast (ta_priority (rt_args u))) b), s)) s)))))"

lemma sound_locks_exclude:
  assumes "documented M" and "prio_bits b" and l: "locks_sound N items a"
  shows "locks_exclude M b N items a"
proof -
  have *: "\<exists>ty lf. GProxy (get_proxy_name r) ty lf \<in> set items \<and> lf_static lf = shared_static N sr \<and> lf_field lf = r \<and>
      (\<forall>u \<in> set (sa_tasks sa). r \<in> set (ta_shared (rt_args u)) \<longrightarrow> sets_priority (app_args a) sa u \<and>
        (\<forall>s. fst (lock M (ucast (lf_ceiling lf)) b
           (\<lambda>s. (masked M s (cortex_logical2hw (ucast (ta_priority (rt_args u))) b), s)) s)))"
    if h: "sa \<in> set (sub_apps a)" "sa_shared sa = Some sr" "\<forall>v \<in> set (sa_tasks sa). prio_ok b v"
      "t \<in> set (sa_tasks sa)" "r \<in> set (ta_shared (rt_args t))" for sa sr t r
  proof -
    obtain ty lf where lf: "GProxy (get_proxy_name r) ty lf \<in> set items" "lf_static lf = shared_static N sr"
        "lf_field lf = r" and c: "lf_ceiling lf = ceiling (sa_tasks sa) r"
      using l h(1,2,4,5) unfolding locks_sound_def by blast
    show ?thesis
    proof (intro exI conjI ballI impI allI)
      fix u s assume u: "u \<in> set (sa_tasks sa)" "r \<in> set (ta_shared (rt_args u))"
      show "fst (lock M (ucast (lf_ceiling lf)) b
          (\<lambda>s. (masked M s (cortex_logical2hw (ucast (ta_priority (rt_args u))) b), s)) s)"
        unfolding c by (rule ceiling_excludes [OF assms(1,2) h(3) u])
    qed (use lf post_init_sets_priority in blast)+
  qed
  show ?thesis unfolding locks_exclude_def
    by (intro ballI allI impI) (elim conjE, rule *)
qed


lemma demo_cortex_build:
  "\<exists>g. snd (cortex_app demo_naming no_printers C False False False sp ap None empty_fs demo_args lock_mod) = Code g"
proof -
  obtain an where "analysis_run lock_app = Ok (lock_app_analysed, an)" using lock_analysis by blast
  moreover have "be_validate (cortex_backend C False) lock_app_analysed x = Ok ()" for x
    by (simp add: cortex_backend_def pre_codegen_validation_ok lock_app_analysed_def lock_app_def lock_task_def)
  ultimately show ?thesis
    by (simp add: cortex_app_def cm_passes_def build_rtic_macro2_def Let_def lock_parse core_pass_def publish_def bus_new_def)
qed


end
