(* ===== verification/AsyncCompose.thy ===== *)
theory AsyncCompose
  imports Compose AsyncSlots CortexApp
begin

text \<open>
  The async-task pass and the core pass in a row: the dispatchers and the tasks of the former become hardware tasks and tasks of
  the latter, as for software tasks, and its executor of the tasks of priority 0 (\<open>generate_idle_executor\<close> in
  \<open>rticx-async-pass/src/codegen/mod.rs\<close>) becomes the idle task of its core.
\<close>

section \<open>An idle struct through the core parser\<close>

lemma insert_idle_keeps:
  "insert_idle impls out si = Ok out' \<Longrightarrow> out c = Some t \<Longrightarrow> out' c = Some t"
  by (auto simp: insert_idle_def Let_def split: prod.splits if_splits)

lemma construct_idle_keeps:
  "rfold (insert_idle impls) out ss = Ok out' \<Longrightarrow> out c = Some t \<Longrightarrow> out' c = Some t"
  by (rule rfold_invariant [where P = "\<lambda>q. q c = Some t" and f = "insert_idle impls" and s = out and xs = ss])
    (auto dest: insert_idle_keeps)

lemma construct_idle_member:
  "rfold (insert_idle impls) out ss = Ok out' \<Longrightarrow> (s, i) \<in> set ss \<Longrightarrow>
     \<exists>args t. task_args_parse (st_attrs s ! i) = Ok args \<and> out' (ta_core args) = Some t \<and>
       task_name t = st_ident s \<and> rt_args t = args\<lparr>ta_trait := IDLE_TRAIT_TY\<rparr>"
proof (induction ss arbitrary: out)
  case Nil
  then show ?case by simp
next
  case (Cons x ss)
  then obtain out1 where o: "insert_idle impls out x = Ok out1" "rfold (insert_idle impls) out1 ss = Ok out'" by auto
  show ?case
  proof (cases "x = (s, i)")
    case True
    from o(1) obtain args t where a: "task_args_parse (st_attrs s ! i) = Ok args" "out1 (ta_core args) = Some t"
        "task_name t = st_ident s" "rt_args t = args\<lparr>ta_trait := IDLE_TRAIT_TY\<rparr>"
      by (auto simp: insert_idle_def True Let_def task_name_def split: if_splits)
    with construct_idle_keeps [OF o(2) a(2)] show ?thesis by blast
  next
    case False
    then show ?thesis using Cons.IH [OF o(2)] Cons.prems(2) by auto
  qed
qed

lemma app_parse_idle:
  assumes "app_parse ts m = Ok a" and "mod_content m = Some items" and "IStruct s \<in> set items"
    and "idle_item (IStruct s) = Some (s, i)"
  shows "\<exists>args. task_args_parse (st_attrs s ! i) = Ok args \<and>
    (\<forall>sa \<in> set (sub_apps a). sa_core sa = ta_core args \<longrightarrow>
       (\<exists>t. sa_idle sa = Some t \<and> task_name t = st_ident s \<and> rt_args t = args\<lparr>ta_trait := IDLE_TRAIT_TY\<rparr>))"
proof -
  from assms(1) obtain args items' shared inits post_inits idles tasks where p: "mod_content m = Some items'"
    "construct_idle_tasks (c_impls (collect_items items')) (c_idles (collect_items items')) = Inr idles"
    "rcollect (build_sub_app shared inits post_inits idles (grouped tasks)) (core_list (aa_cores args)) = Inr (sub_apps a)"
    "app_args a = args"
    by (rule app_parse_Inr) blast
  have "c_idles (collect_items items') = List.map_filter idle_item items"
    using p(1) assms(2) by (simp add: collect_items_def collect_idles collected_empty_def)
  moreover have "(s, i) \<in> set (List.map_filter idle_item items)"
    using assms(3,4) by (force simp: List.map_filter_def)
  ultimately obtain ar t where t: "task_args_parse (st_attrs s ! i) = Ok ar" "idles (ta_core ar) = Some t"
      "task_name t = st_ident s" "rt_args t = ar\<lparr>ta_trait := IDLE_TRAIT_TY\<rparr>"
    using construct_idle_member [OF p(2) [unfolded construct_idle_tasks_def], of s i] by auto
  have "sa_idle sa = idles (sa_core sa)" if "sa \<in> set (sub_apps a)" for sa
    using build_sub_app_Inr(2) [OF p(3) that] by simp
  with t show ?thesis by (intro exI [of _ ar]) auto
qed

definition idle_attr :: "core \<Rightarrow> meta" where
  "idle_attr core = attr_of ''idle'' [(''core'', EInt (unat core)), (''init'', ident_expr ''generated'')]"

lemma idle_struct:
  "idle_item (IStruct \<lparr>st_attrs = [idle_attr core], st_ident = n, st_fields = []\<rparr>) =
     Some (\<lparr>st_attrs = [idle_attr core], st_ident = n, st_fields = []\<rparr>, 0)"
  by (simp add: idle_item_def is_struct_with_attr_def idle_attr_def attr_of_def names_attr_def ident_path_def)

lemma idle_args:
  assumes "task_args_parse (idle_attr core) = Ok r"
  shows "ta_core r = core \<and> ta_generated r"
proof -
  have "from_meta (idle_attr core) = Ok \<lparr>attr_name = ''idle'', elements =
      [(''core'', EInt (unat core)), (''init'', ident_expr ''generated'')]\<rparr>"
    by (simp add: idle_attr_def attr_of_def from_meta_list insert_arg_def)
  with assms have "task_args_spec \<lparr>attr_name = ''idle'', elements =
      [(''core'', EInt (unat core)), (''init'', ident_expr ''generated'')]\<rparr> r"
    by (auto simp: task_args_parse_spec)
  then show ?thesis
    by (auto simp: task_args_spec_def int_arg_def ident_arg_def get_expr_def word_unat_eq_iff split: if_splits)
qed

section \<open>The tasks as they were declared\<close>

lemma async_take_declared:
  assumes "async_take_task cores s si = Ok s'" and "\<forall>t \<in> set (snd s). declared ASYNC_TASK_TRAIT_TY t"
  shows "\<forall>t \<in> set (snd s'). declared ASYNC_TASK_TRAIT_TY t"
proof -
  obtain impls tasks strct i where e: "s = (impls, tasks)" "si = (strct, i)" by (cases s, cases si) blast
  obtain at ps im where p: "from_meta (st_attrs strct ! i) = Ok at" "task_params_from_attr at = Ok ps"
      "snd s' = tasks @ [\<lparr>sw_params = ps, sw_attr = into_task_attr at ASYNC_TASK_TRAIT_TY,
         sw_struct = strct\<lparr>st_attrs := remove_nth i (st_attrs strct)\<rparr>, sw_impl = im\<rparr>]"
    using assms(1) by (auto simp: async_take_task_def e Let_def split: if_splits)
  from p(1,2) have "declared ASYNC_TASK_TRAIT_TY \<lparr>sw_params = ps, sw_attr = into_task_attr at ASYNC_TASK_TRAIT_TY,
         sw_struct = strct\<lparr>st_attrs := remove_nth i (st_attrs strct)\<rparr>, sw_impl = im\<rparr>"
    by (auto simp: declared_def dest: from_meta_wf)
  with assms(2) p(3) show ?thesis by (simp add: e(1))
qed

lemma async_parsed:
  assumes "async_app_parse oa args m = Ok parsed"
  shows "app_parameters_parse args = Ok (sx_params parsed)"
    and "map ss_core (sx_sub_apps parsed) = core_list (ap_cores (sx_params parsed))"
    and "sa \<in> set (sx_sub_apps parsed) \<Longrightarrow> t \<in> set (core_tasks sa) \<Longrightarrow>
      tp_core (sw_params t) = ss_core sa \<and> declared ASYNC_TASK_TRAIT_TY t"
proof -
  from assms [unfolded async_app_parse_def Let_def] obtain ps and c :: async_collected and r where q: "app_parameters_parse args = Ok ps"
      "rfold (async_take_task (ap_cores ps)) (sc_impls c, []) (sc_structs c) = Ok r"
      "(case r of (impls, tasks) \<Rightarrow>
         if has_prio_0 (map (sw_sub_app_of ps tasks) (core_list (ap_cores ps))) \<and> ac_user_idle c then Err IdleWithPrioZero
         else Ok \<lparr>sx_ident = mod_ident m, sx_params = ps,
         sx_sub_apps = map (sw_sub_app_of ps tasks) (core_list (ap_cores ps)),
         sx_rest = sc_rest c @ map (IImpl \<circ> snd) impls\<rparr>) = (Ok parsed :: sw_app result)"
    by (elim rbind_OkE) (rule that)
  obtain impls tasks where "r = (impls, tasks)" by (cases r)
  note p = q(1) q(2) [unfolded this] q(3) [unfolded this]
  have e: "sx_params parsed = ps" "sx_sub_apps parsed = map (sw_sub_app_of ps tasks) (core_list (ap_cores ps))"
    using p(3) by (auto split: if_splits)
  show "app_parameters_parse args = Ok (sx_params parsed)" using p(1) e by simp
  show "map ss_core (sx_sub_apps parsed) = core_list (ap_cores (sx_params parsed))"
    using e by (simp add: sw_sub_app_of_def comp_def)
  have "\<forall>t \<in> set (snd (impls, tasks)). declared ASYNC_TASK_TRAIT_TY t"
    by (rule rfold_invariant [OF p(2), where P = "\<lambda>s. \<forall>t \<in> set (snd s). declared ASYNC_TASK_TRAIT_TY t"])
      (simp, rule async_take_declared)
  then show "sa \<in> set (sx_sub_apps parsed) \<Longrightarrow> t \<in> set (core_tasks sa) \<Longrightarrow>
      tp_core (sw_params t) = ss_core sa \<and> declared ASYNC_TASK_TRAIT_TY t"
    using e by (auto simp: sw_sub_app_of_def on_core_def)
qed

section \<open>The core pass reads the dispatchers, the tasks and the idle executor\<close>

text \<open>
  (C25) What the async-task pass hands to the core pass, when both succeed: for every core there is the sub-application of this core;
  for every priority group of the analysis it has the group's dispatcher, a hardware task bound to the interrupt of the group, with
  the priority of the group, which is then among the used interrupts; every async task of the core is a task of it, with the
  async-task trait and with its priority if one is written; and if the core has tasks of priority 0, the executor generated
  for them is the idle task of the core.
\<close>

theorem async_tasks_reach_core:
  assumes "async_run_pass N pr oa B args m = Ok (st, parsed, ans, args', m')" and "app_parse args' m' = Ok a"
    and "(sa, an) \<in> set (zip (sx_sub_apps parsed) ans)"
  shows "\<exists>s \<in> set (sub_apps a). sa_core s = ss_core sa \<and>
    (\<forall>p \<in> fst ` set (sn_groups an). \<exists>d \<in> set (sa_tasks s). dispatcher_of N an p d \<and>
       \<lparr>ui_name = the (ta_binds (rt_args d)), ui_priority = p\<rparr> \<in> set (used_irqs (sub_analysis_run s))) \<and>
    (\<forall>t \<in> set (ss_tasks sa @ ss_mc_tasks sa). \<exists>u \<in> set (sa_tasks s). task_name u = sw_name t \<and>
       ta_trait (rt_args u) = ASYNC_TASK_TRAIT_TY \<and>
       (ta_priority (rt_args u) = tp_priority (sw_params t) \<or> tp_priority (sw_params t) = 0 \<and> ta_priority (rt_args u) = 1)) \<and>
    (an_prio_0 an \<noteq> [] \<longrightarrow> (\<exists>i. sa_idle s = Some i \<and> task_name i = idle_executor_ident N (ss_core sa) \<and>
       ta_generated (rt_args i) \<and> ta_trait (rt_args i) = IDLE_TRAIT_TY))"
proof -
  obtain attr where p: "async_app_parse oa args m = Ok parsed" "async_analysis_run parsed = Ok ans"
      "parse_from_tokens args ''app'' = Ok attr" "args' = args_tokens (attr\<lparr>elements := AList.delete ''dispatchers'' (elements attr)\<rparr>)"
      "mod_content m' = Some (sx_rest parsed @ map (async_to_item pr) (async_codegen N B parsed ans))"
    using assms(1) by (auto simp: async_run_pass_def Let_def split: if_splits)
  let ?items = "sx_rest parsed @ map (async_to_item pr) (async_codegen N B parsed ans)"
  let ?ty = "async_interrupt_ty B (ap_pacs (sx_params parsed) ! unat (ss_core sa)) (ss_core sa)"
  have an: "async_analyse_subapp sa = Ok an" using p(2) assms(3) by (rule analysed_member)
  have c: "sn_core an = ss_core sa" using an by (rule async_groupsE)
  have sa: "sa \<in> set (sx_sub_apps parsed)" using assms(3) by (rule set_zip_leftD)
  then have "ss_core sa \<in> set (core_list (ap_cores (sx_params parsed)))"
    unfolding async_parsed(2) [OF p(1), symmetric] by simp
  from sub_app_of_core [OF async_parsed(1) [OF p(1)] p(3) assms(2) [unfolded p(4)] p(5) this]
  obtain s where s: "s \<in> set (sub_apps a)" "sa_core s = ss_core sa" by blast
  have item: "async_to_item pr g \<in> set ?items" if "g \<in> set (async_generate_subapp N B parsed (sa, an))" for g
    using that assms(3) by (force simp: async_codegen_def)
  note si = subapp_items [where N = N and B = B and a = parsed and an = an and sa = sa]
  have "\<exists>d \<in> set (sa_tasks s). dispatcher_of N an q d \<and>
       \<lparr>ui_name = the (ta_binds (rt_args d)), ui_priority = q\<rparr> \<in> set (used_irqs (sub_analysis_run s))"
    if q: "q \<in> fst ` set (sn_groups an)" for q
  proof -
    obtain es where es: "(q, es) \<in> set (sn_groups an)" using q by auto
    let ?st = "\<lparr>st_attrs = dispatcher_attrs (the (map_of (sn_dispatchers an) q)) q (sa_core s),
      st_ident = dispatcher_ident N q (sn_core an), st_fields = []\<rparr>"
    have "AgStruct ?st \<in> set (async_dispatcher N an (length (sx_sub_apps parsed)) ?ty (q, es))"
      by (simp add: async_dispatcher_def Let_def s(2) c)
    from item [OF si(5) [OF es this]] have "IStruct ?st \<in> set ?items" by simp
    from dispatcher_reaches_core [OF assms(2) p(5) s(1) this] show ?thesis by (auto simp: dispatcher_of_def)
  qed
  moreover have "\<exists>u \<in> set (sa_tasks s). task_name u = sw_name t \<and> ta_trait (rt_args u) = ASYNC_TASK_TRAIT_TY \<and>
       (ta_priority (rt_args u) = tp_priority (sw_params t) \<or> tp_priority (sw_params t) = 0 \<and> ta_priority (rt_args u) = 1)"
    if t: "t \<in> set (ss_tasks sa @ ss_mc_tasks sa)" for t
  proof -
    obtain at where at: "attr_wf at" "task_params_from_attr at = Ok (sw_params t)" "sw_attr t = into_task_attr at ASYNC_TASK_TRAIT_TY"
      and c: "tp_core (sw_params t) = sa_core s"
      using async_parsed(3) [OF p(1) sa t] s(2) unfolding declared_def by auto
    have "AgStruct ((sw_struct t)\<lparr>st_attrs := attr_tokens (sw_attr t) # st_attrs (sw_struct t)\<rparr>) \<in>
        set (async_generate_subapp N B parsed (sa, an))"
      by (rule si(1) [OF t]) (simp add: async_task_items_def)
    from item [OF this] have "IStruct ((sw_struct t)\<lparr>st_attrs := attr_tokens (into_task_attr at ASYNC_TASK_TRAIT_TY) #
        st_attrs (sw_struct t)\<rparr>) \<in> set ?items" by (simp add: at(3))
    from task_reaches_core [OF assms(2) p(5) s(1) at(1,2) c this] show ?thesis by (simp add: sw_name_def)
  qed
  moreover have "\<exists>i. sa_idle s = Some i \<and> task_name i = idle_executor_ident N (ss_core sa) \<and> ta_generated (rt_args i) \<and>
      ta_trait (rt_args i) = IDLE_TRAIT_TY" if z: "an_prio_0 an \<noteq> []"
  proof -
    let ?st = "\<lparr>st_attrs = [idle_attr (ss_core sa)], st_ident = idle_executor_ident N (ss_core sa), st_fields = []\<rparr>"
    have "AgStruct ?st \<in> set (generate_idle_executor N (an_prio_0 an) (sn_core an))"
      using z by (simp add: generate_idle_executor_def Let_def idle_attr_def c)
    from item [OF si(6) [OF this]] have "IStruct ?st \<in> set ?items" by simp
    from app_parse_idle [OF assms(2) p(5) this idle_struct] obtain r where r: "task_args_parse (idle_attr (ss_core sa)) = Ok r"
        "sa_core s = ta_core r \<longrightarrow> (\<exists>t. sa_idle s = Some t \<and> task_name t = idle_executor_ident N (ss_core sa) \<and>
           rt_args t = r\<lparr>ta_trait := IDLE_TRAIT_TY\<rparr>)" using s(1) by auto
    then show ?thesis using idle_args [OF r(1)] s(2) by auto
  qed
  ultimately show ?thesis using s by blast
qed

text \<open>A module with async tasks of priority 0 and 2, through both passes.\<close>

definition demo_idle_mod :: item_mod where
  "demo_idle_mod = \<lparr>mod_ident = ''app'', mod_content = Some
     [IFn \<lparr>fn_attrs = [attr_of ''init'' []], fn_ident = ''init'', fn_body = ''...''\<rparr>,
      IStruct \<lparr>st_attrs = [attr_of ''async_task'' [(''priority'', EInt 0)]], st_ident = ''A'', st_fields = []\<rparr>,
      IStruct \<lparr>st_attrs = [attr_of ''async_task'' [(''priority'', EInt 2)]], st_ident = ''B'', st_fields = []\<rparr>]\<rparr>"

lemma demo_idle_passes:
  "case async_run_pass N (\<lambda>_. []) (\<lambda>_. None) cm_async_backend demo_two_args demo_idle_mod of
     Inl e \<Rightarrow> False
   | Inr (st, parsed, ans, args', m') \<Rightarrow> is_ok (app_parse args' m') \<and>
       (\<exists>sa an. zip (sx_sub_apps parsed) ans = [(sa, an)] \<and> map fst (sn_groups an) = [2] \<and> ss_core sa = 0 \<and>
          sn_dispatchers an = [(2, ident_path ''I0'')] \<and> an_prio_0 an = [(''A'', 0, 1)])"
  by (simp add: async_run_pass_def async_app_parse_def app_parameters_parse_def demo_two_args_def parse_from_tokens_def insert_arg_def take_int_def
      take_expr_def ident_expr_def parse_dispatchers_def insert_dispatcher_def dispatcher_path_def get_expr_def ident_path_def demo_idle_mod_def
      async_collect_def async_collect_item_def find_async_task_attr_def attr_of_def get_ident_def item_attrs_def async_take_task_def
      take_impl_for_def from_meta_def task_params_from_attr_def parse_attr_int_def remove_nth_def sw_sub_app_of_def core_list_def
      is_local_def on_core_def Let_def has_prio_0_def is_prio_0_def async_analysis_run_def async_analyse_subapp_def async_push_local_def
      sw_name_def check_disjoint_priorities_def check_uniform_spawn_by_def group_extend_def assign_dispatchers_def
      args_tokens_def attr_tokens_def into_task_attr_def async_codegen_def async_generate_subapp_def async_task_items_def async_spawn_items_def
      generate_exec_static_and_wake_def async_dispatcher_tasks_def async_dispatcher_def dispatcher_attrs_def generate_idle_executor_def
      async_local_pend_fns_def get_wake_pend_fns_def async_cross_pend_fns_def insert_idle_def
      map_filter_Nil demo_app_simps insert_shared_def expr_ident_def ASYNC_TASK_TRAIT_TY_def HWT_TRAIT_TY_def IDLE_TRAIT_TY_def
      DEFAULT_TASK_PRIORITY_def capture_trait_impl_def last_ident_def impls_of_def impl_trait_str_def idle_executor_ident_def)

lemma async_tasks_reach_core_witness:
  "\<forall>N. \<exists>st parsed ans args' m' a. async_run_pass N (\<lambda>_. []) (\<lambda>_. None) cm_async_backend demo_two_args demo_idle_mod =
       Ok (st, parsed, ans, args', m') \<and> app_parse args' m' = Ok a \<and>
     (\<exists>s \<in> set (sub_apps a). (\<exists>d \<in> set (sa_tasks s). ta_priority (rt_args d) = 2 \<and> ta_binds (rt_args d) = Some ''I0'') \<and>
        (\<exists>i. sa_idle s = Some i \<and> task_name i = idle_executor_ident N 0))"
proof
  fix N
  let ?run = "async_run_pass N (\<lambda>_. []) (\<lambda>_. None) cm_async_backend demo_two_args demo_idle_mod"
  obtain st parsed ans args' m' where r: "?run = Ok (st, parsed, ans, args', m')" "is_ok (app_parse args' m')"
    and z: "\<exists>sa an. zip (sx_sub_apps parsed) ans = [(sa, an)] \<and> map fst (sn_groups an) = [2] \<and> ss_core sa = 0 \<and>
          sn_dispatchers an = [(2, ident_path ''I0'')] \<and> an_prio_0 an = [(''A'', 0, 1)]"
    using demo_idle_passes [of N] by (auto split: sum.splits prod.splits)
  obtain a where a: "app_parse args' m' = Ok a" using r(2) by (auto simp: is_ok_iff)
  obtain sa an where g: "zip (sx_sub_apps parsed) ans = [(sa, an)]" "map fst (sn_groups an) = [2]" "ss_core sa = 0"
      "sn_dispatchers an = [(2, ident_path ''I0'')]" "an_prio_0 an = [(''A'', 0, 1)]" using z by (elim exE conjE) (rule that)
  have "(2 :: prio) \<in> set (map fst (sn_groups an))" unfolding g(2) by simp
  then have two: "2 \<in> fst ` set (sn_groups an)" by simp
  have "(sa, an) \<in> set (zip (sx_sub_apps parsed) ans)" by (simp add: g(1))
  from async_tasks_reach_core [OF r(1) a this] two obtain s d where d: "s \<in> set (sub_apps a)" "d \<in> set (sa_tasks s)" "dispatcher_of N an 2 d"
    and i: "an_prio_0 an \<noteq> [] \<longrightarrow> (\<exists>i. sa_idle s = Some i \<and> task_name i = idle_executor_ident N (ss_core sa))" by blast
  have "ta_priority (rt_args d) = 2" "ta_binds (rt_args d) = Some ''I0''"
    using d(3) by (simp_all add: dispatcher_of_def g(4) expr_ident_def ident_path_def)
  with r(1) a d(1,2) i show "\<exists>st parsed ans args' m' a. ?run = Ok (st, parsed, ans, args', m') \<and> app_parse args' m' = Ok a \<and>
     (\<exists>s \<in> set (sub_apps a). (\<exists>d \<in> set (sa_tasks s). ta_priority (rt_args d) = 2 \<and> ta_binds (rt_args d) = Some ''I0'') \<and>
        (\<exists>i. sa_idle s = Some i \<and> task_name i = idle_executor_ident N 0))"
    using g(3,5) by auto
qed

end
