(* ===== verification/SwTypes.thy ===== *)
theory SwTypes
  imports Compose "HOL-Library.Multiset"
begin

text \<open>
  The code that the software-task pass generates is well-typed: every queue, enum, struct and function that one of
  the generated items names is declared among them, once, at the type at which it is used.
\<close>

section \<open>Numbers in identifiers\<close>

definition is_digit :: "char \<Rightarrow> bool" where
  "is_digit c \<longleftrightarrow> 48 \<le> (of_char c :: nat) \<and> (of_char c :: nat) < 58"

lemma digits_all: "\<forall>c \<in> set (digits n). is_digit c"
proof (induction n rule: digits.induct)
  case (1 n)
  then show ?case by (subst digits.simps) (auto simp: is_digit_def)
qed

lemma digits_value: "foldl (\<lambda>v c. 10 * v + (of_char c - 48)) 0 (digits n) = n"
proof (induction n rule: digits.induct)
  case (1 n)
  then show ?case by (subst digits.simps) simp
qed

lemma digits_inj: "digits m = digits n \<longleftrightarrow> m = n"
  by (metis digits_value)

lemma split_at_non_digit:
  "\<forall>c \<in> set xs. is_digit c \<Longrightarrow> \<forall>c \<in> set ys. is_digit c \<Longrightarrow> \<not> is_digit d \<Longrightarrow>
     xs @ d # us = ys @ d # vs \<Longrightarrow> xs = ys \<and> us = vs"
proof (induction xs arbitrary: ys)
  case Nil
  then show ?case by (cases ys) auto
next
  case (Cons x xs)
  then show ?case by (cases ys) auto
qed

lemma priority_ty_inj:
  assumes "nm_nat N = digits"
  shows "priority_ty_ident N p c = priority_ty_ident N q d \<longleftrightarrow> p = q \<and> c = d"
proof
  assume "priority_ty_ident N p c = priority_ty_ident N q d"
  then have e: "digits (unat c) @ CHR ''P'' # ''rio'' @ digits (unat p) @ ''Tasks'' =
      digits (unat d) @ CHR ''P'' # ''rio'' @ digits (unat q) @ ''Tasks''"
    by (simp add: priority_ty_ident_def assms)
  have nd: "\<not> is_digit (CHR ''P'')" by (simp add: is_digit_def)
  from split_at_non_digit [OF digits_all digits_all nd e]
  have "digits (unat c) = digits (unat d)" "digits (unat p) @ ''Tasks'' = digits (unat q) @ ''Tasks''" by simp_all
  then show "p = q \<and> c = d" by (simp add: digits_inj word_unat_eq_iff)
qed simp

section \<open>Declarations\<close>

fun queue_decl :: "sw_gen \<Rightarrow> (ident \<times> ident \<times> usize) option" where
  "queue_decl (SwQueue q e n) = Some (q, e, n)"
| "queue_decl _ = None"

fun enum_decl :: "sw_gen \<Rightarrow> (ident \<times> ident list) option" where
  "enum_decl (SwEnum e ts) = Some (e, ts)"
| "enum_decl _ = None"

definition queues :: "sw_gen list \<Rightarrow> (ident \<times> ident \<times> usize) list" where
  "queues gs = List.map_filter queue_decl gs"

definition enums :: "sw_gen list \<Rightarrow> (ident \<times> ident list) list" where
  "enums gs = List.map_filter enum_decl gs"

definition structs :: "sw_gen list \<Rightarrow> ident set" where
  "structs gs = {st_ident s | s. SwStruct s \<in> set gs}"

section \<open>Typing\<close>

text \<open>The function that a spawn pends the dispatcher with has been generated under the name and with the interrupt type of
  the call; a backend without cross-core pend functions has none.\<close>

definition pend_typed :: "naming \<Rightarrow> sw_backend \<Rightarrow> nat \<Rightarrow> sw_gen list \<Rightarrow> bool \<Rightarrow> pend_call \<Rightarrow> bool" where
  "pend_typed N B num_cores gs cross c \<longleftrightarrow>
     (if cross then \<exists>core. pc_fn c = cross_pend_fn_ident N core \<and>
        (\<forall>tok. sb_cross_pend B core (pc_fn c, pc_interrupt_ty c) = Some tok \<longrightarrow> SwPendFn tok \<in> set gs)
      else \<exists>core. pc_fn c = local_pend_fn_ident N core num_cores \<and>
        SwPendFn (sb_local_pend B core (pc_fn c, pc_interrupt_ty c)) \<in> set gs)"

text \<open>The ready queue has the enum of a group as its element type.\<close>

definition ready_typed :: "sw_gen list \<Rightarrow> ident \<Rightarrow> ident \<Rightarrow> ident list \<Rightarrow> bool" where
  "ready_typed gs ready ty ts \<longleftrightarrow> (\<exists>n. map_of (queues gs) ready = Some (ty, n)) \<and> map_of (enums gs) ty = Some ts"

text \<open>What an item relies on: a spawn on its task, its input queue of the size of the call, an enum with a variant for the task
  and the ready queue; a dispatcher on its struct, and on a match with exactly one branch per variant of the element type of its
  ready queue, where each branch reads an input queue of the task.\<close>

fun item_typed :: "naming \<Rightarrow> sw_backend \<Rightarrow> nat \<Rightarrow> sw_gen list \<Rightarrow> sw_gen \<Rightarrow> bool" where
  "item_typed N B num_cores gs (SwSpawn p) \<longleftrightarrow>
     sp_task p \<in> structs gs \<and> map_of (queues gs) (sp_inputs p) = Some (sp_task p, sp_size p) \<and>
     (\<exists>ts. ready_typed gs (sp_ready p) (sp_prio_ty p) ts \<and> sp_task p \<in> set ts) \<and>
     SwFlag (sp_flag p) \<in> set gs \<and> (\<forall>c. sp_pend p = Some c \<longrightarrow> pend_typed N B num_cores gs (sp_cross p) c)"
| "item_typed N B num_cores gs (SwDispatcherImpl ty ready bs) \<longleftrightarrow>
     ty \<in> structs gs \<and> (\<exists>e. ready_typed gs ready e (map fst bs)) \<and> distinct (map fst bs) \<and>
     (\<forall>(t, inputs, static) \<in> set bs. t \<in> structs gs \<and> (\<exists>n. map_of (queues gs) inputs = Some (t, n)))"
| "item_typed N B num_cores gs (SwQueue q e n) \<longleftrightarrow> e \<in> structs gs \<or> e \<in> fst ` set (enums gs)"
| "item_typed N B num_cores gs _ \<longleftrightarrow> True"

definition code_typed :: "naming \<Rightarrow> sw_backend \<Rightarrow> nat \<Rightarrow> sw_gen list \<Rightarrow> bool" where
  "code_typed N B num_cores gs \<longleftrightarrow>
     distinct (map fst (queues gs)) \<and> distinct (map fst (enums gs)) \<and> (\<forall>g \<in> set gs. item_typed N B num_cores gs g)"

section \<open>The declarations are distinct\<close>

lemma queues_append [simp]: "queues (gs @ hs) = queues gs @ queues hs"
  by (simp add: queues_def List.map_filter_def)

lemma enums_append [simp]: "enums (gs @ hs) = enums gs @ enums hs"
  by (simp add: enums_def List.map_filter_def)

lemma queues_concat: "queues (concat (map f xs)) = concat (map (queues \<circ> f) xs)"
  by (induction xs) (simp_all add: queues_def List.map_filter_def)

lemma enums_concat: "enums (concat (map f xs)) = concat (map (enums \<circ> f) xs)"
  by (induction xs) (simp_all add: enums_def List.map_filter_def)

lemma mem_queues: "(q, e, n) \<in> set (queues gs) \<longleftrightarrow> SwQueue q e n \<in> set gs"
proof -
  have "queue_decl g = Some (q, e, n) \<longleftrightarrow> g = SwQueue q e n" for g by (cases g) auto
  then show ?thesis by (force simp: queues_def List.map_filter_def)
qed

lemma mem_enums: "(e, ts) \<in> set (enums gs) \<longleftrightarrow> SwEnum e ts \<in> set gs"
proof -
  have "enum_decl g = Some (e, ts) \<longleftrightarrow> g = SwEnum e ts" for g by (cases g) auto
  then show ?thesis by (force simp: enums_def List.map_filter_def)
qed


text \<open>The names of the structs of a module, and of the tasks that the parser makes of them.\<close>

definition struct_names :: "item list \<Rightarrow> ident list" where
  "struct_names items = List.map_filter (\<lambda>it. case it of IStruct s \<Rightarrow> Some (st_ident s) | _ \<Rightarrow> None) items"

lemma collect_names:
  "rfold (sw_collect_item oa) c0 items = Ok c \<Longrightarrow> \<exists>ys. sc_structs c = sc_structs c0 @ ys \<and>
     fst ` set ys \<subseteq> {s. IStruct s \<in> set items} \<and> (distinct (struct_names items) \<longrightarrow> distinct (map (st_ident \<circ> fst) ys))"
proof (induction items arbitrary: c0)
  case Nil
  then show ?case by auto
next
  case (Cons it items)
  from Cons.prems obtain c1 where c1: "sw_collect_item oa c0 it = Ok c1" "rfold (sw_collect_item oa) c1 items = Ok c"
    by auto
  from Cons.IH [OF c1(2)] obtain ys where ys: "sc_structs c = sc_structs c1 @ ys" "fst ` set ys \<subseteq> {s. IStruct s \<in> set items}"
      "distinct (struct_names items) \<longrightarrow> distinct (map (st_ident \<circ> fst) ys)" by blast
  have n: "struct_names (it # items) = (case it of IStruct s \<Rightarrow> [st_ident s] | _ \<Rightarrow> []) @ struct_names items"
    by (simp add: struct_names_def List.map_filter_def split: item.split)
  show ?case
  proof (cases "sc_structs c1 = sc_structs c0")
    case True
    with ys show ?thesis by (intro exI [of _ ys]) (auto simp: n comp_def)
  next
    case False
    then obtain s i where s: "it = IStruct s" "sc_structs c1 = sc_structs c0 @ [(s, i)]"
      using c1(1) by (auto simp: sw_collect_item_def Let_def split: item.splits option.splits if_splits)
    have "st_ident (fst y) \<in> set (struct_names items)" if "y \<in> set ys" for y
      using ys(2) that by (force simp: struct_names_def List.map_filter_def)
    moreover have "struct_names (it # items) = st_ident s # struct_names items" using n by (simp add: s(1))
    ultimately show ?thesis using ys s(2)
      by (intro exI [of _ "(s, i) # ys"]) (auto simp: s(1) comp_def)
  qed
qed

lemma take_names:
  "rfold (sw_take_task cores) (impls, ts0) ss = Ok (impls', ts) \<Longrightarrow> map sw_name ts = map sw_name ts0 @ map (st_ident \<circ> fst) ss"
proof (induction ss arbitrary: impls ts0)
  case Nil
  then show ?case by simp
next
  case (Cons si ss)
  obtain strct i where si: "si = (strct, i)" by (cases si)
  from Cons.prems obtain r where r: "sw_take_task cores (impls, ts0) si = Ok r" "rfold (sw_take_task cores) r ss = Ok (impls', ts)"
    by auto
  obtain im1 ts1 where e: "r = (im1, ts1)" by (cases r)
  have "map sw_name ts1 = map sw_name ts0 @ [st_ident strct]"
    using r(1) by (auto simp: e sw_take_task_def si Let_def sw_name_def split: if_splits)
  with Cons.IH [OF r(2) [unfolded e]] si show ?case by simp
qed

lemma sw_parsed_tasks:
  assumes "sw_app_parse oa args m = Ok parsed" and "mod_content m = Some items" and "distinct (struct_names items)"
  obtains tasks where "sx_sub_apps parsed = map (sw_sub_app_of (sx_params parsed) tasks) (core_list (ap_cores (sx_params parsed)))"
    and "distinct (map sw_name tasks)"
proof -
  from assms(1) [unfolded sw_app_parse_def Let_def assms(2) option.case]
  obtain ps and c :: sw_collected and r where q: "sw_collect oa items = Ok c"
      "rfold (sw_take_task (ap_cores ps)) (sc_impls c, []) (sc_structs c) = Ok r"
      "(case r of (impls, tasks) \<Rightarrow> Ok \<lparr>sx_ident = mod_ident m, sx_params = ps,
         sx_sub_apps = map (sw_sub_app_of ps tasks) (core_list (ap_cores ps)),
         sx_rest = sc_rest c @ map (IImpl \<circ> snd) impls\<rparr>) = (Ok parsed :: sw_app result)"
    by (elim rbind_OkE) (rule that)
  obtain impls tasks where r: "r = (impls, tasks)" by (cases r)
  have "distinct (map (st_ident \<circ> fst) (sc_structs c))"
    using collect_names [OF q(1) [unfolded sw_collect_def]] assms(3) by auto
  then have "distinct (map sw_name tasks)" using take_names [OF q(2) [unfolded r]] by simp
  then show thesis using q(3) r by (intro that) auto
qed


abbreviation tasks_of :: "sw_sub_app \<Rightarrow> software_task list" where
  "tasks_of sa \<equiv> ss_tasks sa @ ss_mc_tasks sa"

lemma sub_app_tasks:
  fixes ps :: app_parameters and tasks :: "software_task list" and core :: core
  assumes "distinct (map sw_name tasks)"
  defines "sa \<equiv> sw_sub_app_of ps tasks core"
  shows "distinct (map sw_name (tasks_of sa))" and "t \<in> set (tasks_of sa) \<Longrightarrow> t \<in> set tasks \<and> tp_core (sw_params t) = core"
    and "t \<in> set (ss_tasks sa) \<Longrightarrow> tp_spawn_by (sw_params t) = core"
    and "t \<in> set (ss_mc_tasks sa) \<Longrightarrow> tp_spawn_by (sw_params t) \<noteq> core"
proof -
  have d: "distinct tasks" "inj_on sw_name (set tasks)" using assms(1) by (simp_all add: distinct_map)
  have "distinct (tasks_of sa)" using d(1) by (auto simp: sa_def sw_sub_app_of_def)
  moreover have "set (tasks_of sa) \<subseteq> set tasks" by (auto simp: sa_def sw_sub_app_of_def)
  ultimately show "distinct (map sw_name (tasks_of sa))"
    using inj_on_subset [OF d(2)] by (simp only: distinct_map)
qed (auto simp: sa_def sw_sub_app_of_def on_core_def is_local_def)

lemma queues_sub_app:
  "map fst (queues (generate_subapp N B a (sa, an))) = map (sw_task_inputs_ident \<circ> sw_name) (tasks_of sa) @
     map (\<lambda>g. priority_queue_ident (priority_ty_ident N (fst g) (sn_core an))) (sn_groups an)"
proof -
  have "map fst (queues (concat (map (gen_sw_task N B an pac n) ts))) = map (sw_task_inputs_ident \<circ> sw_name) ts" for pac n ts
    by (induction ts) (simp_all add: gen_sw_task_def generate_spawn_api_def task_spawn_api_def Let_def queues_def
      List.map_filter_def split: option.split)
  moreover have "map fst (queues (concat (map (gen_dispatcher N an) gs))) =
      map (\<lambda>g. priority_queue_ident (priority_ty_ident N (fst g) (sn_core an))) gs" for gs
    by (induction gs) (simp_all add: gen_dispatcher_def Let_def queues_def List.map_filter_def split: prod.split)
  ultimately show ?thesis by (simp add: generate_subapp_def generate_dispatcher_tasks_def)
qed

lemma enums_sub_app:
  "map fst (enums (generate_subapp N B a (sa, an))) = map (\<lambda>g. priority_ty_ident N (fst g) (sn_core an)) (sn_groups an)"
proof -
  have "enums (concat (map (gen_sw_task N B an pac n) ts)) = []" for pac n ts
    by (induction ts) (simp_all add: gen_sw_task_def generate_spawn_api_def task_spawn_api_def Let_def enums_def
      List.map_filter_def split: option.split)
  moreover have "map fst (enums (concat (map (gen_dispatcher N an) gs))) = map (\<lambda>g. priority_ty_ident N (fst g) (sn_core an)) gs" for gs
    by (induction gs) (simp_all add: gen_dispatcher_def Let_def enums_def List.map_filter_def split: prod.split)
  ultimately show ?thesis by (simp add: generate_subapp_def generate_dispatcher_tasks_def)
qed

lemma distinct_concat_keys:
  assumes "distinct (map k zs)" and "\<And>z. z \<in> set zs \<Longrightarrow> distinct (f z)"
    and "\<And>z z' x. z \<in> set zs \<Longrightarrow> z' \<in> set zs \<Longrightarrow> x \<in> set (f z) \<Longrightarrow> x \<in> set (f z') \<Longrightarrow> k z = k z'"
  shows "distinct (concat (map f zs))"
  using assms
proof (induction zs)
  case Nil
  then show ?case by simp
next
  case (Cons z zs)
  have "distinct (concat (map f zs))" by (rule Cons.IH) (use Cons.prems in auto)
  moreover have "set (f z) \<inter> set (concat (map f zs)) = {}"
    using Cons.prems(1) Cons.prems(3) [of z] by fastforce
  ultimately show ?case using Cons.prems(2) by simp
qed

lemma pend_fns_no_decls:
  "queues (generate_local_pend_fns N B cs n) = []" "queues (generate_cross_pend_fns N B cs) = []"
  "enums (generate_local_pend_fns N B cs n) = []" "enums (generate_cross_pend_fns N B cs) = []"
  by (auto simp: generate_local_pend_fns_def generate_cross_pend_fns_def queues_def enums_def List.map_filter_def filter_empty_conv)

lemma tail_no_decls: "queues [SwTrait i] = []" "queues [SwFlag i] = []" "enums [SwTrait i] = []" "enums [SwFlag i] = []"
  by (simp_all add: queues_def enums_def List.map_filter_def)

lemma decls_codegen:
  "queues (sw_codegen N B a ans) = concat (map (queues \<circ> generate_subapp N B a) (zip (sx_sub_apps a) ans))"
  "enums (sw_codegen N B a ans) = concat (map (enums \<circ> generate_subapp N B a) (zip (sx_sub_apps a) ans))"
  unfolding sw_codegen_def queues_append enums_append pend_fns_no_decls tail_no_decls queues_concat enums_concat by simp_all

lemma inputs_not_ready: "sw_task_inputs_ident t \<noteq> priority_queue_ident ty"
proof
  assume "sw_task_inputs_ident t = priority_queue_ident ty"
  then have "last (sw_task_inputs_ident t) = last (priority_queue_ident ty)" by simp
  then show False by (simp add: sw_task_inputs_ident_def priority_queue_ident_def)
qed

lemma inputs_inj: "sw_task_inputs_ident t = sw_task_inputs_ident u \<longleftrightarrow> t = u"
  by (simp add: sw_task_inputs_ident_def)

lemma ready_inj: "priority_queue_ident t = priority_queue_ident u \<longleftrightarrow> t = u"
  by (simp add: priority_queue_ident_def)


text \<open>An application of these tasks with its analysis.\<close>

definition analysed :: "software_task list \<Rightarrow> sw_app \<Rightarrow> sw_sub_analysis list \<Rightarrow> bool" where
  "analysed tasks a ans \<longleftrightarrow> distinct (map sw_name tasks) \<and>
     sx_sub_apps a = map (sw_sub_app_of (sx_params a) tasks) (core_list (ap_cores (sx_params a))) \<and>
     sw_analysis_run a = Ok ans"

lemma analysed_sub:
  assumes "analysed tasks a ans" and "(sa, an) \<in> set (zip (sx_sub_apps a) ans)"
  shows "analyse_subapp sa = Ok an" and "sn_core an = ss_core sa" and "sa = sw_sub_app_of (sx_params a) tasks (ss_core sa)"
    and "distinct (map fst (sn_groups an))"
proof -
  show "analyse_subapp sa = Ok an" "sn_core an = ss_core sa"
    using assms by (auto simp: analysed_def dest: sw_analysed)
  then show "distinct (map fst (sn_groups an))"
    using sorted_keys_distinct by (auto simp: analyse_subapp_iff)
  have "sa \<in> set (sx_sub_apps a)" using assms(2) by (rule set_zip_leftD)
  then show "sa = sw_sub_app_of (sx_params a) tasks (ss_core sa)"
    using assms(1) by (auto simp: analysed_def sw_sub_app_of_def)
qed

lemma analysed_keys: "analysed tasks a ans \<Longrightarrow> distinct (map (ss_core \<circ> fst) (zip (sx_sub_apps a) ans))"
proof -
  assume a: "analysed tasks a ans"
  then have l: "length ans = length (sx_sub_apps a)"
    by (auto simp: analysed_def sw_analysis_run_def dest: rcollect_length)
  have "map (ss_core \<circ> fst) (zip (sx_sub_apps a) ans) = map ss_core (map fst (zip (sx_sub_apps a) ans))" by simp
  also have "\<dots> = map ss_core (sx_sub_apps a)" using l by (simp only: map_fst_zip)
  also have "\<dots> = core_list (ap_cores (sx_params a))"
    using a by (simp add: analysed_def comp_def sw_sub_app_of_def)
  finally show ?thesis by (simp add: core_list_props)
qed

lemma queues_distinct:
  assumes a: "analysed tasks a ans" and N: "nm_nat N = digits"
  shows "distinct (map fst (queues (sw_codegen N B a ans)))"
proof -
  let ?f = "\<lambda>x. map fst (queues (generate_subapp N B a x))"
  have f: "?f x = map (sw_task_inputs_ident \<circ> sw_name) (tasks_of (fst x)) @
     map (\<lambda>g. priority_queue_ident (priority_ty_ident N (fst g) (sn_core (snd x)))) (sn_groups (snd x))" for x
    using queues_sub_app [of N B a "fst x" "snd x"] by simp
  have "distinct (concat (map ?f (zip (sx_sub_apps a) ans)))"
  proof (rule distinct_concat_keys [OF analysed_keys [OF a]])
    fix z assume z: "z \<in> set (zip (sx_sub_apps a) ans)"
    obtain sa an where e: "z = (sa, an)" by (cases z)
    note s = analysed_sub [OF a z [unfolded e]]
    have "distinct (map sw_name (tasks_of sa))"
      by (subst (1 2) s(3)) (rule sub_app_tasks(1), use a in \<open>simp add: analysed_def\<close>)
    then have "distinct (map sw_task_inputs_ident (map sw_name (tasks_of sa)))"
      by (simp only: distinct_map) (simp add: inj_on_def inputs_inj)
    moreover have "distinct (map (\<lambda>p. priority_queue_ident (priority_ty_ident N p (sn_core an))) (map fst (sn_groups an)))"
      using s(4) by (simp only: distinct_map) (simp add: inj_on_def ready_inj priority_ty_inj [OF N])
    ultimately show "distinct (?f z)" unfolding f
      by (auto simp: e comp_def inputs_not_ready)
  next
    fix z z' x assume h: "z \<in> set (zip (sx_sub_apps a) ans)" "z' \<in> set (zip (sx_sub_apps a) ans)" "x \<in> set (?f z)" "x \<in> set (?f z')"
    obtain sa an sa' an' where e: "z = (sa, an)" "z' = (sa', an')" by (cases z, cases z')
    note s = analysed_sub [OF a h(1) [unfolded e]] and s' = analysed_sub [OF a h(2) [unfolded e]]
    have d: "distinct (map sw_name tasks)" using a by (simp add: analysed_def)
    have t: "t \<in> set tasks \<and> tp_core (sw_params t) = ss_core sa" if "t \<in> set (tasks_of sa)" for t
      by (rule sub_app_tasks(2) [OF d, of t "sx_params a"]) (use that s(3) in simp)
    have t': "t \<in> set tasks \<and> tp_core (sw_params t) = ss_core sa'" if "t \<in> set (tasks_of sa')" for t
      by (rule sub_app_tasks(2) [OF d, of t "sx_params a"]) (use that s'(3) in simp)
    have same: "t = u" if "sw_name t = sw_name u" "t \<in> set tasks" "u \<in> set tasks" for t u
      using d that by (simp add: distinct_map inj_on_def)
    from h(3,4) show "(ss_core \<circ> fst) z = (ss_core \<circ> fst) z'"
      unfolding f e using t t' same s(2) s'(2) inputs_not_ready inputs_not_ready [symmetric]
      by (auto simp: inputs_inj ready_inj priority_ty_inj [OF N]) (metis Un_iff set_append)+
  qed
  then show ?thesis by (simp add: decls_codegen map_concat comp_def)
qed

lemma enums_distinct:
  assumes a: "analysed tasks a ans" and N: "nm_nat N = digits"
  shows "distinct (map fst (enums (sw_codegen N B a ans)))"
proof -
  let ?f = "\<lambda>x. map fst (enums (generate_subapp N B a x))"
  have f: "?f x = map (\<lambda>g. priority_ty_ident N (fst g) (sn_core (snd x))) (sn_groups (snd x))" for x
    using enums_sub_app [of N B a "fst x" "snd x"] by simp
  have "distinct (concat (map ?f (zip (sx_sub_apps a) ans)))"
  proof (rule distinct_concat_keys [OF analysed_keys [OF a]])
    fix z assume z: "z \<in> set (zip (sx_sub_apps a) ans)"
    then have "distinct (map fst (sn_groups (snd z)))" using analysed_sub(4) [OF a, of "fst z" "snd z"] by simp
    then have "distinct (map (\<lambda>p. priority_ty_ident N p (sn_core (snd z))) (map fst (sn_groups (snd z))))"
      by (simp only: distinct_map) (simp add: inj_on_def priority_ty_inj [OF N])
    then show "distinct (?f z)" unfolding f by (simp add: comp_def)
  next
    fix z z' x assume h: "z \<in> set (zip (sx_sub_apps a) ans)" "z' \<in> set (zip (sx_sub_apps a) ans)" "x \<in> set (?f z)" "x \<in> set (?f z')"
    then show "(ss_core \<circ> fst) z = (ss_core \<circ> fst) z'"
      unfolding f using analysed_sub(2) [OF a, of "fst z" "snd z"] analysed_sub(2) [OF a, of "fst z'" "snd z'"]
      by (auto simp: priority_ty_inj [OF N])
  qed
  then show ?thesis by (simp add: decls_codegen map_concat comp_def)
qed


section \<open>The generated code is well-typed\<close>

lemma sw_group_names:
  assumes "analyse_subapp sa = Ok an" and "(p, es) \<in> set (sn_groups an)"
  shows "map fst es = map sw_name (with_prio p (tasks_of sa))"
proof -
  have "group_sorted (sn_groups an)" using assms(1) by (simp add: analyse_subapp_iff)
  then have "map_of (sn_groups an) p = Some es"
    using assms(2) by (intro map_of_is_SomeI sorted_keys_distinct)
  then have "nonempty (all_groups sa p) = Some es" using assms(1) by (simp add: analyse_subapp_iff)
  then have "es = all_groups sa p" by (simp add: nonempty_def split: if_splits)
  then show ?thesis by (simp add: all_groups_def entry_of_def with_prio_def comp_def)
qed

lemma task_group:
  assumes "analyse_subapp sa = Ok an" and "t \<in> set (tasks_of sa)"
  obtains es where "(tp_priority (sw_params t), es) \<in> set (sn_groups an)" and "sw_name t \<in> set (map fst es)"
proof -
  let ?p = "tp_priority (sw_params t)"
  have "all_groups sa ?p \<noteq> []" using assms(2) by (auto simp: all_groups_def with_prio_def filter_empty_conv)
  then obtain es where "map_of (sn_groups an) ?p = Some es"
    using assms(1) by (auto simp: analyse_subapp_iff nonempty_def)
  then have es: "(?p, es) \<in> set (sn_groups an)" by (rule map_of_SomeD)
  moreover have "sw_name t \<in> set (map fst es)" unfolding sw_group_names [OF assms(1) es] using assms(2) by (auto simp: with_prio_def)
  ultimately show thesis by (rule that)
qed

lemma structsI: "SwStruct s \<in> set gs \<Longrightarrow> st_ident s \<in> structs gs"
  by (auto simp: structs_def)

lemma codegen_member:
  "(sa, an) \<in> set (zip (sx_sub_apps a) ans) \<Longrightarrow> g \<in> set (generate_subapp N B a (sa, an)) \<Longrightarrow> g \<in> set (sw_codegen N B a ans)"
  by (force simp: sw_codegen_def)

lemma queue_lookup:
  "analysed tasks a ans \<Longrightarrow> nm_nat N = digits \<Longrightarrow> SwQueue q e n \<in> set (sw_codegen N B a ans) \<Longrightarrow>
     map_of (queues (sw_codegen N B a ans)) q = Some (e, n)"
  using queues_distinct by (auto simp: mem_queues intro!: map_of_is_SomeI)

lemma group_items:
  assumes a: "analysed tasks a ans" and N: "nm_nat N = digits" and z: "(sa, an) \<in> set (zip (sx_sub_apps a) ans)"
    and g: "(p, es) \<in> set (sn_groups an)"
  shows "ready_typed (sw_codegen N B a ans) (priority_queue_ident (priority_ty_ident N p (sn_core an)))
      (priority_ty_ident N p (sn_core an)) (map fst es)"
    and "dispatcher_ident N p (sn_core an) \<in> structs (sw_codegen N B a ans)"
proof -
  have m: "x \<in> set (sw_codegen N B a ans)" if "x \<in> set (gen_dispatcher N an (p, es))" for x
    using g that by (intro codegen_member [OF z]) (force simp: generate_subapp_def generate_dispatcher_tasks_def)
  have "SwEnum (priority_ty_ident N p (sn_core an)) (map fst es) \<in> set (sw_codegen N B a ans)"
    by (rule m) (simp add: gen_dispatcher_def Let_def)
  then have "map_of (enums (sw_codegen N B a ans)) (priority_ty_ident N p (sn_core an)) = Some (map fst es)"
    using enums_distinct [OF a N] by (auto simp: mem_enums intro!: map_of_is_SomeI)
  moreover have "\<exists>n. SwQueue (priority_queue_ident (priority_ty_ident N p (sn_core an))) (priority_ty_ident N p (sn_core an)) n
      \<in> set (sw_codegen N B a ans)"
    by (rule exI, rule m) (simp add: gen_dispatcher_def Let_def)
  ultimately show "ready_typed (sw_codegen N B a ans) (priority_queue_ident (priority_ty_ident N p (sn_core an)))
      (priority_ty_ident N p (sn_core an)) (map fst es)"
    using queue_lookup [OF a N] by (auto simp: ready_typed_def)
  have "SwStruct \<lparr>st_attrs = dispatcher_attrs (the (map_of (sn_dispatchers an) p)) p (sn_core an),
      st_ident = dispatcher_ident N p (sn_core an), st_fields = []\<rparr> \<in> set (sw_codegen N B a ans)"
    by (rule m) (simp add: gen_dispatcher_def Let_def)
  from structsI [OF this] show "dispatcher_ident N p (sn_core an) \<in> structs (sw_codegen N B a ans)" by simp
qed

lemma task_items:
  assumes a: "analysed tasks a ans" and N: "nm_nat N = digits" and z: "(sa, an) \<in> set (zip (sx_sub_apps a) ans)"
    and t: "t \<in> set (tasks_of sa)"
  shows "sw_name t \<in> structs (sw_codegen N B a ans)"
    and "map_of (queues (sw_codegen N B a ans)) (sw_task_inputs_ident (sw_name t)) = Some (sw_name t, tp_capacity (sw_params t) + 1)"
proof -
  let ?n = "length (sx_sub_apps a)" and ?pac = "ap_pacs (sx_params a) ! unat (ss_core sa)"
  have m: "x \<in> set (sw_codegen N B a ans)" if "x \<in> set (gen_sw_task N B an ?pac ?n t)" for x
    using t that by (intro codegen_member [OF z]) (force simp: generate_subapp_def)
  have "SwStruct ((sw_struct t)\<lparr>st_attrs := attr_tokens (sw_attr t) # st_attrs (sw_struct t)\<rparr>) \<in> set (sw_codegen N B a ans)"
    by (rule m) (simp add: gen_sw_task_def)
  from structsI [OF this] show "sw_name t \<in> structs (sw_codegen N B a ans)" by (simp add: sw_name_def)
  have "SwQueue (sw_task_inputs_ident (sw_name t)) (sw_name t) (tp_capacity (sw_params t) + 1) \<in> set (sw_codegen N B a ans)"
    by (rule m) (simp add: gen_sw_task_def generate_spawn_api_def task_spawn_api_def Let_def)
  then show "map_of (queues (sw_codegen N B a ans)) (sw_task_inputs_ident (sw_name t)) = Some (sw_name t, tp_capacity (sw_params t) + 1)"
    by (rule queue_lookup [OF a N])
qed


lemma pend_items:
  assumes a: "analysed tasks a ans" and z: "(sa, an) \<in> set (zip (sx_sub_apps a) ans)" and t: "t \<in> set (tasks_of sa)"
    and c: "sp_pend (task_spawn_api N B irq (ap_pacs (sx_params a) ! unat (ss_core sa)) n t) = Some c"
    and n: "n = length (sx_sub_apps a)"
  shows "pend_typed N B n (sw_codegen N B a ans) (tp_core (sw_params t) \<noteq> tp_spawn_by (sw_params t)) c"
proof -
  let ?core = "tp_core (sw_params t)" and ?cross = "tp_core (sw_params t) \<noteq> tp_spawn_by (sw_params t)"
  have d: "distinct (map sw_name tasks)" using a by (simp add: analysed_def)
  note sub = sub_app_tasks(2,3) [OF d, of t "sx_params a" "ss_core sa", folded analysed_sub(3) [OF a z]]
  have core: "?core = ss_core sa" using sub(1) [OF t] ..
  have sa: "sa \<in> set (sx_sub_apps a)" using z by (rule set_zip_leftD)
  have ty: "pc_interrupt_ty c = get_interrupt_path B (ap_pacs (sx_params a)) (ss_core sa)"
    and f: "pc_fn c = (if ?cross then cross_pend_fn_ident N ?core else local_pend_fn_ident N ?core n)"
    using c by (auto simp: task_spawn_api_def Let_def get_interrupt_path_def core)
  show ?thesis
  proof (cases ?cross)
    case True
    have "t \<in> set (ss_mc_tasks sa)" using True t sub(2) core by auto
    then have "sa \<in> set (filter (\<lambda>sa. ss_mc_tasks sa \<noteq> []) (sx_sub_apps a))" using sa by auto
    then have "SwPendFn tok \<in> set (sw_codegen N B a ans)"
      if "sb_cross_pend B ?core (pc_fn c, pc_interrupt_ty c) = Some tok" for tok
      using that True f ty core
      by (force simp: sw_codegen_def generate_cross_pend_fns_def sw_cores_def List.map_filter_def)
    then show ?thesis using True f unfolding pend_typed_def by auto
  next
    case False
    have "SwPendFn (sb_local_pend B ?core (pc_fn c, pc_interrupt_ty c)) \<in> set (sw_codegen N B a ans)"
      using sa False f ty core n by (force simp: sw_codegen_def generate_local_pend_fns_def sw_cores_def)
    then show ?thesis using False f unfolding pend_typed_def by auto
  qed
qed

lemma codegen_typed:
  assumes a: "analysed tasks a ans" and N: "nm_nat N = digits"
  shows "code_typed N B (length (sx_sub_apps a)) (sw_codegen N B a ans)"
proof -
  let ?gs = "sw_codegen N B a ans" and ?n = "length (sx_sub_apps a)"
  have spawn: "item_typed N B ?n ?gs (SwSpawn (task_spawn_api N B irq (ap_pacs (sx_params a) ! unat (ss_core sa)) ?n t))"
    if z: "(sa, an) \<in> set (zip (sx_sub_apps a) ans)" and t: "t \<in> set (tasks_of sa)" for sa an irq t
  proof -
    let ?p = "task_spawn_api N B irq (ap_pacs (sx_params a) ! unat (ss_core sa)) ?n t"
    let ?ty = "priority_ty_ident N (tp_priority (sw_params t)) (tp_core (sw_params t))"
    have p: "sp_task ?p = sw_name t" "sp_inputs ?p = sw_task_inputs_ident (sw_name t)" "sp_size ?p = tp_capacity (sw_params t) + 1"
      "sp_prio_ty ?p = ?ty" "sp_ready ?p = priority_queue_ident ?ty" "sp_flag ?p = ''__rticx_sw_system_initialized''"
      "sp_cross ?p = (tp_core (sw_params t) \<noteq> tp_spawn_by (sw_params t))"
      by (simp_all add: task_spawn_api_def Let_def)
    note s = analysed_sub [OF a z]
    have "distinct (map sw_name tasks)" using a by (simp add: analysed_def)
    then have core: "tp_core (sw_params t) = sn_core an"
      using sub_app_tasks(2) [of tasks t "sx_params a" "ss_core sa", folded s(3)] t s(2) by simp
    obtain es where es: "(tp_priority (sw_params t), es) \<in> set (sn_groups an)" "sw_name t \<in> set (map fst es)"
      using task_group [OF s(1) t] .
    have "\<exists>ts. ready_typed ?gs (sp_ready ?p) (sp_prio_ty ?p) ts \<and> sp_task ?p \<in> set ts"
      unfolding p core using group_items(1) [OF a N z es(1)] es(2) by blast
    moreover have "SwFlag (sp_flag ?p) \<in> set ?gs" by (simp add: p sw_codegen_def)
    ultimately show ?thesis
      unfolding item_typed.simps using task_items [OF a N z t] pend_items [OF a z t _ refl] by (simp only: p) simp
  qed
  have "item_typed N B ?n ?gs g" if z: "(sa, an) \<in> set (zip (sx_sub_apps a) ans)" and g: "g \<in> set (generate_subapp N B a (sa, an))" for sa an g
  proof -
    note s = analysed_sub [OF a z]
    from g consider t where "t \<in> set (tasks_of sa)"
        "g \<in> set (gen_sw_task N B an (ap_pacs (sx_params a) ! unat (ss_core sa)) ?n t)"
      | p es where "(p, es) \<in> set (sn_groups an)" "g \<in> set (gen_dispatcher N an (p, es))"
      by (auto simp: generate_subapp_def generate_dispatcher_tasks_def)
    then show ?thesis
    proof cases
      case 1
      with spawn [OF z 1(1)] task_items(1) [OF a N z 1(1)] show ?thesis
        by (auto simp: gen_sw_task_def generate_spawn_api_def task_spawn_api_def Let_def split: option.splits)
    next
      case 2
      note r = group_items [OF a N z 2(1), of B]
      have names: "map fst es = map sw_name (with_prio p (tasks_of sa))" by (rule sw_group_names [OF s(1) 2(1)])
      have "distinct (map sw_name tasks)" using a by (simp add: analysed_def)
      then have "distinct (map sw_name (tasks_of sa))"
        using sub_app_tasks(1) [of tasks "sx_params a" "ss_core sa", folded s(3)] by blast
      then have f1: "distinct (map fst es)" unfolding names with_prio_def by (rule distinct_map_filter)
      have f2: "x \<in> structs ?gs \<and> (\<exists>n. map_of (queues ?gs) (sw_task_inputs_ident x) = Some (x, n))" if "x \<in> set (map fst es)" for x
        using that task_items [OF a N z] unfolding names by (auto simp: with_prio_def)
      have f3: "priority_ty_ident N p (sn_core an) \<in> fst ` set (enums ?gs)"
        using r(1) by (force simp: ready_typed_def dest: map_of_SomeD)
      have f4: "\<exists>e. ready_typed ?gs (priority_queue_ident (priority_ty_ident N p (sn_core an))) e (map fst es)"
        using r(1) ..
      from 2(2) consider "g = SwEnum (priority_ty_ident N p (sn_core an)) (map fst es)"
        | n where "g = SwQueue (priority_queue_ident (priority_ty_ident N p (sn_core an))) (priority_ty_ident N p (sn_core an)) n"
        | st where "g = SwStruct st"
        | "g = SwDispatcherImpl (dispatcher_ident N p (sn_core an)) (priority_queue_ident (priority_ty_ident N p (sn_core an)))
             (map (\<lambda>e. (fst e, sw_task_inputs_ident (fst e), ident_uppercase N (fst e))) es)"
        by (auto simp: gen_dispatcher_def Let_def case_prod_beta)
      then show ?thesis using f1 f2 f3 f4 r(2) by cases (simp_all add: comp_def)
    qed
  qed
  then have "item_typed N B ?n ?gs g" if "g \<in> set ?gs" for g
    using that by (auto simp: sw_codegen_def generate_local_pend_fns_def generate_cross_pend_fns_def List.map_filter_def)
  then show ?thesis using queues_distinct [OF a N] enums_distinct [OF a N] by (simp add: code_typed_def)
qed



end
