(* ===== verification/SwCapacity.thy ===== *)
theory SwCapacity
  imports SwRuntime
begin

text \<open>
  The contract of \<open>capacity = N\<close> of a software task: the calls of \<open>spawn\<close> that nothing interrupts, their results and
  what the dispatcher makes of them afterwards.
\<close>

section \<open>A whole call\<close>

text \<open>\<open>spawn\<close> from the first to the last statement, called on the right core: a rejected call returns
  after the attempt to enqueue the input.\<close>

definition spawn_call :: "ident \<Rightarrow> 'i \<Rightarrow> ('i, 'w::len) group_rt \<Rightarrow> ('i, 'w) group_rt option" where
  "spawn_call t x s = Option.bind (rt_step (EvSpawn True t x) s) (\<lambda>s1.
     case gr_spawner s1 of
       SpReady _ \<Rightarrow> rt_run [EvReady, EvPend True] s1
     | _ \<Rightarrow> Some s1)"

fun spawn_calls :: "ident \<Rightarrow> 'i list \<Rightarrow> ('i, 'w::len) group_rt \<Rightarrow> ('i, 'w) group_rt option" where
  "spawn_calls t [] s = Some s"
| "spawn_calls t (x # xs) s = Option.bind (spawn_call t x s) (spawn_calls t xs)"

text \<open>The inputs of a task that are accepted and not yet executed.\<close>

definition outstanding :: "ident \<Rightarrow> ('i, 'w::len) group_rt \<Rightarrow> nat" where
  "outstanding t s = length (inputs_of t (drop (length (gr_executed s)) (gr_accepted s)))"

lemma rest_eq: "rt_inv cap ts k s rest \<Longrightarrow> rest = drop (length (gr_executed s)) (gr_accepted s)"
  by (simp add: rt_inv_def)

text \<open>One call: accepted exactly if there is room.\<close>

lemma spawn_call_cases:
  fixes s :: "('i, 'w::len) group_rt"
  assumes i: "rt_inv cap ts (Suc k) s rest" and "distinct ts" and "t \<in> set ts"
    and idle: "gr_spawner s = SpIdle" and init: "gr_initialized s"
  obtains (accepted) s' where "length (inputs_of t rest) < cap t" "spawn_call t x s = Some s'"
      "rt_inv cap ts k s' (rest @ [(t, x)])" "gr_results s' = gr_results s @ [Ok ()]"
      "gr_accepted s' = gr_accepted s @ [(t, x)]" "gr_executed s' = gr_executed s"
      "gr_spawner s' = SpIdle" "gr_initialized s'" "gr_pended s'" "gr_dispatcher s' = gr_dispatcher s"
  | (rejected) "length (inputs_of t rest) = cap t"
      "spawn_call t x s = Some (s\<lparr>gr_results := gr_results s @ [Err (Some x)]\<rparr>)"
proof -
  have "t \<in> dom (gr_inputs s)" using i assms(3) by (simp add: rt_inv_def)
  then obtain q where q: "gr_inputs s t = Some q" by blast
  have tq: "contents q = inputs_of t rest" "ring_inv (Suc k) q" "capacity q = cap t"
    using i q by (auto simp: rt_inv_def)
  have step: "rt_step (EvSpawn True t x) s = Some (spawn_input True t x q s)" by (simp add: idle q)
  from tq(2) show thesis
  proof (cases rule: ring.enq_cases [of k q x])
    case full
    then have e: "spawn_input True t x q s = s\<lparr>gr_results := gr_results s @ [Err (Some x)]\<rparr>"
      using init by (simp add: spawn_input_def)
    show thesis
      by (rule rejected) (use full tq(1,3) in simp, simp only: spawn_call_def step e bind.simps, simp add: idle)
  next
    case room
    let ?s1 = "s\<lparr>gr_inputs := (gr_inputs s)(t \<mapsto> enqueue_unchecked q x), gr_spawner := SpReady t,
          gr_accepted := gr_accepted s @ [(t, x)]\<rparr>"
    have e: "spawn_input True t x q s = ?s1" using init room by (simp add: spawn_input_def)
    have "rt_inv cap ts k s rest"
      using i idle ring.inv_le [of "Suc k" _ k] by (auto simp: rt_inv_def intro: ring_inv_antimono)
    then have "rt_inv cap ts k ?s1 (rest @ [(t, x)])"
      using i idle tq assms(3) room(3,4) by (auto simp: rt_inv_def)
    then have "rt_inv cap ts k (spawn_ready t ?s1) (rest @ [(t, x)])"
      using assms(2) by (intro inv_spawn_ready) simp_all
    then have "rt_inv cap ts k (spawn_pend True (spawn_ready t ?s1)) (rest @ [(t, x)])"
      by (simp add: rt_inv_def spawn_pend_def spawn_ready_def)
    moreover have "spawn_call t x s = Some (spawn_pend True (spawn_ready t ?s1))"
      unfolding spawn_call_def step e bind.simps by (simp add: spawn_ready_def)
    ultimately show thesis
      using room(1) tq(1,3) init by (intro accepted [of "spawn_pend True (spawn_ready t ?s1)"])
        (simp_all add: spawn_pend_def spawn_ready_def)
  qed
qed

section \<open>Several calls in a row\<close>

text \<open>What \<open>n\<close> calls in a row may count on: \<open>m\<close> of them are accepted.\<close>

definition calls_outcome :: "ident \<Rightarrow> nat \<Rightarrow> 'i list \<Rightarrow> ('i, 'w::len) group_rt \<Rightarrow> ('i, 'w) group_rt \<Rightarrow> bool" where
  "calls_outcome t m xs s s' \<longleftrightarrow>
     gr_results s' = gr_results s @ map (\<lambda>_. Ok ()) (take m xs) @ map (\<lambda>x. Err (Some x)) (drop m xs) \<and>
     gr_accepted s' = gr_accepted s @ map (Pair t) (take m xs) \<and>
     gr_executed s' = gr_executed s \<and> gr_spawner s' = SpIdle"

lemma rt_inv_weaken: "rt_inv cap ts (Suc k) s rest \<Longrightarrow> gr_spawner s = SpIdle \<Longrightarrow> rt_inv cap ts k s rest"
  using ring.inv_le [of "Suc k" _ k] by (auto simp: rt_inv_def intro: ring_inv_antimono)

lemma spawn_calls_outcome:
  fixes s :: "('i, 'w::len) group_rt"
  shows "rt_inv cap ts (k + length xs) s rest \<Longrightarrow> distinct ts \<Longrightarrow> t \<in> set ts \<Longrightarrow> gr_spawner s = SpIdle \<Longrightarrow>
    gr_initialized s \<Longrightarrow> \<exists>s' rest'. spawn_calls t xs s = Some s' \<and> rt_inv cap ts k s' rest' \<and>
      calls_outcome t (cap t - length (inputs_of t rest)) xs s s'"
proof (induction xs arbitrary: s rest)
  case Nil
  then show ?case by (simp add: calls_outcome_def) blast
next
  case (Cons x xs)
  from Cons.prems(1) have i: "rt_inv cap ts (Suc (k + length xs)) s rest" by simp
  from i Cons.prems(2-5) show ?case
  proof (cases rule: spawn_call_cases [where x = x])
    case (accepted s1)
    obtain s' rest' where "spawn_calls t xs s1 = Some s'" "rt_inv cap ts k s' rest'"
      "calls_outcome t (cap t - length (inputs_of t (rest @ [(t, x)]))) xs s1 s'"
      using Cons.IH [OF accepted(3) Cons.prems(2,3) accepted(7,8)] by blast
    moreover from accepted(1) obtain m where "cap t - length (inputs_of t rest) = Suc m"
        "cap t - length (inputs_of t (rest @ [(t, x)])) = m" by (auto simp: dest: less_imp_Suc_add)
    ultimately show ?thesis using accepted by (auto simp: calls_outcome_def)
  next
    case rejected
    let ?s1 = "s\<lparr>gr_results := gr_results s @ [Err (Some x)]\<rparr>"
    have "rt_inv cap ts (k + length xs) ?s1 rest"
      using rt_inv_weaken [OF i Cons.prems(4)] by (simp add: rt_inv_def)
    then obtain s' rest' where "spawn_calls t xs ?s1 = Some s'" "rt_inv cap ts k s' rest'"
      "calls_outcome t (cap t - length (inputs_of t rest)) xs ?s1 s'"
      using Cons.IH [of ?s1 rest] Cons.prems(2-5) by auto
    with rejected show ?thesis by (auto simp: calls_outcome_def)
  qed
qed

section \<open>From a reachable state\<close>

lemma spawns_more: "spawns (es @ replicate k (EvSpawn b t x)) = spawns es + k"
  by (induction es rule: spawns.induct) (simp_all, induction k, simp_all)

lemma inv_run_more:
  "rt_inv cap ts (spawns es + k) s rest \<Longrightarrow> distinct ts \<Longrightarrow> rt_run es s = Some s' \<Longrightarrow> \<exists>rest'. rt_inv cap ts k s' rest'"
proof (induction es arbitrary: s rest)
  case Nil
  then show ?case by auto
next
  case (Cons e es)
  then obtain s1 where s1: "rt_step e s = Some s1" "rt_run es s1 = Some s'" by (auto simp: bind_eq_Some_conv)
  let ?es = "es @ replicate k (EvSpawn True [] undefined)"
  have "rt_inv cap ts (spawns (e # ?es)) s rest"
    using Cons.prems(1) spawns_more [of "e # es" k True "[]" undefined] by simp
  then obtain rest1 where "rt_inv cap ts (spawns ?es) s1 rest1" using inv_step [OF _ Cons.prems(2) s1(1)] by blast
  then have "rt_inv cap ts (spawns es + k) s1 rest1" by (simp only: spawns_more)
  then show ?case using Cons.IH Cons.prems(2) s1(2) by blast
qed

text \<open>Calls are events of the group.\<close>

lemma rt_run_append: "rt_run (es @ fs) s = Option.bind (rt_run es s) (rt_run fs)"
  by (induction es arbitrary: s) (simp_all split: Option.bind_split)

lemma spawn_call_run:
  "spawn_call t x s = Some s' \<Longrightarrow> \<exists>es. rt_run es s = Some s' \<and> spawns es = 1 \<and> EvPend False \<notin> set es"
proof -
  assume "spawn_call t x s = Some s'"
  then obtain s1 where s1: "rt_step (EvSpawn True t x) s = Some s1"
      "(case gr_spawner s1 of SpReady _ \<Rightarrow> rt_run [EvReady, EvPend True] s1 | _ \<Rightarrow> Some s1) = Some s'"
    unfolding spawn_call_def by (auto simp: bind_eq_Some_conv)
  from s1(2) have "rt_run [EvReady, EvPend True] s1 = Some s' \<or> s1 = s'"
    by (cases "gr_spawner s1") simp_all
  then show ?thesis
  proof
    assume r: "rt_run [EvReady, EvPend True] s1 = Some s'"
    show ?thesis by (rule exI [of _ "[EvSpawn True t x, EvReady, EvPend True]"]) (use s1(1) r in simp)
  next
    assume "s1 = s'"
    with s1(1) show ?thesis by (intro exI [of _ "[EvSpawn True t x]"]) simp
  qed
qed

lemma spawns_append: "spawns (es @ fs) = spawns es + spawns fs"
  by (induction es rule: spawns.induct) simp_all

lemma spawn_calls_run:
  "spawn_calls t xs s = Some s' \<Longrightarrow> \<exists>es. rt_run es s = Some s' \<and> spawns es = length xs \<and> EvPend False \<notin> set es"
proof (induction xs arbitrary: s)
  case Nil
  then show ?case by (intro exI [of _ "[]"]) simp
next
  case (Cons x xs)
  then obtain s1 where s1: "spawn_call t x s = Some s1" "spawn_calls t xs s1 = Some s'" by (auto simp: bind_eq_Some_conv)
  obtain es where es: "rt_run es s = Some s1" "spawns es = 1" "EvPend False \<notin> set es" using spawn_call_run [OF s1(1)] by blast
  obtain fs where fs: "rt_run fs s1 = Some s'" "spawns fs = length xs" "EvPend False \<notin> set fs" using Cons.IH [OF s1(2)] by blast
  show ?case using es fs by (intro exI [of _ "es @ fs"]) (simp add: rt_run_append spawns_append)
qed

text \<open>
  (C28) The contract of \<open>capacity = N\<close>.  In every reachable state of an initialised group without a spawn under way, of any
  calls of a task's \<open>spawn\<close> in a row exactly the first \<open>N - n\<close> return \<open>Ok\<close>, where \<open>n\<close> of its accepted inputs have not been
  executed; all further ones give their input back.  Afterwards the dispatcher, run on its own, executes everything accepted,
  in order.
\<close>

theorem sw_capacity_exact:
  assumes "distinct (map fst es)" and "sizes_fit TYPE('w::len) es" and "(t, core, c) \<in> set es"
    and "spawns evs + length xs < 2 ^ LENGTH('w)" and "EvPend False \<notin> set evs"
    and "rt_run evs (group_new es :: ('i, 'w) group_rt) = Some s" and "gr_spawner s = SpIdle" and "gr_initialized s"
  shows "\<exists>s'. spawn_calls t xs s = Some s' \<and> calls_outcome t (unat c - outstanding t s) xs s s' \<and>
    (\<exists>devs s''. set devs \<subseteq> {EvEnter, EvFetch, EvExec, EvReturn} \<and> rt_run devs s' = Some s'' \<and>
       gr_dispatcher s'' = DpOff \<and> gr_executed s'' = gr_accepted s')"
proof -
  let ?new = "group_new es :: ('i, 'w) group_rt"
  have cap: "cap_of es t = unat c" using assms(1,3) by (simp add: cap_of_def)
  have t: "t \<in> set (map fst es)" using assms(3) by force
  have n: "rt_inv (cap_of es) (map fst es) (spawns evs + length xs) ?new []" using assms(1,2,4) by (rule inv_new)
  obtain rest where i: "rt_inv (cap_of es) (map fst es) (length xs) s rest" using inv_run_more [OF n assms(1,6)] ..
  have out: "length (inputs_of t rest) = outstanding t s" unfolding outstanding_def rest_eq [OF i] ..
  have i0: "rt_inv (cap_of es) (map fst es) (0 + length xs) s rest" using i by simp
  obtain s' rest' where s': "spawn_calls t xs s = Some s'" "rt_inv (cap_of es) (map fst es) 0 s' rest'"
      "calls_outcome t (unat c - outstanding t s) xs s s'"
    using spawn_calls_outcome [OF i0 assms(1) t assms(7,8)] unfolding cap out by blast
  obtain es' where r: "rt_run es' s = Some s'" "spawns es' = length xs" "EvPend False \<notin> set es'"
    using spawn_calls_run [OF s'(1)] by blast
  have "rt_inv (cap_of es) (map fst es) (spawns evs) ?new []" using assms(4) by (intro inv_new [OF assms(1,2)]) simp
  moreover have "awake ?new" by (simp add: awake_def group_new_def)
  ultimately have "awake s" using awake_run assms(1,5,6) by blast
  then have "awake s'" using awake_run [OF i [folded r(2)] assms(1) _ r(3,1)] by blast
  moreover have "gr_spawner s' = SpIdle" using s'(3) by (simp add: calls_outcome_def)
  ultimately have "drains s'" using s'(2) by (intro drains_awake)
  with s' show ?thesis by (auto simp: drains_def dispatcher_events_def)
qed

lemma sw_capacity_exact_witness:
  "\<exists>s s' :: (nat, 32) group_rt. rt_run [EvInit] (group_new demo_group) = Some s \<and> spawn_calls ''B'' [7, 8, 9] s = Some s' \<and>
     gr_results s' = [Ok (), Ok (), Err (Some 9)]"
proof -
  obtain s :: "(nat, 32) group_rt" where s: "rt_run [EvInit] (group_new demo_group) = Some s"
      "gr_spawner s = SpIdle" "gr_initialized s" "gr_results s = []" "outstanding ''B'' s = 0"
    by (simp add: group_new_def outstanding_def)
  have "(''B'', 0, 2) \<in> set demo_group" "spawns [EvInit] + length [7, 8, 9 :: nat] < 2 ^ LENGTH(32)"
      "EvPend False \<notin> set [EvInit :: nat rt_event]" by (simp_all add: demo_group_def)
  from sw_capacity_exact [OF demo_group_ok(1,2) this s(1-3)] s show ?thesis
    by (auto simp: calls_outcome_def)
qed

end
