(* ===== verification/Examples.thy ===== *)
theory Examples
  imports SwCapacity CortexApp Compose
begin

text \<open>
  The example application \<open>sw_queue_depth.rs\<close> of the Cortex-M distribution: its module through the software-task pass, the
  core parser and the analysis, and the run of its two tasks on the generated queues.
\<close>

section \<open>The application module\<close>

text \<open>A doc comment is an attribute.\<close>

definition doc_attr :: meta where
  "doc_attr = MNameValue (ident_path ''doc'')"

definition path_expr :: "ident list \<Rightarrow> expr" where
  "path_expr is = EPath False \<lparr>leading_colon = False, segments = map (\<lambda>i. \<lparr>seg_ident = i, seg_args = False\<rparr>) is\<rparr>"

definition qd_args :: arg_tokens where
  "qd_args = Some [(ident_path ''device'', Some (path_expr [''stm32f0'', ''stm32f0x0''])),
     (ident_path ''dispatchers'', Some (EArray [ident_expr ''TIM6'']))]"

definition qd_shared_struct :: item_struct where
  "qd_shared_struct = \<lparr>st_attrs = [MPath (ident_path ''shared'')], st_ident = ''Shared'', st_fields = [(Some ''state'', ''State'')]\<rparr>"

definition qd_state_struct :: item_struct where
  "qd_state_struct = \<lparr>st_attrs = [], st_ident = ''State'',
     st_fields = [(Some ''spawned'', ''bool''), (Some ''next_expected'', ''u32''), (Some ''received'', ''u32'')]\<rparr>"

definition qd_tick_struct :: item_struct where
  "qd_tick_struct = \<lparr>st_attrs = [doc_attr, doc_attr, MList (ident_path ''task'') (Some
       [(ident_path ''binds'', Some (ident_expr ''SysTick'')), (ident_path ''priority'', Some (EInt 1)),
        (ident_path ''shared'', Some (EArray [ident_expr ''state''])), (ident_path ''init'', Some (ident_expr ''generated''))])],
     st_ident = ''Tick'', st_fields = []\<rparr>"

definition qd_worker_struct :: item_struct where
  "qd_worker_struct = \<lparr>st_attrs = [doc_attr, MList (ident_path ''sw_task'') (Some
       [(ident_path ''priority'', Some (EInt 2)), (ident_path ''capacity'', Some (EInt 4)),
        (ident_path ''shared'', Some (EArray [ident_expr ''state''])), (ident_path ''init'', Some (ident_expr ''generated''))])],
     st_ident = ''Worker'', st_fields = []\<rparr>"

text \<open>The module; the tokens of the function and impl bodies are left open, their behaviour is below.\<close>

definition qd_mod :: "(ident \<Rightarrow> tokens) \<Rightarrow> item_mod" where
  "qd_mod body = \<lparr>mod_ident = ''my_app'', mod_content = Some
     [IUse ''use cortex_m::peripheral::{Peripherals, syst::SystClkSource};'',
      IUse ''use cortex_m_semihosting::{debug, hprintln};'',
      IOther ''const SPAWNS: u32 = 4;'',
      IStruct qd_shared_struct, IStruct qd_state_struct,
      IFn \<lparr>fn_attrs = [MPath (ident_path ''init'')], fn_ident = ''system_init'', fn_body = body ''system_init''\<rparr>,
      IStruct qd_tick_struct,
      IImpl \<lparr>im_trait = Some (ident_path ''RticTask''), im_self = Some (ident_path ''Tick''), im_body = body ''Tick''\<rparr>,
      IStruct qd_worker_struct,
      IImpl \<lparr>im_trait = Some (ident_path ''RticSwTask''), im_self = Some (ident_path ''Worker''), im_body = body ''Worker''\<rparr>]\<rparr>"

text \<open>What the analysis of the software-task pass makes of it, and what the core pass does: names, priorities, interrupts and
  resources of the tasks, and the ceilings.\<close>

definition task_row :: "rtic_task \<Rightarrow> ident \<times> prio \<times> ident option \<times> ident list" where
  "task_row t = (task_name t, ta_priority (rt_args t), ta_binds (rt_args t), ta_shared (rt_args t))"

definition ceilings :: "sub_app \<Rightarrow> (ident \<times> prio) list" where
  "ceilings sa = (case sa_shared sa of None \<Rightarrow> [] | Some sr \<Rightarrow> map (\<lambda>e. (se_ident e, se_priority e)) (sr_resources sr))"

definition qd_group :: "group_entry list" where
  "qd_group = [(''Worker'', 0, 4)]"

definition example_naming :: naming where
  "example_naming = \<lparr>nm_snake = (\<lambda>i. i), nm_upper = (\<lambda>i. i), nm_nat = digits\<rparr>"

lemma digit_chars: "(char_of (48 :: nat) :: char) = CHR ''0''" "(char_of (50 :: nat) :: char) = CHR ''2''"
  by code_simp+

lemma qd_sw_pass:
  "case sw_run_pass example_naming pr oa cm_sw_backend qd_args (qd_mod body) of
     Inl e \<Rightarrow> False
   | Inr (has, parsed, ans, args', m') \<Rightarrow> has \<and> map sn_groups ans = [[(2, qd_group)]] \<and>
       map sn_dispatchers ans = [[(2, ident_path ''TIM6'')]] \<and>
       (case rbind (app_parse args' m') analysis_run of Inl e \<Rightarrow> False | Inr (a, an) \<Rightarrow>
         map ceilings (sub_apps a) = [[(''state'', 2)]] \<and> map (map task_row \<circ> sa_tasks) (sub_apps a) =
           [[(''Tick'', 1, Some ''SysTick'', [''state'']), (''Worker'', 2, None, [''state'']),
             (''Core0Priority2Dispatcher'', 2, Some ''TIM6'', [])]])"
  if "\<And>i. oa (IUse i) = None" "\<And>i. oa (IOther i) = None"
  by (simp add: that digit_chars task_row_def ceilings_def analysis_run_def update_resource_priorities_def
      update_for_task_def get_field_mut_def get_field_def raise_ceiling_def qd_args_def qd_mod_def qd_group_def qd_shared_struct_def qd_state_struct_def qd_tick_struct_def qd_worker_struct_def
      doc_attr_def path_expr_def example_naming_def cm_sw_backend_def digits.simps dispatcher_ident_def
      sw_run_pass_def sw_app_parse_def app_parameters_parse_def parse_from_tokens_def insert_arg_def take_int_def
      take_expr_def ident_expr_def parse_dispatchers_def insert_dispatcher_def dispatcher_path_def get_expr_def ident_path_def
      sw_collect_def sw_collect_item_def find_sw_task_attr_def attr_of_def get_ident_def item_attrs_def sw_take_task_def
      take_impl_for_def from_meta_def task_params_from_attr_def parse_attr_int_def remove_nth_def sw_sub_app_of_def core_list_def
      is_local_def on_core_def Let_def sw_analysis_run_def analyse_subapp_def group_by_priority_def
      sw_name_def check_disjoint_priorities_def check_uniform_spawn_by_def group_extend_def assign_dispatchers_def
      args_tokens_def attr_tokens_def into_task_attr_def sw_codegen_def generate_subapp_def gen_sw_task_def generate_spawn_api_def
      generate_dispatcher_tasks_def gen_dispatcher_def dispatcher_attrs_def generate_local_pend_fns_def generate_cross_pend_fns_def
      sw_cores_def map_filter_Nil demo_app_simps insert_shared_def expr_ident_def SWT_TRAIT_TY_def HWT_TRAIT_TY_def
      get_sw_task_implementor_def get_task_implementor_def ends_with_def shared_element_of_def
      DEFAULT_TASK_PRIORITY_def capture_trait_impl_def last_ident_def impls_of_def impl_trait_str_def)


section \<open>The tasks\<close>

definition SPAWNS :: "32 word" where
  "SPAWNS = 4"

record qd_state =
  spawned :: bool
  next_expected :: "32 word"
  received :: "32 word"

text \<open>The whole machine: the resource, the generated queues of the group, the lines printed and whether QEMU has been left,
  with success or not.  After that nothing is printed.\<close>

record qd_world =
  w_state :: qd_state
  w_rt :: "(32 word, 32) group_rt"
  w_out :: "string list"
  w_exit :: "bool option"

definition say :: "string \<Rightarrow> qd_world \<Rightarrow> qd_world" where
  "say l w = (if w_exit w = None then w\<lparr>w_out := w_out w @ [l]\<rparr> else w)"

definition halt :: "bool \<Rightarrow> qd_world \<Rightarrow> qd_world" where
  "halt success w = (if w_exit w = None then w\<lparr>w_exit := Some success\<rparr> else w)"

definition show_u32 :: "32 word \<Rightarrow> string" where
  "show_u32 i = digits (unat i)"

text \<open>The device operations of \<open>system_init\<close> and the value of the resource.\<close>

datatype syst_op = SetClockSourceCore | SetReload nat | ClearCurrent | EnableInterrupt | EnableCounter

definition qd_system_init :: "syst_op list \<times> qd_state" where
  "qd_system_init = ([SetClockSourceCore, SetReload 0x1000, ClearCurrent, EnableInterrupt, EnableCounter],
     \<lparr>spawned = False, next_expected = 0, received = 0\<rparr>)"

text \<open>\<open>Worker::spawn(i).is_err()\<close>\<close>

definition qd_spawn :: "32 word \<Rightarrow> qd_world \<Rightarrow> (qd_world \<times> bool) option" where
  "qd_spawn i w = map_option (\<lambda>rt. (w\<lparr>w_rt := rt\<rparr>, \<not> is_ok (last (gr_results rt)))) (spawn_call ''Worker'' i (w_rt w))"

fun spawn_loop :: "32 word list \<Rightarrow> qd_world \<Rightarrow> qd_world option" where
  "spawn_loop [] w = Some w"
| "spawn_loop (i # is) w = Option.bind (qd_spawn i w) (\<lambda>(w', is_err).
     spawn_loop is (if is_err then halt False (say (''FAILURE: spawn #'' @ show_u32 i @ '' was rejected'') w') else w'))"

text \<open>\<open>exec\<close> of \<open>Tick\<close>, all of it under the lock of the resource.\<close>

definition tick_exec :: "qd_world \<Rightarrow> qd_world option" where
  "tick_exec w =
     (if spawned (w_state w) then Some w
      else Option.bind (spawn_loop (map of_nat [0..<unat SPAWNS]) (w\<lparr>w_state := (w_state w)\<lparr>spawned := True\<rparr>\<rparr>)) (\<lambda>w1.
        Option.bind (qd_spawn SPAWNS w1) (\<lambda>(w2, is_err).
          Some (if is_err then say (''as expected: spawn #'' @ show_u32 SPAWNS @ '' rejected (queue full)'') w2
            else halt False (say (''FAILURE: spawn #'' @ show_u32 SPAWNS @ '' unexpectedly succeeded'') w2)))))"

text \<open>\<open>exec\<close> of \<open>Worker\<close>, under the lock too.\<close>

definition processed_line :: "32 word \<Rightarrow> 32 word \<Rightarrow> string" where
  "processed_line input n =
     ''worker: processed input '' @ show_u32 input @ '' ('' @ show_u32 n @ ''/'' @ show_u32 SPAWNS @ '')''"

definition success_line :: string where
  "success_line = ''SUCCESS: all '' @ show_u32 SPAWNS @ '' queued spawns processed in FIFO order''"

definition worker_exec :: "32 word \<Rightarrow> qd_world \<Rightarrow> qd_world" where
  "worker_exec input w =
     (let st = w_state w;
          w1 = (if input \<noteq> next_expected st
            then halt False (say (''FAILURE: expected input '' @ show_u32 (next_expected st) @ '', got '' @ show_u32 input) w) else w);
          st1 = st\<lparr>next_expected := next_expected st + 1, received := received st + 1\<rparr>;
          w2 = say (processed_line input (received st1)) (w1\<lparr>w_state := st1\<rparr>)
      in if received st1 = SPAWNS then halt True (say success_line w2) else w2)"

section \<open>Runs\<close>

text \<open>The machine after the entry function: the flag of the software-task system is set.\<close>

definition qd_start :: qd_world where
  "qd_start = \<lparr>w_state = snd qd_system_init, w_rt = (group_new qd_group)\<lparr>gr_initialized := True\<rparr>, w_out = [], w_exit = None\<rparr>"

text \<open>The handler of \<open>SysTick\<close>, whose lock keeps the dispatcher out, and the steps of the dispatcher; \<open>SysTick\<close> may come any
  number of times and at any point.\<close>

datatype qd_event = QdTick | QdEnter | QdFetch | QdExec | QdReturn

fun rt_event_of :: "qd_event \<Rightarrow> 32 word rt_event option" where
  "rt_event_of QdTick = None"
| "rt_event_of QdEnter = Some EvEnter"
| "rt_event_of QdFetch = Some EvFetch"
| "rt_event_of QdExec = Some EvExec"
| "rt_event_of QdReturn = Some EvReturn"

definition qd_step :: "qd_event \<Rightarrow> qd_world \<Rightarrow> qd_world option" where
  "qd_step e w =
     (if w_exit w \<noteq> None then None
      else case rt_event_of e of
        None \<Rightarrow> tick_exec w
      | Some re \<Rightarrow> map_option (\<lambda>rt.
          (if e = QdExec then worker_exec (snd (last (gr_executed rt))) else id) (w\<lparr>w_rt := rt\<rparr>)) (rt_step re (w_rt w)))"

fun qd_run :: "qd_event list \<Rightarrow> qd_world \<Rightarrow> qd_world option" where
  "qd_run [] w = Some w"
| "qd_run (e # es) w = Option.bind (qd_step e w) (qd_run es)"

text \<open>What the example prints.\<close>

definition qd_expected :: "string list" where
  "qd_expected = (''as expected: spawn #'' @ show_u32 SPAWNS @ '' rejected (queue full)'') #
     [processed_line 0 1, processed_line 1 2, processed_line 2 3, processed_line 3 4, success_line]"

section \<open>The first tick\<close>

definition qd_inputs :: "(ident \<times> 32 word) list" where
  "qd_inputs = map (Pair ''Worker'') [0, 1, 2, 3]"

lemma first_tick:
  "\<exists>w. tick_exec qd_start = Some w \<and> spawned (w_state w) \<and> next_expected (w_state w) = 0 \<and> received (w_state w) = 0 \<and>
     gr_accepted (w_rt w) = qd_inputs \<and> gr_executed (w_rt w) = [] \<and> gr_spawner (w_rt w) = SpIdle \<and> gr_pended (w_rt w) \<and>
     w_out w = take 1 qd_expected \<and> w_exit w = None \<and>
     rt_run (concat (map (\<lambda>i. [EvSpawn True ''Worker'' i, EvReady, EvPend True]) [0, 1, 2, 3]) @ [EvSpawn True ''Worker'' 4])
       (w_rt qd_start) = Some (w_rt w)"
  by (simp add: tick_exec_def qd_start_def qd_system_init_def SPAWNS_def qd_spawn_def spawn_call_def upt_rec qd_group_def group_new_def
    spawn_input_def spawn_ready_def spawn_pend_def queue_new_def enqueue_def enqueue_unchecked_def DEPTH_def Let_def is_ok_def
    say_def qd_inputs_def qd_expected_def)

section \<open>Every run\<close>

text \<open>After the first tick: of the four inputs the first \<open>n\<close> have been executed, and the state, the lines printed and the
  exit are as \<open>n\<close> says.\<close>

definition qd_after :: "qd_world \<Rightarrow> bool" where
  "qd_after w \<longleftrightarrow> spawned (w_state w) \<and>
     (\<exists>rest. rt_inv (cap_of qd_group) [''Worker''] 0 (w_rt w) rest) \<and> gr_spawner (w_rt w) = SpIdle \<and> awake (w_rt w) \<and>
     gr_accepted (w_rt w) = qd_inputs \<and>
     (let n = length (gr_executed (w_rt w)) in next_expected (w_state w) = of_nat n \<and> received (w_state w) = of_nat n \<and>
        (if n = 4 then w_out w = qd_expected \<and> w_exit w = Some True
         else w_out w = take (n + 1) qd_expected \<and> w_exit w = None))"

lemma qd_group_ok: "distinct (map fst qd_group)" "sizes_fit TYPE(32) qd_group" "map fst qd_group = [''Worker'']"
  by (simp_all add: qd_group_def sizes_fit_def total_cap_def)

lemma rt_inv_initialized: "rt_inv cap ts k (s\<lparr>gr_initialized := b\<rparr>) rest \<longleftrightarrow> rt_inv cap ts k s rest"
  by (simp add: rt_inv_def)

lemma start_inv:
  assumes "k < 2 ^ LENGTH(32)"
  shows "rt_inv (cap_of qd_group) [''Worker''] k (w_rt qd_start) []"
proof -
  have "rt_inv (cap_of qd_group) (map fst qd_group) k (group_new qd_group :: (32 word, 32) group_rt) []"
    using qd_group_ok(1,2) assms by (rule inv_new)
  then show ?thesis by (simp add: qd_group_ok(3) qd_start_def rt_inv_initialized)
qed

lemma below_4: "n < 4 \<Longrightarrow> n = 0 \<or> n = 1 \<or> n = 2 \<or> n = (3 :: nat)"
  by arith

lemma after_first_tick: "tick_exec qd_start = Some w \<Longrightarrow> qd_after w"
proof -
  let ?es = "concat (map (\<lambda>i. [EvSpawn True ''Worker'' i, EvReady, EvPend True]) [0, 1, 2, 3]) @ [EvSpawn True ''Worker'' (4 :: 32 word)]"
  assume w: "tick_exec qd_start = Some w"
  then have f: "spawned (w_state w)" "next_expected (w_state w) = 0" "received (w_state w) = 0"
     "gr_accepted (w_rt w) = qd_inputs" "gr_executed (w_rt w) = []" "gr_spawner (w_rt w) = SpIdle" "gr_pended (w_rt w)"
     "w_out w = take 1 qd_expected" "w_exit w = None" "rt_run ?es (w_rt qd_start) = Some (w_rt w)"
    using first_tick by auto
  have "rt_inv (cap_of qd_group) [''Worker''] (spawns ?es) (w_rt qd_start) []" by (rule start_inv) simp
  from inv_run [OF this _ f(10)] have "\<exists>rest. rt_inv (cap_of qd_group) [''Worker''] 0 (w_rt w) rest" by simp
  then show ?thesis using f(1-9) by (simp add: qd_after_def awake_def)
qed

lemma dispatcher_step:
  assumes i: "rt_inv cap ts k s rest" and st: "rt_step e s = Some s'" and e: "e \<in> {EvEnter, EvFetch, EvReturn}"
  shows "gr_accepted s' = gr_accepted s \<and> gr_executed s' = gr_executed s \<and> gr_spawner s' = gr_spawner s"
  using e st by (auto simp: fetch_eq [OF i] split: if_splits list.splits dispatch_pc.splits)

lemma exec_step:
  assumes i: "rt_inv cap ts k s rest" and st: "rt_step EvExec s = Some s'"
  obtains t x where "gr_accepted s' = gr_accepted s" "gr_executed s' = gr_executed s @ [(t, x)]" "gr_spawner s' = gr_spawner s"
    "gr_accepted s ! length (gr_executed s) = (t, x)" "length (gr_executed s) < length (gr_accepted s)"
proof -
  from st obtain t q where d: "gr_dispatcher s = DpFetched t" "gr_inputs s t = Some q" "s' = dispatch_exec t q s"
    by (auto split: dispatch_pc.splits option.splits)
  from i d(1,2) obtain x rest' where x: "rest = (t, x) # rest'"
    "dispatch_exec t q s = s\<lparr>gr_inputs := (gr_inputs s)(t \<mapsto> fst (dequeue_unchecked q)), gr_dispatcher := DpRunning t,
        gr_executed := gr_executed s @ [(t, x)]\<rparr>" by (rule exec_eq)
  have "gr_accepted s = gr_executed s @ (t, x) # rest'" using i x(1) by (simp add: rt_inv_def)
  then show thesis using x(2) d(3) by (intro that [of t x]) simp_all
qed

text \<open>One more input.\<close>

lemma worker_next:
  assumes "n < 4" and "st = \<lparr>spawned = True, next_expected = of_nat n, received = of_nat n\<rparr>" and "w_state w = st"
    and "w_out w = take (n + 1) qd_expected" and "w_exit w = None"
  shows "worker_exec (of_nat n) w = w\<lparr>w_state := \<lparr>spawned = True, next_expected = of_nat (n + 1), received = of_nat (n + 1)\<rparr>,
     w_out := (if n + 1 = 4 then qd_expected else take (n + 2) qd_expected), w_exit := (if n + 1 = 4 then Some True else None)\<rparr>"
proof -
  from below_4 [OF assms(1)] show ?thesis
    using assms(2-5) by (elim disjE) (simp_all add: worker_exec_def say_def halt_def Let_def SPAWNS_def qd_expected_def)
qed

lemma qd_after_step:
  assumes a: "qd_after w" and st: "qd_step e w = Some w'"
  shows "qd_after w'"
proof -
  obtain rest where i: "rt_inv (cap_of qd_group) [''Worker''] 0 (w_rt w) rest" using a by (auto simp: qd_after_def)
  have x: "w_exit w = None" using st by (simp add: qd_step_def split: if_splits)
  show ?thesis
  proof (cases "rt_event_of e")
    case None
    with st x have "tick_exec w = Some w'" by (simp add: qd_step_def)
    then have "w' = w" using a by (simp add: tick_exec_def qd_after_def)
    with a show ?thesis by simp
  next
    case (Some re)
    with st x obtain rt where rt: "rt_step re (w_rt w) = Some rt"
        "w' = (if e = QdExec then worker_exec (snd (last (gr_executed rt))) else id) (w\<lparr>w_rt := rt\<rparr>)"
      by (auto simp: qd_step_def)
    have re: "re \<noteq> EvPend False" "spawns [re] = 0" using Some by (cases e; auto)+
    have i': "\<exists>rest. rt_inv (cap_of qd_group) [''Worker''] 0 rt rest"
      using inv_step [of _ _ re "[]", OF _ _ rt(1)] i re(2) by (simp del: spawns.simps) (simp add: spawns.simps(1))
    have aw: "awake rt" using awake_step [OF i _ rt(1) re(1)] a by (simp add: qd_after_def)
    show ?thesis
    proof (cases "e = QdExec")
      case False
      then have "re \<in> {EvEnter, EvFetch, EvReturn}" using Some by (cases e) auto
      from dispatcher_step [OF i rt(1) this] False rt(2) a i' aw show ?thesis by (simp add: qd_after_def Let_def)
    next
      case True
      with Some rt(1) have "rt_step EvExec (w_rt w) = Some rt" by simp
      from exec_step [OF i this] obtain t y where y: "gr_accepted rt = gr_accepted (w_rt w)"
          "gr_executed rt = gr_executed (w_rt w) @ [(t, y)]" "gr_spawner rt = gr_spawner (w_rt w)"
          "gr_accepted (w_rt w) ! length (gr_executed (w_rt w)) = (t, y)"
          "length (gr_executed (w_rt w)) < length (gr_accepted (w_rt w))" .
      let ?n = "length (gr_executed (w_rt w))"
      have acc: "gr_accepted (w_rt w) = qd_inputs" using a by (simp add: qd_after_def)
      have n: "?n < 4" using y(5) by (simp add: acc qd_inputs_def)
      from below_4 [OF this] have "y = of_nat ?n" using y(4) unfolding acc by (elim disjE) (simp_all add: qd_inputs_def)
      moreover have "worker_exec (of_nat ?n) (w\<lparr>w_rt := rt\<rparr>) = (w\<lparr>w_rt := rt\<rparr>)\<lparr>w_state := \<lparr>spawned = True, next_expected = of_nat (?n + 1),
          received = of_nat (?n + 1)\<rparr>, w_out := (if ?n + 1 = 4 then qd_expected else take (?n + 2) qd_expected),
          w_exit := (if ?n + 1 = 4 then Some True else None)\<rparr>"
        by (rule worker_next [OF n]) (use a n x in \<open>auto simp: qd_after_def Let_def\<close>)
      ultimately have "w' = (w\<lparr>w_rt := rt\<rparr>)\<lparr>w_state := \<lparr>spawned = True, next_expected = of_nat (?n + 1),
          received = of_nat (?n + 1)\<rparr>, w_out := (if ?n + 1 = 4 then qd_expected else take (?n + 2) qd_expected),
          w_exit := (if ?n + 1 = 4 then Some True else None)\<rparr>"
        using rt(2) True y(2) by simp
      then show ?thesis using i' aw y(1-3) a acc n by (simp add: qd_after_def Let_def)
    qed
  qed
qed


lemma qd_run_states: "qd_after w \<or> w = qd_start \<Longrightarrow> qd_run evs w = Some w' \<Longrightarrow> qd_after w' \<or> w' = qd_start"
proof (induction evs arbitrary: w)
  case Nil
  then show ?case by simp
next
  case (Cons e evs)
  then obtain w1 where w1: "qd_step e w = Some w1" "qd_run evs w1 = Some w'" by (auto simp: bind_eq_Some_conv)
  from Cons.prems(1) have "qd_after w1"
  proof
    assume "w = qd_start"
    with w1(1) have s: "qd_step e qd_start = Some w1" by simp
    have "e = QdTick" using s by (cases e) (simp_all add: qd_step_def qd_start_def group_new_def)
    with s have "tick_exec qd_start = Some w1" by (simp add: qd_step_def qd_start_def)
    then show ?thesis by (rule after_first_tick)
  qed (use w1(1) qd_after_step in blast)
  then show ?case using Cons.IH w1(2) by blast
qed

text \<open>The dispatcher's run lifted to the machine, until it is left.\<close>

lemma qd_lift:
  "qd_after w \<Longrightarrow> w_exit w = None \<Longrightarrow> set devs \<subseteq> dispatcher_events \<Longrightarrow> rt_run devs (w_rt w) = Some rt \<Longrightarrow>
     gr_executed rt = gr_accepted (w_rt w) \<Longrightarrow> \<exists>evs w'. qd_run evs w = Some w' \<and> w_exit w' = Some True"
proof (induction devs arbitrary: w)
  case Nil
  then have "length (gr_executed (w_rt w)) = 4" by (simp add: qd_after_def qd_inputs_def)
  with Nil.prems(1,2) show ?case by (simp add: qd_after_def Let_def)
next
  case (Cons re devs)
  then obtain rt1 where rt1: "rt_step re (w_rt w) = Some rt1" "rt_run devs rt1 = Some rt" by (auto simp: bind_eq_Some_conv)
  obtain e where e: "rt_event_of e = Some re"
    using Cons.prems(3) by (auto simp: dispatcher_events_def intro: rt_event_of.simps)
  obtain w1 where w1: "qd_step e w = Some w1" "w_rt w1 = rt1"
    using rt1(1) e Cons.prems(2)
    by (simp add: qd_step_def worker_exec_def say_def halt_def Let_def)
  have a1: "qd_after w1" using Cons.prems(1) w1(1) by (rule qd_after_step)
  show ?case
  proof (cases "w_exit w1")
    case None
    have "gr_accepted (w_rt w1) = gr_accepted (w_rt w)" using a1 Cons.prems(1) by (simp add: qd_after_def)
    then obtain evs w' where "qd_run evs w1 = Some w'" "w_exit w' = Some True"
      using Cons.IH [OF a1 None] Cons.prems(3,5) rt1(2) w1(2) by auto
    then show ?thesis using w1(1) by (intro exI [of _ "e # evs"] exI [of _ w']) simp
  next
    case (Some b)
    then have "w_exit w1 = Some True" using a1 by (auto simp: qd_after_def Let_def split: if_splits)
    then show ?thesis using w1(1) by (intro exI [of _ "[e]"] exI [of _ w1]) simp
  qed
qed

lemma qd_reaches_exit:
  assumes "qd_after w \<or> w = qd_start" and "w_exit w = None"
  shows "\<exists>evs w'. qd_run evs w = Some w' \<and> w_exit w' = Some True"
proof -
  have after: "\<exists>evs w'. qd_run evs v = Some w' \<and> w_exit w' = Some True" if a: "qd_after v" and x: "w_exit v = None" for v
  proof -
    obtain rest where "rt_inv (cap_of qd_group) [''Worker''] 0 (w_rt v) rest" using a by (auto simp: qd_after_def)
    then have "drains (w_rt v)" using a by (intro drains_awake) (simp_all add: qd_after_def)
    then show ?thesis using qd_lift [OF a x] by (auto simp: drains_def)
  qed
  from assms(1) show ?thesis
  proof
    assume "w = qd_start"
    obtain v where v: "tick_exec qd_start = Some v" "w_exit v = None" using first_tick by blast
    obtain evs w' where "qd_run evs v = Some w'" "w_exit w' = Some True" using after [OF after_first_tick [OF v(1)] v(2)] by blast
    moreover have "qd_step QdTick qd_start = Some v" using v(1) by (simp add: qd_step_def qd_start_def)
    ultimately show ?thesis using \<open>w = qd_start\<close> by (intro exI [of _ "QdTick # evs"] exI [of _ w']) simp
  qed (use after assms(2) in blast)
qed

lemma qd_outcome: "qd_after w \<or> w = qd_start \<Longrightarrow> prefix (w_out w) qd_expected \<and>
    (w_exit w = None \<or> w_exit w = Some True \<and> w_out w = qd_expected)"
  by (auto simp: qd_after_def Let_def take_is_prefix qd_start_def split: if_splits)

text \<open>
  (C29) The example \<open>sw_queue_depth\<close> proves what it says.  The macro makes of its module one priority group with the task
  \<open>Worker\<close> of capacity 4, whose dispatcher has the priority 2 that is also the ceiling of the resource, while \<open>Tick\<close> has
  priority 1.  On the queues of this group, whenever the ticks come and the dispatcher runs, the program never reports
  a failure and never leaves QEMU with one; it prints a prefix of: the fifth spawn is rejected, the inputs 0 to 3 are processed in
  this order, success.  From every state in which it has not ended it can still end with success.
\<close>

theorem sw_queue_depth_succeeds:
  assumes "\<And>i. oa (IUse i) = None" and "\<And>i. oa (IOther i) = None" and "qd_run evs qd_start = Some w"
  shows "(\<exists>parsed ans args' m' a an. sw_run_pass example_naming pr oa cm_sw_backend qd_args (qd_mod body) =
        Ok (True, parsed, ans, args', m') \<and> map sn_groups ans = [[(2, qd_group)]] \<and>
        rbind (app_parse args' m') analysis_run = Ok (a, an) \<and> map ceilings (sub_apps a) = [[(''state'', 2)]] \<and>
        map (map task_row \<circ> sa_tasks) (sub_apps a) =
          [[(''Tick'', 1, Some ''SysTick'', [''state'']), (''Worker'', 2, None, [''state'']),
            (''Core0Priority2Dispatcher'', 2, Some ''TIM6'', [])]]) \<and>
    prefix (w_out w) qd_expected \<and> (w_exit w = None \<or> w_exit w = Some True \<and> w_out w = qd_expected) \<and>
    (w_exit w = None \<longrightarrow> (\<exists>evs' w'. qd_run evs' w = Some w' \<and> w_exit w' = Some True))"
proof (intro conjI)
  obtain parsed ans args' m' where r: "sw_run_pass example_naming pr oa cm_sw_backend qd_args (qd_mod body) =
        Ok (True, parsed, ans, args', m')" "map sn_groups ans = [[(2, qd_group)]]"
      "case rbind (app_parse args' m') analysis_run of Inl e \<Rightarrow> False | Inr (a, an) \<Rightarrow>
         map ceilings (sub_apps a) = [[(''state'', 2)]] \<and> map (map task_row \<circ> sa_tasks) (sub_apps a) =
           [[(''Tick'', 1, Some ''SysTick'', [''state'']), (''Worker'', 2, None, [''state'']),
             (''Core0Priority2Dispatcher'', 2, Some ''TIM6'', [])]]"
    using qd_sw_pass [OF assms(1,2), where pr = pr and body = body] by (cases rule: sum.exhaust
      [of "sw_run_pass example_naming pr oa cm_sw_backend qd_args (qd_mod body)"]) auto
  then show "\<exists>parsed ans args' m' a an. sw_run_pass example_naming pr oa cm_sw_backend qd_args (qd_mod body) =
        Ok (True, parsed, ans, args', m') \<and> map sn_groups ans = [[(2, qd_group)]] \<and>
        rbind (app_parse args' m') analysis_run = Ok (a, an) \<and> map ceilings (sub_apps a) = [[(''state'', 2)]] \<and>
        map (map task_row \<circ> sa_tasks) (sub_apps a) =
          [[(''Tick'', 1, Some ''SysTick'', [''state'']), (''Worker'', 2, None, [''state'']),
            (''Core0Priority2Dispatcher'', 2, Some ''TIM6'', [])]]"
    by (cases "rbind (app_parse args' m') analysis_run") auto
  have st: "qd_after w \<or> w = qd_start" using assms(3) by (intro qd_run_states [of qd_start evs w]) simp_all
  show "prefix (w_out w) qd_expected" "w_exit w = None \<or> w_exit w = Some True \<and> w_out w = qd_expected"
    using qd_outcome [OF st] by simp_all
  show "w_exit w = None \<longrightarrow> (\<exists>evs' w'. qd_run evs' w = Some w' \<and> w_exit w' = Some True)"
    using qd_reaches_exit [OF st] ..
qed

lemma sw_queue_depth_succeeds_witness:
  "\<exists>w evs w'. qd_run [QdTick, QdTick] qd_start = Some w \<and> qd_run evs w = Some w' \<and> w_exit w' = Some True"
proof -
  obtain w where w: "tick_exec qd_start = Some w" "spawned (w_state w)" "w_exit w = None" using first_tick by blast
  then have r: "qd_run [QdTick, QdTick] qd_start = Some w" by (simp add: qd_step_def tick_exec_def qd_start_def)
  from sw_queue_depth_succeeds [of "\<lambda>_. None", OF _ _ r] w(3) r show ?thesis by auto
qed

end
