(* ===== verification/Deadline.thy ===== *)
theory Deadline
  imports CoreParser
begin

text \<open>
  The deadline pass, \<open>rticx-deadline-pass/src/deadline_pass/\<close>: it replaces the deadlines of tasks by
  priorities.  A panic of the macro is an error value.
\<close>

section \<open>The pass\<close>

record dl_task =
  dl_params :: rtic_attr
  dl_attr_idx :: nat
  dl_struct :: item_struct
  dl_deadline :: "32 word option"

record dl_app =
  dx_ident :: ident
  dx_tasks :: "dl_task list"
  dx_rest :: "item list"

text \<open>An integer literal parsed into \<open>u32\<close>, \<open>ok()\<close> of the result.\<close>

definition int_value :: "expr option \<Rightarrow> 'w::len word option" where
  "int_value e = (case e of Some (EInt n) \<Rightarrow> if n < 2 ^ LENGTH('w) then Some (of_nat n) else None | _ \<Rightarrow> None)"

definition dl_from_struct :: "item_struct \<times> nat \<Rightarrow> dl_task result" where
  "dl_from_struct si =
     (case si of (task_struct, attr_idx) \<Rightarrow>
       rbind (from_meta (st_attrs task_struct ! attr_idx)) (\<lambda>params.
       case get_expr ''priority'' params of
         Some (EInt _) \<Rightarrow> Err (MacroPanic ''priority'')
       | _ \<Rightarrow> Ok \<lparr>dl_params = params, dl_attr_idx = attr_idx, dl_struct = task_struct,
                dl_deadline = int_value (get_expr ''deadline'' params)\<rparr>))"

definition dl_task_struct :: "item_struct \<Rightarrow> nat option" where
  "dl_task_struct s =
     (case is_struct_with_attr s ''task'' of
        Some i \<Rightarrow> Some i
      | None \<Rightarrow> is_struct_with_attr s ''sw_task'')"

definition dl_collect_item :: "(item_struct \<times> nat) list \<times> item list \<Rightarrow> item \<Rightarrow> (item_struct \<times> nat) list \<times> item list" where
  "dl_collect_item c it =
     (case it of
        IStruct s \<Rightarrow>
          (case dl_task_struct s of
             Some i \<Rightarrow> (fst c @ [(s, i)], snd c)
           | None \<Rightarrow> (fst c, snd c @ [it]))
      | _ \<Rightarrow> (fst c, snd c @ [it]))"

definition dl_parse :: "item_mod \<Rightarrow> dl_app result" where
  "dl_parse m =
     (let items = (case mod_content m of None \<Rightarrow> [] | Some items \<Rightarrow> items);
          c = foldl dl_collect_item ([], []) items in
      rbind (rcollect dl_from_struct (fst c)) (\<lambda>tasks.
      Ok \<lparr>dx_ident = mod_ident m, dx_tasks = tasks, dx_rest = snd c\<rparr>))"

text \<open>\<open>sort\<close> and \<open>dedup\<close> of the deadlines, a missing one counting as \<open>u32::MAX\<close>; the position of a deadline.\<close>

definition sorted_deadlines :: "dl_task list \<Rightarrow> 32 word list" where
  "sorted_deadlines ts = remdups_adj (sort (map (\<lambda>t. case dl_deadline t of Some d \<Rightarrow> d | None \<Rightarrow> - 1) ts))"

fun position :: "'a \<Rightarrow> 'a list \<Rightarrow> nat option" where
  "position x [] = None"
| "position x (y # ys) = (if y = x then Some 0 else map_option Suc (position x ys))"

definition rank_of :: "32 word list \<Rightarrow> dl_task \<Rightarrow> dl_task" where
  "rank_of ds t =
     (case dl_deadline t of
        None \<Rightarrow> t
      | Some v \<Rightarrow> t\<lparr>dl_deadline := Some (of_nat (the (position v ds)) + 1)\<rparr>)"

definition dl_analyze :: "prio \<Rightarrow> dl_app \<Rightarrow> dl_app result" where
  "dl_analyze max_priority a =
     (let ds = sorted_deadlines (dx_tasks a) in
      if (of_nat (length ds) :: 16 word) > max_priority then Err (MacroPanic ''deadline'')
      else Ok (a\<lparr>dx_tasks := map (rank_of ds) (dx_tasks a)\<rparr>))"

definition set_priority :: "dl_task \<Rightarrow> dl_task" where
  "set_priority t =
     (case dl_deadline t of
        None \<Rightarrow> t
      | Some d \<Rightarrow> t\<lparr>dl_params := (dl_params t)\<lparr>elements :=
          AList.update ''priority'' (EInt (unat d)) (AList.delete ''deadline'' (elements (dl_params t)))\<rparr>\<rparr>)"

text \<open>The code generator of both this pass and the automatic assignment: the new attribute first.\<close>

definition dl_codegen_task :: "dl_task \<Rightarrow> item" where
  "dl_codegen_task t = IStruct ((dl_struct t)\<lparr>st_attrs :=
     attr_tokens (dl_params t) # remove_nth (dl_attr_idx t) (st_attrs (dl_struct t))\<rparr>)"

definition dl_codegen :: "dl_app \<Rightarrow> item_mod" where
  "dl_codegen a = \<lparr>mod_ident = dx_ident a, mod_content = Some (dx_rest a @ map dl_codegen_task (dx_tasks a))\<rparr>"

definition dl_run_pass :: "prio \<Rightarrow> arg_tokens \<Rightarrow> item_mod \<Rightarrow> (arg_tokens \<times> item_mod) result" where
  "dl_run_pass max_priority args m =
     rbind (parse_from_tokens args ''app'') (\<lambda>_.
     rbind (dl_parse m) (\<lambda>parsed.
     rbind (dl_analyze max_priority parsed) (\<lambda>a.
     Ok (args, dl_codegen (a\<lparr>dx_tasks := map set_priority (dx_tasks a)\<rparr>)))))"

section \<open>Ranks\<close>

lemma position_Some: "position x ys = Some i \<Longrightarrow> i < length ys \<and> ys ! i = x"
  by (induction ys arbitrary: i) (auto split: if_splits)

lemma position_member: "x \<in> set ys \<Longrightarrow> \<exists>i. position x ys = Some i"
  by (induction ys) auto

lemma sorted_deadlines_props:
  "sorted_wrt (<) (sorted_deadlines ts)"
  "set (sorted_deadlines ts) = (\<lambda>t. case dl_deadline t of Some d \<Rightarrow> d | None \<Rightarrow> - 1) ` set ts"
proof -
  have "sorted (sorted_deadlines ts)" by (simp add: sorted_deadlines_def sorted_remdups_adj)
  moreover have "distinct (remdups_adj xs)" if "sorted xs" for xs :: "32 word list"
    using that
  proof (induction xs rule: remdups_adj.induct)
    case (3 x y xs)
    then show ?case by (cases "x = y") (auto simp: order.antisym)
  qed simp_all
  then have "distinct (sorted_deadlines ts)" by (simp add: sorted_deadlines_def)
  ultimately show "sorted_wrt (<) (sorted_deadlines ts)" by (simp add: strict_sorted_iff)
qed (simp add: sorted_deadlines_def)


definition effective_deadline :: "dl_task \<Rightarrow> 32 word" where
  "effective_deadline t = (case dl_deadline t of Some d \<Rightarrow> d | None \<Rightarrow> - 1)"

lemma deadlines_set: "set (sorted_deadlines ts) = effective_deadline ` set ts"
  by (auto simp: sorted_deadlines_props(2) effective_deadline_def)

text \<open>In a strictly ascending list the position is the number of smaller elements.\<close>

lemma position_rank:
  "sorted_wrt (<) ys \<Longrightarrow> (x :: 'a :: linorder) \<in> set ys \<Longrightarrow> position x ys = Some (card {y \<in> set ys. y < x})"
proof (induction ys)
  case (Cons y ys)
  show ?case
  proof (cases "y = x")
    case True
    then have "{z \<in> set (y # ys). z < x} = {}" using Cons.prems(1) by (auto dest: order.asym)
    with True show ?thesis by simp
  next
    case False
    then have x: "x \<in> set ys" "y < x" using Cons.prems by auto
    then have "{z \<in> set (y # ys). z < x} = insert y {z \<in> set ys. z < x}" by auto
    moreover have "y \<notin> {z \<in> set ys. z < x}" using Cons.prems(1) by auto
    ultimately show ?thesis using Cons x False by simp
  qed
qed simp

text \<open>The deadlines of the app that are shorter than \<open>d\<close>.\<close>

definition shorter :: "dl_task list \<Rightarrow> 32 word \<Rightarrow> 32 word set" where
  "shorter ts d = {e \<in> effective_deadline ` set ts. e < d}"

lemma rank_of_eq:
  assumes "t \<in> set ts" "dl_deadline t = Some d"
  shows "rank_of (sorted_deadlines ts) t = t\<lparr>dl_deadline := Some (of_nat (card (shorter ts d)) + 1)\<rparr>"
proof -
  have "d \<in> set (sorted_deadlines ts)" unfolding deadlines_set using assms by (force simp: effective_deadline_def)
  from position_rank [OF sorted_deadlines_props(1) this] assms(2) show ?thesis
    by (simp add: rank_of_def shorter_def deadlines_set)
qed

lemma shorter_bound: "finite (shorter ts d)" "card (shorter ts d) \<le> length ts"
proof -
  have "card (shorter ts d) \<le> card (effective_deadline ` set ts)" by (rule card_mono) (auto simp: shorter_def)
  also have "\<dots> \<le> card (set ts)" by (rule card_image_le) simp
  also have "\<dots> \<le> length ts" by (rule card_length)
  finally show "card (shorter ts d) \<le> length ts" .
qed (simp add: shorter_def)

text \<open>
  (C30) With fewer than \<open>2^16\<close> tasks, the pass replaces every deadline by one plus the number of shorter
  deadlines in the app, at most the number of priorities of the platform.  So of two tasks the one with the
  longer deadline gets the greater priority number, which in the core pass is the more
  urgent one (\<open>ast.rs\<close>: higher numbers preempt lower ones).
\<close>

theorem deadline_ranks_inverted:
  assumes "dl_analyze maxp a = Ok a'" and "length (dx_tasks a) < 2 ^ 16 - 1"
    and "i < length (dx_tasks a)" and "j < length (dx_tasks a)"
    and "dl_deadline (dx_tasks a ! i) = Some d" and "dl_deadline (dx_tasks a ! j) = Some e" and "d < e"
  shows "\<exists>p q. get_expr ''priority'' (dl_params (set_priority (dx_tasks a' ! i))) = Some (EInt p) \<and>
    get_expr ''priority'' (dl_params (set_priority (dx_tasks a' ! j))) = Some (EInt q) \<and>
    p = card (shorter (dx_tasks a) d) + 1 \<and> q = card (shorter (dx_tasks a) e) + 1 \<and>
    p < q \<and> q \<le> unat maxp"
proof -
  let ?ts = "dx_tasks a"
  have a': "a' = a\<lparr>dx_tasks := map (rank_of (sorted_deadlines ?ts)) ?ts\<rparr>"
      "\<not> of_nat (length (sorted_deadlines ?ts)) > maxp"
    using assms(1) by (auto simp: dl_analyze_def Let_def split: if_splits)
  have u: "unat (of_nat (card (shorter ?ts x)) + 1 :: 32 word) = card (shorter ?ts x) + 1" for x
  proof -
    have "Suc (card (shorter ?ts x)) < 2 ^ LENGTH(32)" using shorter_bound(2) [of ?ts x] assms(2) by simp
    then have "unat (of_nat (Suc (card (shorter ?ts x))) :: 32 word) = Suc (card (shorter ?ts x))"
      by (rule unat_of_nat_small)
    then show ?thesis by (simp add: add.commute)
  qed
  have t: "get_expr ''priority'' (dl_params (set_priority (dx_tasks a' ! k))) = Some (EInt (card (shorter ?ts x) + 1))"
    if "k < length ?ts" "dl_deadline (?ts ! k) = Some x" for k x
    using that u [of x] rank_of_eq [OF nth_mem that(2)]
    by (simp add: a'(1) set_priority_def get_expr_def map_of_update)
  have e_in: "e \<in> effective_deadline ` set ?ts" "d \<in> effective_deadline ` set ?ts"
    using assms(5,6) nth_mem [OF assms(3)] nth_mem [OF assms(4)]
    by (auto simp: effective_deadline_def intro: rev_image_eqI [of "?ts ! i"] rev_image_eqI [of "?ts ! j"])
  have lt: "card (shorter ?ts d) < card (shorter ?ts e)"
  proof (rule psubset_card_mono)
    show "shorter ?ts d \<subset> shorter ?ts e" using assms(7) e_in(2) by (auto simp: shorter_def)
  qed (rule shorter_bound)
  have "card (shorter ?ts e) < card (effective_deadline ` set ?ts)"
    by (rule psubset_card_mono) (use e_in(1) in \<open>auto simp: shorter_def\<close>)
  also have "card (effective_deadline ` set ?ts) = length (sorted_deadlines ?ts)"
    using sorted_deadlines_props(1) [of ?ts] unfolding deadlines_set [symmetric] strict_sorted_iff
    by (simp add: distinct_card)
  finally have c: "card (shorter ?ts e) + 1 \<le> length (sorted_deadlines ?ts)" by simp
  have "length (sorted_deadlines ?ts) \<le> length ?ts"
    unfolding sorted_deadlines_def using remdups_adj_length [of "sort (map (case_option (-1) (\<lambda>d. d) \<circ> dl_deadline) ?ts)"]
    by (simp add: comp_def)
  with assms(2) have "unat (of_nat (length (sorted_deadlines ?ts)) :: 16 word) = length (sorted_deadlines ?ts)"
    by (intro unat_of_nat_small) simp
  with a'(2) c have "card (shorter ?ts e) + 1 \<le> unat maxp" by (simp add: not_less word_le_nat_alt)
  with t [OF assms(3,5)] t [OF assms(4,6)] lt show ?thesis by simp
qed


definition demo_dl_task :: "ident \<Rightarrow> 32 word \<Rightarrow> dl_task" where
  "demo_dl_task n d = \<lparr>dl_params = \<lparr>attr_name = ''task'', elements = [(''deadline'', EInt (unat d))]\<rparr>,
     dl_attr_idx = 0, dl_struct = \<lparr>st_attrs = [attr_of ''task'' [(''deadline'', EInt (unat d))]], st_ident = n, st_fields = []\<rparr>,
     dl_deadline = Some d\<rparr>"

definition demo_dl_app :: dl_app where
  "demo_dl_app = \<lparr>dx_ident = ''app'', dx_tasks = [demo_dl_task ''Fast'' 10, demo_dl_task ''Slow'' 100], dx_rest = []\<rparr>"

lemma demo_dl_analyze:
  "dl_analyze 15 demo_dl_app = Ok (demo_dl_app\<lparr>dx_tasks :=
     [(demo_dl_task ''Fast'' 10)\<lparr>dl_deadline := Some 1\<rparr>, (demo_dl_task ''Slow'' 100)\<lparr>dl_deadline := Some 2\<rparr>]\<rparr>)"
  by (simp add: dl_analyze_def demo_dl_app_def demo_dl_task_def sorted_deadlines_def rank_of_def)

lemma deadline_ranks_inverted_witness:
  "\<exists>p q. get_expr ''priority'' (dl_params (set_priority ((demo_dl_task ''Fast'' 10)\<lparr>dl_deadline := Some 1\<rparr>))) = Some (EInt p) \<and>
     get_expr ''priority'' (dl_params (set_priority ((demo_dl_task ''Slow'' 100)\<lparr>dl_deadline := Some 2\<rparr>))) = Some (EInt q) \<and>
     p < q \<and> q \<le> 15"
proof -
  have "length (dx_tasks demo_dl_app) < 2 ^ 16 - 1" "0 < length (dx_tasks demo_dl_app)" "1 < length (dx_tasks demo_dl_app)"
    "dl_deadline (dx_tasks demo_dl_app ! 0) = Some 10" "dl_deadline (dx_tasks demo_dl_app ! 1) = Some 100" "(10 :: 32 word) < 100"
    by (simp_all add: demo_dl_app_def demo_dl_task_def)
  from deadline_ranks_inverted [OF demo_dl_analyze this] show ?thesis by (auto simp: demo_dl_app_def)
qed

end
