(* ===== verification/AutoAssign.thy ===== *)
theory AutoAssign
  imports Deadline
begin

text \<open>
  The automatic core assignment, \<open>rticx-auto-assign/src/\<close>: tasks without a \<open>core\<close> argument get the core of
  the resources they share.  \<open>APP_CORES\<close>, a static that \<open>App::parse\<close> sets before it is read, is the
  argument \<open>cores\<close>.  \<open>format_ident!\<close> of the tokens of an element of a \<open>shared\<close> list is the parameter \<open>fid\<close>,
  \<open>None\<close> where it panics.
\<close>

section \<open>Parsing\<close>

record aa_task =
  aa_params :: rtic_attr
  aa_attr_idx :: nat
  aa_shared :: "ident list"
  aa_struct :: item_struct
  aa_core :: "core option"

record aa_shared_resources =
  as_core :: core
  as_items :: "ident list"
  as_struct :: item_struct

record aa_app =
  ax_ident :: ident
  ax_shared :: "aa_shared_resources list"
  ax_tasks :: "aa_task list"
  ax_rest :: "item list"

definition aa_shared_items :: "(expr \<Rightarrow> ident option) \<Rightarrow> rtic_attr \<Rightarrow> ident list result" where
  "aa_shared_items fid params =
     (case get_expr ''shared'' params of
        Some (EArray es) \<Rightarrow> rcollect (\<lambda>e. case fid e of Some i \<Rightarrow> Ok i | None \<Rightarrow> Err (MacroPanic ''shared'')) es
      | _ \<Rightarrow> Ok [])"

definition aa_task_from_struct :: "(expr \<Rightarrow> ident option) \<Rightarrow> item_struct \<times> nat \<Rightarrow> aa_task result" where
  "aa_task_from_struct fid si =
     (case si of (task_struct, attr_idx) \<Rightarrow>
       rbind (from_meta (st_attrs task_struct ! attr_idx)) (\<lambda>params.
       rbind (aa_shared_items fid params) (\<lambda>shared.
       Ok \<lparr>aa_params = params, aa_attr_idx = attr_idx, aa_shared = shared, aa_struct = task_struct,
           aa_core = int_value (get_expr ''core'' params)\<rparr>)))"

definition assign_core :: "core \<Rightarrow> aa_task \<Rightarrow> aa_task" where
  "assign_core c t = t\<lparr>aa_core := Some c,
     aa_params := (aa_params t)\<lparr>elements := AList.update ''core'' (EInt (unat c)) (elements (aa_params t))\<rparr>\<rparr>"

definition as_from_struct :: "core \<Rightarrow> item_struct \<times> nat \<Rightarrow> aa_shared_resources result" where
  "as_from_struct cores si =
     (case si of (shared_struct, attr_idx) \<Rightarrow>
       rbind (from_meta (st_attrs shared_struct ! attr_idx)) (\<lambda>params.
       rbind (rcollect (\<lambda>f. case fst f of Some i \<Rightarrow> Ok i | None \<Rightarrow> Err (MacroPanic ''tuple'')) (st_fields shared_struct)) (\<lambda>items.
       rbind (case get_expr ''core'' params of
           Some (EInt n) \<Rightarrow> Ok (case int_value (Some (EInt n)) of Some c \<Rightarrow> c | None \<Rightarrow> 0)
         | _ \<Rightarrow> if cores = 1 then Ok 0 else Err (NoCoreArgShared (st_ident shared_struct))) (\<lambda>core.
       Ok \<lparr>as_core = core, as_items = items, as_struct = shared_struct\<rparr>))))"

definition aa_collect_item :: "(item_struct \<times> nat) list \<times> (item_struct \<times> nat) list \<times> item list \<Rightarrow> item \<Rightarrow>
    (item_struct \<times> nat) list \<times> (item_struct \<times> nat) list \<times> item list" where
  "aa_collect_item c it =
     (case c of (tasks, shared, rest) \<Rightarrow>
       (case it of
          IStruct s \<Rightarrow>
            (case is_struct_with_attr s ''shared'' of
               Some i \<Rightarrow> (tasks, shared @ [(s, i)], rest)
             | None \<Rightarrow>
            (case is_struct_with_attr s ''task'' of
               Some i \<Rightarrow> (tasks @ [(s, i)], shared, rest)
             | None \<Rightarrow>
            (case is_struct_with_attr s ''sw_task'' of
               Some i \<Rightarrow> (tasks @ [(s, i)], shared, rest)
             | None \<Rightarrow>
            (case is_struct_with_attr s ''idle'' of
               Some i \<Rightarrow> (tasks @ [(s, i)], shared, rest)
             | None \<Rightarrow> (tasks, shared, rest @ [it])))))
        | _ \<Rightarrow> (tasks, shared, rest @ [it])))"

definition parse_cores_arg :: "rtic_attr \<Rightarrow> core result" where
  "parse_cores_arg params =
     (case get_expr ''cores'' params of
        Some (EInt n) \<Rightarrow> if n < 2 ^ 32 then Ok (of_nat n) else Err (IntRange ''cores'')
      | _ \<Rightarrow> Ok 1)"

definition aa_parse :: "(expr \<Rightarrow> ident option) \<Rightarrow> rtic_attr \<Rightarrow> item_mod \<Rightarrow> (core \<times> aa_app) result" where
  "aa_parse fid params m =
     rbind (parse_cores_arg params) (\<lambda>cores.
     case foldl aa_collect_item ([], [], []) (case mod_content m of None \<Rightarrow> [] | Some items \<Rightarrow> items) of
       (task_structs, shared_structs, rest) \<Rightarrow>
         rbind (rcollect (aa_task_from_struct fid) task_structs) (\<lambda>tasks.
         rbind (rcollect (as_from_struct cores) shared_structs) (\<lambda>shared.
         Ok (cores, \<lparr>ax_ident = mod_ident m, ax_shared = shared, ax_tasks = tasks, ax_rest = rest\<rparr>))))"

section \<open>The assignment\<close>

definition add_resource :: "core \<Rightarrow> (ident \<rightharpoonup> core) \<Rightarrow> ident \<Rightarrow> (ident \<rightharpoonup> core) result" where
  "add_resource c m r = (if m r \<noteq> None then Err (DuplicatResourceName r) else Ok (m(r \<mapsto> c)))"

definition resource_core_map :: "aa_shared_resources list \<Rightarrow> (ident \<rightharpoonup> core) result" where
  "resource_core_map shared =
     rfold (\<lambda>m s. rfold (add_resource (as_core s)) m (as_items s)) Map.empty shared"

definition aa_assign_task :: "core \<Rightarrow> (ident \<rightharpoonup> core) \<Rightarrow> aa_task \<Rightarrow> aa_task result" where
  "aa_assign_task cores m t =
     (if aa_core t \<noteq> None then Ok t
      else if cores = 1 then Ok (assign_core 0 t)
      else case aa_shared t of
          [] \<Rightarrow> Err (ExplicitCoreNeeded (st_ident (aa_struct t)))
        | first_element # rest \<Rightarrow>
            (case m first_element of
               None \<Rightarrow> Err (ResourceNotFound first_element)
             | Some c \<Rightarrow>
                 if \<exists>e \<in> set rest. m e \<noteq> Some c then Err (CoreMimatch (st_ident (aa_struct t)) (unat c))
                 else Ok (assign_core c t)))"

definition auto_assign_run :: "core \<Rightarrow> aa_app \<Rightarrow> aa_app result" where
  "auto_assign_run cores a =
     rbind (resource_core_map (ax_shared a)) (\<lambda>m.
     rbind (rcollect (aa_assign_task cores m) (ax_tasks a)) (\<lambda>ts. Ok (a\<lparr>ax_tasks := ts\<rparr>)))"

definition aa_codegen_task :: "aa_task \<Rightarrow> item" where
  "aa_codegen_task t = IStruct ((aa_struct t)\<lparr>st_attrs :=
     attr_tokens (aa_params t) # remove_nth (aa_attr_idx t) (st_attrs (aa_struct t))\<rparr>)"

definition aa_codegen :: "aa_app \<Rightarrow> item_mod" where
  "aa_codegen a = \<lparr>mod_ident = ax_ident a,
     mod_content = Some (ax_rest a @ map (IStruct \<circ> as_struct) (ax_shared a) @ map aa_codegen_task (ax_tasks a))\<rparr>"

definition aa_run_pass :: "(expr \<Rightarrow> ident option) \<Rightarrow> arg_tokens \<Rightarrow> item_mod \<Rightarrow> (arg_tokens \<times> item_mod) result" where
  "aa_run_pass fid args m =
     rbind (parse_from_tokens args ''app'') (\<lambda>params.
     rbind (aa_parse fid params m) (\<lambda>(cores, parsed).
     rbind (auto_assign_run cores parsed) (\<lambda>a.
     Ok (args, aa_codegen a))))"

section \<open>Properties\<close>

definition declares :: "aa_shared_resources list \<Rightarrow> (ident \<times> core) list" where
  "declares shared = concat (map (\<lambda>s. map (\<lambda>r. (r, as_core s)) (as_items s)) shared)"

definition add_declared :: "(ident \<rightharpoonup> core) \<Rightarrow> ident \<times> core \<Rightarrow> (ident \<rightharpoonup> core) result" where
  "add_declared m rc = add_resource (snd rc) m (fst rc)"

lemma rfold_map: "rfold f s (map g xs) = rfold (\<lambda>s x. f s (g x)) s xs"
proof (induction xs arbitrary: s)
  case (Cons x xs)
  then show ?case by (cases "f s (g x)") auto
qed simp

lemma resource_map_declares:
  "rfold (\<lambda>m s. rfold (add_resource (as_core s)) m (as_items s)) m0 shared = rfold add_declared m0 (declares shared)"
proof (induction shared arbitrary: m0)
  case (Cons s shared)
  have "rfold add_declared m0 (declares (s # shared)) =
      rbind (rfold (add_resource (as_core s)) m0 (as_items s)) (\<lambda>m. rfold add_declared m (declares shared))"
    by (simp add: declares_def rfold_append rfold_map add_declared_def)
  then show ?case using Cons.IH by simp
qed (simp add: declares_def)

lemma add_declared_all:
  "rfold add_declared m0 l = Inr m \<longleftrightarrow> distinct (map fst l) \<and> fst ` set l \<inter> dom m0 = {} \<and> m = m0 ++ map_of l"
proof (induction l arbitrary: m0)
  case Nil
  then show ?case by auto
next
  case (Cons rc l)
  obtain r c where rc: "rc = (r, c)" by (cases rc)
  show ?case
  proof (cases "m0 r")
    case None
    have eq: "m0(r \<mapsto> c) ++ map_of l = m0 ++ map_of (rc # l)" if "r \<notin> fst ` set l"
    proof -
      have "map_of l r = None" using that by (simp add: map_of_eq_None_iff)
      then show ?thesis by (auto simp: rc fun_eq_iff map_add_def split: option.split)
    qed
    have "rfold add_declared m0 (rc # l) = rfold add_declared (m0(r \<mapsto> c)) l"
      using None by (simp add: rc add_declared_def add_resource_def)
    then have "rfold add_declared m0 (rc # l) = Inr m \<longleftrightarrow>
        distinct (map fst l) \<and> fst ` set l \<inter> dom (m0(r \<mapsto> c)) = {} \<and> m = m0(r \<mapsto> c) ++ map_of l"
      by (simp only: Cons.IH)
    also have "\<dots> \<longleftrightarrow> distinct (map fst l) \<and> r \<notin> fst ` set l \<and> fst ` set l \<inter> dom m0 = {} \<and> m = m0(r \<mapsto> c) ++ map_of l"
    proof -
      have "dom (m0(r \<mapsto> c)) = insert r (dom m0)" by simp
      then show ?thesis by (simp only: Int_insert_right) auto
    qed
    also have "\<dots> \<longleftrightarrow> distinct (map fst l) \<and> r \<notin> fst ` set l \<and> fst ` set l \<inter> dom m0 = {} \<and> m = m0 ++ map_of (rc # l)"
      by (rule conj_cong [OF refl], rule conj_cong [OF refl], simp add: eq)
    also have "\<dots> \<longleftrightarrow> distinct (map fst (rc # l)) \<and> fst ` set (rc # l) \<inter> dom m0 = {} \<and> m = m0 ++ map_of (rc # l)"
      using None by (auto simp: rc)
    finally show ?thesis .
  next
    case (Some d)
    then show ?thesis by (auto simp: rc add_declared_def add_resource_def)
  qed
qed

lemma resource_core_map_iff:
  "resource_core_map shared = Inr m \<longleftrightarrow> distinct (map fst (declares shared)) \<and> m = map_of (declares shared)"
  by (auto simp: resource_core_map_def resource_map_declares add_declared_all)

text \<open>The core that the rules give to a task, if there is one.\<close>

definition core_for :: "core \<Rightarrow> aa_shared_resources list \<Rightarrow> aa_task \<Rightarrow> core \<Rightarrow> bool" where
  "core_for cores shared t c \<longleftrightarrow>
     (case aa_core t of
        Some d \<Rightarrow> c = d
      | None \<Rightarrow> if cores = 1 then c = 0
          else aa_shared t \<noteq> [] \<and> (\<forall>r \<in> set (aa_shared t). (r, c) \<in> set (declares shared)))"

lemma aa_assign_task_iff:
  assumes "distinct (map fst (declares shared))"
  shows "aa_assign_task cores (map_of (declares shared)) t = Inr t' \<longleftrightarrow>
     (\<exists>c. core_for cores shared t c \<and> t' = (if aa_core t = None then assign_core c t else t))"
proof -
  have m: "map_of (declares shared) r = Some c \<longleftrightarrow> (r, c) \<in> set (declares shared)" for r c
    using assms by simp
  show ?thesis
  proof (cases "aa_core t = None \<and> cores \<noteq> 1 \<and> aa_shared t \<noteq> []")
    case True
    then obtain r rs where s: "aa_shared t = r # rs" by (cases "aa_shared t") auto
    show ?thesis
      using True by (auto simp: aa_assign_task_def core_for_def s m [symmetric] split: option.split)
  next
    case False
    then show ?thesis by (cases "aa_core t") (auto simp: aa_assign_task_def core_for_def)
  qed
qed

lemma rcollect_ex:
  "(\<And>x y. f x = Inr y \<longleftrightarrow> (\<exists>c. P x c \<and> y = g x c)) \<Longrightarrow>
     rcollect f xs = Inr ys \<longleftrightarrow> list_all2 (\<lambda>x y. \<exists>c. P x c \<and> y = g x c) xs ys"
proof (induction xs arbitrary: ys)
  case (Cons x xs)
  then show ?case by (cases ys) auto
qed auto

text \<open>
  (C31) The assignment succeeds exactly when resource names are unique and every task has a core: the one it
  declares, else core 0 in a single-core app, else the one core that declares all of the resources that the task
  shares, of which there must be at least one.  A task that declares its core is left alone, the others get
  that core as their \<open>core\<close> argument; nothing else changes.
\<close>

theorem auto_assign_exact:
  "auto_assign_run cores a = Ok a' \<longleftrightarrow>
     distinct (map fst (declares (ax_shared a))) \<and>
     (\<exists>ts. a' = a\<lparr>ax_tasks := ts\<rparr> \<and>
       list_all2 (\<lambda>t t'. \<exists>c. core_for cores (ax_shared a) t c \<and>
         t' = (if aa_core t = None then assign_core c t else t)) (ax_tasks a) ts)"
proof (cases "distinct (map fst (declares (ax_shared a)))")
  case True
  show ?thesis
    unfolding auto_assign_run_def rbind_Inr_iff resource_core_map_iff
    using rcollect_ex [of "aa_assign_task cores (map_of (declares (ax_shared a)))", OF aa_assign_task_iff [OF True]] True
    by auto
next
  case False
  then show ?thesis unfolding auto_assign_run_def rbind_Inr_iff resource_core_map_iff by simp
qed

definition demo_aa_task :: "ident \<Rightarrow> core option \<Rightarrow> ident list \<Rightarrow> aa_task" where
  "demo_aa_task n c rs = \<lparr>aa_params = \<lparr>attr_name = ''task'', elements = []\<rparr>, aa_attr_idx = 0, aa_shared = rs,
     aa_struct = \<lparr>st_attrs = [attr_of ''task'' []], st_ident = n, st_fields = []\<rparr>, aa_core = c\<rparr>"

definition demo_aa_app :: aa_app where
  "demo_aa_app = \<lparr>ax_ident = ''app'', ax_shared =
     [\<lparr>as_core = 0, as_items = [''a''], as_struct = \<lparr>st_attrs = [], st_ident = ''S0'', st_fields = []\<rparr>\<rparr>,
      \<lparr>as_core = 1, as_items = [''b'', ''c''], as_struct = \<lparr>st_attrs = [], st_ident = ''S1'', st_fields = []\<rparr>\<rparr>],
     ax_tasks = [demo_aa_task ''T'' None [''c'', ''b''], demo_aa_task ''U'' (Some 0) []], ax_rest = []\<rparr>"

lemma auto_assign_exact_witness:
  "auto_assign_run 2 demo_aa_app = Ok (demo_aa_app\<lparr>ax_tasks :=
     [assign_core 1 (demo_aa_task ''T'' None [''c'', ''b'']), demo_aa_task ''U'' (Some 0) []]\<rparr>)"
  by (subst auto_assign_exact) (auto simp: demo_aa_app_def demo_aa_task_def declares_def core_for_def)

end
