(* ===== verification/Scanner.thy ===== *)
theory Scanner
  imports Prelude "HOL-Library.Sublist"
begin

text \<open>
  The text transformations of the tool \<open>rticx-expand\<close> that need no compiler: the beautifier
  (\<open>beautify.rs\<close>), the search for the \<open>app\<close> module in a source file (\<open>detect.rs\<close>) and the splicing of an expansion
  in its place (\<open>flow.rs\<close>).  A text is its list of bytes, a \<open>string\<close> (the type \<open>char\<close> has 256 values).  Where the code
  has the whole text and an index, the scanners here have the suffix that starts at the index, and their results
  are relative to it.  \<open>beautify.rs\<close> and \<open>detect.rs\<close> contain the same copies of the scanners for literals.
\<close>

section \<open>Bytes\<close>

abbreviation byte :: "char \<Rightarrow> nat" where
  "byte c \<equiv> of_char c"

definition at :: "string \<Rightarrow> nat \<Rightarrow> char option" where
  "at s i = (if i < length s then Some (s ! i) else None)"

definition is_alpha :: "char \<Rightarrow> bool" where
  "is_alpha c \<longleftrightarrow> (65 \<le> byte c \<and> byte c \<le> 90) \<or> (97 \<le> byte c \<and> byte c \<le> 122)"

definition is_alnum :: "char \<Rightarrow> bool" where
  "is_alnum c \<longleftrightarrow> is_alpha c \<or> (48 \<le> byte c \<and> byte c \<le> 57)"

definition ident_char :: "char \<Rightarrow> bool" where
  "ident_char c \<longleftrightarrow> c = CHR ''_'' \<or> is_alnum c"

definition ascii_ws :: "char \<Rightarrow> bool" where
  "ascii_ws c \<longleftrightarrow> byte c \<in> {9, 10, 12, 13, 32}"

definition is_ascii :: "char \<Rightarrow> bool" where
  "is_ascii c \<longleftrightarrow> byte c < 128"

text \<open>Slicing a \<open>str\<close> panics inside a character: the suffix must not start with a continuation byte.\<close>

definition boundary :: "string \<Rightarrow> bool" where
  "boundary s \<longleftrightarrow> (case s of [] \<Rightarrow> True | c # _ \<Rightarrow> byte c < 128 \<or> 192 \<le> byte c)"

section \<open>Literals\<close>

definition dquote :: char where "dquote = CHR 0x22"

definition squote :: char where "squote = CHR 0x27"

definition backslash :: char where "backslash = CHR 0x5C"

definition newline :: char where "newline = CHR 0x0A"

text \<open>\<open>quoted_end\<close>, on the suffix after the opening quote: the index of the closing one in it.\<close>

fun quoted_end :: "string \<Rightarrow> nat option" where
  "quoted_end [] = None"
| "quoted_end (c # s) =
     (if c = backslash then (case s of [] \<Rightarrow> None | _ # s' \<Rightarrow> map_option (\<lambda>e. e + 2) (quoted_end s'))
      else if c = dquote then Some 0
      else map_option Suc (quoted_end s))"

fun raw_end :: "nat \<Rightarrow> string \<Rightarrow> nat option" where
  "raw_end hashes [] = None"
| "raw_end hashes (c # s) =
     (if c = dquote \<and> take hashes s = replicate hashes (CHR ''#'') then Some 0
      else map_option Suc (raw_end hashes s))"

text \<open>The number of bytes up to the next \<open>*/\<close>.\<close>

fun comment_end :: "string \<Rightarrow> nat" where
  "comment_end [] = 0"
| "comment_end (c # s) = (if c = CHR ''*'' \<and> at s 0 = Some (CHR ''/'') then 0 else Suc (comment_end s))"

definition hashes_at :: "nat \<Rightarrow> string \<Rightarrow> nat" where
  "hashes_at i s = length (takeWhile (\<lambda>c. c = CHR ''#'') (drop i s))"

definition raw_len :: "nat \<Rightarrow> string \<Rightarrow> nat" where
  "raw_len i s =
     (let h = hashes_at i s in
      if at s (i + h) = Some dquote
      then (case raw_end h (drop (i + h + 1) s) of None \<Rightarrow> 1 | Some e \<Rightarrow> (i + h + 1 + e) + 1)
      else 1)"

definition literal_len :: "string \<Rightarrow> nat" where
  "literal_len s =
     (let b = at s 0 in
      if b = Some dquote then (case quoted_end (drop 1 s) of None \<Rightarrow> 1 | Some e \<Rightarrow> (1 + e) + 1)
      else if b = Some squote then
        (if at s 1 = Some backslash then
           (let j = 2 + length (takeWhile (\<lambda>c. c \<noteq> squote) (drop 2 s)) in if j < length s then j + 1 else 1)
         else if at s 1 \<noteq> None \<and> at s 1 \<noteq> Some squote \<and> at s 2 = Some squote then 3
         else 1)
      else if b = Some (CHR ''r'') then raw_len 1 s
      else if (b = Some (CHR ''b'') \<or> b = Some (CHR ''c'')) \<and> at s 1 = Some dquote then
        (case quoted_end (drop 2 s) of None \<Rightarrow> 1 | Some e \<Rightarrow> (2 + e) + 1)
      else if (b = Some (CHR ''b'') \<or> b = Some (CHR ''c'')) \<and> at s 1 = Some (CHR ''r'') then raw_len 2 s
      else if b = Some (CHR ''/'') \<and> at s 1 = Some (CHR ''/'') then length (takeWhile (\<lambda>c. c \<noteq> newline) s)
      else if b = Some (CHR ''/'') \<and> at s 1 = Some (CHR ''*'') then min (2 + comment_end (drop 2 s) + 2) (length s)
      else 1)"

definition is_literal_start :: "string \<Rightarrow> bool" where
  "is_literal_start s =
     (case at s 0 of
        None \<Rightarrow> False
      | Some b \<Rightarrow>
          if b = dquote \<or> b = squote then True
          else if b = CHR ''r'' then at s (1 + hashes_at 1 s) = Some dquote
          else if b = CHR ''b'' \<or> b = CHR ''c'' then
            at s 1 = Some dquote \<or> (at s 1 = Some (CHR ''r'') \<and> (at s 2 = Some (CHR ''#'') \<or> at s 2 = Some dquote))
          else if b = CHR ''/'' then at s 1 = Some (CHR ''/'') \<or> at s 1 = Some (CHR ''*'')
          else False)"

section \<open>Progress\<close>

lemma quoted_end_bound: "quoted_end s = Some e \<Longrightarrow> e < length s"
proof (induction s arbitrary: e rule: quoted_end.induct)
  case (2 c s)
  then show ?case by (auto split: if_splits list.splits)
qed simp

lemma raw_end_bound: "raw_end h s = Some e \<Longrightarrow> e < length s"
  by (induction h s arbitrary: e rule: raw_end.induct) (auto split: if_splits)

lemma at_Some: "at s i = Some c \<longleftrightarrow> i < length s \<and> s ! i = c"
  by (simp add: at_def)

lemma raw_len_bound: "s \<noteq> [] \<Longrightarrow> 1 \<le> raw_len i s \<and> raw_len i s \<le> length s"
  using raw_end_bound [of "hashes_at i s" "drop (i + hashes_at i s + 1) s"]
  by (auto simp: raw_len_def Let_def Suc_le_eq at_Some split: option.split)

text \<open>A literal is at least one byte long and within the text.\<close>

lemma literal_len_bound:
  assumes "s \<noteq> []"
  shows "1 \<le> literal_len s \<and> literal_len s \<le> length s"
proof -
  define P where "P n \<longleftrightarrow> 1 \<le> n \<and> n \<le> length s" for n
  have l: "1 \<le> length s" using assms by (cases s) simp_all
  have one: "P 1" using l by (simp add: P_def)
  have q: "P (case quoted_end (drop k s) of None \<Rightarrow> 1 | Some e \<Rightarrow> (k + e) + 1)" for k
    using one quoted_end_bound [of "drop k s"] by (auto simp: P_def split: option.split)
  have r: "P (raw_len i s)" for i using raw_len_bound [OF assms] by (simp add: P_def)
  have j: "P (if j < length s then j + 1 else 1)" for j using one by (simp add: P_def)
  have three: "P 3" if "at s 2 = Some squote" using that by (simp add: P_def at_Some)
  have w: "P (length (takeWhile (\<lambda>c. c \<noteq> newline) s))" if "at s 0 = Some (CHR ''/'')"
  proof -
    have "length (takeWhile (\<lambda>c. c \<noteq> newline) s) \<ge> 1" using that by (cases s) (auto simp: at_def newline_def)
    then show ?thesis using length_takeWhile_le [of "\<lambda>c. c \<noteq> newline" s] by (simp add: P_def)
  qed
  have m: "P (min (2 + n + 2) (length s))" for n using l by (auto simp: P_def)
  have "P (literal_len s)"
    unfolding literal_len_def Let_def using one three w by (simp only: q r j m split: if_split) blast
  then show ?thesis by (simp add: P_def)
qed

section \<open>Delimiters\<close>

text \<open>The loop of \<open>find_matching_delim\<close>; \<open>beautify.rs\<close> has it with the brackets built in, \<open>find_matching_brace\<close> is
  its copy for braces.  The depth is at least one inside the loop, because the text starts with the opening byte.\<close>

function find_close :: "char \<Rightarrow> char \<Rightarrow> nat \<Rightarrow> string \<Rightarrow> nat option" where
  "find_close open_ch close_ch depth s =
     (case s of
        [] \<Rightarrow> None
      | b # s' \<Rightarrow>
          if b = open_ch then map_option Suc (find_close open_ch close_ch (depth + 1) s')
          else if b = close_ch then
            (if depth - 1 = 0 then Some 0 else map_option Suc (find_close open_ch close_ch (depth - 1) s'))
          else if is_literal_start s then
            map_option ((+) (literal_len s)) (find_close open_ch close_ch depth (drop (literal_len s) s))
          else map_option Suc (find_close open_ch close_ch depth s'))"
  by auto
termination
proof (relation "measure (\<lambda>(_, _, _, s). length s)", goal_cases)
  case (4 oc cc depth s b s')
  then show ?case using literal_len_bound [of s] by simp
qed simp_all

declare find_close.simps [simp del]

definition find_matching_delim :: "char \<Rightarrow> char \<Rightarrow> string \<Rightarrow> nat option" where
  "find_matching_delim open_ch close_ch s = find_close open_ch close_ch 0 s"

definition find_matching_bracket :: "string \<Rightarrow> nat option" where
  "find_matching_bracket s = find_matching_delim (CHR ''['') (CHR '']'') s"

definition find_matching_brace :: "string \<Rightarrow> nat option" where
  "find_matching_brace s = find_matching_delim (CHR ''{'') (CHR ''}'') s"

end
