(* ===== verification/Detect.thy ===== *)
theory Detect
  imports Scanner
begin

text \<open>
  The search for \<open>#[...::app(...)] mod name { ... }\<close> items of \<open>rticx-expand/src/detect.rs\<close> and the splicing of an
  expansion in \<open>flow.rs\<close>.  A position is an index into the text; the scanners after it take the suffix there and
  return the suffix where they stop.
\<close>

section \<open>The attribute\<close>

record app_item =
  attr_start :: nat
  item_end :: nat

fun back_while :: "(char \<Rightarrow> bool) \<Rightarrow> string \<Rightarrow> nat \<Rightarrow> nat" where
  "back_while P bs 0 = 0"
| "back_while P bs (Suc j) = (if P (bs ! Suc j) then back_while P bs j else Suc j)"

text \<open>The subtraction panics (or the index, without overflow checks) at position 0: \<open>Inl\<close>.\<close>

definition attr_start_of :: "string \<Rightarrow> nat \<Rightarrow> (unit, nat option) res" where
  "attr_start_of bs app_pos =
     (if app_pos = 0 then Err ()
      else
        let j = back_while (\<lambda>c. ident_char c \<or> c = CHR '':'') bs (app_pos - 1);
            j' = back_while ascii_ws bs j
        in Ok (if j' > 0 \<and> bs ! j' = CHR ''['' \<and> bs ! (j' - 1) = CHR ''#'' then Some (j' - 1) else None))"

text \<open>Whether \<open>::app\<close> and an opening parenthesis are at the start of a suffix.\<close>

definition app_at :: "string \<Rightarrow> bool" where
  "app_at s \<longleftrightarrow> prefix ''::app'' s \<and> at (dropWhile ascii_ws (drop 5 s)) 0 = Some (CHR ''('')"

function find_from :: "string \<Rightarrow> nat \<Rightarrow> (unit, nat option) res" where
  "find_from bs i =
     (if i + 5 \<le> length bs then
        (if app_at (drop i bs) then
           (case attr_start_of bs i of
              Inl e \<Rightarrow> Err e
            | Inr (Some h) \<Rightarrow> Ok (Some h)
            | Inr None \<Rightarrow> find_from bs (i + 1))
         else find_from bs (i + 1))
      else Ok None)"
  by auto
termination by (relation "measure (\<lambda>(bs, i). length bs - i)") auto

declare find_from.simps [simp del]

section \<open>The module\<close>

function skip_trivia :: "string \<Rightarrow> string" where
  "skip_trivia s =
     (let s1 = dropWhile ascii_ws s in
      if prefix ''//'' s1 then skip_trivia (dropWhile (\<lambda>c. c \<noteq> newline) s1)
      else if prefix ''/*'' s1 then skip_trivia (drop (comment_end (drop 2 s1) + 2) (drop 2 s1))
      else s1)"
  by auto
termination
proof (relation "measure length", goal_cases)
  case (2 s s1)
  from 2(2) obtain t where t: "s1 = CHR ''/'' # t" unfolding prefix_def by auto
  have "length (dropWhile (\<lambda>c. c \<noteq> newline) s1) < length s1"
    unfolding t by (simp add: newline_def le_imp_less_Suc length_dropWhile_le)
  moreover have "length s1 \<le> length s" using 2(1) by (simp add: length_dropWhile_le)
  ultimately show ?case by simp
next
  case (3 s s1)
  then have "2 \<le> length s1" using prefix_length_le [of "''/*''" s1] by simp
  moreover have "length s1 \<le> length s" using 3(1) by (simp add: length_dropWhile_le)
  ultimately show ?case by simp
qed simp

declare skip_trivia.simps [simp del]

definition consume_word :: "string \<Rightarrow> string \<Rightarrow> string option" where
  "consume_word word s =
     (if prefix word s \<and> (case at s (length word) of None \<Rightarrow> True | Some c \<Rightarrow> \<not> ident_char c)
      then Some (drop (length word) s) else None)"

definition skip_visibility :: "string \<Rightarrow> string" where
  "skip_visibility s =
     (case consume_word ''pub'' s of
        None \<Rightarrow> s
      | Some s1 \<Rightarrow>
          (let s2 = skip_trivia s1 in
           if at s2 0 = Some (CHR ''('') then
             (case find_matching_delim (CHR ''('') (CHR '')'') s2 of Some e \<Rightarrow> drop (e + 1) s2 | None \<Rightarrow> s2)
           else s2))"

text \<open>The attributes after the first one; \<open>None\<close> if one does not end.\<close>

function skip_attributes :: "string \<Rightarrow> string option" where
  "skip_attributes s =
     (let s1 = skip_trivia s in
      if prefix ''#['' s1 then
        (case find_matching_bracket (drop 1 s1) of
           None \<Rightarrow> None
         | Some e \<Rightarrow> skip_attributes (drop (1 + e + 1) s1))
      else Some s1)"
  by auto

lemma skip_trivia_suffix: "suffix (skip_trivia s) s"
proof (induction s rule: skip_trivia.induct)
  case (1 s)
  let ?s1 = "dropWhile ascii_ws s"
  have s1: "suffix ?s1 s" by (rule suffix_dropWhile)
  consider (line) "prefix ''//'' ?s1" | (block) "\<not> prefix ''//'' ?s1" "prefix ''/*'' ?s1"
    | (none) "\<not> prefix ''//'' ?s1" "\<not> prefix ''/*'' ?s1" by blast
  then show ?case
  proof cases
    case line
    have "suffix (skip_trivia (dropWhile (\<lambda>c. c \<noteq> newline) ?s1)) ?s1"
      using 1(1) [OF refl line] suffix_dropWhile by (rule suffix_order.trans)
    then show ?thesis using line s1 by (subst skip_trivia.simps) (auto intro: suffix_order.trans)
  next
    case block
    have "suffix (skip_trivia (drop (comment_end (drop 2 ?s1) + 2) (drop 2 ?s1))) ?s1"
      using 1(2) [OF refl block] suffix_drop suffix_drop by (metis suffix_order.trans)
    moreover have "skip_trivia s = skip_trivia (drop (comment_end (drop 2 ?s1) + 2) (drop 2 ?s1))"
      by (subst skip_trivia.simps) (simp only: Let_def block if_False if_True)
    ultimately show ?thesis using s1 by (metis suffix_order.trans)
  next
    case none
    then show ?thesis using s1 by (subst skip_trivia.simps) simp
  qed
qed

lemma skip_trivia_length: "length (skip_trivia s) \<le> length s"
  using skip_trivia_suffix by (rule suffix_length_le)

termination skip_attributes
proof (relation "measure length", goal_cases)
  case (2 s s1 e)
  then have "s1 \<noteq> []" by (auto simp: prefix_def)
  moreover have "length s1 \<le> length s" using 2(1) skip_trivia_length by simp
  ultimately show ?case by (cases s1) auto
qed simp

declare skip_attributes.simps [simp del]

text \<open>The suffix after the item whose attribute starts the suffix \<open>s\<close>.\<close>

definition locate_app_item :: "string \<Rightarrow> string option" where
  "locate_app_item s =
     Option.bind (find_matching_bracket (drop 1 s)) (\<lambda>attr_end.
     Option.bind (skip_attributes (drop (1 + attr_end + 1) s)) (\<lambda>s1.
     Option.bind (consume_word ''mod'' (skip_trivia (skip_visibility s1))) (\<lambda>s2.
       let s3 = skip_trivia (dropWhile ident_char (skip_trivia s2)) in
       if at s3 0 \<noteq> Some (CHR ''{'') then None
       else map_option (\<lambda>close. drop (close + 1) s3) (find_matching_brace s3))))"

section \<open>The search\<close>

text \<open>The loop may run forever: the result is \<open>None\<close> when the fuel is used up, \<open>Inl\<close> is a panic.\<close>

fun find_items :: "nat \<Rightarrow> string \<Rightarrow> nat \<Rightarrow> app_item list \<Rightarrow> (unit, app_item list) res option" where
  "find_items 0 bs search items = None"
| "find_items (Suc fuel) bs search items =
     (case find_from bs search of
        Inl e \<Rightarrow> Some (Err e)
      | Inr None \<Rightarrow> Some (Ok items)
      | Inr (Some h) \<Rightarrow>
          (case locate_app_item (drop h bs) of
             None \<Rightarrow> find_items fuel bs (h + 1) items
           | Some rest \<Rightarrow>
               (let e = length bs - length rest
                in find_items fuel bs e (items @ [\<lparr>attr_start = h, item_end = e\<rparr>]))))"

definition find_app_items :: "nat \<Rightarrow> string \<Rightarrow> (unit, app_item list) res option" where
  "find_app_items fuel src = find_items fuel src 0 []"

section \<open>What the scanners return\<close>

lemma find_close_end: "find_close oc cc d s = Some k \<Longrightarrow> k < length s \<and> s ! k = cc"
proof (induction oc cc d s arbitrary: k rule: find_close.induct)
  case (1 oc cc d s)
  show ?case
  proof (cases s)
    case Nil
    then show ?thesis using 1(5) by (simp add: find_close.simps)
  next
    case (Cons b s')
    consider (o) "b = oc" | (z) "b \<noteq> oc" "b = cc" "d - 1 = 0" | (c) "b \<noteq> oc" "b = cc" "d - 1 \<noteq> 0"
      | (l) "b \<noteq> oc" "b \<noteq> cc" "is_literal_start s" | (n) "b \<noteq> oc" "b \<noteq> cc" "\<not> is_literal_start s" by blast
    then show ?thesis
    proof cases
      case o
      then obtain k' where "find_close oc cc (d + 1) s' = Some k'" "k = Suc k'"
        using 1(5) Cons by (subst (asm) find_close.simps) auto
      then show ?thesis using 1(1) [OF Cons o] Cons by simp
    next
      case z
      then show ?thesis using 1(5) Cons by (subst (asm) find_close.simps) simp
    next
      case c
      then obtain k' where "find_close oc cc (d - 1) s' = Some k'" "k = Suc k'"
        using 1(5) Cons by (subst (asm) find_close.simps) (simp only: list.case if_False if_True, auto)
      then show ?thesis using 1(2) [OF Cons c] Cons by simp
    next
      case l
      then obtain k' where "find_close oc cc d (drop (literal_len s) s) = Some k'" "k = literal_len s + k'"
        using 1(5) Cons by (subst (asm) find_close.simps) auto
      moreover from this have "k' < length (drop (literal_len s) s) \<and> drop (literal_len s) s ! k' = cc"
        using 1(3) [OF Cons l] by blast
      ultimately show ?thesis using nth_drop [of "literal_len s" s k'] by (simp add: less_diff_conv add.commute)
    next
      case n
      then obtain k' where "find_close oc cc d s' = Some k'" "k = Suc k'"
        using 1(5) Cons by (subst (asm) find_close.simps) auto
      then show ?thesis using 1(4) [OF Cons n] Cons by simp
    qed
  qed
qed

lemma skip_attributes_suffix: "skip_attributes s = Some s1 \<Longrightarrow> suffix s1 s"
proof (induction s arbitrary: s1 rule: skip_attributes.induct)
  case (1 s)
  have t: "suffix (skip_trivia s) s" by (rule skip_trivia_suffix)
  show ?case
  proof (cases "prefix ''#['' (skip_trivia s)")
    case True
    then obtain e where e: "find_matching_bracket (drop 1 (skip_trivia s)) = Some e"
        "skip_attributes (drop (1 + e + 1) (skip_trivia s)) = Some s1"
      using 1(2) by (subst (asm) skip_attributes.simps) (auto simp: Let_def split: option.splits)
    have "suffix s1 (drop (1 + e + 1) (skip_trivia s))" using 1(1) [OF refl True e] .
    then show ?thesis using suffix_drop t by (metis suffix_order.trans)
  next
    case False
    then show ?thesis using 1(2) t by (subst (asm) skip_attributes.simps) (simp add: Let_def)
  qed
qed

lemma consume_word_suffix: "consume_word w s = Some s1 \<Longrightarrow> suffix s1 s"
  by (auto simp: consume_word_def suffix_drop split: if_splits)

lemma skip_visibility_suffix: "suffix (skip_visibility s) s"
proof (cases "consume_word ''pub'' s")
  case (Some s1)
  have "suffix (skip_trivia s1) s"
    using skip_trivia_suffix consume_word_suffix [OF Some] by (rule suffix_order.trans)
  then show ?thesis
    unfolding skip_visibility_def Some
    by (auto simp: Let_def split: option.split intro: suffix_order.trans [OF suffix_drop])
qed (simp add: skip_visibility_def)

text \<open>The item ends after a closing brace.\<close>

lemma locate_app_item_end:
  assumes "locate_app_item s = Some rest"
  obtains m where "rest = drop m s" "0 < m" "m \<le> length s" "s ! (m - 1) = CHR ''}''"
proof -
  obtain a s1 s2 where s: "skip_attributes (drop (1 + a + 1) s) = Some s1"
      "consume_word ''mod'' (skip_trivia (skip_visibility s1)) = Some s2"
    and r: "(let s3 = skip_trivia (dropWhile ident_char (skip_trivia s2)) in
       if at s3 0 \<noteq> Some (CHR ''{'') then None
       else map_option (\<lambda>close. drop (close + 1) s3) (find_matching_brace s3)) = Some rest"
    using assms unfolding locate_app_item_def by (auto simp: bind_eq_Some_conv)
  define s3 where "s3 = skip_trivia (dropWhile ident_char (skip_trivia s2))"
  obtain k where k: "find_matching_brace s3 = Some k" "rest = drop (k + 1) s3"
    using r unfolding s3_def [symmetric] Let_def by (auto split: if_splits)
  have "suffix s3 s2"
    unfolding s3_def by (metis skip_trivia_suffix suffix_dropWhile suffix_order.trans)
  moreover have "suffix s2 s1"
    using consume_word_suffix [OF s(2)] skip_trivia_suffix skip_visibility_suffix by (metis suffix_order.trans)
  moreover have "suffix s1 s"
    using skip_attributes_suffix [OF s(1)] suffix_drop by (rule suffix_order.trans)
  ultimately obtain u where u: "s = u @ s3" unfolding suffix_def by fastforce
  have "k < length s3 \<and> s3 ! k = CHR ''}''"
    using find_close_end k(1) unfolding find_matching_brace_def find_matching_delim_def by blast
  then show thesis using that [of "length u + k + 1"] k(2) by (simp add: u nth_append)
qed

section \<open>The positions of the attributes\<close>

text \<open>The hit of the fast path: \<open>p\<close> is the position of \<open>::app(\<close>, \<open>h\<close> that of its \<open>#[\<close>.\<close>

definition app_hit :: "string \<Rightarrow> nat \<Rightarrow> nat \<Rightarrow> bool" where
  "app_hit bs p h \<longleftrightarrow> p + 5 \<le> length bs \<and> app_at (drop p bs) \<and> attr_start_of bs p = Ok (Some h)"

lemma back_while_le: "back_while P bs j \<le> j"
  by (induction j) auto

lemma back_while_stop: "\<not> P (bs ! e) \<Longrightarrow> e \<le> j \<Longrightarrow> e \<le> back_while P bs j"
proof (induction j)
  case (Suc j)
  then show ?case by (cases "e = Suc j") auto
qed simp

lemma attr_start_of_bounds:
  assumes "attr_start_of bs p = Ok (Some h)"
  shows "h + 1 < p" "bs ! h = CHR ''#''" "bs ! (h + 1) = CHR ''[''"
proof -
  let ?j = "back_while ascii_ws bs (back_while (\<lambda>c. ident_char c \<or> c = CHR '':'') bs (p - 1))"
  have h: "p \<noteq> 0" "?j > 0" "bs ! ?j = CHR ''[''" "bs ! (?j - 1) = CHR ''#''" "h = ?j - 1"
    using assms by (simp_all add: attr_start_of_def Let_def split: if_splits)
  have "?j \<le> p - 1" by (rule order.trans [OF back_while_le back_while_le])
  then show "h + 1 < p" "bs ! h = CHR ''#''" "bs ! (h + 1) = CHR ''[''" using h by simp_all
qed

text \<open>The walk backwards does not pass a byte that is neither in a path nor white space.\<close>

lemma attr_start_of_ge:
  assumes "attr_start_of bs p = Ok (Some h)" and "d < p" and "bs ! d \<in> {CHR ''}'', CHR ''#''}"
  shows "d \<le> h"
proof -
  define j where "j = back_while (\<lambda>c. ident_char c \<or> c = CHR '':'') bs (p - 1)"
  define k where "k = back_while ascii_ws bs j"
  have h: "k > 0" "bs ! k = CHR ''[''" "h = k - 1"
    using assms(1) by (simp_all add: attr_start_of_def Let_def j_def k_def split: if_splits)
  have "d \<le> j" unfolding j_def
    by (rule back_while_stop) (use assms in \<open>auto simp: ident_char_def is_alnum_def is_alpha_def\<close>)
  then have "d \<le> k" unfolding k_def
    by (intro back_while_stop) (use assms in \<open>auto simp: ascii_ws_def\<close>)
  moreover have "k \<noteq> d" using h(2) assms(3) by auto
  ultimately show ?thesis using h by linarith
qed

lemma attr_start_of_after:
  assumes "attr_start_of bs p = Ok (Some h)" and "0 < e" "bs ! (e - 1) = CHR ''}''" "e \<le> p"
  shows "e \<le> h"
proof -
  have "e - 1 \<le> h" by (rule attr_start_of_ge [OF assms(1)]) (use assms in auto)
  moreover have "e - 1 \<noteq> h" using attr_start_of_bounds(2) [OF assms(1)] assms(3) by auto
  ultimately show ?thesis by linarith
qed

lemma attr_start_of_ok: "0 < p \<Longrightarrow> \<exists>r. attr_start_of bs p = Ok r"
  by (simp add: attr_start_of_def Let_def)

text \<open>\<open>find_from\<close> returns the first hit.\<close>

lemma find_from_first:
  assumes "app_hit bs p h" and "i \<le> p" and "\<And>q h'. i \<le> q \<Longrightarrow> q < p \<Longrightarrow> \<not> app_hit bs q h'"
    and "0 < i \<or> \<not> app_at bs"
  shows "find_from bs i = Ok (Some h)"
  using assms(2-)
proof (induction "p - i" arbitrary: i)
  case 0
  then have "i = p" by simp
  then show ?case using assms(1) by (subst find_from.simps) (simp add: app_hit_def)
next
  case (Suc n)
  have len: "i + 5 \<le> length bs" using assms(1) Suc(2) unfolding app_hit_def by linarith
  have no: "\<not> app_hit bs i h'" for h' using Suc(2,4) by simp
  have rec: "find_from bs (i + 1) = Ok (Some h)"
    by (rule Suc(1)) (use Suc(2,4) in auto)
  show ?case
  proof (cases "app_at (drop i bs)")
    case True
    then have "0 < i" using Suc(5) by (cases i) auto
    then obtain r where "attr_start_of bs i = Ok r" using attr_start_of_ok by blast
    moreover from this no True len have "r = None" by (cases r) (auto simp: app_hit_def)
    ultimately show ?thesis using True len rec by (subst find_from.simps) simp
  next
    case False
    then show ?thesis using len rec by (subst find_from.simps) simp
  qed
qed

lemma find_from_cases:
  assumes "0 < i \<or> \<not> app_at bs"
  obtains (none) "find_from bs i = Ok None" "\<And>p h. i \<le> p \<Longrightarrow> \<not> app_hit bs p h"
  | (hit) p h where "find_from bs i = Ok (Some h)" "app_hit bs p h" "i \<le> p"
      "\<And>q h'. i \<le> q \<Longrightarrow> q < p \<Longrightarrow> \<not> app_hit bs q h'"
proof (cases "\<exists>p h. i \<le> p \<and> app_hit bs p h")
  case True
  define p where "p = (LEAST p. i \<le> p \<and> (\<exists>h. app_hit bs p h))"
  have p: "i \<le> p \<and> (\<exists>h. app_hit bs p h)" unfolding p_def by (rule LeastI_ex) (use True in blast)
  then obtain h where h: "app_hit bs p h" by blast
  have least: "\<not> app_hit bs q h'" if "i \<le> q" "q < p" for q h'
    using not_less_Least [of q "\<lambda>p. i \<le> p \<and> (\<exists>h. app_hit bs p h)"] that unfolding p_def by blast
  show thesis by (rule hit [OF find_from_first [OF h _ least assms] h _ least]) (use p in auto)
next
  case False
  then have no: "\<not> app_hit bs p h" if "i \<le> p" for p h using that by blast
  have "find_from bs i = Ok None" using assms no
  proof (induction "length bs - i" arbitrary: i rule: less_induct)
    case less
    show ?case
    proof (cases "i + 5 \<le> length bs")
      case True
      have rec: "find_from bs (i + 1) = Ok None" by (rule less(1)) (use True less(3) in auto)
      show ?thesis
      proof (cases "app_at (drop i bs)")
        case app: True
        then have "0 < i" using less(2) by (cases i) auto
        then obtain r where "attr_start_of bs i = Ok r" using attr_start_of_ok by blast
        moreover from this less(3) app True have "r = None" by (cases r) (auto simp: app_hit_def)
        ultimately show ?thesis using app True rec by (subst find_from.simps) simp
      next
        case False
        then show ?thesis using True rec by (subst find_from.simps) simp
      qed
    qed (subst find_from.simps, simp)
  qed
  then show thesis using none no by blast
qed

section \<open>The loop\<close>

lemma find_items_hangs:
  assumes "app_hit bs p h" "locate_app_item (drop h bs) = None"
    and "\<And>q h'. h < q \<Longrightarrow> q < p \<Longrightarrow> \<not> app_hit bs q h'"
  shows "find_items fuel bs (h + 1) items = None"
proof (induction fuel)
  case (Suc fuel)
  have "h + 1 < p" using assms(1) attr_start_of_bounds by (auto simp: app_hit_def)
  then have "find_from bs (h + 1) = Ok (Some h)" by (intro find_from_first [OF assms(1)]) (use assms(3) in auto)
  then show ?case using assms(2) Suc by simp
qed simp

definition items_sound :: "string \<Rightarrow> nat \<Rightarrow> app_item list \<Rightarrow> bool" where
  "items_sound bs i items \<longleftrightarrow>
     sorted_wrt (\<lambda>a b. item_end a \<le> attr_start b) items \<and>
     (\<forall>it \<in> set items. i \<le> attr_start it \<and> attr_start it < item_end it \<and> item_end it \<le> length bs \<and>
        prefix ''#['' (drop (attr_start it) bs) \<and> bs ! (item_end it - 1) = CHR ''}'' \<and>
        locate_app_item (drop (attr_start it) bs) = Some (drop (item_end it) bs)) \<and>
     (\<forall>p h. i \<le> p \<and> app_hit bs p h \<longrightarrow> (\<exists>it \<in> set items. attr_start it \<le> h \<and> p < item_end it))"

text \<open>The end of a located item.\<close>

lemma locate_item_bounds:
  assumes "locate_app_item (drop h bs) = Some rest" and "h \<le> length bs"
  obtains e where "rest = drop e bs" "h < e" "e \<le> length bs" "bs ! (e - 1) = CHR ''}''"
    "length bs - length rest = e"
proof -
  obtain m where m: "rest = drop m (drop h bs)" "0 < m" "m \<le> length (drop h bs)"
      "drop h bs ! (m - 1) = CHR ''}''" by (rule locate_app_item_end [OF assms(1)])
  then show thesis using that [of "h + m"] assms(2) by (simp add: add.commute)
qed

lemma items_sound_Cons:
  assumes "items_sound bs e new" and "i \<le> h" "h < e" "e \<le> length bs" "bs ! (e - 1) = CHR ''}''"
    and "locate_app_item (drop h bs) = Some (drop e bs)" "app_hit bs p h"
    and "\<And>q h'. i \<le> q \<Longrightarrow> q < p \<Longrightarrow> \<not> app_hit bs q h'"
  shows "items_sound bs i (\<lparr>attr_start = h, item_end = e\<rparr> # new)"
  unfolding items_sound_def
proof (intro conjI)
  note hb = attr_start_of_bounds [of bs p h]
  have att: "attr_start_of bs p = Ok (Some h)" "p + 5 \<le> length bs" using assms(7) by (simp_all add: app_hit_def)
  have pre: "prefix ''#['' (drop h bs)"
    using hb [OF att(1)] att(2) by (simp add: Cons_nth_drop_Suc [symmetric])
  show "sorted_wrt (\<lambda>a b. item_end a \<le> attr_start b) (\<lparr>attr_start = h, item_end = e\<rparr> # new)"
    using assms(1) by (auto simp: items_sound_def)
  show "\<forall>it \<in> set (\<lparr>attr_start = h, item_end = e\<rparr> # new).
      i \<le> attr_start it \<and> attr_start it < item_end it \<and> item_end it \<le> length bs \<and>
      prefix ''#['' (drop (attr_start it) bs) \<and> bs ! (item_end it - 1) = CHR ''}'' \<and>
      locate_app_item (drop (attr_start it) bs) = Some (drop (item_end it) bs)"
    using assms(1-6) pre by (force simp: items_sound_def)
  show "\<forall>q h'. i \<le> q \<and> app_hit bs q h' \<longrightarrow>
      (\<exists>it \<in> set (\<lparr>attr_start = h, item_end = e\<rparr> # new). attr_start it \<le> h' \<and> q < item_end it)"
  proof (intro allI impI)
    fix q h' assume q: "i \<le> q \<and> app_hit bs q h'"
    then have "p \<le> q" using assms(8) [of q h'] by (cases "q < p") auto
    show "\<exists>it \<in> set (\<lparr>attr_start = h, item_end = e\<rparr> # new). attr_start it \<le> h' \<and> q < item_end it"
    proof (cases "q < e")
      case True
      have "h \<le> h'"
        by (rule attr_start_of_ge [of bs q]) (use q \<open>p \<le> q\<close> hb [OF att(1)] in \<open>auto simp: app_hit_def\<close>)
      then show ?thesis using True by simp
    next
      case False
      then show ?thesis using assms(1) q by (auto simp: items_sound_def)
    qed
  qed
qed

text \<open>What the loop returns is sound, whatever attributes the text has.\<close>

lemma find_items_sound:
  assumes "find_items fuel bs i items = Some (Ok r)"
    and "i = 0 \<and> \<not> app_at bs \<or> 0 < i \<and> bs ! (i - 1) = CHR ''}''"
  shows "\<exists>new. r = items @ new \<and> items_sound bs i new"
  using assms
proof (induction fuel arbitrary: i items)
  case (Suc fuel)
  have start: "0 < i \<or> \<not> app_at bs" using Suc(3) by blast
  show ?case
  proof (rule find_from_cases [OF start], goal_cases)
    case none: 1
    then show ?thesis using Suc(2) by (intro exI [of _ "[]"]) (simp add: items_sound_def)
  next
    case hit: (2 p h)
    have att: "attr_start_of bs p = Ok (Some h)" "p + 5 \<le> length bs" using hit(2) by (simp_all add: app_hit_def)
    have hp: "h + 1 < p" using attr_start_of_bounds(1) [OF att(1)] .
    have ih: "i \<le> h" using Suc(3) attr_start_of_after [OF att(1) _ _ hit(3)] by auto
    have "locate_app_item (drop h bs) \<noteq> None"
    proof
      assume none: "locate_app_item (drop h bs) = None"
      have "find_items fuel bs (h + 1) items = None"
        by (rule find_items_hangs [OF hit(2) none]) (use hit(4) ih in auto)
      then show False using Suc(2) hit(1) none by simp
    qed
    then obtain rest where rest: "locate_app_item (drop h bs) = Some rest" by blast
    obtain e where e: "rest = drop e bs" "h < e" "e \<le> length bs" "bs ! (e - 1) = CHR ''}''"
        "length bs - length rest = e" by (rule locate_item_bounds [OF rest]) (use att hp in auto)
    have "find_items fuel bs e (items @ [\<lparr>attr_start = h, item_end = e\<rparr>]) = Some (Ok r)"
      using Suc(2) hit(1) rest e(5) by (simp add: Let_def)
    then obtain new where new: "r = items @ \<lparr>attr_start = h, item_end = e\<rparr> # new" "items_sound bs e new"
      using Suc(1) [of e] e by force
    show ?thesis
      using new items_sound_Cons [OF new(2) ih e(2-4) rest [unfolded e(1)] hit(2,4)] by blast
  qed
qed simp

text \<open>It returns if every attribute is followed by a module.\<close>

lemma find_items_total:
  assumes "\<And>p h. app_hit bs p h \<Longrightarrow> locate_app_item (drop h bs) \<noteq> None"
    and "i \<le> length bs" and "length bs - i < fuel"
    and "i = 0 \<and> \<not> app_at bs \<or> 0 < i \<and> bs ! (i - 1) = CHR ''}''"
  shows "\<exists>r. find_items fuel bs i items = Some (Ok r)"
  using assms(2-)
proof (induction fuel arbitrary: i items)
  case (Suc fuel)
  have start: "0 < i \<or> \<not> app_at bs" using Suc(4) by blast
  show ?case
  proof (rule find_from_cases [OF start], goal_cases)
    case none: 1
    then show ?thesis by simp
  next
    case hit: (2 p h)
    have att: "attr_start_of bs p = Ok (Some h)" "p + 5 \<le> length bs" using hit(2) by (simp_all add: app_hit_def)
    have hp: "h + 1 < p" using attr_start_of_bounds(1) [OF att(1)] .
    have ih: "i \<le> h" using Suc(4) attr_start_of_after [OF att(1) _ _ hit(3)] by auto
    obtain rest where rest: "locate_app_item (drop h bs) = Some rest" using assms(1) [OF hit(2)] by blast
    obtain e where e: "rest = drop e bs" "h < e" "e \<le> length bs" "bs ! (e - 1) = CHR ''}''"
        "length bs - length rest = e" by (rule locate_item_bounds [OF rest]) (use att hp in auto)
    have "\<exists>r. find_items fuel bs e (items @ [\<lparr>attr_start = h, item_end = e\<rparr>]) = Some (Ok r)"
      by (rule Suc(1)) (use e ih Suc(3) in auto)
    then show ?thesis using hit(1) rest e(5) by (simp add: Let_def)
  qed
qed simp

section \<open>The result of the search\<close>

lemma app_at_panics: "app_at src \<Longrightarrow> find_app_items (Suc fuel) src = Some (Err ())"
proof -
  assume a: "app_at src"
  then have "5 \<le> length src" unfolding app_at_def using prefix_length_le [of "''::app''" src] by simp
  then have "find_from src 0 = Err ()" using a by (subst find_from.simps) (simp add: attr_start_of_def)
  then show "find_app_items (Suc fuel) src = Some (Err ())" by (simp add: find_app_items_def)
qed

lemma find_app_items_result:
  assumes "find_app_items fuel src = Some (Ok items)"
  shows "items_sound src 0 items"
proof (cases "app_at src")
  case True
  then show ?thesis using assms app_at_panics by (cases fuel) (auto simp: find_app_items_def)
next
  case False
  then show ?thesis using find_items_sound [of fuel src 0 "[]"] assms by (auto simp: find_app_items_def)
qed

lemma find_app_items_returns:
  assumes "\<not> app_at src" and "\<And>p h. app_hit src p h \<Longrightarrow> locate_app_item (drop h src) \<noteq> None"
    and "length src < fuel"
  shows "\<exists>items. find_app_items fuel src = Some (Ok items)"
  using find_items_total [of src 0 fuel "[]"] assms by (auto simp: find_app_items_def)

text \<open>On a text that does not begin with \<open>::app(\<close> and in which every \<open>::app\<close> attribute belongs to a \<open>mod\<close> item with
  matched braces, \<open>find_app_items\<close> returns, and its result is exactly the application modules of the text: the items
  are in order and disjoint, each starts with \<open>#[\<close>, ends after a closing brace and is the item that
  \<open>locate_app_item\<close> finds at its attribute, and every \<open>::app\<close> attribute of the text lies inside one of them.\<close>

lemma find_app_items_sound:
  assumes "\<not> app_at src" and "\<And>p h. app_hit src p h \<Longrightarrow> locate_app_item (drop h src) \<noteq> None"
    and "length src < fuel"
  shows "\<exists>items. find_app_items fuel src = Some (Ok items) \<and> items_sound src 0 items"
proof -
  obtain items where "find_app_items fuel src = Some (Ok items)"
    using find_app_items_returns [OF assms(1) _ assms(3)] assms(2) by blast
  then show ?thesis using find_app_items_result by blast
qed

lemma app_hit_check:
  assumes "list_all (\<lambda>p. app_at (drop p bs) \<longrightarrow> (case attr_start_of bs p of
      Inr (Some h) \<Rightarrow> locate_app_item (drop h bs) \<noteq> None | _ \<Rightarrow> True)) [0..<length bs]"
    and "app_hit bs p h"
  shows "locate_app_item (drop h bs) \<noteq> None"
proof -
  have "p < length bs" "app_at (drop p bs)" "attr_start_of bs p = Ok (Some h)" using assms(2) by (auto simp: app_hit_def)
  then show ?thesis using assms(1) by (force simp: list_all_iff)
qed

text \<open>When the first \<open>::app\<close> attribute of a file is not followed by a \<open>mod\<close> item that \<open>locate_app_item\<close> can
  delimit, \<open>find_app_items\<close> does not return, whatever the rest of the file: the search restarts one byte after the
  start of the attribute, finds the same \<open>::app\<close> and walks back to the same attribute.\<close>

lemma find_app_items_hangs:
  assumes "find_from src 0 = Ok (Some h)" and "locate_app_item (drop h src) = None"
  shows "find_app_items fuel src = None"
proof (cases fuel)
  case (Suc n)
  have "\<not> app_at src"
  proof
    assume "app_at src"
    then have "find_app_items 1 src = Some (Err ())" using app_at_panics [of src 0] by simp
    then show False using assms by (simp add: find_app_items_def numeral_eq_Suc)
  qed
  then have start: "0 < (0::nat) \<or> \<not> app_at src" by blast
  have "find_items n src (h + 1) [] = None"
  proof (rule find_from_cases [OF start], goal_cases)
    case (2 p h')
    then have "h' = h" using assms(1) by simp
    then show ?thesis using find_items_hangs [of src p h] 2 assms(2) by auto
  qed (use assms(1) in simp)
  then show ?thesis using assms Suc by (simp add: find_app_items_def)
qed (simp add: find_app_items_def)

end
