(* ===== verification/Files.thy ===== *)
theory Files
  imports Prelude "HOL-Library.Sublist"
begin

text \<open>
  The file operations of \<open>std::fs\<close> that \<open>rticx-expand\<close> uses, on a tree of directories: a directory lists its
  entries in the order in which \<open>read_dir\<close> yields them, and a path is the list of names from the root of the tree.
  The operations fail when the file system has to refuse them (a missing parent, a directory where a file is
  expected); permissions and devices are not modelled, and texts are the bytes of valid UTF-8.

  The interface of the client code is the locale \<open>file_store\<close>: a map from paths to what is there, and the effect of
  each operation on that map.
\<close>

type_synonym path = "string list"

datatype node = File (file_text: string) | Dir "(string \<times> node) list"

type_synonym entries = "(string \<times> node) list"

section \<open>Operations\<close>

fun fs_get :: "entries \<Rightarrow> path \<Rightarrow> node option" where
  "fs_get es [] = Some (Dir es)"
| "fs_get es (n # p) =
     (case map_of es n of
        None \<Rightarrow> None
      | Some (File c) \<Rightarrow> if p = [] then Some (File c) else None
      | Some (Dir d) \<Rightarrow> fs_get d p)"

fun fs_put :: "entries \<Rightarrow> path \<Rightarrow> node \<Rightarrow> entries option" where
  "fs_put es [] x = None"
| "fs_put es (n # p) x =
     (if p = [] then (case map_of es n of Some (Dir d) \<Rightarrow> None | _ \<Rightarrow> Some (AList.update n x es))
      else (case map_of es n of
              Some (Dir d) \<Rightarrow> map_option (\<lambda>d'. AList.update n (Dir d') es) (fs_put d p x)
            | _ \<Rightarrow> None))"

fun fs_unlink :: "entries \<Rightarrow> path \<Rightarrow> entries option" where
  "fs_unlink es [] = None"
| "fs_unlink es (n # p) =
     (if p = [] then (if map_of es n = None then None else Some (AList.delete n es))
      else (case map_of es n of
              Some (Dir d) \<Rightarrow> map_option (\<lambda>d'. AList.update n (Dir d') es) (fs_unlink d p)
            | _ \<Rightarrow> None))"

definition read_to_string :: "entries \<Rightarrow> path \<Rightarrow> string option" where
  "read_to_string es p = (case fs_get es p of Some (File c) \<Rightarrow> Some c | _ \<Rightarrow> None)"

definition path_exists :: "entries \<Rightarrow> path \<Rightarrow> bool" where
  "path_exists es p \<longleftrightarrow> fs_get es p \<noteq> None"

definition write_file :: "entries \<Rightarrow> path \<Rightarrow> string \<Rightarrow> entries option" where
  "write_file es p c = fs_put es p (File c)"

definition remove_file :: "entries \<Rightarrow> path \<Rightarrow> entries option" where
  "remove_file es p = (case fs_get es p of Some (File c) \<Rightarrow> fs_unlink es p | _ \<Rightarrow> None)"

definition remove_dir_all :: "entries \<Rightarrow> path \<Rightarrow> entries option" where
  "remove_dir_all es p = (case fs_get es p of Some (Dir d) \<Rightarrow> fs_unlink es p | _ \<Rightarrow> None)"

text \<open>A file may replace a file; a directory goes to a free name only.\<close>

definition rename_path :: "entries \<Rightarrow> path \<Rightarrow> path \<Rightarrow> entries option" where
  "rename_path es a b =
     (case fs_get es a of
        None \<Rightarrow> None
      | Some x \<Rightarrow>
          if a = b then Some es
          else (case (x, fs_get es b) of
                  (Dir d, Some y) \<Rightarrow> None
                | _ \<Rightarrow> Option.bind (fs_unlink es a) (\<lambda>es'. fs_put es' b x)))"

section \<open>The map of a tree\<close>

text \<open>What is at a path: nothing, a directory (\<open>Some None\<close>) or a file with its text.\<close>

definition view :: "entries \<Rightarrow> path \<Rightarrow> string option option" where
  "view es p = map_option (\<lambda>x. case x of File c \<Rightarrow> Some c | Dir d \<Rightarrow> None) (fs_get es p)"

lemma view_Nil [simp]: "view es [] = Some None"
  by (simp add: view_def)

lemma view_Cons:
  "view es (n # p) = (case map_of es n of
      None \<Rightarrow> None | Some (File c) \<Rightarrow> if p = [] then Some (Some c) else None | Some (Dir d) \<Rightarrow> view d p)"
  by (simp add: view_def split: option.split node.split)

lemma read_view: "read_to_string es p = (case view es p of Some t \<Rightarrow> t | None \<Rightarrow> None)"
  by (simp add: read_to_string_def view_def split: option.split node.split)

lemma exists_view: "path_exists es p \<longleftrightarrow> view es p \<noteq> None"
  by (simp add: path_exists_def view_def)

lemma view_put: "fs_put es p (File c) = Some es' \<Longrightarrow> view es' = (view es)(p \<mapsto> Some c)"
proof (induction es p "File c" arbitrary: es' rule: fs_put.induct)
  case (2 es n p)
  show ?case
  proof
    fix q
    show "view es' q = ((view es)(n # p \<mapsto> Some c)) q"
      using 2 by (cases q) (auto simp: view_Cons update_conv' split: if_splits option.splits node.splits)
  qed
qed simp

lemma fs_put_ok:
  "fs_put es p (File c) \<noteq> None \<longleftrightarrow> p \<noteq> [] \<and> view es (butlast p) = Some None \<and> view es p \<noteq> Some None"
  by (induction es p "File c" rule: fs_put.induct) (auto simp: view_Cons split: option.split node.split)

lemma view_unlink_file:
  "fs_unlink es p = Some es' \<Longrightarrow> view es p = Some (Some c) \<Longrightarrow> view es' = (view es)(p := None)"
proof (induction es p arbitrary: es' rule: fs_unlink.induct)
  case (2 es n p)
  show ?case
  proof
    fix q
    show "view es' q = ((view es)(n # p := None)) q"
      using 2 by (cases q)
        (auto simp: view_Cons update_conv' delete_conv' split: if_splits option.splits node.splits)
  qed
qed simp

lemma unlink_ok: "fs_unlink es p \<noteq> None \<longleftrightarrow> p \<noteq> [] \<and> view es p \<noteq> None"
  by (induction es p rule: fs_unlink.induct) (auto simp: view_Cons split: option.split node.split)

lemma view_parent: "view es p \<noteq> None \<Longrightarrow> p \<noteq> [] \<Longrightarrow> view es (butlast p) = Some None"
proof (induction p arbitrary: es)
  case (Cons n p)
  then show ?case by (auto simp: view_Cons split: option.splits node.splits if_splits)
qed simp

lemma view_file: "view es p = Some (Some c) \<longleftrightarrow> fs_get es p = Some (File c)"
proof (cases "fs_get es p")
  case (Some x)
  then show ?thesis by (cases x) (simp_all add: view_def)
qed (simp add: view_def)

lemma view_rename:
  assumes "view es a = Some (Some c)" and "a \<noteq> b" and "rename_path es a b = Some es'"
  shows "view es' = (view es)(a := None, b \<mapsto> Some c)"
proof -
  obtain d where d: "fs_unlink es a = Some d" "fs_put d b (File c) = Some es'"
    using assms unfolding rename_path_def view_file by (auto simp: bind_eq_Some_conv)
  show ?thesis using view_put [OF d(2)] view_unlink_file [OF d(1) assms(1)] by simp
qed

lemma rename_path_ok:
  assumes "view es a = Some (Some c)" and "a \<noteq> b"
    and "b \<noteq> []" "view es (butlast b) = Some None" "view es b \<noteq> Some None"
  shows "\<exists>es'. rename_path es a b = Some es'"
proof -
  have "a \<noteq> []" using assms(1) by auto
  then obtain d where d: "fs_unlink es a = Some d" using unlink_ok [of es a] assms(1) by auto
  note v = view_unlink_file [OF d assms(1)]
  have "butlast b \<noteq> a" using assms(1,4) by auto
  then have "fs_put d b (File c) \<noteq> None" using assms(2-) v by (simp add: fs_put_ok del: not_None_eq)
  then show ?thesis using assms(1,2) d by (auto simp: rename_path_def view_file)
qed

lemma remove_file_ok: "remove_file es p \<noteq> None \<longleftrightarrow> (\<exists>c. view es p = Some (Some c))"
  using unlink_ok [of es p]
  by (auto simp: remove_file_def view_file view_def split: option.splits node.splits)

lemma view_remove: "remove_file es p = Some es' \<Longrightarrow> view es' = (view es)(p := None)"
  using view_unlink_file [of es p es']
  by (auto simp: remove_file_def view_file split: option.splits node.splits)

section \<open>The interface\<close>

locale file_store =
  fixes look :: "'s \<Rightarrow> path \<Rightarrow> string option option"
    and put :: "'s \<Rightarrow> path \<Rightarrow> string \<Rightarrow> 's option"
    and del :: "'s \<Rightarrow> path \<Rightarrow> 's option"
    and move :: "'s \<Rightarrow> path \<Rightarrow> path \<Rightarrow> 's option"
  assumes look_root: "look s [] = Some None"
    and look_parent: "look s p \<noteq> None \<Longrightarrow> p \<noteq> [] \<Longrightarrow> look s (butlast p) = Some None"
    and put_ok: "put s p c \<noteq> None \<longleftrightarrow>
          p \<noteq> [] \<and> look s (butlast p) = Some None \<and> look s p \<noteq> Some None"
    and put_look: "put s p c = Some s' \<Longrightarrow> look s' = (look s)(p \<mapsto> Some c)"
    and del_ok: "del s p \<noteq> None \<longleftrightarrow> (\<exists>c. look s p = Some (Some c))"
    and del_look: "del s p = Some s' \<Longrightarrow> look s' = (look s)(p := None)"
    and move_ok: "look s a = Some (Some c) \<Longrightarrow> a \<noteq> b \<Longrightarrow> b \<noteq> [] \<Longrightarrow>
          look s (butlast b) = Some None \<Longrightarrow> look s b \<noteq> Some None \<Longrightarrow> \<exists>s'. move s a b = Some s'"
    and move_look: "look s a = Some (Some c) \<Longrightarrow> a \<noteq> b \<Longrightarrow> move s a b = Some s' \<Longrightarrow>
          look s' = (look s)(a := None, b \<mapsto> Some c)"
begin

text \<open>A file that exists can be overwritten.\<close>

lemma overwrite_ok:
  assumes "look s p = Some (Some c)"
  shows "\<exists>s'. put s p c' = Some s'"
proof -
  have "p \<noteq> []" using assms look_root by auto
  then show ?thesis using put_ok [of s p c'] look_parent [of s p] assms by auto
qed

text \<open>Writing a backup and then the file, and undoing both, leaves the map as it was, without the backup.\<close>

lemma backup_then_restore:
  assumes "look s f = Some (Some c)" and "b \<noteq> f" and "put s b c = Some s1" and "put s1 f c' = Some s2"
  shows "\<exists>s3 s4. del s2 f = Some s3 \<and> move s3 b f = Some s4 \<and> look s4 = (look s)(b := None)"
proof -
  have l2: "look s2 = (look s)(b \<mapsto> Some c, f \<mapsto> Some c')"
    using put_look [OF assms(3)] put_look [OF assms(4)] by simp
  then obtain s3 where s3: "del s2 f = Some s3" using del_ok [of s2 f] by auto
  have l3: "look s3 = (look s)(b \<mapsto> Some c, f := None)" using del_look [OF s3] l2 by simp
  have f: "f \<noteq> []" using assms(1) look_root [of s] by auto
  have "look s (butlast f) = Some None" using look_parent [of s f] assms(1) f by simp
  note f = f this
  have "butlast f \<noteq> b"
    using assms(1) put_ok [of s b c] assms(3) f(2) by auto
  then have "look s3 (butlast f) = Some None" using l3 f by (cases f rule: rev_cases) auto
  then obtain s4 where s4: "move s3 b f = Some s4"
    using move_ok [of s3 b c f] l3 assms(2) f(1) by auto
  have "look s4 = (look s3)(b := None, f \<mapsto> Some c)"
    by (rule move_look [OF _ assms(2) s4]) (use l3 assms(2) in simp)
  then have "look s4 = (look s)(b := None)" using l3 assms(1,2) by (auto simp: fun_eq_iff)
  then show ?thesis using s3 s4 by blast
qed

end

interpretation tree: file_store view write_file remove_file rename_path
proof
  show "write_file s p c \<noteq> None \<longleftrightarrow> p \<noteq> [] \<and> view s (butlast p) = Some None \<and> view s p \<noteq> Some None" for s p c
    by (simp add: write_file_def fs_put_ok del: not_None_eq)
  show "view s' = (view s)(p \<mapsto> Some c)" if "write_file s p c = Some s'" for s p c s'
    using that by (simp add: write_file_def view_put)
qed (simp_all add: view_parent remove_file_ok view_remove rename_path_ok view_rename del: not_None_eq)

end
