(* ===== verification/Splice.thy ===== *)
theory Splice
  imports Detect Files
begin

text \<open>
  The texts and files that \<open>rticx-expand\<close> puts together, \<open>flow.rs\<close>: splicing an expansion in the place of the
  application module, the lint attributes of the written-out module, \<open>merge_into\<close> with its backup, and \<open>restore\<close>.
  An operation on files returns the tree it leaves, also when it fails; \<open>None\<close> is a run that does not return (the
  search for the module may loop, see \<open>Detect\<close>), and \<open>fuel\<close> bounds that search.
\<close>

section \<open>Splicing\<close>

datatype flow_error =
    Panic
  | MetadataFailed
  | NoPackage path
  | NoBinary string | NoExample string | ManyBinaries nat | NoTargets | ManyExamples nat
  | CleanFailed | CheckNotRun
  | NoExpansionFiles path
  | ReadFailed path | WriteFailed path
  | NoAppModule path | ManyAppModules nat path
  | NoFullExpansion
  | NoAppFile
  | BackupExists path | BackupFailed path
  | NoBackup path | NothingToRestore path | ManyBackups nat path
  | RemoveFailed path | RestoreFailed path path | RemoveDirFailed path

definition splice_expansion :: "nat \<Rightarrow> string \<Rightarrow> string \<Rightarrow> path \<Rightarrow> (flow_error, string) res option" where
  "splice_expansion fuel original expansion source_file =
     map_option (\<lambda>r. case r of
        Inl e \<Rightarrow> Err Panic
      | Inr [] \<Rightarrow> Err (NoAppModule source_file)
      | Inr [item] \<Rightarrow>
          Ok (take (attr_start item) original @ expansion @
              (if expansion \<noteq> [] \<and> last expansion = newline then [] else [newline]) @
              drop (item_end item) original)
      | Inr items \<Rightarrow> Err (ManyAppModules (length items) source_file))
     (find_app_items fuel original)"

text \<open>The lint attributes, put after the first brace of the module once.\<close>

fun contains :: "string \<Rightarrow> string \<Rightarrow> bool" where
  "contains pat [] \<longleftrightarrow> pat = []"
| "contains pat (c # s) \<longleftrightarrow> prefix pat (c # s) \<or> contains pat s"

definition lint_allows :: string where
  "lint_allows = newline # ''#![allow(static_mut_refs, unused_imports, unused_variables, dead_code, non_camel_case_types)] // rticx-expand: rustc exempts macro-generated code from these lints; written-out code needs explicit allows'' @ [newline]"

definition inject_module_allows :: "string \<Rightarrow> string" where
  "inject_module_allows text0 =
     (if contains ''rticx-expand:'' text0 then text0
      else if CHR ''{'' \<notin> set text0 then text0
      else let brace = length (takeWhile (\<lambda>c. c \<noteq> CHR ''{'') text0)
           in take (brace + 1) text0 @ lint_allows @ drop (brace + 1) text0)"

section \<open>Merging and restoring\<close>

text \<open>\<open>format!("{}.old", file.display())\<close>\<close>

definition old_path :: "path \<Rightarrow> path" where
  "old_path p = (if p = [] then [''.old''] else butlast p @ [last p @ ''.old''])"

definition merge_into ::
  "nat \<Rightarrow> path \<Rightarrow> string \<Rightarrow> bool \<Rightarrow> entries \<Rightarrow> (entries \<times> (flow_error, path \<times> path) res) option" where
  "merge_into fuel file expansion force es =
     (case read_to_string es file of
        None \<Rightarrow> Some (es, Err (ReadFailed file))
      | Some original \<Rightarrow>
          (case splice_expansion fuel original expansion file of
             None \<Rightarrow> None
           | Some (Inl e) \<Rightarrow> Some (es, Err e)
           | Some (Inr merged) \<Rightarrow>
               (let backup = old_path file in
                if path_exists es backup \<and> \<not> force then Some (es, Err (BackupExists backup))
                else (case write_file es backup original of
                        None \<Rightarrow> Some (es, Err (BackupFailed backup))
                      | Some es1 \<Rightarrow>
                          (case write_file es1 file merged of
                             None \<Rightarrow> Some (es1, Err (WriteFailed file))
                           | Some es2 \<Rightarrow> Some (es2, Ok (file, backup)))))))"

text \<open>\<open>crate_dir\<close>: the parent of the manifest; the empty path is the current directory.\<close>

definition crate_dir :: "path \<Rightarrow> path" where
  "crate_dir manifest_path = butlast manifest_path"

definition skipped_dir :: "string \<Rightarrow> bool" where
  "skipped_dir name \<longleftrightarrow> name = ''target'' \<or> prefix ''.'' name"

text \<open>\<open>trim_end_matches(".old")\<close> removes the suffix as often as it is there.\<close>

function trim_old :: "string \<Rightarrow> string" where
  "trim_old name = (if suffix ''.old'' name then trim_old (take (length name - 4) name) else name)"
  by auto
termination
proof (relation "measure length", goal_cases)
  case (2 name)
  then show ?case using suffix_length_le [of "''.old''" name] by auto
qed simp

declare trim_old.simps [simp del]

fun collect_backups :: "path \<Rightarrow> entries \<Rightarrow> (path \<times> path) list" where
  "collect_backups dir [] = []"
| "collect_backups dir ((name, Dir d) # es) =
     (if skipped_dir name then [] else collect_backups (dir @ [name]) d) @ collect_backups dir es"
| "collect_backups dir ((name, File c) # es) =
     (if suffix ''.rs.old'' name then [(dir @ [trim_old name], dir @ [name])] else []) @ collect_backups dir es"

definition backups_under :: "entries \<Rightarrow> path \<Rightarrow> (path \<times> path) list" where
  "backups_under es dir = (case fs_get es dir of Some (Dir d) \<Rightarrow> collect_backups dir d | _ \<Rightarrow> [])"

record restore_options =
  ro_manifest_path :: path
  ro_file :: "path option"
  ro_remove_expansions :: bool

text \<open>The selection of the backup, the first half of \<open>restore\<close>.\<close>

definition select_backup :: "restore_options \<Rightarrow> entries \<Rightarrow> (flow_error, path \<times> path) res" where
  "select_backup opts es =
     (let dir = crate_dir (ro_manifest_path opts) in
      rbind (case ro_file opts of
               Some file \<Rightarrow> (let old = old_path file in
                 if \<not> path_exists es old then Err (NoBackup old) else Ok [(file, old)])
             | None \<Rightarrow> Ok (backups_under es dir))
        (\<lambda>backups. case backups of
           [] \<Rightarrow> Err (NothingToRestore dir)
         | [b] \<Rightarrow> Ok b
         | _ \<Rightarrow> Err (ManyBackups (length backups) dir)))"

definition restore_backup :: "path \<Rightarrow> path \<Rightarrow> entries \<Rightarrow> entries \<times> (flow_error, unit) res" where
  "restore_backup file backup es =
     (case (if path_exists es file then remove_file es file else Some es) of
        None \<Rightarrow> (es, Err (RemoveFailed file))
      | Some es1 \<Rightarrow>
          (case rename_path es1 backup file of
             None \<Rightarrow> (es1, Err (RestoreFailed file backup))
           | Some es2 \<Rightarrow> (es2, Ok ())))"

text \<open>The expansion directory is what \<open>cargo metadata\<close> gives, if it runs.\<close>

definition restore ::
  "path option \<Rightarrow> restore_options \<Rightarrow> entries \<Rightarrow> entries \<times> (flow_error, unit) res" where
  "restore expansion_dir opts es =
     (case select_backup opts es of
        Inl e \<Rightarrow> (es, Err e)
      | Inr (file, backup) \<Rightarrow>
          (case restore_backup file backup es of
             (es2, Inl e) \<Rightarrow> (es2, Err e)
           | (es2, Inr _) \<Rightarrow>
               (case expansion_dir of
                  Some dir \<Rightarrow>
                    if ro_remove_expansions opts \<and> path_exists es2 dir then
                      (case remove_dir_all es2 dir of
                         None \<Rightarrow> (es2, Err (RemoveDirFailed dir))
                       | Some es3 \<Rightarrow> (es3, Ok ()))
                    else (es2, Ok ())
                | None \<Rightarrow> (es2, Ok ()))))"

section \<open>What splicing keeps\<close>

text \<open>A splice that succeeds replaces exactly the application module: the file is a text before it, the module
  from its \<open>#[\<close> to its closing brace, and a text after it; the result keeps both texts and has the expansion
  between them, ended by a newline; and no other \<open>::app\<close> attribute is in the file outside of the replaced part.\<close>

lemma splice_replaces_module:
  assumes "splice_expansion fuel original expansion file = Some (Ok merged)"
  shows "\<exists>before module after.
    original = before @ module @ after \<and>
    merged = before @ expansion @ (if expansion \<noteq> [] \<and> last expansion = newline then [] else [newline]) @ after \<and>
    prefix ''#['' module \<and> last module = CHR ''}'' \<and>
    (\<forall>p h. app_hit original p h \<longrightarrow> length before \<le> h \<and> p < length before + length module)"
proof -
  obtain r where r: "find_app_items fuel original = Some r"
    and c: "(case r of Inl e \<Rightarrow> Err Panic | Inr [] \<Rightarrow> Err (NoAppModule file)
      | Inr [item] \<Rightarrow> Ok (take (attr_start item) original @ expansion @
          (if expansion \<noteq> [] \<and> last expansion = newline then [] else [newline]) @ drop (item_end item) original)
      | Inr items \<Rightarrow> Err (ManyAppModules (length items) file)) = Ok merged"
    using assms unfolding splice_expansion_def map_option_eq_Some by blast
  obtain items where "r = Ok items" using c by (cases r) auto
  moreover then obtain item where "items = [item]" using c by (cases items; cases "tl items") auto
  ultimately have f: "find_app_items fuel original = Some (Ok [item])"
    and m: "merged = take (attr_start item) original @ expansion @
      (if expansion \<noteq> [] \<and> last expansion = newline then [] else [newline]) @ drop (item_end item) original"
    using r c by simp_all
  define module where "module = take (item_end item - attr_start item) (drop (attr_start item) original)"
  note s = find_app_items_result [OF f, unfolded items_sound_def, simplified]
  have len: "length module = item_end item - attr_start item"
    using s unfolding module_def by (simp add: min_absorb2 diff_le_mono)
  have o: "original = take (attr_start item) original @ module @ drop (item_end item) original"
  proof -
    have "drop (item_end item) original = drop (item_end item - attr_start item) (drop (attr_start item) original)"
      using s by simp
    then show ?thesis unfolding module_def by (metis append_take_drop_id)
  qed
  have "1 < length module"
  proof -
    have "original ! attr_start item = CHR ''#''" using s by (auto simp: prefix_def dest!: nth_via_drop)
    then have "attr_start item \<noteq> item_end item - 1" using s by auto
    then show ?thesis using s len by linarith
  qed
  moreover have "module ! (length module - 1) = CHR ''}''"
    using s len \<open>1 < length module\<close> by (simp add: module_def)
  moreover have "prefix ''#['' module"
  proof -
    have "prefix ''#['' (drop (attr_start item) original)" using s by simp
    moreover have "2 \<le> item_end item - attr_start item" using len \<open>1 < length module\<close> by simp
    ultimately show ?thesis unfolding module_def
      by (auto simp: prefix_def numeral_2_eq_2 Suc_le_eq take_Cons' split: nat.split)
  qed
  ultimately have "prefix ''#['' module \<and> last module = CHR ''}''" by (cases module) (simp_all add: last_conv_nth)
  moreover have "length (take (attr_start item) original) = attr_start item" using s by simp
  ultimately show ?thesis using o m s len
    by (intro exI [of _ "take (attr_start item) original"] exI [of _ module] exI [of _ "drop (item_end item) original"])
      auto
qed

theorem splice_replaces_module_witness:
  "\<exists>before module after.
    ''use x; #[r::app()] mod m { } fn f(){}'' = before @ module @ after \<and>
    ''use x; mod m {}'' @ newline # '' fn f(){}'' = before @ ''mod m {}'' @
      (if ''mod m {}'' \<noteq> [] \<and> last ''mod m {}'' = newline then [] else [newline]) @ after \<and>
    prefix ''#['' module \<and> last module = CHR ''}'' \<and>
    (\<forall>p h. app_hit ''use x; #[r::app()] mod m { } fn f(){}'' p h \<longrightarrow>
       length before \<le> h \<and> p < length before + length module)"
  by (rule splice_replaces_module [of 50 _ _ "[''main.rs'']"]) code_simp

text \<open>Injecting the lint attributes twice is injecting them once.\<close>

lemma contains_append: "contains pat t \<Longrightarrow> contains pat (s @ t)"
  by (induction s) (cases t, auto)

lemma contains_prefix: "contains pat s \<Longrightarrow> contains pat (s @ t)"
proof (induction s)
  case Nil
  then show ?case by (cases t) auto
next
  case (Cons c s)
  have "prefix pat (c # s @ t)" if "prefix pat (c # s)"
    using prefix_prefix [OF that, of t] by simp
  then show ?case using Cons by auto
qed

lemma inject_idempotent: "inject_module_allows (inject_module_allows t) = inject_module_allows t"
proof (cases "contains ''rticx-expand:'' t \<or> CHR ''{'' \<notin> set t")
  case False
  have "contains ''rticx-expand:'' lint_allows" by code_simp
  then have "contains ''rticx-expand:'' (inject_module_allows t)"
    using False by (simp add: inject_module_allows_def Let_def contains_append contains_prefix)
  then show ?thesis by (simp add: inject_module_allows_def [of "inject_module_allows t"])
qed (auto simp: inject_module_allows_def)

section \<open>Backups\<close>

text \<open>The names in a directory are distinct.\<close>

fun wf_entries :: "entries \<Rightarrow> bool" where
  "wf_entries [] = True"
| "wf_entries ((name, Dir d) # es) = (name \<notin> fst ` set es \<and> wf_entries d \<and> wf_entries es)"
| "wf_entries ((name, File c) # es) = (name \<notin> fst ` set es \<and> wf_entries es)"

lemma collect_backups_prefix: "(f, b) \<in> set (collect_backups dir es) \<Longrightarrow> prefix dir b"
  by (induction dir es rule: collect_backups.induct) (auto split: if_splits dest: append_prefixD)

lemma collect_backups_names:
  "(f, b) \<in> set (collect_backups dir es) \<Longrightarrow> \<exists>n \<in> fst ` set es. prefix (dir @ [n]) b"
proof (induction dir es rule: collect_backups.induct)
  case (2 dir name d es)
  then show ?case using collect_backups_prefix [of f b "dir @ [name]" d] by (auto split: if_splits)
qed (auto split: if_splits)

lemma collect_backups_distinct: "wf_entries es \<Longrightarrow> distinct (collect_backups dir es)"
proof (induction dir es rule: collect_backups.induct)
  case (2 dir name d es)
  have "(f, b) \<notin> set (collect_backups dir es)" if "(f, b) \<in> set (collect_backups (dir @ [name]) d)" for f b
    using collect_backups_prefix [OF that] collect_backups_names [of f b dir es] 2(3)
    by (auto simp: prefix_def image_iff)
  then show ?case using 2 by auto
next
  case (3 dir name c es)
  have "(f, dir @ [name]) \<notin> set (collect_backups dir es)" for f
    using collect_backups_names [of f "dir @ [name]" dir es] 3(2) by (auto simp: prefix_def image_iff)
  then show ?case using 3 by auto
qed simp

definition is_backup :: "entries \<Rightarrow> path \<Rightarrow> path \<Rightarrow> path \<Rightarrow> bool" where
  "is_backup es dir f b \<longleftrightarrow>
     (\<exists>q n c. b = dir @ q @ [n] \<and> f = dir @ q @ [trim_old n] \<and> list_all (\<lambda>m. \<not> skipped_dir m) q \<and>
        suffix ''.rs.old'' n \<and> view es (q @ [n]) = Some (Some c))"

lemma is_backupI:
  assumes "list_all (\<lambda>m. \<not> skipped_dir m) q" "suffix ''.rs.old'' n" "view es (q @ [n]) = Some (Some c)"
    and "f = dir @ q @ [trim_old n]" "b = dir @ q @ [n]"
  shows "is_backup es dir f b"
  using assms unfolding is_backup_def by blast

lemma is_backup_Nil: "\<not> is_backup [] dir f b"
proof -
  have "view [] (q @ [n]) = None" for q n by (cases q) (simp_all add: view_Cons)
  then show ?thesis by (simp add: is_backup_def)
qed

text \<open>A backup is in the first entry or in the others.\<close>

lemma is_backup_Cons:
  assumes "name \<notin> fst ` set es"
  shows "is_backup ((name, x) # es) dir f b \<longleftrightarrow>
    (case x of Dir d \<Rightarrow> \<not> skipped_dir name \<and> is_backup d (dir @ [name]) f b
     | File c \<Rightarrow> suffix ''.rs.old'' name \<and> f = dir @ [trim_old name] \<and> b = dir @ [name]) \<or> is_backup es dir f b"
    (is "?l \<longleftrightarrow> ?h \<or> ?r")
proof
  assume ?l
  then obtain q n c where b: "b = dir @ q @ [n]" "f = dir @ q @ [trim_old n]" "list_all (\<lambda>m. \<not> skipped_dir m) q"
      "suffix ''.rs.old'' n" "view ((name, x) # es) (q @ [n]) = Some (Some c)" unfolding is_backup_def by blast
  show "?h \<or> ?r"
  proof (cases "hd (q @ [n]) = name")
    case True
    show ?thesis
    proof (cases q)
      case Nil
      then show ?thesis using True b by (cases x) (auto simp: view_Cons)
    next
      case (Cons m q')
      then have "m = name" using True by simp
      then obtain d where d: "x = Dir d" using b(5) Cons by (cases x) (auto simp: view_Cons)
      have "is_backup d (dir @ [name]) f b"
        by (rule is_backupI [of q' n _ c]) (use b Cons d \<open>m = name\<close> in \<open>simp_all add: view_Cons\<close>)
      then show ?thesis using b(3) Cons d \<open>m = name\<close> by simp
    qed
  next
    case False
    then have "view es (q @ [n]) = Some (Some c)" using b(5) by (cases q) (auto simp: view_Cons)
    then have ?r by (intro is_backupI [of q n es c]) (use b in simp_all)
    then show ?thesis ..
  qed
next
  assume "?h \<or> ?r"
  then show ?l
  proof
    assume h: ?h
    show ?l
    proof (cases x)
      case (File c)
      show ?thesis
        by (rule is_backupI [of "[]" name _ c]) (use h File in \<open>simp_all add: view_Cons\<close>)
    next
      case (Dir d)
      then obtain q n c where b: "b = dir @ [name] @ q @ [n]" "f = dir @ [name] @ q @ [trim_old n]"
          "list_all (\<lambda>m. \<not> skipped_dir m) q" "suffix ''.rs.old'' n" "view d (q @ [n]) = Some (Some c)"
          "\<not> skipped_dir name" using h by (auto simp: is_backup_def)
      then show ?thesis unfolding Dir by (intro is_backupI [of "name # q" n _ c]) (simp_all add: view_Cons)
    qed
  next
    assume ?r
    then obtain q n c where b: "b = dir @ q @ [n]" "f = dir @ q @ [trim_old n]" "list_all (\<lambda>m. \<not> skipped_dir m) q"
        "suffix ''.rs.old'' n" "view es (q @ [n]) = Some (Some c)" unfolding is_backup_def by blast
    have "map_of es (hd (q @ [n])) \<noteq> None" using b(5) by (cases q) (auto simp: view_Cons split: option.splits)
    then have "hd (q @ [n]) \<noteq> name" using assms by (auto simp: map_of_eq_None_iff)
    then have "view ((name, x) # es) (q @ [n]) = Some (Some c)" using b(5) by (cases q) (auto simp: view_Cons)
    then show ?l by (intro is_backupI [of q n _ c]) (use b in simp_all)
  qed
qed

lemma collect_backups_exact:
  "wf_entries es \<Longrightarrow> (f, b) \<in> set (collect_backups dir es) \<longleftrightarrow> is_backup es dir f b"
proof (induction dir es rule: collect_backups.induct)
  case (1 dir)
  then show ?case by (simp add: is_backup_Nil)
next
  case (2 dir name d es)
  then show ?case using is_backup_Cons [of name es "Dir d" dir f b] by auto
next
  case (3 dir name c es)
  then show ?case using is_backup_Cons [of name es "File c" dir f b] by auto
qed

section \<open>Merging and restoring undo each other\<close>

lemma old_path_neq: "old_path p \<noteq> p"
proof (cases p rule: rev_cases)
  case (snoc q n)
  then show ?thesis by (auto simp: old_path_def)
qed (simp add: old_path_def)

text \<open>A merge that succeeds has the original in the backup and the merged text in the file.\<close>

lemma merge_into_Ok:
  assumes "merge_into fuel file expansion force es = Some (es2, Ok (f, b))"
  obtains original merged es1 where "f = file" "b = old_path file" "view es file = Some (Some original)"
    "splice_expansion fuel original expansion file = Some (Ok merged)"
    "write_file es (old_path file) original = Some es1" "write_file es1 file merged = Some es2"
    "path_exists es (old_path file) \<longrightarrow> force"
  using assms unfolding merge_into_def Let_def
  by (auto simp: read_view split: option.splits sum.splits if_splits)

lemma restore_backup_undoes:
  assumes "view es file = Some (Some original)" and "write_file es (old_path file) original = Some es1"
    and "write_file es1 file merged = Some es2" and "view es3 = (view es2)(file \<mapsto> Some t)"
  shows "\<exists>es4. restore_backup file (old_path file) es3 = (es4, Ok ()) \<and> view es4 = (view es)(old_path file := None)"
proof -
  obtain es2' where es2': "write_file es1 file t = Some es2'"
    using tree.put_ok [where s = es1 and p = "file" and c = t] tree.put_ok [where s = es1 and p = "file" and c = merged]
      assms(3) by auto
  have v: "view es3 = view es2'"
    using assms(4) tree.put_look [OF assms(3)] tree.put_look [OF es2'] by simp
  have "view es3 file = Some (Some t)" using assms(4) by simp
  then obtain es3' where r: "remove_file es3 file = Some es3'" using tree.del_ok [where s = es3 and p = "file"] by blast
  obtain s3 s4 where s: "remove_file es2' file = Some s3" "rename_path s3 (old_path file) file = Some s4"
      "view s4 = (view es)(old_path file := None)"
    using tree.backup_then_restore [OF assms(1) old_path_neq assms(2) es2'] by blast
  have v3: "view es3' = view s3" using tree.del_look [OF r] tree.del_look [OF s(1)] v by simp
  have b: "view s3 (old_path file) = Some (Some original)"
    using tree.del_look [OF s(1)] tree.put_look [OF es2'] tree.put_look [OF assms(2)] old_path_neq [of "file"] by simp
  have "file \<noteq> []" "view es3' (butlast file) = Some None" "view es3' file = None"
  proof -
    show f: "file \<noteq> []" using assms(1) by auto
    show "view es3' file = None" using tree.del_look [OF r] by simp
    have "view es3 (butlast file) = Some None"
      using tree.look_parent [where s = es3 and p = "file"] \<open>view es3 file = Some (Some t)\<close> f by simp
    moreover have "butlast file \<noteq> file" using f by (metis append_butlast_last_id append_self_conv list.discI)
    ultimately show "view es3' (butlast file) = Some None" using tree.del_look [OF r] by simp
  qed
  then obtain es4 where r4: "rename_path es3' (old_path file) file = Some es4"
    using tree.move_ok [where s = es3' and a = "old_path file" and c = original and b = "file"] b v3 old_path_neq [of "file"] by auto
  have "view es4 = view s4"
    using tree.move_look [OF _ old_path_neq r4] tree.move_look [OF b old_path_neq s(2)] b v3 by simp
  moreover have "path_exists es3 file" using \<open>view es3 file = Some (Some t)\<close> by (simp add: exists_view)
  ultimately show ?thesis using r r4 s(3) by (simp add: restore_backup_def)
qed

text \<open>Merging and restoring is the identity on the sources: after a successful \<open>merge_into\<close>, and whatever
  \<open>rustfmt\<close> then makes of the merged file, \<open>restore --file\<close> succeeds and every path of the crate has what it had
  before the merge, except that the backup file is gone (also one that \<open>--force\<close> overwrote).\<close>

lemma merge_then_restore:
  assumes "merge_into fuel file expansion force es = Some (es2, Ok (f, b))"
    and "view es3 = (view es2)(file \<mapsto> Some formatted)"
  shows "\<exists>es4. restore expansion_dir \<lparr>ro_manifest_path = m, ro_file = Some file, ro_remove_expansions = False\<rparr> es3
      = (es4, Ok ()) \<and> view es4 = (view es)(old_path file := None)"
proof -
  obtain original merged es1 where e: "view es file = Some (Some original)"
      "write_file es (old_path file) original = Some es1" "write_file es1 file merged = Some es2"
    by (rule merge_into_Ok [OF assms(1)])
  obtain es4 where es4: "restore_backup file (old_path file) es3 = (es4, Ok ())"
      "view es4 = (view es)(old_path file := None)"
    using restore_backup_undoes [OF e assms(2)] by blast
  have "path_exists es3 (old_path file)"
    using assms(2) tree.put_look [OF e(2)] tree.put_look [OF e(3)] old_path_neq [of "file"] by (simp add: exists_view)
  then show ?thesis using es4
    by (simp add: restore_def select_backup_def Let_def split: option.split)
qed

lemma merge_then_restore_witness:
  "\<exists>es es2 es3 es4. read_to_string es [''src'', ''main.rs''] = Some ''#[r::app()] mod m { }'' \<and>
     merge_into 30 [''src'', ''main.rs''] ''mod m {}'' False es = Some (es2, Ok ([''src'', ''main.rs''], [''src'', ''main.rs.old''])) \<and>
     read_to_string es3 [''src'', ''main.rs''] = Some ''mod m { }'' \<and>
     restore None \<lparr>ro_manifest_path = [''Cargo.toml''], ro_file = Some [''src'', ''main.rs''], ro_remove_expansions = False\<rparr> es3
       = (es4, Ok ()) \<and>
     view es4 = (view es)([''src'', ''main.rs.old''] := None)"
proof -
  let ?f = "[''src'', ''main.rs'']"
  let ?es = "[(''Cargo.toml'', File ''x''), (''src'', Dir [(''main.rs'', File ''#[r::app()] mod m { }'')])]"
  let ?es2 = "[(''Cargo.toml'', File ''x''), (''src'', Dir [(''main.rs'', File (''mod m {}'' @ [newline])),
      (''main.rs.old'', File ''#[r::app()] mod m { }'')])]"
  have m: "merge_into 30 ?f ''mod m {}'' False ?es = Some (?es2, Ok (?f, [''src'', ''main.rs.old'']))" by code_simp
  obtain es3 where es3: "write_file ?es2 ?f ''mod m { }'' = Some es3" by (simp add: write_file_def)
  have v: "view es3 = (view ?es2)(?f \<mapsto> Some ''mod m { }'')" by (rule tree.put_look [OF es3])
  have "old_path ?f = [''src'', ''main.rs.old'']" by (simp add: old_path_def)
  moreover have "read_to_string es3 ?f = Some ''mod m { }''" by (simp add: read_view v)
  moreover have "read_to_string ?es ?f = Some ''#[r::app()] mod m { }''" by code_simp
  ultimately show ?thesis using merge_then_restore [OF m v, of None "[''Cargo.toml'']"] m by metis
qed

text \<open>A merge that fails leaves every file as it was: nothing is written before all the checks have passed, and
  once the backup is written the merged text can be, since the file exists.\<close>

lemma failed_merge_keeps_tree:
  assumes "merge_into fuel file expansion force es = Some (es', Err e)"
  shows "es' = es"
proof (cases "view es file")
  case (Some x)
  have ok: False
    if "write_file es (old_path file) original = Some es1" "x = Some c" "write_file es1 file merged = None" for es1 original merged c
    using tree.overwrite_ok [where s = es1 and p = "file" and c = c and c' = merged] tree.put_look [OF that(1)]
      Some that(2,3) old_path_neq [of "file"] by auto
  show ?thesis using assms Some unfolding merge_into_def Let_def
    by (auto simp: read_view split: option.splits sum.splits if_splits dest: ok)
qed (use assms in \<open>simp add: merge_into_def read_view\<close>)

lemma failed_merge_keeps_tree_witness:
  "\<exists>es'. merge_into 30 [''main.rs''] ''mod m {}'' False [(''main.rs'', File ''fn f() {}'')]
     = Some (es', Err (NoAppModule [''main.rs''])) \<and> es' = [(''main.rs'', File ''fn f() {}'')]"
proof -
  have m: "merge_into 30 [''main.rs''] ''mod m {}'' False [(''main.rs'', File ''fn f() {}'')]
     = Some ([(''main.rs'', File ''fn f() {}'')], Err (NoAppModule [''main.rs'']))" by code_simp
  from failed_merge_keeps_tree [OF m] m show ?thesis by blast
qed

section \<open>Restoring without a file name\<close>

lemma fs_get_append: "fs_get es dir = Some (Dir d) \<Longrightarrow> fs_get es (dir @ p) = fs_get d p"
  by (induction dir arbitrary: es) (auto split: option.splits node.splits if_splits)

lemma view_append: "fs_get es dir = Some (Dir d) \<Longrightarrow> view es (dir @ p) = view d p"
  by (simp add: view_def fs_get_append)

lemma wf_entries_map_of: "wf_entries es \<Longrightarrow> map_of es n = Some (Dir d) \<Longrightarrow> wf_entries d"
  by (induction es rule: wf_entries.induct) (auto split: if_splits)

lemma wf_entries_get: "wf_entries es \<Longrightarrow> fs_get es dir = Some (Dir d) \<Longrightarrow> wf_entries d"
  by (induction dir arbitrary: es) (auto split: option.splits node.splits if_splits dest: wf_entries_map_of)

lemma view_dir: "view es p = Some None \<longleftrightarrow> (\<exists>d. fs_get es p = Some (Dir d))"
proof (cases "fs_get es p")
  case (Some x)
  then show ?thesis by (cases x) (simp_all add: view_def)
qed (simp add: view_def)

lemma view_prefix: "view es (dir @ q) \<noteq> None \<Longrightarrow> q \<noteq> [] \<Longrightarrow> view es dir = Some None"
proof (induction q rule: rev_induct)
  case (snoc n q)
  have "view es (dir @ q) = Some None" using view_parent [of es "dir @ q @ [n]"] snoc(2) by (simp add: butlast_append)
  then show ?case using snoc by (cases q) auto
qed simp

lemma backups_under_exact:
  assumes "wf_entries es"
  shows "(f, b) \<in> set (backups_under es dir) \<longleftrightarrow>
    (\<exists>q n c. b = dir @ q @ [n] \<and> f = dir @ q @ [trim_old n] \<and> list_all (\<lambda>m. \<not> skipped_dir m) q \<and>
      suffix ''.rs.old'' n \<and> view es (dir @ q @ [n]) = Some (Some c))" (is "_ \<longleftrightarrow> ?r")
proof (cases "view es dir = Some None")
  case True
  then obtain d where d: "fs_get es dir = Some (Dir d)" by (auto simp: view_dir)
  then show ?thesis
    using collect_backups_exact [OF wf_entries_get [OF assms d], of f b dir]
    by (simp add: backups_under_def is_backup_def view_append)
next
  case False
  then have "\<not> ?r" using view_prefix [of es dir "q @ [n]" for q n] by force
  moreover have "backups_under es dir = []"
    using False by (auto simp: backups_under_def view_dir split: option.split node.split)
  ultimately show ?thesis by simp
qed

lemma backups_under_distinct: "wf_entries es \<Longrightarrow> distinct (backups_under es dir)"
  by (auto simp: backups_under_def wf_entries_get collect_backups_distinct split: option.split node.split)

lemma rs_name:
  assumes "suffix ''.rs'' n"
  shows "suffix ''.rs.old'' (n @ ''.old'')" "trim_old (n @ ''.old'') = n" "\<not> suffix ''.rs.old'' n"
proof -
  obtain u where n: "n = u @ ''.rs''" using assms by (auto simp: suffix_def)
  show "suffix ''.rs.old'' (n @ ''.old'')" by (simp add: n suffix_def)
  have no: "\<not> suffix (v @ ''d'') (u @ ''.rs'')" for v u :: string
    by (auto simp: suffix_def)
  have "\<not> suffix ''.old'' n" using no [of "''.ol''" u] by (simp add: n)
  moreover have "suffix ''.old'' (n @ ''.old'')" by (simp add: suffix_def)
  ultimately show "trim_old (n @ ''.old'') = n"
    by (simp add: trim_old.simps [of "n @ ''.old''"] trim_old.simps [of n])
  show "\<not> suffix ''.rs.old'' n" using no [of "''.rs.ol''" u] by (simp add: n)
qed

lemma singleton_list: "distinct xs \<Longrightarrow> set xs = {x} \<Longrightarrow> xs = [x]"
  by (cases xs; cases "tl xs") auto

text \<open>\<open>restore\<close> finds the merge by itself: if the crate had no visible backup before (none outside of \<open>target\<close>
  and of hidden directories), and the merged file is a visible \<open>.rs\<close> file of the crate, then after the merge and
  the formatting \<open>restore\<close> without \<open>--file\<close> finds that backup, only that one, and puts every path back as it was.\<close>

lemma restore_finds_merge:
  assumes "merge_into fuel file expansion force es = Some (es2, Ok (f, b))"
    and "view es3 = (view es2)(file \<mapsto> Some formatted)" and "wf_entries es" "wf_entries es3"
    and "file = crate_dir m @ q @ [n]" "list_all (\<lambda>d. \<not> skipped_dir d) q" "suffix ''.rs'' n"
    and "set (backups_under es (crate_dir m)) \<subseteq> {(file, old_path file)}"
  shows "\<exists>es4. restore expansion_dir \<lparr>ro_manifest_path = m, ro_file = None, ro_remove_expansions = False\<rparr> es3
      = (es4, Ok ()) \<and> view es4 = (view es)(old_path file := None)"
proof -
  obtain original merged es1 where e: "view es file = Some (Some original)"
      "write_file es (old_path file) original = Some es1" "write_file es1 file merged = Some es2"
    by (rule merge_into_Ok [OF assms(1)])
  have v: "view es3 = (view es)(old_path file \<mapsto> Some original, file \<mapsto> Some formatted)"
    using assms(2) tree.put_look [OF e(2)] tree.put_look [OF e(3)] by simp
  have old: "old_path file = crate_dir m @ q @ [n @ ''.old'']" using assms(5) by (simp add: old_path_def butlast_append)
  have "set (backups_under es3 (crate_dir m)) = {(file, old_path file)}"
  proof (intro equalityI subsetI)
    fix x assume "x \<in> set (backups_under es3 (crate_dir m))"
    then obtain q' n' c where x: "x = (crate_dir m @ q' @ [trim_old n'], crate_dir m @ q' @ [n'])"
        "list_all (\<lambda>m. \<not> skipped_dir m) q'" "suffix ''.rs.old'' n'" "view es3 (crate_dir m @ q' @ [n']) = Some (Some c)"
      using backups_under_exact [OF assms(4), of "fst x" "snd x" "crate_dir m"] unfolding prod.collapse
      by (metis prod.collapse)
    have "crate_dir m @ q' @ [n'] \<noteq> file" using x(3) rs_name(3) [OF assms(7)] assms(5) by auto
    show "x \<in> {(file, old_path file)}"
    proof (cases "crate_dir m @ q' @ [n'] = old_path file")
      case True
      then show ?thesis using x(1) old assms(5) rs_name(2) [OF assms(7)] by simp
    next
      case False
      then have "view es (crate_dir m @ q' @ [n']) = Some (Some c)"
        using x(4) v \<open>crate_dir m @ q' @ [n'] \<noteq> file\<close> by simp
      then have "x \<in> set (backups_under es (crate_dir m))"
        using x backups_under_exact [OF assms(3), of "fst x" "snd x" "crate_dir m"] unfolding prod.collapse
        by simp
      then show ?thesis using assms(8) by blast
    qed
  next
    fix x assume "x \<in> {(file, old_path file)}"
    moreover have "view es3 (old_path file) = Some (Some original)" using v old_path_neq [of "file"] by simp
    ultimately show "x \<in> set (backups_under es3 (crate_dir m))"
      using backups_under_exact [OF assms(4), of "file" "old_path file" "crate_dir m"] assms(5,6) old
        rs_name(1,2) [OF assms(7)] by auto
  qed
  then have sel: "backups_under es3 (crate_dir m) = [(file, old_path file)]"
    using backups_under_distinct [OF assms(4)] by (intro singleton_list)
  obtain es4 where es4: "restore_backup file (old_path file) es3 = (es4, Ok ())"
      "view es4 = (view es)(old_path file := None)"
    using restore_backup_undoes [OF e assms(2)] by blast
  then show ?thesis using sel
    by (simp add: restore_def select_backup_def Let_def split: option.split)
qed

lemma restore_finds_merge_witness:
  "\<exists>es es2 es3 es4. read_to_string es [''src'', ''main.rs''] = Some ''#[r::app()] mod m { }'' \<and>
     merge_into 30 [''src'', ''main.rs''] ''mod m {}'' False es = Some (es2, Ok ([''src'', ''main.rs''], [''src'', ''main.rs.old''])) \<and>
     read_to_string es3 [''src'', ''main.rs''] = Some ''mod m { }'' \<and>
     restore None \<lparr>ro_manifest_path = [''Cargo.toml''], ro_file = None, ro_remove_expansions = False\<rparr> es3 = (es4, Ok ()) \<and>
     view es4 = (view es)([''src'', ''main.rs.old''] := None)"
proof -
  let ?f = "[''src'', ''main.rs'']"
  let ?es = "[(''Cargo.toml'', File ''x''), (''src'', Dir [(''main.rs'', File ''#[r::app()] mod m { }'')])]"
  let ?es2 = "[(''Cargo.toml'', File ''x''), (''src'', Dir [(''main.rs'', File (''mod m {}'' @ [newline])),
      (''main.rs.old'', File ''#[r::app()] mod m { }'')])]"
  let ?es3 = "[(''Cargo.toml'', File ''x''), (''src'', Dir [(''main.rs'', File (''mod m { }'')),
      (''main.rs.old'', File ''#[r::app()] mod m { }'')])]"
  have m: "merge_into 30 ?f ''mod m {}'' False ?es = Some (?es2, Ok (?f, [''src'', ''main.rs.old'']))" by code_simp
  have v: "view ?es3 = (view ?es2)(?f \<mapsto> Some ''mod m { }'')"
    by (rule tree.put_look) (simp add: write_file_def)
  have "old_path ?f = [''src'', ''main.rs.old'']" by (simp add: old_path_def)
  moreover have "read_to_string ?es3 ?f = Some ''mod m { }''" "read_to_string ?es ?f = Some ''#[r::app()] mod m { }''"
    by code_simp+
  moreover have "\<exists>es4. restore None \<lparr>ro_manifest_path = [''Cargo.toml''], ro_file = None, ro_remove_expansions = False\<rparr> ?es3
      = (es4, Ok ()) \<and> view es4 = (view ?es)(old_path ?f := None)"
    by (rule restore_finds_merge [OF m v, of _ "[''src'']" "''main.rs''"]; code_simp)
  ultimately show ?thesis using m by metis
qed

end
