(* ===== verification/Beautify.thy ===== *)
theory Beautify
  imports Scanner
begin

text \<open>
  The beautifier of \<open>rticx-expand/src/beautify.rs\<close>.  A slice of the text that cuts a UTF-8 character panics; that is
  the result \<open>None\<close>.
\<close>

section \<open>Identifiers\<close>

definition strip_prefix :: "string \<Rightarrow> string \<Rightarrow> string option" where
  "strip_prefix p s = (if prefix p s then Some (drop (length p) s) else None)"

definition short_rest :: "string \<Rightarrow> string" where
  "short_rest rest = (if rest = [] \<or> prefix ''_'' rest then rest else ''_'' @ rest)"

definition rename_ident :: "string \<Rightarrow> string" where
  "rename_ident ident =
     (case (case strip_prefix ''__rticx_internal__'' ident of
              Some r \<Rightarrow> Some r
            | None \<Rightarrow>
                (case strip_prefix ''__rticx_internal_'' ident of
                   Some r \<Rightarrow> Some r
                 | None \<Rightarrow> strip_prefix ''__rticx__internal__'' ident)) of
        Some rest \<Rightarrow> short_rest rest
      | None \<Rightarrow>
          (case strip_prefix ''__rticx'' ident of
             Some rest \<Rightarrow> if rest = [] then ident else rest
           | None \<Rightarrow>
               (case strip_prefix ''__'' ident of
                  Some rest \<Rightarrow> short_rest rest
                | None \<Rightarrow> ident)))"

section \<open>Doc attributes\<close>

text \<open>\<open>str::trim\<close>: the characters with the property \<open>White_Space\<close>, in UTF-8.\<close>

definition bytes :: "nat list \<Rightarrow> string" where
  "bytes ns = map char_of ns"

definition white_space :: "string list" where
  "white_space = map (\<lambda>n. bytes [n]) [9, 10, 11, 12, 13, 32] @ [bytes [0xC2, 0x85], bytes [0xC2, 0xA0], bytes [0xE1, 0x9A, 0x80]] @
     map (\<lambda>n. bytes [0xE2, 0x80, n]) ([0x80..<0x8B] @ [0xA8, 0xA9, 0xAF]) @ [bytes [0xE2, 0x81, 0x9F], bytes [0xE3, 0x80, 0x80]]"

function trim_with :: "string list \<Rightarrow> string \<Rightarrow> string" where
  "trim_with ws s =
     (case List.find (\<lambda>w. w \<noteq> [] \<and> prefix w s) ws of
        None \<Rightarrow> s
      | Some w \<Rightarrow> trim_with ws (drop (length w) s))"
  by auto
termination
proof (relation "measure (\<lambda>(_, s). length s)", goal_cases)
  case (2 ws s w)
  then have "w \<noteq> []" "prefix w s" by (auto simp: find_Some_iff)
  then show ?case using prefix_length_le [of w s] by (cases w) auto
qed simp

declare trim_with.simps [simp del]

definition trim :: "string \<Rightarrow> string" where
  "trim s = rev (trim_with (map rev white_space) (rev (trim_with white_space s)))"

text \<open>\<open>str::lines\<close>: a final empty line is left out, a carriage return before the newline too.\<close>

fun split_newlines :: "string \<Rightarrow> string list" where
  "split_newlines [] = [[]]"
| "split_newlines (c # s) =
     (if c = newline then [] # split_newlines s
      else (case split_newlines s of l # ls \<Rightarrow> (c # l) # ls | [] \<Rightarrow> [[c]]))"

definition strip_cr :: "string \<Rightarrow> string" where
  "strip_cr l = (if l \<noteq> [] \<and> last l = CHR 0x0D then butlast l else l)"

definition str_lines :: "string \<Rightarrow> string list" where
  "str_lines s =
     (let ls = split_newlines s
      in map strip_cr (butlast ls) @ (if last ls = [] then [] else [last ls]))"

fun unescape :: "string \<Rightarrow> string" where
  "unescape [] = []"
| "unescape (ch # s) =
     (if ch \<noteq> backslash then ch # unescape s
      else (case s of
          [] \<Rightarrow> [backslash]
        | c # s' \<Rightarrow>
            (if c = CHR ''n'' then newline # unescape s'
             else if c = CHR ''t'' then CHR 0x09 # unescape s'
             else if c = CHR ''r'' then unescape s'
             else if c \<in> {backslash, dquote, squote, CHR ''{'', CHR ''}''} then c # unescape s'
             else backslash # c # unescape s')))"

text \<open>The content and whether the literal is raw; its slice panics inside a character.\<close>

definition string_literal_content :: "string \<Rightarrow> (string \<times> bool) option" where
  "string_literal_content lit =
     (if at lit 0 = Some dquote then
        map_option (\<lambda>e. (take e (drop 1 lit), False)) (quoted_end (drop 1 lit))
      else if at lit 0 = Some (CHR ''r'') then
        (let h = hashes_at 1 lit in
         if at lit (1 + h) \<noteq> Some dquote then None
         else map_option (\<lambda>e. (take e (drop (h + 2) lit), True)) (raw_end h (drop (h + 2) lit)))
      else None)"

definition comment_lines :: "string list \<Rightarrow> string" where
  "comment_lines ls = concat (map (\<lambda>(i, l). (if i = 0 then ''// '' else newline # ''// '') @ l) (enumerate 0 ls))"

definition doc_attr_to_comment :: "string \<Rightarrow> string option" where
  "doc_attr_to_comment content =
     Option.bind (strip_prefix ''doc'' (trim content)) (\<lambda>doc.
       case strip_prefix ''='' (trim doc) of
         Some lit \<Rightarrow>
           map_option (\<lambda>(text, is_raw). comment_lines (str_lines (if is_raw then text else unescape text)))
             (string_literal_content (trim lit))
       | None \<Rightarrow> if trim doc = ''(hidden)'' then Some [] else None)"

section \<open>The loop\<close>

definition push_comment :: "string \<Rightarrow> string \<Rightarrow> string" where
  "push_comment out comment =
     (if comment = [] then out
      else out @ (if out \<noteq> [] \<and> last out \<noteq> newline then [newline] else []) @ comment @ [newline])"

text \<open>The attribute at the start of the suffix, if there is one: the length of its text without the last bracket.\<close>

definition attribute_at :: "string \<Rightarrow> nat option" where
  "attribute_at s = (if at s 0 = Some (CHR ''#'') \<and> at s 1 = Some (CHR ''['') then map_option Suc (find_matching_bracket (drop 1 s)) else None)"

definition ident_len :: "string \<Rightarrow> nat" where
  "ident_len s = length (takeWhile ident_char s)"

lemma literal_len_less: "Suc (length s) - literal_len (c # s) < Suc (length s)"
  using literal_len_bound [of "c # s"] by simp

function beautify_loop :: "string \<Rightarrow> string \<Rightarrow> string option" where
  "beautify_loop s out =
     (case s of
        [] \<Rightarrow> Some out
      | b # _ \<Rightarrow>
          if b = CHR ''_'' \<or> is_alpha b then
            (let k = ident_len s in
             if boundary s \<and> boundary (drop k s) then beautify_loop (drop k s) (out @ rename_ident (take k s)) else None)
          else
            (case attribute_at s of
               Some e \<Rightarrow>
                 if boundary (drop 2 s) \<and> boundary (drop e s) then
                   (case doc_attr_to_comment (drop 2 (take e s)) of
                      Some comment \<Rightarrow> beautify_loop (drop (e + 1) s) (push_comment out comment)
                    | None \<Rightarrow>
                        if boundary s \<and> boundary (drop (e + 1) s) then beautify_loop (drop (e + 1) s) (out @ take (e + 1) s)
                        else None)
                 else None
             | None \<Rightarrow>
                 (let len = literal_len s in
                  if boundary s \<and> boundary (drop len s) then beautify_loop (drop len s) (out @ take len s) else None)))"
  by auto
termination
  by (relation "measure (\<lambda>(s, _). length s)") (auto simp: ident_len_def ident_char_def is_alnum_def literal_len_less)

declare beautify_loop.simps [simp del]

definition beautify :: "string \<Rightarrow> string option" where
  "beautify input = beautify_loop input []"


section \<open>Properties\<close>

lemma boundary_ascii: "\<forall>c \<in> set s. is_ascii c \<Longrightarrow> boundary s"
  by (cases s) (auto simp: boundary_def is_ascii_def)

lemma boundary_drop: "\<forall>c \<in> set s. is_ascii c \<Longrightarrow> boundary (drop k s)"
  by (rule boundary_ascii) (auto dest: in_set_dropD)

lemma attribute_at_hash: "attribute_at s = Some e \<Longrightarrow> CHR ''#'' \<in> set s"
  by (cases s) (auto simp: attribute_at_def at_def split: if_splits)

lemma beautify_ascii:
  "\<forall>c \<in> set s. is_ascii c \<Longrightarrow> \<exists>r. beautify_loop s out = Some r"
proof (induction s out rule: beautify_loop.induct)
  case (1 s out)
  have d: "\<forall>c \<in> set (drop k s). is_ascii c" for k using 1(5) by (auto dest: in_set_dropD)
  note bd = boundary_ascii [OF 1(5)] boundary_drop [OF 1(5)]
  show ?case
  proof (cases s)
    case Nil
    then show ?thesis by (simp add: beautify_loop.simps)
  next
    case (Cons b s')
    have bd': "boundary (drop k s')" and d': "\<forall>c \<in> set (drop k s'). is_ascii c" for k
      using bd(2) [of "Suc k"] d [of "Suc k"] Cons by simp_all
    consider (ident) "b = CHR ''_'' \<or> is_alpha b" | (attr) e where "\<not> (b = CHR ''_'' \<or> is_alpha b)" "attribute_at s = Some e"
      | (lit) "\<not> (b = CHR ''_'' \<or> is_alpha b)" "attribute_at s = None" by fastforce
    then show ?thesis
    proof cases
      case ident
      have "\<exists>r. beautify_loop (drop (ident_len s) s) (out @ rename_ident (take (ident_len s) s)) = Some r"
        using Cons ident bd d by (intro 1(1)) auto
      then show ?thesis using Cons ident bd by (subst beautify_loop.simps) (simp add: Let_def)
    next
      case attr
      show ?thesis
      proof (cases "doc_attr_to_comment (drop 2 (take e s))")
        case None
        have "\<exists>r. beautify_loop (drop (e + 1) s) (out @ take (e + 1) s) = Some r"
          using Cons attr None bd bd' d' by (intro 1(3)) auto
        then show ?thesis using Cons attr None bd bd' by (subst beautify_loop.simps) simp
      next
        case (Some comment)
        have "\<exists>r. beautify_loop (drop (e + 1) s) (push_comment out comment) = Some r"
          using Cons attr Some bd bd' d' by (intro 1(4)) auto
        then show ?thesis using Cons attr Some bd bd' by (subst beautify_loop.simps) simp
      qed
    next
      case lit
      have "\<exists>r. beautify_loop (drop (literal_len s) s) (out @ take (literal_len s) s) = Some r"
        using Cons lit bd d by (intro 1(2)) auto
      then show ?thesis using Cons lit bd by (subst beautify_loop.simps) (simp add: Let_def)
    qed
  qed
qed

text \<open>Text without double underscores and hashes has no identifier to shorten and no attribute.\<close>

definition plain :: "string \<Rightarrow> bool" where
  "plain s \<longleftrightarrow> (\<forall>c \<in> set s. is_ascii c \<and> c \<noteq> CHR ''#'') \<and> \<not> sublist ''__'' s"

lemma rename_plain: "\<not> prefix ''__'' s \<Longrightarrow> rename_ident s = s"
proof -
  assume n: "\<not> prefix ''__'' s"
  have m: "\<not> prefix (''__'' @ r) s" for r using n by (meson append_prefixD)
  show ?thesis
    using m [of "''rticx_internal__''"] m [of "''rticx_internal_''"] m [of "''rticx__internal__''"] m [of "''rticx''"] n
    by (simp add: rename_ident_def strip_prefix_def)
qed

lemma beautify_plain: "plain s \<Longrightarrow> beautify_loop s out = Some (out @ s)"
proof (induction s out rule: beautify_loop.induct)
  case (1 s out)
  have a: "\<forall>c \<in> set s. is_ascii c" using 1(5) by (simp add: plain_def)
  have d: "plain (drop k s)" for k
    using 1(5) unfolding plain_def by (meson in_set_dropD sublist_drop sublist_order.order.trans)
  have none: "attribute_at s = None"
    using attribute_at_hash [of s] 1(5) by (cases "attribute_at s") (auto simp: plain_def)
  have ren: "rename_ident (take k s) = take k s" for k
    using 1(5) by (intro rename_plain) (meson plain_def prefix_imp_sublist sublist_take sublist_order.order.trans)
  show ?case
  proof (cases s)
    case Nil
    then show ?thesis by (simp add: beautify_loop.simps)
  next
    case (Cons b s')
    show ?thesis
    proof (cases "b = CHR ''_'' \<or> is_alpha b")
      case True
      have "beautify_loop (drop (ident_len s) s) (out @ rename_ident (take (ident_len s) s)) =
          Some ((out @ rename_ident (take (ident_len s) s)) @ drop (ident_len s) s)"
        using Cons True boundary_ascii [OF a] boundary_drop [OF a] d by (intro 1(1)) auto
      then show ?thesis
        using Cons True boundary_ascii [OF a] boundary_drop [OF a]
        by (subst beautify_loop.simps) (simp add: ren [unfolded Cons] Let_def)
    next
      case False
      have "beautify_loop (drop (literal_len s) s) (out @ take (literal_len s) s) =
          Some ((out @ take (literal_len s) s) @ drop (literal_len s) s)"
        using Cons False none boundary_ascii [OF a] boundary_drop [OF a] d by (intro 1(2)) auto
      then show ?thesis
        using Cons False none boundary_ascii [OF a] boundary_drop [OF a]
        by (subst beautify_loop.simps) (simp add: Let_def)
    qed
  qed
qed

text \<open>
  On text of ASCII bytes the beautifier always ends and never panics; it changes nothing in a text that has
  neither a double underscore nor a hash sign.
\<close>

lemma beautify_ascii_total:
  assumes "\<forall>c \<in> set input. is_ascii c"
  shows "\<exists>out. beautify input = Some out \<and>
    (CHR ''#'' \<notin> set input \<and> \<not> sublist ''__'' input \<longrightarrow> out = input)"
proof -
  obtain out where o: "beautify input = Some out" using beautify_ascii [OF assms] unfolding beautify_def by blast
  have "out = input" if "CHR ''#'' \<notin> set input" "\<not> sublist ''__'' input"
  proof -
    have "plain input" using assms that by (auto simp: plain_def)
    then show ?thesis using o by (simp add: beautify_def beautify_plain)
  qed
  with o show ?thesis by blast
qed

lemma beautify_ascii_total_witness: "beautify ''fn f() { x_1 }'' = Some ''fn f() { x_1 }''"
proof -
  have "\<forall>c \<in> set ''fn f() { x_1 }''. is_ascii c" by (simp add: is_ascii_def)
  from beautify_ascii_total [OF this] show ?thesis by (auto simp: sublist_Cons_right)
qed

text \<open>A character literal outside ASCII, here the degree sign, makes it panic; and shortening is not injective.\<close>

lemma beautify_panics: "beautify [squote, char_of (0xC2 :: nat), char_of (0xB0 :: nat), squote] = None"
  by code_simp

lemma rename_collision: "rename_ident ''__rticx_internal__Worker'' = rename_ident ''__Worker''"
  by (simp add: rename_ident_def strip_prefix_def short_rest_def)

end
