(* ===== verification/Flow.thy ===== *)
theory Flow
  imports Splice Beautify "HOL-Library.List_Lexorder" "HOL-Library.Char_ord"
begin

text \<open>
  The command \<open>cargo rticx-expand\<close>: \<open>cargo_meta.rs\<close> (targets of the package, arguments and environment of
  \<open>cargo check\<close>) and the function \<open>expand\<close> of \<open>flow.rs\<close>.  The programs it runs (\<open>cargo metadata\<close>, \<open>cargo clean\<close>,
  \<open>cargo check\<close>, \<open>rustfmt\<close>) are a record of functions on the tree of files, the parameter \<open>T\<close>; the state is the tree
  and the text written to the standard output.  Messages on the standard error are left out.
\<close>

section \<open>Targets\<close>

record target =
  tg_name :: string
  tg_kind :: "string list"
  tg_src_path :: path

record package =
  pk_name :: string
  pk_edition :: string
  pk_manifest_path :: path
  pk_targets :: "target list"

record metadata =
  md_target_directory :: path
  md_packages :: "package list"

definition root_package :: "(path \<Rightarrow> path option) \<Rightarrow> metadata \<Rightarrow> path \<Rightarrow> (flow_error, package) res" where
  "root_package canonicalize md manifest_path =
     (let canonical = (case canonicalize manifest_path of Some c \<Rightarrow> c | None \<Rightarrow> manifest_path) in
      case find (\<lambda>p. (case canonicalize (pk_manifest_path p) of Some c \<Rightarrow> c | None \<Rightarrow> pk_manifest_path p) = canonical)
          (md_packages md) of
        Some p \<Rightarrow> Ok p
      | None \<Rightarrow> Err (NoPackage manifest_path))"

definition find_target :: "package \<Rightarrow> string \<Rightarrow> string \<Rightarrow> target option" where
  "find_target package kind name = find (\<lambda>t. tg_name t = name \<and> kind \<in> set (tg_kind t)) (pk_targets package)"

definition resolve_target :: "package \<Rightarrow> string option \<Rightarrow> string option \<Rightarrow> (flow_error, target) res" where
  "resolve_target package bin example =
     (case bin of
        Some name \<Rightarrow> (case find_target package ''bin'' name of Some t \<Rightarrow> Ok t | None \<Rightarrow> Err (NoBinary name))
      | None \<Rightarrow>
     (case example of
        Some name \<Rightarrow> (case find_target package ''example'' name of Some t \<Rightarrow> Ok t | None \<Rightarrow> Err (NoExample name))
      | None \<Rightarrow>
     (case filter (\<lambda>t. ''bin'' \<in> set (tg_kind t)) (pk_targets package) of
        [single] \<Rightarrow> Ok single
      | [] \<Rightarrow>
          (case filter (\<lambda>t. ''example'' \<in> set (tg_kind t)) (pk_targets package) of
             [single] \<Rightarrow> Ok single
           | [] \<Rightarrow> Err NoTargets
           | many \<Rightarrow> Err (ManyExamples (length many)))
      | many \<Rightarrow> Err (ManyBinaries (length many)))))"

section \<open>The arguments of cargo\<close>

datatype arg = Word string | PathArg path

record check_options =
  co_manifest_path :: path
  co_target :: "string option"
  co_bin :: "string option"
  co_example :: "string option"
  co_features :: "string option"
  co_all_features :: bool
  co_no_default_features :: bool
  co_extra_args :: "string list"
  co_pass_dir :: "path option"
  co_output_dir :: "path option"

definition option_args :: "string \<Rightarrow> string option \<Rightarrow> arg list" where
  "option_args flag v = (case v of Some x \<Rightarrow> [Word flag, Word x] | None \<Rightarrow> [])"

definition check_args :: "check_options \<Rightarrow> arg list" where
  "check_args opts =
     [Word ''check'', Word ''--manifest-path'', PathArg (co_manifest_path opts)] @
     option_args ''--bin'' (co_bin opts) @
     option_args ''--example'' (co_example opts) @
     option_args ''--target'' (co_target opts) @
     option_args ''--features'' (co_features opts) @
     (if co_all_features opts then [Word ''--all-features''] else []) @
     (if co_no_default_features opts then [Word ''--no-default-features''] else []) @
     map Word (co_extra_args opts)"

definition check_env :: "check_options \<Rightarrow> (string \<times> arg) list" where
  "check_env opts =
     [(''RTICX_EXPAND'', Word ''1'')] @
     (case co_pass_dir opts of Some d \<Rightarrow> [(''RTICX_EXPAND_PASS_DIR'', PathArg d)] | None \<Rightarrow> []) @
     (case co_output_dir opts of Some d \<Rightarrow> [(''RTICX_EXPAND_PATH'', PathArg d)] | None \<Rightarrow> [])"

definition default_expansion_dir :: "metadata \<Rightarrow> path" where
  "default_expansion_dir md = md_target_directory md @ [''rticx-expand'']"

text \<open>The programs that are run.  \<open>None\<close> is a program that cannot be started, or output that cannot be parsed;
  the flag is the success of the run.\<close>

record tools =
  cargo_metadata :: "path \<Rightarrow> metadata option"
  canonicalize :: "path \<Rightarrow> path option"
  absolute :: "path \<Rightarrow> path option"
  cargo_clean :: "path \<Rightarrow> string \<Rightarrow> entries \<Rightarrow> entries \<times> bool"
  cargo_check :: "arg list \<Rightarrow> (string \<times> arg) list \<Rightarrow> entries \<Rightarrow> entries \<times> bool option"
  rustfmt :: "string \<Rightarrow> path \<Rightarrow> entries \<Rightarrow> entries"

section \<open>Runs\<close>

record io =
  tree :: entries
  stdout :: string

text \<open>A run changes the state and has a result; \<open>None\<close> is a run that does not return.\<close>

type_synonym 'a run = "io \<Rightarrow> (io \<times> (flow_error, 'a) res) option"

definition run_return :: "'a \<Rightarrow> 'a run" where
  "run_return x s = Some (s, Ok x)"

definition run_res :: "(flow_error, 'a) res \<Rightarrow> 'a run" where
  "run_res r s = Some (s, r)"

definition run_bind :: "'a run \<Rightarrow> ('a \<Rightarrow> 'b run) \<Rightarrow> 'b run" where
  "run_bind m f s =
     (case m s of
        None \<Rightarrow> None
      | Some (s', Inl e) \<Rightarrow> Some (s', Err e)
      | Some (s', Inr x) \<Rightarrow> f x s')"

definition run_tree :: "(entries \<Rightarrow> entries) \<Rightarrow> unit run" where
  "run_tree f s = Some (s\<lparr>tree := f (tree s)\<rparr>, Ok ())"

definition run_get :: "entries run" where
  "run_get s = Some (s, Ok (tree s))"

definition run_merge :: "(entries \<Rightarrow> (entries \<times> (flow_error, 'a) res) option) \<Rightarrow> 'a run" where
  "run_merge f s = map_option (\<lambda>(es, r). (s\<lparr>tree := es\<rparr>, r)) (f (tree s))"

fun run_each :: "('a \<Rightarrow> unit run) \<Rightarrow> 'a list \<Rightarrow> unit run" where
  "run_each f [] = run_return ()"
| "run_each f (x # xs) = run_bind (f x) (\<lambda>_. run_each f xs)"

definition read_file :: "path \<Rightarrow> string run" where
  "read_file p s =
     Some (s, case read_to_string (tree s) p of Some c \<Rightarrow> Ok c | None \<Rightarrow> Err (ReadFailed p))"

definition store_file :: "path \<Rightarrow> string \<Rightarrow> unit run" where
  "store_file p c s =
     (case write_file (tree s) p c of
        Some es \<Rightarrow> Some (s\<lparr>tree := es\<rparr>, Ok ())
      | None \<Rightarrow> Some (s, Err (WriteFailed p)))"

definition print_text :: "string \<Rightarrow> unit run" where
  "print_text t s =
     Some (s\<lparr>stdout := stdout s @ t @ (if t \<noteq> [] \<and> last t = newline then [] else [newline])\<rparr>, Ok ())"

definition print_file :: "path \<Rightarrow> unit run" where
  "print_file p = run_bind (read_file p) print_text"

section \<open>File names\<close>

definition file_name :: "path \<Rightarrow> string option" where
  "file_name p = (if p = [] \<or> last p = ''..'' then None else Some (last p))"

text \<open>The name without its extension: up to the last dot, unless that is the first character.\<close>

definition file_stem :: "path \<Rightarrow> string option" where
  "file_stem p =
     map_option (\<lambda>n.
       let r = rev n; ext = takeWhile (\<lambda>c. c \<noteq> CHR ''.'') r; front = drop (length ext + 1) r
       in if CHR ''.'' \<notin> set n \<or> front = [] then n else rev front) (file_name p)"

definition strip_suffix :: "string \<Rightarrow> string \<Rightarrow> string option" where
  "strip_suffix suf s = (if suffix suf s then Some (take (length s - length suf) s) else None)"

definition ascii_digit :: "char \<Rightarrow> bool" where
  "ascii_digit c \<longleftrightarrow> 48 \<le> byte c \<and> byte c \<le> 57"

definition is_snapshot_name :: "string \<Rightarrow> bool" where
  "is_snapshot_name name =
     (case strip_suffix ''.rs'' name of
        None \<Rightarrow> False
      | Some rest \<Rightarrow>
          if CHR ''_'' \<notin> set rest then False
          else let digits = takeWhile (\<lambda>c. c \<noteq> CHR ''_'') rest; label = drop (length digits + 1) rest
               in 2 \<le> length digits \<and> list_all ascii_digit digits \<and> label \<noteq> [] \<and> list_all ident_char label)"

definition dir_entries :: "entries \<Rightarrow> path \<Rightarrow> entries option" where
  "dir_entries es dir = (case fs_get es dir of Some (Dir d) \<Rightarrow> Some d | _ \<Rightarrow> None)"

text \<open>The removals of \<open>clean_pass_snapshots\<close>; a snapshot name that is no file stays.\<close>

definition remove_if_file :: "path \<Rightarrow> entries \<Rightarrow> entries" where
  "remove_if_file p es = (case remove_file es p of Some es' \<Rightarrow> es' | None \<Rightarrow> es)"

definition clean_pass_snapshots :: "path \<Rightarrow> entries \<Rightarrow> entries" where
  "clean_pass_snapshots dir es =
     (case dir_entries es dir of
        None \<Rightarrow> es
      | Some d \<Rightarrow>
          fold (\<lambda>(name, _) es. if is_snapshot_name name then remove_if_file (dir @ [name]) es else es) d es)"

definition snapshot_files :: "entries \<Rightarrow> path \<Rightarrow> path list" where
  "snapshot_files es dir =
     (case dir_entries es dir of
        None \<Rightarrow> []
      | Some d \<Rightarrow> sort (map (\<lambda>(name, _). dir @ [name]) (filter (\<lambda>(name, _). is_snapshot_name name) d)))"

definition collect_expansion_files :: "entries \<Rightarrow> path \<Rightarrow> string option \<Rightarrow> path list" where
  "collect_expansion_files es dir stem =
     (case dir_entries es dir of
        None \<Rightarrow> []
      | Some d \<Rightarrow>
          sort (map (\<lambda>(name, _). dir @ [name])
            (filter (\<lambda>(name, _).
               (case stem of
                  Some st \<Rightarrow> prefix (st @ ''_'') name
                | None \<Rightarrow> suffix ''_expanded.rs'' name \<or> contains ''_pass_'' name) \<and> suffix ''.rs'' name) d)))"

section \<open>The steps of expand\<close>

record expand_options =
  eo_manifest_path :: path
  eo_bin :: "string option"
  eo_example :: "string option"
  eo_file :: "path option"
  eo_target :: "string option"
  eo_features :: "string option"
  eo_all_features :: bool
  eo_no_default_features :: bool
  eo_expand_passes :: "path option"
  eo_output_dir :: "path option"
  eo_merge :: bool
  eo_force :: bool
  eo_cargo_args :: "string list"

record expand_report =
  er_check_succeeded :: bool
  er_expansion_dir :: path
  er_expansion_files :: "path list"
  er_merged_file :: "path option"
  er_backup_file :: "path option"

definition clean_package :: "tools \<Rightarrow> path \<Rightarrow> string \<Rightarrow> unit run" where
  "clean_package T manifest_path name s =
     (case cargo_clean T manifest_path name (tree s) of
        (es, ok) \<Rightarrow> Some (s\<lparr>tree := es\<rparr>, if ok then Ok () else Err CleanFailed))"

definition run_check :: "tools \<Rightarrow> check_options \<Rightarrow> bool run" where
  "run_check T opts s =
     (case cargo_check T (check_args opts) (check_env opts) (tree s) of
        (es, r) \<Rightarrow> Some (s\<lparr>tree := es\<rparr>, case r of Some ok \<Rightarrow> Ok ok | None \<Rightarrow> Err CheckNotRun))"

definition format_file :: "tools \<Rightarrow> path \<Rightarrow> string \<Rightarrow> unit run" where
  "format_file T p edition = run_tree (rustfmt T edition p)"

definition beautify_run :: "string \<Rightarrow> string run" where
  "beautify_run raw = run_res (case beautify raw of Some t \<Rightarrow> Ok t | None \<Rightarrow> Err Panic)"

definition beautify_file :: "tools \<Rightarrow> string \<Rightarrow> path \<Rightarrow> unit run" where
  "beautify_file T edition p =
     run_bind (read_file p) (\<lambda>raw.
     run_bind (beautify_run raw) (\<lambda>pretty.
     run_bind (store_file p
       (if (case file_name p of Some n \<Rightarrow> suffix ''_expanded.rs'' n | None \<Rightarrow> False)
        then inject_module_allows pretty else pretty)) (\<lambda>_.
     format_file T p edition)))"

text \<open>A snapshot that cannot be read is skipped, and a failing write is ignored.\<close>

definition beautify_snapshot :: "tools \<Rightarrow> string \<Rightarrow> path \<Rightarrow> unit run" where
  "beautify_snapshot T edition p s =
     (case read_to_string (tree s) p of
        None \<Rightarrow> Some (s, Ok ())
      | Some raw \<Rightarrow>
          run_bind (beautify_run raw) (\<lambda>pretty.
          run_bind (run_tree (\<lambda>es. case write_file es p pretty of Some es' \<Rightarrow> es' | None \<Rightarrow> es)) (\<lambda>_.
          format_file T p edition)) s)"

definition beautify_pass_snapshots :: "tools \<Rightarrow> path \<Rightarrow> string \<Rightarrow> path list run" where
  "beautify_pass_snapshots T dir edition =
     run_bind run_get (\<lambda>es.
       let files = snapshot_files es dir
       in run_bind (run_each (beautify_snapshot T edition) files) (\<lambda>_. run_return files))"

text \<open>The full expansion: that of the stem, or the only one.\<close>

definition named :: "string \<Rightarrow> path \<Rightarrow> bool" where
  "named n p \<longleftrightarrow> file_name p = Some n"

definition select_full :: "path list \<Rightarrow> string option \<Rightarrow> path option" where
  "select_full files stem =
     (case find (\<lambda>f. case stem of Some st \<Rightarrow> named (st @ ''_expanded.rs'') f | None \<Rightarrow> False) files of
        Some f \<Rightarrow> Some f
      | None \<Rightarrow>
          (case filter (\<lambda>f. case file_name f of Some n \<Rightarrow> suffix ''_expanded.rs'' n | None \<Rightarrow> False) files of
             [f] \<Rightarrow> Some f
           | _ \<Rightarrow> None))"

text \<open>The crate-wide search, with the stack of directories as the code has it.\<close>

definition subdirs :: "path \<Rightarrow> entries \<Rightarrow> (path \<times> entries) list" where
  "subdirs cur es =
     concat (map (\<lambda>(n, x). case x of Dir d \<Rightarrow> if skipped_dir n then [] else [(cur @ [n], d)] | File c \<Rightarrow> []) es)"

fun weight :: "entries \<Rightarrow> nat" where
  "weight [] = 1"
| "weight ((n, Dir d) # es) = weight d + weight es"
| "weight ((n, File c) # es) = weight es"

lemma weight_subdirs: "sum_list (map (weight \<circ> snd) (subdirs cur es)) < weight es"
  by (induction es rule: weight.induct) (auto simp: subdirs_def)

function find_source_loop :: "string \<Rightarrow> (path \<times> entries) list \<Rightarrow> path option" where
  "find_source_loop wanted [] = None"
| "find_source_loop wanted ((cur, es) # stack) =
     (case find (\<lambda>(n, x). (case x of File c \<Rightarrow> True | Dir d \<Rightarrow> False) \<and> n = wanted) es of
        Some (n, _) \<Rightarrow> Some (cur @ [n])
      | None \<Rightarrow> find_source_loop wanted (rev (subdirs cur es) @ stack))"
  by pat_completeness auto
termination
proof (relation "measure (\<lambda>(_, stack). sum_list (map (weight \<circ> snd) stack))", goal_cases)
  case (2 wanted cur es stack)
  then show ?case using weight_subdirs [of cur es] by (simp add: rev_map [symmetric] sum_list_rev)
qed simp

definition find_source_file :: "entries \<Rightarrow> path \<Rightarrow> string \<Rightarrow> path option" where
  "find_source_file es dir stem =
     Option.bind (dir_entries es dir) (\<lambda>d. find_source_loop (stem @ ''.rs'') [(dir, d)])"

definition source_has_app_item :: "nat \<Rightarrow> path \<Rightarrow> bool run" where
  "source_has_app_item fuel p s =
     (case read_to_string (tree s) p of
        None \<Rightarrow> Some (s, Ok False)
      | Some source \<Rightarrow>
          map_option (\<lambda>r. (s, case r of Inl _ \<Rightarrow> Err Panic | Inr items \<Rightarrow> Ok (items \<noteq> []))) (find_app_items fuel source))"

definition resolve_app_file :: "nat \<Rightarrow> expand_options \<Rightarrow> target \<Rightarrow> path \<Rightarrow> path option run" where
  "resolve_app_file fuel opts tgt full =
     (case eo_file opts of
        Some p \<Rightarrow> run_return (Some p)
      | None \<Rightarrow>
          run_bind (source_has_app_item fuel (tg_src_path tgt)) (\<lambda>has.
            if has then run_return (Some (tg_src_path tgt))
            else
              let stem = (case Option.bind (file_stem full) (strip_suffix ''_expanded'') of Some st \<Rightarrow> st | None \<Rightarrow> [])
              in run_bind run_get (\<lambda>es. run_return (find_source_file es (crate_dir (eo_manifest_path opts)) stem))))"

text \<open>An error of \<open>resolve_app_file\<close> is caught, a panic is not.\<close>

definition print_expansions ::
  "nat \<Rightarrow> expand_options \<Rightarrow> expand_report \<Rightarrow> path option \<Rightarrow> target \<Rightarrow> expand_report run" where
  "print_expansions fuel opts report full tgt =
     (case full of
        None \<Rightarrow> run_res (Err NoFullExpansion)
      | Some full \<Rightarrow>
          run_bind (read_file full) (\<lambda>expansion_text.
          run_bind (\<lambda>s.
            case resolve_app_file fuel opts tgt full s of
              None \<Rightarrow> None
            | Some (s', Inl Panic) \<Rightarrow> Some (s', Err Panic)
            | Some (s', Inl e) \<Rightarrow> print_file full s'
            | Some (s', Inr None) \<Rightarrow> print_file full s'
            | Some (s', Inr (Some app_file)) \<Rightarrow>
                run_bind (read_file app_file) (\<lambda>original.
                run_bind (run_merge (\<lambda>es. map_option (Pair es) (splice_expansion fuel original expansion_text app_file)))
                  print_text) s') (\<lambda>_.
          run_return (report\<lparr>er_merged_file := None, er_backup_file := None\<rparr>))))"

definition merge_expansion ::
  "nat \<Rightarrow> tools \<Rightarrow> expand_options \<Rightarrow> string \<Rightarrow> expand_report \<Rightarrow> path option \<Rightarrow> target \<Rightarrow> expand_report run" where
  "merge_expansion fuel T opts edition report full tgt =
     (case full of
        None \<Rightarrow> run_return report
      | Some full \<Rightarrow>
          run_bind (resolve_app_file fuel opts tgt full) (\<lambda>app.
            case app of
              None \<Rightarrow> run_res (Err NoAppFile)
            | Some app_file \<Rightarrow>
                run_bind (read_file full) (\<lambda>expansion_text.
                run_bind (run_merge (merge_into fuel app_file expansion_text (eo_force opts))) (\<lambda>(merged, backup).
                run_bind (format_file T merged edition) (\<lambda>_.
                run_return (report\<lparr>er_merged_file := Some merged, er_backup_file := Some backup\<rparr>))))))"

section \<open>Expand\<close>

definition expansion_dir_of :: "expand_options \<Rightarrow> metadata \<Rightarrow> path" where
  "expansion_dir_of opts md = (case eo_output_dir opts of Some d \<Rightarrow> d | None \<Rightarrow> default_expansion_dir md)"

definition pass_dir_of :: "tools \<Rightarrow> expand_options \<Rightarrow> path option" where
  "pass_dir_of T opts =
     map_option (\<lambda>d. case absolute T d of Some a \<Rightarrow> a | None \<Rightarrow> d) (eo_expand_passes opts)"

definition check_options_of :: "expand_options \<Rightarrow> path option \<Rightarrow> check_options" where
  "check_options_of opts pass_dir =
     \<lparr>co_manifest_path = eo_manifest_path opts, co_target = eo_target opts, co_bin = eo_bin opts,
      co_example = eo_example opts, co_features = eo_features opts, co_all_features = eo_all_features opts,
      co_no_default_features = eo_no_default_features opts, co_extra_args = eo_cargo_args opts,
      co_pass_dir = pass_dir, co_output_dir = eo_output_dir opts\<rparr>"

text \<open>The metadata, the package and its target.\<close>

definition locate_target :: "tools \<Rightarrow> expand_options \<Rightarrow> (metadata \<times> package \<times> target) run" where
  "locate_target T opts =
     run_bind (run_res (case cargo_metadata T (eo_manifest_path opts) of Some md \<Rightarrow> Ok md | None \<Rightarrow> Err MetadataFailed)) (\<lambda>md.
     run_bind (run_res (root_package (canonicalize T) md (eo_manifest_path opts))) (\<lambda>pkg.
     run_bind (run_res (resolve_target pkg (eo_bin opts) (eo_example opts))) (\<lambda>tgt.
     run_return (md, pkg, tgt))))"

text \<open>Cleaning, \<open>cargo check\<close>, and the beautified files; the result says whether the check succeeded.\<close>

definition produce_expansions ::
  "tools \<Rightarrow> expand_options \<Rightarrow> path \<Rightarrow> path option \<Rightarrow> package \<Rightarrow> string option \<Rightarrow> (bool \<times> path list) run" where
  "produce_expansions T opts expansion_dir pass_dir pkg stem =
     run_bind (run_tree (\<lambda>es. case pass_dir of Some d \<Rightarrow> clean_pass_snapshots d es | None \<Rightarrow> es)) (\<lambda>_.
     run_bind (clean_package T (eo_manifest_path opts) (pk_name pkg)) (\<lambda>_.
     run_bind (run_check T (check_options_of opts pass_dir)) (\<lambda>ok.
     run_bind run_get (\<lambda>es.
       let files = collect_expansion_files es expansion_dir stem in
       if files = [] then run_res (Err (NoExpansionFiles expansion_dir))
       else
         run_bind (run_each (beautify_file T (pk_edition pkg)) files) (\<lambda>_.
         run_bind (case pass_dir of Some d \<Rightarrow> beautify_pass_snapshots T d (pk_edition pkg) | None \<Rightarrow> run_return []) (\<lambda>_.
         run_return (ok, files)))))))"

definition expand :: "nat \<Rightarrow> tools \<Rightarrow> expand_options \<Rightarrow> expand_report run" where
  "expand fuel T opts =
     run_bind (locate_target T opts) (\<lambda>(md, pkg, tgt).
       let expansion_dir = expansion_dir_of opts md;
           pass_dir = pass_dir_of T opts;
           stem = file_stem (case eo_file opts of Some p \<Rightarrow> p | None \<Rightarrow> tg_src_path tgt)
       in run_bind (produce_expansions T opts expansion_dir pass_dir pkg stem) (\<lambda>(ok, files).
            let full = select_full files stem;
                report = \<lparr>er_check_succeeded = ok, er_expansion_dir = expansion_dir, er_expansion_files = files,
                          er_merged_file = None, er_backup_file = None\<rparr>
            in if eo_merge opts then merge_expansion fuel T opts (pk_edition pkg) report full tgt
               else print_expansions fuel opts report full tgt))"

section \<open>The command line\<close>

text \<open>\<open>cargo rticx-expand\<close> passes the name of the subcommand first; it is removed.\<close>

definition strip_subcommand :: "string list \<Rightarrow> string list" where
  "strip_subcommand argv =
     (case argv of
        prog # a # rest \<Rightarrow> if a = ''rticx-expand'' then prog # rest else argv
      | _ \<Rightarrow> argv)"

datatype command = Expand expand_options | Restore restore_options

text \<open>The exit code is \<open>True\<close> for success.\<close>

definition run_command :: "nat \<Rightarrow> tools \<Rightarrow> command \<Rightarrow> io \<Rightarrow> (io \<times> bool) option" where
  "run_command fuel T cmd s =
     (case cmd of
        Expand opts \<Rightarrow> map_option (\<lambda>(s', r). (s', is_ok r)) (expand fuel T opts s)
      | Restore opts \<Rightarrow>
          (case restore (map_option default_expansion_dir (cargo_metadata T (ro_manifest_path opts))) opts (tree s) of
             (es, r) \<Rightarrow> Some (s\<lparr>tree := es\<rparr>, is_ok r)))"

end
