(* ===== verification/FlowProps.thy ===== *)
theory FlowProps
  imports Flow
begin

text \<open>
  What \<open>cargo rticx-expand\<close> does to the files of the crate.  The frame of a run is the set of paths whose content it
  keeps; every step of \<open>expand\<close> keeps all paths outside of the directories of the expansions, and a merge is undone by
  \<open>restore\<close>.
\<close>

named_theorems frame \<open>runs that keep the paths of a frame\<close>

section \<open>Frames\<close>

definition keeps :: "(path \<Rightarrow> bool) \<Rightarrow> entries \<Rightarrow> entries \<Rightarrow> bool" where
  "keeps Q es es' \<longleftrightarrow> (\<forall>q. Q q \<longrightarrow> view es' q = view es q)"

definition run_keeps :: "(path \<Rightarrow> bool) \<Rightarrow> 'a run \<Rightarrow> bool" where
  "run_keeps Q m \<longleftrightarrow> (\<forall>s s' r. m s = Some (s', r) \<longrightarrow> keeps Q (tree s) (tree s'))"

lemma keeps_refl [simp]: "keeps Q es es"
  by (simp add: keeps_def)

lemma keeps_trans: "keeps Q a b \<Longrightarrow> keeps Q b c \<Longrightarrow> keeps Q a c"
  by (simp add: keeps_def)

lemma keeps_other: "keeps (\<lambda>q. q \<noteq> p) es es' \<Longrightarrow> \<not> Q p \<Longrightarrow> keeps Q es es'"
  by (auto simp: keeps_def)

lemma keeps_write: "write_file es p c = Some es' \<Longrightarrow> keeps (\<lambda>q. q \<noteq> p) es es'"
  by (drule tree.put_look) (simp add: keeps_def)

lemma keeps_remove: "keeps (\<lambda>q. q \<noteq> p) es (remove_if_file p es)"
  unfolding remove_if_file_def by (auto simp: keeps_def dest: tree.del_look split: option.split)

lemma run_keepsI: "(\<And>s s' r. m s = Some (s', r) \<Longrightarrow> keeps Q (tree s) (tree s')) \<Longrightarrow> run_keeps Q m"
  by (simp add: run_keeps_def)

lemma run_keepsD: "run_keeps Q m \<Longrightarrow> m s = Some (s', r) \<Longrightarrow> keeps Q (tree s) (tree s')"
  by (simp add: run_keeps_def)

lemma run_keeps_basic [frame]:
  "run_keeps Q (run_return x)" "run_keeps Q (run_res r)" "run_keeps Q run_get" "run_keeps Q (read_file p)"
  "run_keeps Q (print_text t)" "run_keeps Q (beautify_run raw)"
  by (simp_all add: run_keeps_def run_return_def run_res_def run_get_def read_file_def print_text_def beautify_run_def)

lemma run_keeps_bind [frame]:
  assumes "run_keeps Q m" and "\<And>x. run_keeps Q (f x)"
  shows "run_keeps Q (run_bind m f)"
proof (rule run_keepsI)
  fix s s' r assume "run_bind m f s = Some (s', r)"
  then show "keeps Q (tree s) (tree s')"
    using assms unfolding run_bind_def
    by (auto split: option.splits sum.splits prod.splits dest!: run_keepsD intro: keeps_trans)
qed

lemma run_bind_Ok:
  "run_bind m f s = Some (s', Ok y) \<longleftrightarrow> (\<exists>s1 x. m s = Some (s1, Ok x) \<and> f x s1 = Some (s', Ok y))"
  by (auto simp: run_bind_def split: option.splits sum.splits)

lemma run_keeps_tree: "(\<And>es. keeps Q es (f es)) \<Longrightarrow> run_keeps Q (run_tree f)"
  by (simp add: run_keeps_def run_tree_def)

lemma run_keeps_each: "(\<And>x. x \<in> set xs \<Longrightarrow> run_keeps Q (f x)) \<Longrightarrow> run_keeps Q (run_each f xs)"
  by (induction xs) (auto intro: frame)

lemma run_keeps_store: "\<not> Q p \<Longrightarrow> run_keeps Q (store_file p c)"
  by (rule run_keepsI)
    (auto simp: store_file_def split: option.splits dest!: keeps_write intro: keeps_other)

lemma run_keeps_print_file [frame]: "run_keeps Q (print_file p)"
  unfolding print_file_def by (intro frame)

section \<open>The steps keep the sources\<close>

text \<open>The programs that are run: \<open>cargo\<close> keeps the paths of the frame, \<open>rustfmt\<close> all but the file it is given, which stays
  a file.\<close>

definition tools_keep :: "(path \<Rightarrow> bool) \<Rightarrow> tools \<Rightarrow> bool" where
  "tools_keep Q T \<longleftrightarrow>
     (\<forall>m n es. keeps Q es (fst (cargo_clean T m n es))) \<and>
     (\<forall>args env es. keeps Q es (fst (cargo_check T args env es))) \<and>
     (\<forall>ed p es. keeps (\<lambda>q. q \<noteq> p) es (rustfmt T ed p es)) \<and>
     (\<forall>ed p es c. view es p = Some (Some c) \<longrightarrow> (\<exists>t. view (rustfmt T ed p es) p = Some (Some t)))"

lemma tools_keepD:
  assumes "tools_keep Q T"
  shows "keeps Q es (fst (cargo_clean T m n es))" "keeps Q es (fst (cargo_check T args env es))"
    "keeps (\<lambda>q. q \<noteq> p) es (rustfmt T ed p es)"
    "view es p = Some (Some c) \<Longrightarrow> \<exists>t. view (rustfmt T ed p es) p = Some (Some t)"
  using assms unfolding tools_keep_def by blast+

definition outside :: "path list \<Rightarrow> path \<Rightarrow> bool" where
  "outside ds q \<longleftrightarrow> (\<forall>d \<in> set ds. \<not> prefix d q)"

lemma not_outside: "d \<in> set ds \<Longrightarrow> \<not> outside ds (d @ p)"
  unfolding outside_def by (metis prefixI)

lemma keeps_clean_snapshots:
  assumes "d \<in> set ds"
  shows "keeps (outside ds) es (clean_pass_snapshots d es)"
proof -
  have "keeps (outside ds) es (fold (\<lambda>(name, _) es. if is_snapshot_name name then remove_if_file (d @ [name]) es else es) xs es)"
    for xs :: entries and es
  proof (induction xs arbitrary: es)
    case (Cons x xs)
    obtain n y where x: "x = (n, y)" by (cases x)
    have "keeps (outside ds) es (remove_if_file (d @ [n]) es)"
      by (rule keeps_other [OF keeps_remove]) (rule not_outside [OF assms])
    then show ?case using Cons.IH x by (auto intro: keeps_trans)
  qed simp
  then show ?thesis by (simp add: clean_pass_snapshots_def split: option.split)
qed

lemma run_keeps_format:
  assumes "tools_keep (outside ds) T" and "\<not> outside ds p"
  shows "run_keeps (outside ds) (format_file T p edition)"
proof -
  have "keeps (outside ds) es (rustfmt T edition p es)" for es
    by (rule keeps_other [OF tools_keepD(3) [OF assms(1)]]) (rule assms(2))
  then show ?thesis unfolding format_file_def by (rule run_keeps_tree)
qed

lemma run_keeps_beautify_file:
  assumes "tools_keep (outside ds) T" and "\<not> outside ds p"
  shows "run_keeps (outside ds) (beautify_file T edition p)"
  unfolding beautify_file_def
  by (intro frame run_keeps_store run_keeps_format assms)

lemma run_keeps_beautify_snapshot:
  assumes "tools_keep (outside ds) T" and "\<not> outside ds p"
  shows "run_keeps (outside ds) (beautify_snapshot T edition p)"
proof (rule run_keepsI)
  fix s s' r assume r: "beautify_snapshot T edition p s = Some (s', r)"
  have w: "keeps (outside ds) es (case write_file es p pretty of Some es' \<Rightarrow> es' | None \<Rightarrow> es)" for es pretty
    using assms(2) by (auto split: option.split dest!: keeps_write intro: keeps_other)
  have "run_keeps (outside ds) (run_bind (beautify_run raw) (\<lambda>pretty.
      run_bind (run_tree (\<lambda>es. case write_file es p pretty of Some es' \<Rightarrow> es' | None \<Rightarrow> es)) (\<lambda>_.
      format_file T p edition)))" for raw
    by (intro frame run_keeps_tree w run_keeps_format assms)
  then show "keeps (outside ds) (tree s) (tree s')"
    using r unfolding beautify_snapshot_def by (auto split: option.splits dest: run_keepsD)
qed

lemma collected_outside: "d \<in> set ds \<Longrightarrow> p \<in> set (collect_expansion_files es d stem) \<Longrightarrow> \<not> outside ds p"
  by (auto simp: collect_expansion_files_def not_outside split: option.splits)

lemma snapshots_outside: "d \<in> set ds \<Longrightarrow> p \<in> set (snapshot_files es d) \<Longrightarrow> \<not> outside ds p"
  by (auto simp: snapshot_files_def not_outside split: option.splits)

lemma run_keeps_beautify_snapshots:
  assumes "tools_keep (outside ds) T" and "d \<in> set ds"
  shows "run_keeps (outside ds) (beautify_pass_snapshots T d edition)"
  unfolding beautify_pass_snapshots_def Let_def
  by (intro frame run_keeps_each run_keeps_beautify_snapshot assms(1)) (rule snapshots_outside [OF assms(2)])

lemma run_keeps_produce:
  assumes "tools_keep (outside ds) T" and "expansion_dir \<in> set ds" and "\<forall>d. pass_dir = Some d \<longrightarrow> d \<in> set ds"
  shows "run_keeps (outside ds) (produce_expansions T opts expansion_dir pass_dir pkg stem)"
proof -
  have clean: "run_keeps (outside ds) (clean_package T m n)" for m n
  proof (rule run_keepsI)
    fix s s' r assume "clean_package T m n s = Some (s', r)"
    then show "keeps (outside ds) (tree s) (tree s')" using tools_keepD(1) [OF assms(1), of "tree s" m n]
      by (cases "cargo_clean T m n (tree s)") (auto simp: clean_package_def)
  qed
  have check: "run_keeps (outside ds) (run_check T co)" for co
  proof (rule run_keepsI)
    fix s s' r assume "run_check T co s = Some (s', r)"
    then show "keeps (outside ds) (tree s) (tree s')"
      using tools_keepD(2) [OF assms(1), of "tree s" "check_args co" "check_env co"]
      by (cases "cargo_check T (check_args co) (check_env co) (tree s)") (auto simp: run_check_def)
  qed
  have snaps: "run_keeps (outside ds) (run_tree (\<lambda>es. case pass_dir of Some d \<Rightarrow> clean_pass_snapshots d es | None \<Rightarrow> es))"
    by (rule run_keeps_tree) (use assms(3) in \<open>auto split: option.split intro: keeps_clean_snapshots\<close>)
  have pass: "run_keeps (outside ds)
      (case pass_dir of Some d \<Rightarrow> beautify_pass_snapshots T d e | None \<Rightarrow> run_return [])" for e
    using assms(1,3) by (auto split: option.split intro: run_keeps_beautify_snapshots frame)
  have each: "run_keeps (outside ds) (run_each (beautify_file T e) (collect_expansion_files es expansion_dir stem))" for e es
    by (intro run_keeps_each run_keeps_beautify_file assms(1)) (rule collected_outside [OF assms(2)])
  have rest: "run_keeps (outside ds) (let files = collect_expansion_files es expansion_dir stem in
       if files = [] then run_res (Err (NoExpansionFiles expansion_dir))
       else
         run_bind (run_each (beautify_file T (pk_edition pkg)) files) (\<lambda>_.
         run_bind (case pass_dir of Some d \<Rightarrow> beautify_pass_snapshots T d (pk_edition pkg) | None \<Rightarrow> run_return []) (\<lambda>_.
         run_return (ok, files))))" for es ok
    unfolding Let_def by (cases "collect_expansion_files es expansion_dir stem = []") (auto intro!: frame each pass)
  show ?thesis
    unfolding produce_expansions_def by (intro frame snaps clean check rest)
qed

section \<open>Printing keeps the sources\<close>

lemma run_keeps_locate [frame]: "run_keeps Q (locate_target T opts)"
  unfolding locate_target_def by (intro frame)

lemma run_keeps_has_item [frame]: "run_keeps Q (source_has_app_item fuel p)"
  by (rule run_keepsI) (auto simp: source_has_app_item_def split: option.splits)

lemma run_keeps_resolve [frame]: "run_keeps Q (resolve_app_file fuel opts tgt full)"
proof -
  have "run_keeps Q (if has then run_return x else let stem = st in run_bind run_get (f stem))"
    if "\<And>stem es. run_keeps Q (f stem es)" for has x st and f :: "string \<Rightarrow> entries \<Rightarrow> path option run"
    using that by (auto simp: Let_def intro: frame)
  then show ?thesis unfolding resolve_app_file_def
    by (auto split: option.split intro!: frame)
qed

lemma run_keeps_print: "run_keeps Q (print_expansions fuel opts report full tgt)"
proof (cases full)
  case None
  then show ?thesis by (simp add: print_expansions_def frame)
next
  case (Some f)
  have splice: "run_keeps Q (run_merge (\<lambda>es. map_option (Pair es) (splice_expansion fuel original body p)))"
    for original body p
    by (rule run_keepsI) (auto simp: run_merge_def)
  have found: "run_keeps Q (run_bind (read_file p) (\<lambda>original.
      run_bind (run_merge (\<lambda>es. map_option (Pair es) (splice_expansion fuel original body p))) print_text))" for p body
    by (intro frame splice)
  have resolved: "run_keeps Q (\<lambda>s.
      case resolve_app_file fuel opts tgt f s of
        None \<Rightarrow> None
      | Some (s', Inl Panic) \<Rightarrow> Some (s', Err Panic)
      | Some (s', Inl e) \<Rightarrow> print_file f s'
      | Some (s', Inr None) \<Rightarrow> print_file f s'
      | Some (s', Inr (Some app_file)) \<Rightarrow>
          run_bind (read_file app_file) (\<lambda>original.
          run_bind (run_merge (\<lambda>es. map_option (Pair es) (splice_expansion fuel original body app_file))) print_text) s')"
    for body
  proof (rule run_keepsI)
    fix s s' r
    assume r: "(case resolve_app_file fuel opts tgt f s of
        None \<Rightarrow> None
      | Some (s', Inl Panic) \<Rightarrow> Some (s', Err Panic)
      | Some (s', Inl e) \<Rightarrow> print_file f s'
      | Some (s', Inr None) \<Rightarrow> print_file f s'
      | Some (s', Inr (Some app_file)) \<Rightarrow>
          run_bind (read_file app_file) (\<lambda>original.
          run_bind (run_merge (\<lambda>es. map_option (Pair es) (splice_expansion fuel original body app_file))) print_text) s') =
        Some (s', r)"
    then obtain s1 x where x: "resolve_app_file fuel opts tgt f s = Some (s1, x)"
      by (cases "resolve_app_file fuel opts tgt f s") auto
    have k: "keeps Q (tree s) (tree s1)" by (rule run_keepsD [OF run_keeps_resolve x])
    show "keeps Q (tree s) (tree s')"
    proof (cases x)
      case (Inl e)
      then show ?thesis using r x k run_keepsD [OF run_keeps_print_file, of f s1 s' r Q]
        by (cases e) (auto intro: keeps_trans)
    next
      case (Inr y)
      show ?thesis
      proof (cases y)
        case None
        then show ?thesis using r x k Inr run_keepsD [OF run_keeps_print_file, of f s1 s' r Q] by (auto intro: keeps_trans)
      next
        case (Some p)
        then show ?thesis using r x k Inr run_keepsD [OF found, of p body s1 s' r] by (auto intro: keeps_trans)
      qed
    qed
  qed
  show ?thesis unfolding print_expansions_def Some option.case by (intro frame resolved)
qed

text \<open>The directories that a run writes to are among \<open>ds\<close>.\<close>

definition writes_to :: "tools \<Rightarrow> expand_options \<Rightarrow> path list \<Rightarrow> bool" where
  "writes_to T opts ds \<longleftrightarrow>
     (\<forall>md. cargo_metadata T (eo_manifest_path opts) = Some md \<longrightarrow> expansion_dir_of opts md \<in> set ds) \<and>
     (\<forall>d. pass_dir_of T opts = Some d \<longrightarrow> d \<in> set ds)"

lemma locate_target_metadata:
  "locate_target T opts s = Some (s', Ok (md, pkg, tgt)) \<Longrightarrow> cargo_metadata T (eo_manifest_path opts) = Some md"
  by (auto simp: locate_target_def run_bind_def run_res_def run_return_def split: option.splits sum.splits)

text \<open>A run of \<open>expand\<close> that gets past the target continues with the produced files.\<close>

lemma expand_cases:
  assumes "expand fuel T opts s = Some (s', r)"
  obtains (early) s1 e where "s' = s1" "r = Err e" "keeps Q (tree s) (tree s1)"
  | (produce) s1 md pkg tgt e where "locate_target T opts s = Some (s1, Ok (md, pkg, tgt))"
      "produce_expansions T opts (expansion_dir_of opts md) (pass_dir_of T opts) pkg
         (file_stem (case eo_file opts of Some p \<Rightarrow> p | None \<Rightarrow> tg_src_path tgt)) s1 = Some (s', Err e)" "r = Err e"
  | (finish) s1 s2 md pkg tgt ok files report full where "locate_target T opts s = Some (s1, Ok (md, pkg, tgt))"
      "produce_expansions T opts (expansion_dir_of opts md) (pass_dir_of T opts) pkg
         (file_stem (case eo_file opts of Some p \<Rightarrow> p | None \<Rightarrow> tg_src_path tgt)) s1 = Some (s2, Ok (ok, files))"
      "(if eo_merge opts then merge_expansion fuel T opts (pk_edition pkg) report full tgt
        else print_expansions fuel opts report full tgt) s2 = Some (s', r)"
      "er_merged_file report = None"
proof -
  obtain s1 x where x: "locate_target T opts s = Some (s1, x)"
    using assms by (cases "locate_target T opts s") (auto simp: expand_def run_bind_def)
  show thesis
  proof (cases x)
    case (Inl e)
    then show thesis using assms x run_keepsD [OF run_keeps_locate x, of Q]
      by (intro early) (auto simp: expand_def run_bind_def)
  next
    case (Inr y)
    obtain md pkg tgt where y: "y = (md, pkg, tgt)" by (cases y) auto
    let ?stem = "file_stem (case eo_file opts of Some p \<Rightarrow> p | None \<Rightarrow> tg_src_path tgt)"
    obtain s2 z where z: "produce_expansions T opts (expansion_dir_of opts md) (pass_dir_of T opts) pkg ?stem s1 = Some (s2, z)"
      using assms x Inr y
      by (cases "produce_expansions T opts (expansion_dir_of opts md) (pass_dir_of T opts) pkg ?stem s1")
        (auto simp: expand_def run_bind_def Let_def)
    show thesis
    proof (cases z)
      case (Inl e)
      then show thesis using assms x \<open>x = Inr y\<close> y z by (intro produce) (auto simp: expand_def run_bind_def Let_def)
    next
      case (Inr w)
      obtain ok files where w: "w = (ok, files)" by (cases w) auto
      show thesis
        by (rule finish [of s1 md pkg tgt s2 ok files
              "\<lparr>er_check_succeeded = ok, er_expansion_dir = expansion_dir_of opts md, er_expansion_files = files,
                er_merged_file = None, er_backup_file = None\<rparr>" "select_full files ?stem"])
          (use assms x \<open>x = Inr y\<close> y z Inr w in \<open>simp_all add: expand_def run_bind_def Let_def\<close>)
    qed
  qed
qed

text \<open>\<open>cargo rticx-expand\<close> without \<open>--merge\<close> leaves the sources untouched, as it says, also when it fails: every path
  outside of the directories of the expansions and of the snapshots has what it had, provided that \<open>cargo\<close> writes only
  there and \<open>rustfmt\<close> only to the file it is given.\<close>

lemma print_keeps_sources:
  assumes "\<not> eo_merge opts" and "tools_keep (outside ds) T" and "writes_to T opts ds"
    and "expand fuel T opts s = Some (s', r)"
  shows "\<forall>q. outside ds q \<longrightarrow> view (tree s') q = view (tree s) q"
proof -
  have produce: "run_keeps (outside ds) (produce_expansions T opts (expansion_dir_of opts md) (pass_dir_of T opts) pkg stem)"
    if "locate_target T opts s = Some (s1, Ok (md, pkg, tgt))" for s1 md pkg tgt stem
    using locate_target_metadata [OF that] assms(3) by (intro run_keeps_produce assms(2)) (auto simp: writes_to_def)
  have "keeps (outside ds) (tree s) (tree s')"
  proof (rule expand_cases [OF assms(4), of "outside ds"], goal_cases)
    case (1 s1 e)
    then show ?case by simp
  next
    case (2 s1 md pkg tgt e)
    then show ?case
      using run_keepsD [OF run_keeps_locate 2(1)] run_keepsD [OF produce [OF 2(1)] 2(2)] by (blast intro: keeps_trans)
  next
    case (3 s1 s2 md pkg tgt ok files report full)
    then have "keeps (outside ds) (tree s2) (tree s')"
      using assms(1) run_keepsD [OF run_keeps_print] by simp
    then show ?case
      using run_keepsD [OF run_keeps_locate 3(1)] run_keepsD [OF produce [OF 3(1)] 3(2)] by (blast intro: keeps_trans)
  qed
  then show ?thesis by (simp add: keeps_def)
qed

section \<open>Merging and restoring\<close>

lemma resolve_tree: "resolve_app_file fuel opts tgt full s = Some (s', r) \<Longrightarrow> view (tree s') = view (tree s)"
  using run_keepsD [OF run_keeps_resolve, of fuel opts tgt full s s' r "\<lambda>_. True"] by (auto simp: keeps_def)

lemma merge_expansion_Ok:
  assumes "merge_expansion fuel T opts edition report full tgt s = Some (s', Ok report')"
    and "er_merged_file report = None" and "er_merged_file report' = Some f"
  obtains s1 es2 body b where "view (tree (s1 :: io)) = view (tree s)"
    "merge_into fuel f body (eo_force opts) (tree s1) = Some (es2, Ok (f, b))"
    "tree s' = rustfmt T edition f es2"
proof -
  obtain g where g: "full = Some g" using assms by (cases full) (auto simp: merge_expansion_def run_return_def)
  have "\<exists>s1 p body es2 b. resolve_app_file fuel opts tgt g s = Some (s1, Ok (Some p)) \<and>
      merge_into fuel p body (eo_force opts) (tree s1) = Some (es2, Ok (f, b)) \<and> tree s' = rustfmt T edition f es2"
    using assms(1,3) unfolding g merge_expansion_def option.case run_bind_Ok
    by (auto simp: read_file_def run_merge_def format_file_def run_tree_def run_return_def run_res_def run_bind_Ok
        split: option.splits) blast
  then obtain s1 p body es2 b where m: "resolve_app_file fuel opts tgt g s = Some (s1, Ok (Some p))"
      "merge_into fuel p body (eo_force opts) (tree s1) = Some (es2, Ok (f, b))" "tree s' = rustfmt T edition f es2" by blast
  have "f = p" by (rule merge_into_Ok [OF m(2)])
  then show thesis using that [OF resolve_tree [OF m(1)]] m by blast
qed


section \<open>A run\<close>

definition demo_md :: metadata where
  "demo_md = \<lparr>md_target_directory = [''target''],
     md_packages = [\<lparr>pk_name = ''app'', pk_edition = ''2024'', pk_manifest_path = [''Cargo.toml''],
       pk_targets = [\<lparr>tg_name = ''app'', tg_kind = [''bin''], tg_src_path = [''src'', ''main.rs'']\<rparr>]\<rparr>]\<rparr>"

definition demo_tools :: tools where
  "demo_tools = \<lparr>cargo_metadata = (\<lambda>_. Some demo_md), canonicalize = Some, absolute = Some,
     cargo_clean = (\<lambda>_ _ es. (es, True)),
     cargo_check = (\<lambda>_ _ es. (case write_file es [''target'', ''rticx-expand'', ''main_expanded.rs''] ''mod m {}'' of
        Some es' \<Rightarrow> es' | None \<Rightarrow> es, Some True)),
     rustfmt = (\<lambda>_ _ es. es)\<rparr>"

definition demo_opts :: "bool \<Rightarrow> expand_options" where
  "demo_opts m = \<lparr>eo_manifest_path = [''Cargo.toml''], eo_bin = None, eo_example = None, eo_file = None, eo_target = None,
     eo_features = None, eo_all_features = False, eo_no_default_features = False, eo_expand_passes = None,
     eo_output_dir = None, eo_merge = m, eo_force = False, eo_cargo_args = []\<rparr>"

definition demo_io :: io where
  "demo_io = \<lparr>tree = [(''src'', Dir [(''main.rs'', File ''use x; #[r::app()] mod m { } fn f() {}'')]),
     (''target'', Dir [(''rticx-expand'', Dir [])])], stdout = []\<rparr>"

lemma demo_tools_keep: "tools_keep (outside [[''target'']]) demo_tools"
proof -
  have w: "keeps (outside [[''target'']]) es es'"
    if "write_file es [''target'', ''rticx-expand'', ''main_expanded.rs''] c = Some es'" for es es' c
    using keeps_write [OF that] by (rule keeps_other) (simp add: outside_def)
  show ?thesis by (auto simp: tools_keep_def demo_tools_def keeps_def [of "\<lambda>q. q \<noteq> p" for p] split: option.split intro: w)
qed

lemma demo_writes_to: "writes_to demo_tools (demo_opts m) [[''target''], [''target'', ''rticx-expand'']]"
  by (simp add: writes_to_def demo_tools_def demo_opts_def expansion_dir_of_def default_expansion_dir_def demo_md_def
      pass_dir_of_def)

lemma demo_keep: "tools_keep (outside [[''target''], [''target'', ''rticx-expand'']]) demo_tools"
proof -
  have "outside [[''target''], [''target'', ''rticx-expand'']] = outside [[''target'']]"
    by (auto simp: outside_def fun_eq_iff dest: append_prefixD [of "[''target'']" "[''rticx-expand'']", simplified])
  then show ?thesis using demo_tools_keep by simp
qed

lemma result_case:
  "(case x of Some (s', Inr r) \<Rightarrow> P s' r | _ \<Rightarrow> False) \<longleftrightarrow> (\<exists>s' r. x = Some (s', Ok r) \<and> P s' r)"
proof (cases x)
  case (Some y)
  then show ?thesis by (cases y; cases "snd y") auto
qed simp

lemma demo_expand:
  "case expand 60 demo_tools (demo_opts False) demo_io of Some (s', Inr r) \<Rightarrow> stdout s' \<noteq> [] | _ \<Rightarrow> False"
  "case expand 60 demo_tools (demo_opts True) demo_io of
     Some (s', Inr r) \<Rightarrow> er_merged_file r = Some [''src'', ''main.rs''] | _ \<Rightarrow> False"
  by code_simp+

theorem print_keeps_sources_witness:
  "\<exists>s' r. expand 60 demo_tools (demo_opts False) demo_io = Some (s', Ok r) \<and> stdout s' \<noteq> [] \<and>
     (\<forall>q. outside [[''target''], [''target'', ''rticx-expand'']] q \<longrightarrow> view (tree s') q = view (tree demo_io) q)"
proof -
  obtain s' r where r: "expand 60 demo_tools (demo_opts False) demo_io = Some (s', Ok r)" "stdout s' \<noteq> []"
    using demo_expand(1) unfolding result_case by blast
  have "\<not> eo_merge (demo_opts False)" by (simp add: demo_opts_def)
  from print_keeps_sources [OF this demo_keep demo_writes_to r(1)] r show ?thesis by blast
qed


end
