(* ===== verification/Handoff.thy ===== *)
theory Handoff
  imports ExpandLog FlowProps
begin

text \<open>
  The two ends of the expansion meet in the names of files: the macro (\<open>expand_log.rs\<close> in \<open>rticx-core\<close>) writes the
  expansion and the snapshots of the stages, and the tool (\<open>flow.rs\<close>) finds them by their names.
\<close>

section \<open>Snapshots\<close>

lemma digit_char: "n < 10 \<Longrightarrow> ascii_digit (char_of (48 + n))" for n :: nat
  by (simp add: ascii_digit_def of_char_of)

lemma digits_digit: "list_all ascii_digit (digits n)"
proof (induction n rule: digits.induct)
  case (1 n)
  then show ?case by (subst digits.simps) (simp add: digit_char)
qed

lemma digits_length: "10 \<le> n \<Longrightarrow> 2 \<le> length (digits n)"
proof -
  assume "10 \<le> n"
  moreover have "digits (n div 10) \<noteq> []" by (subst digits.simps) simp
  ultimately show ?thesis by (subst digits.simps) (cases "digits (n div 10)"; simp)
qed

lemma pad2_digits: "list_all ascii_digit (pad2 n)" "2 \<le> length (pad2 n)"
proof -
  have zero: "ascii_digit (CHR ''0'')" by code_simp
  show "list_all ascii_digit (pad2 n)" using digits_digit [of n] zero by (simp add: pad2_def)
  have "1 \<le> length (digits n)" by (subst digits.simps) simp
  then show "2 \<le> length (pad2 n)" using digits_length [of n] by (simp add: pad2_def)
qed

lemma digit_not_underscore: "ascii_digit c \<Longrightarrow> c \<noteq> CHR ''_''"
  by (auto simp: ascii_digit_def)

lemma sanitize_ident: "list_all ident_char (sanitize label)"
proof -
  have "ident_char c" if "is_ascii_alphanumeric c" for c
    using that by (auto simp: is_ascii_alphanumeric_def ident_char_def is_alnum_def is_alpha_def Let_def)
  then show ?thesis using sanitize_safe [of label] by (auto simp: list_all_iff ident_char_def)
qed

lemma strip_suffix_append [simp]: "strip_suffix suf (s @ suf) = Some s"
  by (simp add: strip_suffix_def suffix_def)

lemma state_file_name_snapshot:
  assumes "label \<noteq> []"
  shows "is_snapshot_name (state_file_name index label)"
proof -
  let ?d = "pad2 index" and ?l = "sanitize label"
  have take: "takeWhile (\<lambda>c. c \<noteq> CHR ''_'') (?d @ ''_'' @ ?l) = ?d"
    using pad2_digits(1) [of index] digit_not_underscore
    by (subst takeWhile_append2) (auto simp: list_all_iff)
  have strip: "strip_suffix ''.rs'' (state_file_name index label) = Some (?d @ ''_'' @ ?l)"
    using strip_suffix_append [of "''.rs''" "?d @ ''_'' @ ?l"] by (simp add: state_file_name_def)
  have "?l \<noteq> []" using assms by (simp add: sanitize_def)
  then show ?thesis
    unfolding is_snapshot_name_def strip option.case Let_def take
    using pad2_digits [of index] sanitize_ident [of label] by simp
qed

section \<open>The expansion\<close>

lemma find_unique: "x \<in> set xs \<Longrightarrow> P x \<Longrightarrow> (\<And>y. y \<in> set xs \<Longrightarrow> P y \<Longrightarrow> y = x) \<Longrightarrow> find P xs = Some x"
proof (induction xs)
  case (Cons a xs)
  show ?case
  proof (cases "P a")
    case True
    then have "a = x" using Cons.prems(3) [of a] by simp
    then show ?thesis using True by simp
  next
    case False
    then have "x \<in> set xs" using Cons.prems(1,2) by auto
    then have "find P xs = Some x" using Cons.IH Cons.prems(2,3) by (meson list.set_intros(2))
    then show ?thesis using False by simp
  qed
qed simp

lemma expansion_selected:
  assumes "dir_entries es dir = Some d" and "(stem @ ''_expanded.rs'', x) \<in> set d"
  shows "select_full (collect_expansion_files es dir (Some stem)) (Some stem) = Some (dir @ [stem @ ''_expanded.rs''])"
proof -
  let ?p = "dir @ [stem @ ''_expanded.rs'']" and ?files = "collect_expansion_files es dir (Some stem)"
  have "prefix (stem @ ''_'') (stem @ ''_expanded.rs'')" by (simp add: prefix_def)
  moreover have "suffix ''.rs'' (stem @ ''_expanded.rs'')" by (simp add: suffix_def)
  ultimately have mem: "?p \<in> set ?files"
    using assms by (force simp: collect_expansion_files_def)
  have nm: "named (stem @ ''_expanded.rs'') ?p"
  proof -
    have "stem @ ''_expanded.rs'' \<noteq> ''..''"
    proof
      assume "stem @ ''_expanded.rs'' = ''..''"
      then have "length (stem @ ''_expanded.rs'') = length ''..''" by (rule arg_cong)
      then show False by simp
    qed
    then show ?thesis by (simp add: named_def file_name_def)
  qed
  have "y = ?p" if "y \<in> set ?files" "named (stem @ ''_expanded.rs'') y" for y
    using that assms(1) by (auto simp: collect_expansion_files_def named_def file_name_def split: if_splits)
  then have "find (named (stem @ ''_expanded.rs'')) ?files = Some ?p"
    by (intro find_unique mem nm)
  then show ?thesis by (simp add: select_full_def)
qed



end
