(* ===== verification/Preempt.thy ===== *)
theory Preempt
  imports CortexApp
begin

text \<open>
  A core that runs the generated program, with BASEPRI: the interrupt handlers of the tasks preempt each other, each
  through the wrapper \<open>run\<close> of \<open>rticx-cortex-m/src/export.rs\<close>, and enter and leave critical sections through \<open>lock\<close>.  The
  two functions are taken apart into their accesses to the registers, between any two of which another interrupt may come.
\<close>

section \<open>The accesses of the wrapper and of the lock\<close>

text \<open>What \<open>lock\<close> does to the registers before and after the closure; the registers it has read are given.\<close>

definition lock_acquire :: "('s, 'r) cortex \<Rightarrow> 8 word \<Rightarrow> 8 word \<Rightarrow> 's \<Rightarrow> 's" where
  "lock_acquire M b c s =
     (if c = push_bit (unat b mod 8) 1 then irq_off M s else bp_max_write M (cortex_logical2hw c b) s)"

definition lock_release :: "('s, 'r) cortex \<Rightarrow> 8 word \<Rightarrow> 8 word \<Rightarrow> 8 word \<times> bool \<Rightarrow> 's \<Rightarrow> 's" where
  "lock_release M b c saved s =
     (if c = push_bit (unat b mod 8) 1 then if snd saved then s else irq_on M s else bp_write M (fst saved) s)"

lemma lock_by_steps:
  assumes "documented M"
  shows "lock M c b f s =
    (case f (lock_acquire M b c s) of (r, s2) \<Rightarrow> (r, lock_release M b c (bp_read M s, primask M s) s2))"
  by (simp add: lock_def lock_acquire_def lock_release_def documentedD(5) [OF assms] Let_def)

definition run_end :: "('s, 'r) cortex \<Rightarrow> 8 word \<Rightarrow> 8 word \<Rightarrow> 's \<Rightarrow> 's" where
  "run_end M priority initial s = bp_write M (if priority = 1 then 0 else initial) s"

lemma run_by_steps: "run M p f s = run_end M p (bp_read M s) (f s)"
  by (simp add: run_def run_end_def)

section \<open>The system\<close>

text \<open>Where a handler stands: entered, in its body, in a lock that has read the registers, or done.\<close>

datatype frame_state = Entering | Body | Reading ident "8 word \<times> bool" | Returning

text \<open>A handler on the stack, or the idle task in thread mode: its open locks with the registers they have read, innermost
  first, and the value of BASEPRI that \<open>run\<close> has read.\<close>

record frame =
  fr_task :: rtic_task
  fr_thread :: bool
  fr_state :: frame_state
  fr_initial :: "8 word"
  fr_locks :: "(ident \<times> 8 word \<times> bool) list"

definition prio_of :: "rtic_task \<Rightarrow> prio" where
  "prio_of t = ta_priority (rt_args t)"

definition fr_prio :: "frame \<Rightarrow> prio" where
  "fr_prio f = (if fr_thread f then 0 else prio_of (fr_task f))"

definition handler_frame :: "rtic_task \<Rightarrow> frame" where
  "handler_frame t = \<lparr>fr_task = t, fr_thread = False, fr_state = Entering, fr_initial = 0, fr_locks = []\<rparr>"

definition idle_frame :: "rtic_task \<Rightarrow> frame" where
  "idle_frame t = \<lparr>fr_task = t, fr_thread = True, fr_state = Body, fr_initial = 0, fr_locks = []\<rparr>"

definition active_prio :: "frame list \<Rightarrow> prio" where
  "active_prio fs = (case fs of [] \<Rightarrow> 0 | f # _ \<Rightarrow> fr_prio f)"

text \<open>The tasks whose code runs in a handler: its own, or, in a dispatcher, the software tasks of its priority.\<close>

definition runs_in :: "rtic_task list \<Rightarrow> rtic_task \<Rightarrow> frame \<Rightarrow> bool" where
  "runs_in ts u f \<longleftrightarrow> u = fr_task f \<or>
     (\<not> fr_thread f \<and> u \<in> set ts \<and> ta_binds (rt_args u) = None \<and> prio_of u = prio_of (fr_task f))"

text \<open>The priority and the ceiling as the generated code passes them, converted to \<open>u8\<close>.\<close>

definition prio8 :: "rtic_task \<Rightarrow> 8 word" where
  "prio8 t = ucast (prio_of t)"

definition ceil8 :: "rtic_task list \<Rightarrow> ident \<Rightarrow> 8 word" where
  "ceil8 ts r = ucast (ceiling ts r)"

text \<open>
  The steps.  The hardware takes an interrupt that is not masked if its priority is above that of the active handler.  A
  handler may lock what a task that runs in it lists, in any order and nested, but not what it has locked already: the lock
  function borrows the proxy mutably.
\<close>

inductive sys_step :: "('s, 'r) cortex \<Rightarrow> 8 word \<Rightarrow> rtic_task list \<Rightarrow> 's \<times> frame list \<Rightarrow> 's \<times> frame list \<Rightarrow> bool"
  for M b ts where
  preempt: "t \<in> set ts \<Longrightarrow> ta_binds (rt_args t) \<noteq> None \<Longrightarrow> active_prio fs < prio_of t \<Longrightarrow>
     \<not> masked M s (cortex_logical2hw (prio8 t) b) \<Longrightarrow> sys_step M b ts (s, fs) (s, handler_frame t # fs)"
| start: "fr_state f = Entering \<Longrightarrow>
     sys_step M b ts (s, f # fs) (s, f\<lparr>fr_state := Body, fr_initial := bp_read M s\<rparr> # fs)"
| read: "fr_state f = Body \<Longrightarrow> runs_in ts u f \<Longrightarrow> r \<in> set (ta_shared (rt_args u)) \<Longrightarrow> r \<notin> fst ` set (fr_locks f) \<Longrightarrow>
     sys_step M b ts (s, f # fs) (s, f\<lparr>fr_state := Reading r (bp_read M s, primask M s)\<rparr> # fs)"
| acquire: "fr_state f = Reading r saved \<Longrightarrow>
     sys_step M b ts (s, f # fs) (lock_acquire M b (ceil8 ts r) s, f\<lparr>fr_state := Body, fr_locks := (r, saved) # fr_locks f\<rparr> # fs)"
| release: "fr_state f = Body \<Longrightarrow> fr_locks f = (r, saved) # ls \<Longrightarrow>
     sys_step M b ts (s, f # fs) (lock_release M b (ceil8 ts r) saved s, f\<lparr>fr_locks := ls\<rparr> # fs)"
| finish: "fr_state f = Body \<Longrightarrow> fr_locks f = [] \<Longrightarrow> \<not> fr_thread f \<Longrightarrow>
     sys_step M b ts (s, f # fs) (run_end M (prio8 (fr_task f)) (fr_initial f) s, f\<lparr>fr_state := Returning\<rparr> # fs)"
| return: "fr_state f = Returning \<Longrightarrow> sys_step M b ts (s, f # fs) (s, fs)"

section \<open>The registers that the open locks account for\<close>

definition held :: "frame list \<Rightarrow> (ident \<times> 8 word \<times> bool) list" where
  "held fs = concat (map fr_locks fs)"

lemma held_simps [simp]: "held [] = []" "held (f # fs) = fr_locks f @ held fs"
  by (simp_all add: held_def)

text \<open>BASEPRI and PRIMASK under the open locks of these resources, innermost first.\<close>

fun regs_of :: "rtic_task list \<Rightarrow> 8 word \<Rightarrow> ident list \<Rightarrow> 8 word \<times> bool" where
  "regs_of ts b [] = (0, False)"
| "regs_of ts b (r # rs) =
     (case regs_of ts b rs of (bp, pm) \<Rightarrow>
       if ceil8 ts r = push_bit (unat b mod 8) 1 then (bp, True)
       else let h = cortex_logical2hw (ceil8 ts r) b in (if h \<noteq> 0 \<and> (bp = 0 \<or> h < bp) then h else bp, pm))"

definition regs :: "('s, 'r) cortex \<Rightarrow> 's \<Rightarrow> 8 word \<times> bool" where
  "regs M s = (bp_read M s, primask M s)"

text \<open>Every lock has read what the locks outside it account for.\<close>

fun saved_ok :: "rtic_task list \<Rightarrow> 8 word \<Rightarrow> (ident \<times> 8 word \<times> bool) list \<Rightarrow> bool" where
  "saved_ok ts b [] \<longleftrightarrow> True"
| "saved_ok ts b ((r, saved) # ls) \<longleftrightarrow> saved = regs_of ts b (map fst ls) \<and> saved_ok ts b ls"

lemma acquire_regs:
  assumes "documented M" and "regs M s = regs_of ts b rs"
  shows "regs M (lock_acquire M b (ceil8 ts r) s) = regs_of ts b (r # rs)"
  using assms documentedD(1-4) [OF assms(1)]
  by (cases "regs_of ts b rs") (auto simp: regs_def lock_acquire_def Let_def)

lemma release_regs:
  assumes "documented M" and "regs M s = regs_of ts b (r # rs)" and "saved = regs_of ts b rs"
  shows "regs M (lock_release M b (ceil8 ts r) saved s) = regs_of ts b rs"
  using assms documentedD(1-4) [OF assms(1)]
  by (cases "regs_of ts b rs") (auto simp: regs_def lock_release_def Let_def split: if_splits)


lemma ceiling_bit:
  assumes "prio_bits b"
  shows "(c :: 8 word) = push_bit (unat b mod 8) 1 \<longleftrightarrow> unat c = 2 ^ unat b"
proof -
  have "unat b < 8" using assms by (simp add: prio_bits_def)
  then have e: "(push_bit (unat b mod 8) 1 :: 8 word) = 2 ^ unat b" by simp
  show ?thesis unfolding e word_unat_eq_iff pow2_word8 [OF \<open>unat b < 8\<close>] by (rule refl)
qed

lemma hw_of_zero: "prio_bits b \<Longrightarrow> cortex_logical2hw 0 b = 0"
proof -
  assume b: "prio_bits b"
  have "2 ^ unat b * (2 :: nat) ^ (8 - unat b) = 2 ^ (unat b + (8 - unat b))" by (simp add: power_add)
  also have "unat b + (8 - unat b) = 8" using b by (auto simp: prio_bits_def)
  finally have "unat (cortex_logical2hw 0 b) = 0" using unat_hw [OF b, of 0] by simp
  then show ?thesis by (simp add: unat_eq_zero)
qed

lemma regs_of_mask:
  assumes b: "prio_bits b" and p: "1 \<le> unat p" "unat p \<le> 2 ^ unat b"
  shows "\<forall>r \<in> set rs. unat (ceil8 ts r) \<le> 2 ^ unat b \<Longrightarrow> r \<in> set rs \<Longrightarrow> p \<le> ceil8 ts r \<Longrightarrow>
    snd (regs_of ts b rs) \<or> (fst (regs_of ts b rs) \<noteq> 0 \<and> fst (regs_of ts b rs) \<le> cortex_logical2hw p b)"
proof (induction rs)
  case Nil
  then show ?case by simp
next
  case (Cons q rs)
  obtain bp pm where e: "regs_of ts b rs = (bp, pm)" by (cases "regs_of ts b rs")
  let ?c = "ceil8 ts q"
  let ?h = "cortex_logical2hw ?c b"
  show ?case
  proof (cases "unat ?c = 2 ^ unat b")
    case True
    then have "?c = push_bit (unat b mod 8) 1" by (simp only: ceiling_bit [OF b])
    then have "regs_of ts b (q # rs) = (bp, True)" by (simp only: regs_of.simps e prod.case simp_thms if_True)
    then show ?thesis by simp
  next
    case False
    then have "?c \<noteq> push_bit (unat b mod 8) 1" by (simp only: ceiling_bit [OF b] not_False_eq_True)
    then have n: "regs_of ts b (q # rs) = (if ?h \<noteq> 0 \<and> (bp = 0 \<or> ?h < bp) then ?h else bp, pm)"
      by (simp only: regs_of.simps e prod.case if_False Let_def)
    show ?thesis
    proof (cases "r = q")
      case True
      with Cons.prems(3) have c: "p \<le> ?c" by simp
      with p(1) have c1: "1 \<le> unat ?c" by (simp add: word_le_nat_alt)
      have c2: "unat ?c \<le> 2 ^ unat b" using Cons.prems(1) by simp
      have "?h \<noteq> 0" using hw_zero_iff [OF b c1 c2] False by simp
      moreover have "?h \<le> cortex_logical2hw p b" using hw_le_iff [OF b c1 c2 p] c by simp
      ultimately show ?thesis unfolding n by auto
    next
      case False
      with Cons have "snd (bp, pm) \<or> (fst (bp, pm) \<noteq> 0 \<and> fst (bp, pm) \<le> cortex_logical2hw p b)"
        unfolding e by simp
      then show ?thesis unfolding n by auto
    qed
  qed
qed

lemma regs_of_zero: "prio_bits b \<Longrightarrow> \<forall>r \<in> set rs. ceil8 ts r = 0 \<Longrightarrow> regs_of ts b rs = (0, False)"
proof (induction rs)
  case (Cons r rs)
  have "(0 :: 8 word) \<noteq> push_bit (unat b mod 8) 1"
    using ceiling_bit [OF Cons.prems(1), of 0] by simp
  with Cons show ?case by (simp add: hw_of_zero)
qed simp

text \<open>Priorities and ceilings of a task list within the device.\<close>

lemma small8:
  assumes "prio_bits b" and "unat (q :: prio) \<le> 2 ^ unat b"
  shows "unat (ucast q :: 8 word) = unat q"
proof -
  have "(2 :: nat) ^ unat b \<le> 2 ^ 7" using assms(1) by (intro power_increasing) (auto simp: prio_bits_def)
  with assms(2) have "unat q < 2 ^ 8" by simp
  then show ?thesis by (simp add: unsigned_ucast_eq take_bit_nat_eq_self)
qed

lemma ceiling_bound: "\<forall>t \<in> set ts. prio_ok b t \<Longrightarrow> unat (ceiling ts r) \<le> 2 ^ unat b"
proof -
  assume ok: "\<forall>t \<in> set ts. prio_ok b t"
  from ceiling_attained [of ts r] show ?thesis
  proof
    assume "\<exists>t \<in> set ts. r \<in> set (ta_shared (rt_args t)) \<and> ta_priority (rt_args t) = ceiling ts r"
    then obtain t where "t \<in> set ts" "ta_priority (rt_args t) = ceiling ts r" by blast
    with ok show ?thesis unfolding prio_ok_def by metis
  qed simp
qed

lemma ceil8_bound: "prio_bits b \<Longrightarrow> \<forall>t \<in> set ts. prio_ok b t \<Longrightarrow> unat (ceil8 ts r) \<le> 2 ^ unat b"
  using ceiling_bound small8 unfolding ceil8_def by metis

lemma prio8_bounds:
  "prio_bits b \<Longrightarrow> prio_ok b t \<Longrightarrow> 1 \<le> unat (prio8 t) \<and> unat (prio8 t) \<le> 2 ^ unat b \<and> unat (prio8 t) = unat (prio_of t)"
  using small8 [of b "prio_of t"] by (simp add: prio8_def prio_of_def prio_ok_def)

lemma listed_prio:
  assumes "prio_bits b" and "\<forall>t \<in> set ts. prio_ok b t" and "u \<in> set ts" and "r \<in> set (ta_shared (rt_args u))"
  shows "prio8 u \<le> ceil8 ts r"
proof -
  have "prio_of u \<le> ceiling ts r" unfolding prio_of_def by (rule ceiling_ge [OF assms(3,4)])
  moreover have "unat (prio8 u) = unat (prio_of u)" using prio8_bounds [OF assms(1) bspec [OF assms(2,3)]] by blast
  moreover have "unat (ceil8 ts r) = unat (ceiling ts r)"
    unfolding ceil8_def by (rule small8 [OF assms(1) ceiling_bound [OF assms(2)]])
  ultimately show ?thesis by (simp add: word_le_nat_alt)
qed

section \<open>The invariant\<close>

text \<open>A resource that the code running in a handler may lock; the idle task is in no list of tasks.\<close>

definition may_lock :: "rtic_task list \<Rightarrow> frame \<Rightarrow> ident \<Rightarrow> bool" where
  "may_lock ts f r \<longleftrightarrow> fr_thread f \<or> (\<exists>u \<in> set ts. prio_of u = prio_of (fr_task f) \<and> r \<in> set (ta_shared (rt_args u)))"

text \<open>A frame over the open locks below it: they are of lower ceilings.\<close>

definition frame_ok :: "rtic_task list \<Rightarrow> 8 word \<Rightarrow> frame \<Rightarrow> frame list \<Rightarrow> bool" where
  "frame_ok ts b f fs \<longleftrightarrow>
     (if fr_thread f then fs = [] \<and> fr_state f \<notin> {Entering, Returning}
      else fr_task f \<in> set ts \<and> active_prio fs < fr_prio f \<and> (\<forall>r \<in> fst ` set (held fs). ceil8 ts r < prio8 (fr_task f))) \<and>
     (\<not> fr_thread f \<and> fr_state f \<notin> {Entering, Returning} \<longrightarrow> fr_initial f = fst (regs_of ts b (map fst (held fs)))) \<and>
     (fr_state f \<in> {Entering, Returning} \<longrightarrow> fr_locks f = []) \<and>
     (\<forall>r saved. fr_state f = Reading r saved \<longrightarrow> saved = regs_of ts b (map fst (fr_locks f @ held fs)) \<and>
        may_lock ts f r \<and> r \<notin> fst ` set (fr_locks f)) \<and>
     distinct (map fst (fr_locks f)) \<and> (\<forall>r \<in> fst ` set (fr_locks f). may_lock ts f r)"

fun frames_ok :: "rtic_task list \<Rightarrow> 8 word \<Rightarrow> frame list \<Rightarrow> bool" where
  "frames_ok ts b [] \<longleftrightarrow> True"
| "frames_ok ts b (f # fs) \<longleftrightarrow> frame_ok ts b f fs \<and> frames_ok ts b fs"

definition sys_inv :: "('s, 'r) cortex \<Rightarrow> 8 word \<Rightarrow> rtic_task list \<Rightarrow> 's \<times> frame list \<Rightarrow> bool" where
  "sys_inv M b ts x \<longleftrightarrow> frames_ok ts b (snd x) \<and> saved_ok ts b (held (snd x)) \<and>
     regs M (fst x) = regs_of ts b (map fst (held (snd x)))"

lemma frame_okD:
  assumes "frame_ok ts b f fs"
  shows "\<not> fr_thread f \<Longrightarrow> r \<in> fst ` set (held fs) \<Longrightarrow> ceil8 ts r < prio8 (fr_task f)"
    and "r \<in> fst ` set (fr_locks f) \<Longrightarrow> may_lock ts f r"
    and "fr_state f \<in> {Entering, Returning} \<Longrightarrow> fr_locks f = []"
    and "distinct (map fst (fr_locks f))"
  using assms unfolding frame_ok_def by metis+

lemma frame_updates:
  "fr_prio (f\<lparr>fr_state := st\<rparr>) = fr_prio f" "fr_prio (f\<lparr>fr_initial := v\<rparr>) = fr_prio f"
  "fr_prio (f\<lparr>fr_locks := ls\<rparr>) = fr_prio f"
  "may_lock ts (f\<lparr>fr_state := st\<rparr>) r = may_lock ts f r" "may_lock ts (f\<lparr>fr_initial := v\<rparr>) r = may_lock ts f r"
  "may_lock ts (f\<lparr>fr_locks := ls\<rparr>) r = may_lock ts f r"
  by (simp_all add: fr_prio_def may_lock_def)

lemma sys_inv_step:
  assumes D: "documented M" and b: "prio_bits b" and ok: "\<forall>t \<in> set ts. prio_ok b t"
    and st: "sys_step M b ts x y" and i: "sys_inv M b ts x"
  shows "sys_inv M b ts y"
  using st i
proof cases
  case (preempt t fs s)
  have m: "\<not> masked M s (cortex_logical2hw (prio8 t) b)" by fact
  have "ceil8 ts r < prio8 t" if r: "r \<in> fst ` set (held fs)" for r
  proof (rule ccontr)
    assume "\<not> ceil8 ts r < prio8 t"
    then have "prio8 t \<le> ceil8 ts r" by simp
    moreover have "r \<in> set (map fst (held fs))" using r by simp
    moreover have "1 \<le> unat (prio8 t)" "unat (prio8 t) \<le> 2 ^ unat b"
      using prio8_bounds [OF b bspec [OF ok preempt(3)]] by blast+
    ultimately have "snd (regs M s) \<or> (fst (regs M s) \<noteq> 0 \<and> fst (regs M s) \<le> cortex_logical2hw (prio8 t) b)"
      using regs_of_mask [OF b, of "prio8 t" "map fst (held fs)" ts r] ceil8_bound [OF b ok] i preempt(1) by (simp add: sys_inv_def)
    with m show False by (simp add: masked_def regs_def)
  qed
  then show ?thesis using i preempt by (simp add: sys_inv_def frame_ok_def handler_frame_def fr_prio_def)
next
  case (start f s fs)
  have f: "frame_ok ts b f fs" "regs M s = regs_of ts b (map fst (fr_locks f @ held fs))"
    using i start(1) by (simp_all add: sys_inv_def)
  have l: "fr_locks f = []" "\<not> fr_thread f" using f(1) start(3) by (auto simp: frame_ok_def split: if_splits)
  have "bp_read M s = fst (regs_of ts b (map fst (held fs)))" using f(2) l(1) by (simp add: regs_def prod_eq_iff)
  with f(1) l have "frame_ok ts b (f\<lparr>fr_state := Body, fr_initial := bp_read M s\<rparr>) fs"
    by (simp add: frame_ok_def frame_updates)
  then show ?thesis using i start by (simp add: sys_inv_def)
next
  case (read f u r s fs)
  have f: "frame_ok ts b f fs" "regs M s = regs_of ts b (map fst (fr_locks f @ held fs))"
    using i read(1) by (simp_all add: sys_inv_def)
  have u: "may_lock ts f r"
    using read(4,5) f(1) by (auto simp: runs_in_def may_lock_def frame_ok_def split: if_splits)
  have "(bp_read M s, primask M s) = regs_of ts b (map fst (fr_locks f @ held fs))" using f(2) by (simp add: regs_def)
  with f(1) u read(3,6) have "frame_ok ts b (f\<lparr>fr_state := Reading r (bp_read M s, primask M s)\<rparr>) fs"
    by (simp add: frame_ok_def frame_updates)
  then show ?thesis using i read by (simp add: sys_inv_def)
next
  case (acquire f r saved s fs)
  have "regs M (lock_acquire M b (ceil8 ts r) s) = regs_of ts b (r # map fst (held (f # fs)))"
    by (rule acquire_regs [OF D]) (use i acquire(1) in \<open>simp add: sys_inv_def\<close>)
  moreover have f: "frame_ok ts b f fs" using i acquire(1) by (simp add: sys_inv_def)
  then have r: "saved = regs_of ts b (map fst (fr_locks f @ held fs))" "may_lock ts f r" "r \<notin> fst ` set (fr_locks f)"
    using acquire(3) unfolding frame_ok_def by blast+
  moreover have "frame_ok ts b (f\<lparr>fr_state := Body, fr_locks := (r, saved) # fr_locks f\<rparr>) fs"
    using f r(2,3) acquire(3) by (auto simp: frame_ok_def frame_updates)
  ultimately show ?thesis using i acquire(1,2) by (simp add: sys_inv_def del: regs_of.simps)
next
  case (release f r saved ls s fs)
  have "regs M (lock_release M b (ceil8 ts r) saved s) = regs_of ts b (map fst (ls @ held fs))"
    by (rule release_regs [OF D]) (use i release(1,4) in \<open>simp_all add: sys_inv_def\<close>)
  then show ?thesis using i release by (simp add: sys_inv_def frame_ok_def frame_updates)
next
  case (finish f s fs)
  let ?p = "prio8 (fr_task f)"
  have f: "frame_ok ts b f fs" "regs M s = regs_of ts b (map fst (held fs))" using i finish by (simp_all add: sys_inv_def)
  have "(if ?p = 1 then 0 else fr_initial f) = bp_read M s"
  proof (cases "?p = 1")
    case True
    have "\<forall>r \<in> set (map fst (held fs)). ceil8 ts r = 0"
      using f(1) finish(5) True by (auto simp: frame_ok_def word_less_nat_alt unat_eq_zero)
    from regs_of_zero [OF b this] f(2) True show ?thesis by (simp add: regs_def)
  next
    case False
    then show ?thesis using f finish(3,5) by (simp add: frame_ok_def regs_def prod_eq_iff)
  qed
  then have "regs M (run_end M ?p (fr_initial f) s) = regs M s"
    using documentedD(1) [OF D] by (simp add: regs_def run_end_def)
  then show ?thesis using i finish by (simp add: sys_inv_def frame_ok_def frame_updates)
next
  case (return f s fs)
  have "frame_ok ts b f fs" using i return(1) by (simp add: sys_inv_def)
  from frame_okD(3) [OF this] have "fr_locks f = []" using return(3) by simp
  then show ?thesis using i return(1,2) by (simp add: sys_inv_def)
qed

lemma sys_inv_reachable:
  assumes "documented M" and "prio_bits b" and "\<forall>t \<in> set ts. prio_ok b t"
    and "(sys_step M b ts)\<^sup>*\<^sup>* x y" and "sys_inv M b ts x"
  shows "sys_inv M b ts y"
  using assms(4,5) by (induction rule: rtranclp_induct) (auto intro: sys_inv_step [OF assms(1-3)])

section \<open>Mutual exclusion\<close>

text \<open>What the handlers on the stack hold, and what the one on top may lock, are different resources.\<close>

lemma may_lock_prio:
  assumes "prio_bits b" and "\<forall>t \<in> set ts. prio_ok b t" and "frame_ok ts b f fs" and "\<not> fr_thread f" and "may_lock ts f r"
  shows "prio8 (fr_task f) \<le> ceil8 ts r"
proof -
  obtain u where u: "u \<in> set ts" "prio_of u = prio_of (fr_task f)" "r \<in> set (ta_shared (rt_args u))"
    using assms(4,5) by (auto simp: may_lock_def)
  have "prio8 u = prio8 (fr_task f)" using u(2) by (simp add: prio8_def)
  with listed_prio [OF assms(1,2) u(1,3)] show ?thesis by simp
qed

lemma frame_not_held:
  assumes "prio_bits b" and "\<forall>t \<in> set ts. prio_ok b t" and "frame_ok ts b f fs" and "may_lock ts f r"
  shows "r \<notin> fst ` set (held fs)"
proof (cases "fr_thread f")
  case True
  then show ?thesis using assms(3) by (simp add: frame_ok_def)
next
  case False
  show ?thesis
  proof
    assume "r \<in> fst ` set (held fs)"
    from frame_okD(1) [OF assms(3) False this] may_lock_prio [OF assms(1-3) False assms(4)] show False by simp
  qed
qed

lemma held_distinct:
  "prio_bits b \<Longrightarrow> \<forall>t \<in> set ts. prio_ok b t \<Longrightarrow> frames_ok ts b fs \<Longrightarrow> distinct (map fst (held fs))"
proof (induction fs)
  case (Cons f fs)
  have f: "frame_ok ts b f fs" using Cons.prems(3) by simp
  have "r \<notin> fst ` set (held fs)" if "r \<in> fst ` set (fr_locks f)" for r
    by (rule frame_not_held [OF Cons.prems(1,2) f frame_okD(2) [OF f that]])
  then have "fst ` set (fr_locks f) \<inter> fst ` set (held fs) = {}" by blast
  moreover have "distinct (map fst (fr_locks f))" by (rule frame_okD(4) [OF f])
  moreover have "distinct (map fst (held fs))" using Cons by simp
  ultimately show ?case by simp
qed simp

text \<open>The handlers on the stack are of strictly decreasing priorities, the idle task at the bottom.\<close>

lemma stack_sorted: "frames_ok ts b fs \<Longrightarrow> sorted_wrt (>) (map fr_prio fs)"
proof (induction fs)
  case (Cons f fs)
  have "fr_prio g < fr_prio f" if "g \<in> set fs" for g
  proof (cases fs)
    case (Cons h hs)
    then have "fr_prio h < fr_prio f" using Cons.prems by (simp add: frame_ok_def active_prio_def split: if_splits)
    moreover have "fr_prio g \<le> fr_prio h" using Cons.IH Cons.prems that Cons by auto
    ultimately show ?thesis by simp
  qed (use that in simp)
  with Cons show ?case by simp
qed simp

section \<open>Progress\<close>

text \<open>Without a further interrupt: the steps of the handler on top.\<close>

definition top_step :: "('s, 'r) cortex \<Rightarrow> 8 word \<Rightarrow> rtic_task list \<Rightarrow> 's \<times> frame list \<Rightarrow> 's \<times> frame list \<Rightarrow> bool" where
  "top_step M b ts x y \<longleftrightarrow> sys_step M b ts x y \<and> length (snd y) \<le> length (snd x)"

definition quiet :: "frame list \<Rightarrow> bool" where
  "quiet fs \<longleftrightarrow> (\<forall>f \<in> set fs. fr_thread f \<and> fr_state f = Body \<and> fr_locks f = [])"

lemma top_step_intros:
  "fr_state f = Entering \<Longrightarrow> top_step M b ts (s, f # fs) (s, f\<lparr>fr_state := Body, fr_initial := bp_read M s\<rparr> # fs)"
  "fr_state f = Reading r saved \<Longrightarrow> top_step M b ts (s, f # fs)
     (lock_acquire M b (ceil8 ts r) s, f\<lparr>fr_state := Body, fr_locks := (r, saved) # fr_locks f\<rparr> # fs)"
  "fr_state f = Body \<Longrightarrow> fr_locks f = (r, saved) # ls \<Longrightarrow>
     top_step M b ts (s, f # fs) (lock_release M b (ceil8 ts r) saved s, f\<lparr>fr_locks := ls\<rparr> # fs)"
  "fr_state f = Body \<Longrightarrow> fr_locks f = [] \<Longrightarrow> \<not> fr_thread f \<Longrightarrow>
     top_step M b ts (s, f # fs) (run_end M (prio8 (fr_task f)) (fr_initial f) s, f\<lparr>fr_state := Returning\<rparr> # fs)"
  "fr_state f = Returning \<Longrightarrow> top_step M b ts (s, f # fs) (s, fs)"
  by (simp_all add: top_step_def sys_step.intros)

lemma locks_released:
  "fr_state f = Body \<Longrightarrow> \<exists>s'. (top_step M b ts)\<^sup>*\<^sup>* (s, f # fs) (s', f\<lparr>fr_locks := []\<rparr> # fs)"
proof (induction "fr_locks f" arbitrary: f s)
  case Nil
  then have "f = f\<lparr>fr_locks := []\<rparr>" by simp
  then show ?case by (metis rtranclp.rtrancl_refl)
next
  case (Cons l ls)
  obtain r saved where l: "l = (r, saved)" by (cases l)
  let ?f = "f\<lparr>fr_locks := ls\<rparr>"
  have "top_step M b ts (s, f # fs) (lock_release M b (ceil8 ts r) saved s, ?f # fs)"
    by (rule top_step_intros(3)) (use Cons l in simp_all)
  moreover obtain s' where "(top_step M b ts)\<^sup>*\<^sup>* (lock_release M b (ceil8 ts r) saved s, ?f # fs) (s', ?f\<lparr>fr_locks := []\<rparr> # fs)"
    using Cons.hyps(1) [of ?f "lock_release M b (ceil8 ts r) saved s"] Cons.prems by auto
  ultimately show ?case by (auto intro: converse_rtranclp_into_rtranclp)
qed

lemma body_completes:
  assumes "fr_state f \<noteq> Returning"
  shows "\<exists>s' f'. (top_step M b ts)\<^sup>*\<^sup>* (s, f # fs) (s', f' # fs) \<and> fr_state f' = Body \<and> fr_locks f' = [] \<and>
    fr_thread f' = fr_thread f"
proof -
  have "\<exists>s' f'. (top_step M b ts)\<^sup>*\<^sup>* (s, f # fs) (s', f' # fs) \<and> fr_state f' = Body \<and> fr_thread f' = fr_thread f"
  proof (cases "fr_state f")
    case Entering
    from r_into_rtranclp [of "top_step M b ts", OF top_step_intros(1) [OF this]] show ?thesis by fastforce
  next
    case (Reading r saved)
    from r_into_rtranclp [of "top_step M b ts", OF top_step_intros(2) [OF this]] show ?thesis by fastforce
  qed (use assms in blast)+
  then obtain s1 f1 where f1: "(top_step M b ts)\<^sup>*\<^sup>* (s, f # fs) (s1, f1 # fs)" "fr_state f1 = Body" "fr_thread f1 = fr_thread f"
    by blast
  obtain s2 where "(top_step M b ts)\<^sup>*\<^sup>* (s1, f1 # fs) (s2, f1\<lparr>fr_locks := []\<rparr> # fs)" 
    using locks_released [OF f1(2), of M b ts s1 fs] by blast
  with f1(1) have "(top_step M b ts)\<^sup>*\<^sup>* (s, f # fs) (s2, f1\<lparr>fr_locks := []\<rparr> # fs)" by (rule rtranclp_trans)
  then show ?thesis using f1(2,3) by fastforce
qed

lemma stack_empties:
  "frames_ok ts b fs \<Longrightarrow> \<exists>s' fs'. (top_step M b ts)\<^sup>*\<^sup>* (s, fs) (s', fs') \<and> quiet fs'"
proof (induction fs arbitrary: s)
  case Nil
  have "quiet []" by (simp add: quiet_def)
  then show ?case by blast
next
  case (Cons f fs)
  have "\<exists>s' f'. (top_step M b ts)\<^sup>*\<^sup>* (s, f # fs) (s', f' # fs) \<and>
      (fr_state f' = Returning \<or> fr_thread f' \<and> fr_state f' = Body \<and> fr_locks f' = [] \<and> fs = [])"
  proof (cases "fr_state f = Returning")
    case False
    then obtain s' f' where f': "(top_step M b ts)\<^sup>*\<^sup>* (s, f # fs) (s', f' # fs)" "fr_state f' = Body" "fr_locks f' = []"
        "fr_thread f' = fr_thread f" using body_completes [OF False, of M b ts s fs] by blast
    show ?thesis
    proof (cases "fr_thread f")
      case True
      then have "fs = []" using Cons.prems by (simp add: frame_ok_def)
      with True f' show ?thesis by blast
    next
      case False
      with f' have "top_step M b ts (s', f' # fs)
          (run_end M (prio8 (fr_task f')) (fr_initial f') s', f'\<lparr>fr_state := Returning\<rparr> # fs)"
        by (intro top_step_intros(4)) simp_all
      with f'(1) have "(top_step M b ts)\<^sup>*\<^sup>* (s, f # fs)
          (run_end M (prio8 (fr_task f')) (fr_initial f') s', f'\<lparr>fr_state := Returning\<rparr> # fs)" by (rule rtranclp.rtrancl_into_rtrancl)
      then show ?thesis by fastforce
    qed
  qed blast
  then obtain s' f' where f': "(top_step M b ts)\<^sup>*\<^sup>* (s, f # fs) (s', f' # fs)"
      "fr_state f' = Returning \<or> fr_thread f' \<and> fr_state f' = Body \<and> fr_locks f' = [] \<and> fs = []" by blast
  show ?case
  proof (cases "fr_state f' = Returning")
    case True
    with f'(1) have "(top_step M b ts)\<^sup>*\<^sup>* (s, f # fs) (s', fs)"
      by (auto intro: rtranclp.rtrancl_into_rtrancl top_step_intros(5))
    with Cons.IH [of s'] Cons.prems show ?thesis by (auto intro: rtranclp_trans)
  next
    case False
    with f'(2) have "quiet (f' # fs)" by (simp add: quiet_def)
    with f'(1) show ?thesis by blast
  qed
qed

section \<open>The properties\<close>

text \<open>The registers mask the interrupts that an open lock has to keep out, and no others.\<close>

lemma regs_of_mask_only:
  assumes b: "prio_bits b" and p: "1 \<le> unat p" "unat p \<le> 2 ^ unat b"
  shows "\<forall>r \<in> set rs. unat (ceil8 ts r) \<le> 2 ^ unat b \<Longrightarrow>
    snd (regs_of ts b rs) \<or> (fst (regs_of ts b rs) \<noteq> 0 \<and> fst (regs_of ts b rs) \<le> cortex_logical2hw p b) \<Longrightarrow>
    \<exists>r \<in> set rs. p \<le> ceil8 ts r"
proof (induction rs)
  case Nil
  then show ?case by simp
next
  case (Cons q rs)
  obtain bp pm where e: "regs_of ts b rs = (bp, pm)" by (cases "regs_of ts b rs")
  let ?c = "ceil8 ts q"
  let ?h = "cortex_logical2hw ?c b"
  have c2: "unat ?c \<le> 2 ^ unat b" using Cons.prems(1) by simp
  show ?case
  proof (rule ccontr)
    assume n: "\<not> ?thesis"
    then have q: "?c < p" by (simp add: not_le)
    then have "unat ?c \<noteq> 2 ^ unat b" using p(2) by (simp add: word_less_nat_alt)
    then have "?c \<noteq> push_bit (unat b mod 8) 1" by (simp only: ceiling_bit [OF b] not_False_eq_True)
    then have r: "regs_of ts b (q # rs) = (if ?h \<noteq> 0 \<and> (bp = 0 \<or> ?h < bp) then ?h else bp, pm)"
      by (simp only: regs_of.simps e prod.case if_False Let_def)
    have rest: "\<not> (pm \<or> (bp \<noteq> 0 \<and> bp \<le> cortex_logical2hw p b))" using Cons.IH Cons.prems(1) n e by auto
    have "\<not> (?h \<noteq> 0 \<and> ?h \<le> cortex_logical2hw p b)"
    proof (cases "?c = 0")
      case True
      then show ?thesis by (simp add: hw_of_zero [OF b])
    next
      case False
      then have "1 \<le> unat ?c" by (simp add: Suc_le_eq unat_gt_0)
      from hw_le_iff [OF b this c2 p] q show ?thesis by (simp add: not_le)
    qed
    with rest Cons.prems(2) show False unfolding r by (auto split: if_splits)
  qed
qed

lemma masked_iff_held:
  assumes "prio_bits b" and "\<forall>t \<in> set ts. prio_ok b t" and "sys_inv M b ts (s, fs)" and "t \<in> set ts"
  shows "masked M s (cortex_logical2hw (prio8 t) b) \<longleftrightarrow> (\<exists>r \<in> fst ` set (held fs). prio8 t \<le> ceil8 ts r)"
proof -
  have p: "1 \<le> unat (prio8 t)" "unat (prio8 t) \<le> 2 ^ unat b"
    using prio8_bounds [OF assms(1) bspec [OF assms(2,4)]] by blast+
  have m: "masked M s h \<longleftrightarrow> snd (regs M s) \<or> (fst (regs M s) \<noteq> 0 \<and> fst (regs M s) \<le> h)" for h
    by (simp add: masked_def regs_def)
  have "regs M s = regs_of ts b (map fst (held fs))" using assms(3) by (simp add: sys_inv_def)
  with regs_of_mask [OF assms(1) p] regs_of_mask_only [OF assms(1) p] ceil8_bound [OF assms(1,2)] show ?thesis
    unfolding m by (metis set_map)
qed

lemma sys_inv_start: "regs M s = (0, False) \<Longrightarrow> fs = [] \<or> fs = [idle_frame i] \<Longrightarrow> sys_inv M b ts (s, fs)"
  by (auto simp: sys_inv_def idle_frame_def frame_ok_def)

text \<open>Two tasks of priorities 2 and 3 that share a resource; the first is taken and locks it.\<close>

definition demo_pair :: "rtic_task list" where
  "demo_pair = [demo_task ''A'' 2 [''r''], demo_task ''B'' 3 [''r'']]"

lemma demo_pair_ok: "prio_bits 4" "\<forall>t \<in> set demo_pair. prio_ok 4 t" "regs demo_core (0, False) = (0, False)"
  by (simp_all add: prio_bits_def demo_pair_def prio_ok_def demo_task_def regs_def demo_core_def)

lemma demo_pair_reach:
  "\<exists>s fs. (sys_step (demo_core :: (_, unit) cortex) 4 demo_pair)\<^sup>*\<^sup>* ((0, False), []) (s, fs) \<and> map fst (held fs) = [''r'']"
proof -
  let ?S = "sys_step (demo_core :: (_, unit) cortex) 4 demo_pair"
  let ?A = "demo_task ''A'' 2 [''r'']"
  let ?f = "(handler_frame ?A)\<lparr>fr_state := Body, fr_initial := 0\<rparr>"
  let ?g = "?f\<lparr>fr_state := Reading ''r'' (0, False)\<rparr>"
  let ?h = "?g\<lparr>fr_state := Body, fr_locks := [(''r'', (0, False))]\<rparr>"
  let ?s = "lock_acquire (demo_core :: (_, unit) cortex) 4 (ceil8 demo_pair ''r'') (0, False)"
  have "?S\<^sup>*\<^sup>* ((0, False), []) ((0, False), [handler_frame ?A])"
    by (rule r_into_rtranclp, rule preempt)
      (simp_all add: demo_pair_def demo_task_def active_prio_def prio_of_def masked_def demo_core_def)
  moreover have "?S ((0, False), [handler_frame ?A]) ((0, False), [?f])"
    using start [of "handler_frame ?A" "demo_core :: (_, unit) cortex" 4 demo_pair "(0, False)" "[]"]
    by (simp add: handler_frame_def demo_core_def)
  ultimately have "?S\<^sup>*\<^sup>* ((0, False), []) ((0, False), [?f])" by (rule rtranclp.rtrancl_into_rtrancl)
  moreover have "?S ((0, False), [?f]) ((0, False), [?g])"
    using read [of ?f demo_pair ?A "''r''" "demo_core :: (_, unit) cortex" 4 "(0, False)" "[]"]
    by (simp add: handler_frame_def runs_in_def demo_task_def demo_core_def)
  ultimately have "?S\<^sup>*\<^sup>* ((0, False), []) ((0, False), [?g])" by (rule rtranclp.rtrancl_into_rtrancl)
  moreover have "?S ((0, False), [?g]) (?s, [?h])"
    using acquire [of ?g "''r''" "(0, False)" "demo_core :: (_, unit) cortex" 4 demo_pair "(0, False)" "[]"]
    by (simp add: handler_frame_def)
  ultimately have "?S\<^sup>*\<^sup>* ((0, False), []) (?s, [?h])" by (rule rtranclp.rtrancl_into_rtrancl)
  moreover have "map fst (held [?h]) = [''r'']" by (simp add: handler_frame_def)
  ultimately show ?thesis by (intro exI conjI)
qed

text \<open>
  (C18) The tasks of a core under BASEPRI, from a quiet start and for any sequence of interrupts, also between the accesses
  that \<open>lock\<close> and \<open>run\<close> make to the registers: no two of them are ever in critical sections of the same resource; the
  handlers on the stack are of strictly decreasing priorities, so at most one of each; and exactly the interrupts of the
  tasks are masked whose priority is at most the ceiling of a resource that is locked, none when no resource is.
\<close>

theorem srp_mutual_exclusion:
  assumes "documented M" and "prio_bits b" and "\<forall>t \<in> set ts. prio_ok b t"
    and "regs M s0 = (0, False)" and "fs0 = [] \<or> fs0 = [idle_frame i]"
    and "(sys_step M b ts)\<^sup>*\<^sup>* (s0, fs0) (s, fs)"
  shows "distinct (map fst (held fs)) \<and> sorted_wrt (>) (map fr_prio fs) \<and>
    (\<forall>t \<in> set ts. masked M s (cortex_logical2hw (prio8 t) b) \<longleftrightarrow> (\<exists>r \<in> fst ` set (held fs). prio8 t \<le> ceil8 ts r))"
proof -
  have i: "sys_inv M b ts (s, fs)"
    by (rule sys_inv_reachable [OF assms(1-3,6) sys_inv_start [OF assms(4,5)]])
  then have "frames_ok ts b fs" by (simp add: sys_inv_def)
  then show ?thesis
    using held_distinct [OF assms(2,3)] stack_sorted masked_iff_held [OF assms(2,3) i] by blast
qed

theorem srp_mutual_exclusion_witness:
  "\<exists>s fs. (sys_step (demo_core :: (_, unit) cortex) 4 demo_pair)\<^sup>*\<^sup>* ((0, False), []) (s, fs) \<and> map fst (held fs) = [''r''] \<and>
    masked (demo_core :: (_, unit) cortex) s (cortex_logical2hw (prio8 (demo_task ''B'' 3 [''r''])) 4)"
proof -
  let ?B = "demo_task ''B'' 3 [''r'']"
  obtain s fs where r: "(sys_step (demo_core :: (_, unit) cortex) 4 demo_pair)\<^sup>*\<^sup>* ((0, False), []) (s, fs)"
      "map fst (held fs) = [''r'']" by (rule exE [OF demo_pair_reach], elim exE conjE)
  have B: "?B \<in> set demo_pair" "''r'' \<in> set (ta_shared (rt_args ?B))" by (simp_all add: demo_pair_def demo_task_def)
  have "''r'' \<in> fst ` set (held fs)" using arg_cong [OF r(2), of set] by simp
  moreover have "prio8 ?B \<le> ceil8 demo_pair ''r''" by (rule listed_prio [OF demo_pair_ok(1,2) B])
  ultimately have "masked (demo_core :: (_, unit) cortex) s (cortex_logical2hw (prio8 ?B) 4)"
    using srp_mutual_exclusion [OF demo_core_documented demo_pair_ok disjI1 [OF refl] r(1)] B(1) by blast
  with r show ?thesis by (intro exI conjI)
qed

text \<open>
  (C19) No task waits for a resource: from every state that a core reaches, the handlers on the stack can always run to their
  ends by their own steps, each lock being entered without waiting, until only the idle task is left; BASEPRI and PRIMASK
  are then what they were at the start, however the critical sections were nested and preempted.
\<close>

theorem srp_no_deadlock:
  assumes "documented M" and "prio_bits b" and "\<forall>t \<in> set ts. prio_ok b t"
    and "regs M s0 = (0, False)" and "fs0 = [] \<or> fs0 = [idle_frame i]"
    and "(sys_step M b ts)\<^sup>*\<^sup>* (s0, fs0) (s, fs)"
  shows "\<exists>s' fs'. (top_step M b ts)\<^sup>*\<^sup>* (s, fs) (s', fs') \<and> quiet fs' \<and> regs M s' = (0, False)"
proof -
  have i: "sys_inv M b ts (s, fs)"
    by (rule sys_inv_reachable [OF assms(1-3,6) sys_inv_start [OF assms(4,5)]])
  then obtain s' fs' where f: "(top_step M b ts)\<^sup>*\<^sup>* (s, fs) (s', fs')" "quiet fs'"
    using stack_empties [of ts b fs M s] by (auto simp: sys_inv_def)
  have "(sys_step M b ts)\<^sup>*\<^sup>* (s, fs) (s', fs')"
    using f(1) by (rule mono_rtranclp [rule_format, rotated]) (simp add: top_step_def)
  then have "sys_inv M b ts (s', fs')" by (rule sys_inv_reachable [OF assms(1-3) _ i])
  moreover have "held fs' = []" using f(2) by (auto simp: quiet_def held_def)
  ultimately show ?thesis using f by (auto simp: sys_inv_def)
qed

theorem srp_no_deadlock_witness:
  "\<exists>s fs s' fs'. map fst (held fs) = [''r''] \<and>
    (top_step (demo_core :: (_, unit) cortex) 4 demo_pair)\<^sup>*\<^sup>* (s, fs) (s', fs') \<and> quiet fs' \<and>
    regs (demo_core :: (_, unit) cortex) s' = (0, False)"
proof -
  obtain s fs where r: "(sys_step (demo_core :: (_, unit) cortex) 4 demo_pair)\<^sup>*\<^sup>* ((0, False), []) (s, fs)"
      "map fst (held fs) = [''r'']" by (rule exE [OF demo_pair_reach], elim exE conjE)
  show ?thesis
    by (rule exE [OF srp_no_deadlock [OF demo_core_documented demo_pair_ok disjI1 [OF refl] r(1)]], elim exE conjE,
      intro exI conjI, rule r(2))
qed

end
