(* ===== verification/DetectAt.thy ===== *)
theory DetectAt
  imports Detect
begin

text \<open>
  The functions of \<open>rticx-expand/src/detect.rs\<close> as they are written: on the bytes of the whole text and an index that the
  loops advance.  \<open>Scanner\<close> and \<open>Detect\<close> have them on the suffix of the text at the index, which the inductions of the other
  theories use; here the two are shown to agree, and the properties of the search are stated of the functions of the source.
\<close>

section \<open>Literals\<close>

text \<open>A loop that advances an index while the byte there satisfies a test.\<close>

function skip_while :: "(char \<Rightarrow> bool) \<Rightarrow> string \<Rightarrow> nat \<Rightarrow> nat" where
  "skip_while P bs i = (if i < length bs \<and> P (bs ! i) then skip_while P bs (i + 1) else i)"
  by auto
termination by (relation "measure (\<lambda>(P, bs, i). length bs - i)") auto

function quoted_scan :: "string \<Rightarrow> nat \<Rightarrow> nat option" where
  "quoted_scan bs i =
     (if i < length bs then
        (if bs ! i = backslash then quoted_scan bs (i + 2)
         else if bs ! i = dquote then Some i
         else quoted_scan bs (i + 1))
      else None)"
  by auto
termination by (relation "measure (\<lambda>(bs, i). length bs - i)") auto

definition quoted_end_at :: "string \<Rightarrow> nat \<Rightarrow> nat option" where
  "quoted_end_at bs open_pos = quoted_scan bs (open_pos + 1)"

definition hashes_follow :: "string \<Rightarrow> nat \<Rightarrow> nat \<Rightarrow> bool" where
  "hashes_follow bs i hashes = list_all (\<lambda>k. at bs (i + 1 + k) = Some (CHR ''#'')) [0..<hashes]"

function raw_end_at :: "string \<Rightarrow> nat \<Rightarrow> nat \<Rightarrow> nat option" where
  "raw_end_at bs i hashes =
     (if i < length bs then
        (if bs ! i = dquote \<and> hashes_follow bs i hashes then Some i else raw_end_at bs (i + 1) hashes)
      else None)"
  by auto
termination by (relation "measure (\<lambda>(bs, i, hashes). length bs - i)") auto

text \<open>The raw strings in \<open>literal_len\<close>; the hashes start at \<open>j0\<close>.\<close>

definition raw_len_at :: "string \<Rightarrow> nat \<Rightarrow> nat \<Rightarrow> nat" where
  "raw_len_at bs i j0 =
     (let j = skip_while (\<lambda>c. c = CHR ''#'') bs j0; hashes = j - j0
      in if at bs j = Some dquote then (case raw_end_at bs (j + 1) hashes of None \<Rightarrow> 1 | Some e \<Rightarrow> e - i + 1) else 1)"

function comment_scan :: "string \<Rightarrow> nat \<Rightarrow> nat" where
  "comment_scan bs j =
     (if j < length bs \<and> \<not> (bs ! j = CHR ''*'' \<and> at bs (j + 1) = Some (CHR ''/'')) then comment_scan bs (j + 1) else j)"
  by auto
termination by (relation "measure (\<lambda>(bs, j). length bs - j)") auto

declare skip_while.simps [simp del] quoted_scan.simps [simp del] raw_end_at.simps [simp del] comment_scan.simps [simp del]

definition literal_len_at :: "string \<Rightarrow> nat \<Rightarrow> nat" where
  "literal_len_at bs i =
     (let b = bs ! i in
      if b = dquote then (case quoted_end_at bs i of None \<Rightarrow> 1 | Some e \<Rightarrow> e - i + 1)
      else if b = squote then
        (if at bs (i + 1) = Some backslash then
           (let j = skip_while (\<lambda>c. c \<noteq> squote) bs (i + 2) in if j < length bs then j - i + 1 else 1)
         else if at bs (i + 1) \<noteq> None \<and> at bs (i + 1) \<noteq> Some squote \<and> at bs (i + 2) = Some squote then 3
         else 1)
      else if b = CHR ''r'' then raw_len_at bs i (i + 1)
      else if (b = CHR ''b'' \<or> b = CHR ''c'') \<and> at bs (i + 1) = Some dquote then
        (case quoted_end_at bs (i + 1) of None \<Rightarrow> 1 | Some e \<Rightarrow> e - i + 1)
      else if (b = CHR ''b'' \<or> b = CHR ''c'') \<and> at bs (i + 1) = Some (CHR ''r'') then raw_len_at bs i (i + 2)
      else if b = CHR ''/'' \<and> at bs (i + 1) = Some (CHR ''/'') then skip_while (\<lambda>c. c \<noteq> newline) bs i - i
      else if b = CHR ''/'' \<and> at bs (i + 1) = Some (CHR ''*'') then min (comment_scan bs (i + 2) + 2) (length bs) - i
      else 1)"

definition is_literal_start_at :: "string \<Rightarrow> nat \<Rightarrow> bool" where
  "is_literal_start_at bs i =
     (let b = bs ! i in
      if b = dquote \<or> b = squote then True
      else if b = CHR ''r'' then at bs (skip_while (\<lambda>c. c = CHR ''#'') bs (i + 1)) = Some dquote
      else if b = CHR ''b'' then
        at bs (i + 1) = Some dquote \<or> (at bs (i + 1) = Some (CHR ''r'') \<and> (at bs (i + 2) = Some (CHR ''#'') \<or> at bs (i + 2) = Some dquote))
      else if b = CHR ''c'' then
        at bs (i + 1) = Some dquote \<or> (at bs (i + 1) = Some (CHR ''r'') \<and> (at bs (i + 2) = Some (CHR ''#'') \<or> at bs (i + 2) = Some dquote))
      else if b = CHR ''/'' then at bs (i + 1) = Some (CHR ''/'') \<or> at bs (i + 1) = Some (CHR ''*'')
      else False)"

section \<open>The literals agree\<close>

lemma at_drop: "at (drop i bs) k = at bs (i + k)"
  by (auto simp: at_def)

lemma drop_cases: "drop i bs = (if i < length bs then bs ! i # drop (i + 1) bs else [])"
  by (simp add: Cons_nth_drop_Suc)

lemma skip_while_eq: "skip_while P bs i = i + length (takeWhile P (drop i bs))"
proof (induction P bs i rule: skip_while.induct)
  case (1 P bs i)
  then show ?case by (subst skip_while.simps, subst drop_cases) simp
qed

lemma quoted_scan_eq: "quoted_scan bs i = map_option ((+) i) (quoted_end (drop i bs))"
proof (induction bs i rule: quoted_scan.induct)
  case (1 bs i)
  show ?case
  proof (cases "i < length bs \<and> bs ! i = backslash")
    case True
    then have d: "drop i bs = backslash # drop (i + 1) bs" by (simp add: drop_cases [of i])
    show ?thesis
    proof (cases "i + 1 < length bs")
      case True
      then have "drop (i + 1) bs = bs ! (i + 1) # drop (i + 2) bs" by (simp add: Cons_nth_drop_Suc)
      then show ?thesis using 1 \<open>i < length bs \<and> bs ! i = backslash\<close>
        by (subst quoted_scan.simps) (simp add: d option.map_comp comp_def ac_simps)
    next
      case False
      then show ?thesis using 1 \<open>i < length bs \<and> bs ! i = backslash\<close>
        by (subst quoted_scan.simps) (simp add: d)
    qed
  next
    case False
    with 1 show ?thesis
      by (subst quoted_scan.simps, subst drop_cases) (auto simp: option.map_comp comp_def)
  qed
qed

lemma hashes_follow_eq: "hashes_follow bs i h \<longleftrightarrow> take h (drop (i + 1) bs) = replicate h (CHR ''#'')"
proof
  assume "hashes_follow bs i h"
  then have "\<forall>k < h. at bs (i + 1 + k) = Some (CHR ''#'')" by (simp add: hashes_follow_def list_all_iff)
  then have k: "\<forall>k < h. i + 1 + k < length bs \<and> bs ! (i + 1 + k) = CHR ''#''" by (simp add: at_Some)
  show "take h (drop (i + 1) bs) = replicate h (CHR ''#'')"
  proof (rule nth_equalityI)
    show "length (take h (drop (i + 1) bs)) = length (replicate h (CHR ''#''))"
      using k [rule_format, of "h - 1"] by (cases h) (auto simp: min_def)
  qed (use k in auto)
next
  assume t: "take h (drop (i + 1) bs) = replicate h (CHR ''#'')"
  from arg_cong [OF this, of length] have l: "h \<le> length bs - (i + 1)" by simp
  have "at bs (i + 1 + k) = Some (CHR ''#'')" if "k < h" for k
    using arg_cong [OF t, of "\<lambda>x. x ! k"] that l by (simp add: at_Some)
  then show "hashes_follow bs i h" by (simp add: hashes_follow_def list_all_iff)
qed

lemma raw_end_at_eq: "raw_end_at bs i h = map_option ((+) i) (raw_end h (drop i bs))"
proof (induction bs i h rule: raw_end_at.induct)
  case (1 bs i h)
  then show ?case
    by (subst raw_end_at.simps, subst drop_cases) (auto simp: hashes_follow_eq option.map_comp comp_def)
qed

lemma comment_scan_eq: "comment_scan bs j = j + comment_end (drop j bs)"
proof (induction bs j rule: comment_scan.induct)
  case (1 bs j)
  then show ?case
    by (subst comment_scan.simps, subst drop_cases) (auto simp: at_drop)
qed

lemma raw_len_at_eq: "raw_len_at bs i (i + j) = raw_len j (drop i bs)"
proof -
  have h: "skip_while (\<lambda>c. c = CHR ''#'') bs (i + j) = i + j + hashes_at j (drop i bs)"
    by (simp add: skip_while_eq hashes_at_def add.commute)
  show ?thesis
    by (simp add: raw_len_at_def raw_len_def h at_drop raw_end_at_eq Let_def ac_simps option.case_distrib split: option.split)
qed

lemma literal_len_at_eq:
  assumes "i < length bs"
  shows "literal_len_at bs i = literal_len (drop i bs)"
proof -
  have b: "at bs i = Some (bs ! i)" using assms by (simp add: at_def)
  have q0: "(case quoted_end_at bs i of None \<Rightarrow> 1 | Some e \<Rightarrow> e - i + 1) =
      (case quoted_end (drop 1 (drop i bs)) of None \<Rightarrow> 1 | Some e \<Rightarrow> (1 + e) + 1)"
    by (simp add: quoted_end_at_def quoted_scan_eq split: option.split)
  have q1: "(case quoted_end_at bs (i + 1) of None \<Rightarrow> 1 | Some e \<Rightarrow> e - i + 1) =
      (case quoted_end (drop 2 (drop i bs)) of None \<Rightarrow> 1 | Some e \<Rightarrow> (2 + e) + 1)"
    by (simp add: quoted_end_at_def quoted_scan_eq numeral_2_eq_2 split: option.split)
  have s: "(let j = skip_while (\<lambda>c. c \<noteq> squote) bs (i + 2) in if j < length bs then j - i + 1 else 1) =
      (let j = 2 + length (takeWhile (\<lambda>c. c \<noteq> squote) (drop 2 (drop i bs))) in if j < length (drop i bs) then j + 1 else 1)"
    by (simp add: skip_while_eq Let_def less_diff_conv ac_simps)
  have w: "skip_while (\<lambda>c. c \<noteq> newline) bs i - i = length (takeWhile (\<lambda>c. c \<noteq> newline) (drop i bs))"
    by (simp add: skip_while_eq)
  have c: "min (comment_scan bs (i + 2) + 2) (length bs) - i = min (2 + comment_end (drop 2 (drop i bs)) + 2) (length (drop i bs))"
    by (simp add: comment_scan_eq min_diff [symmetric] ac_simps)
  show ?thesis
    by (simp only: literal_len_at_def literal_len_def Let_def at_drop add_0_right b option.inject q0 q1 w c raw_len_at_eq
        s [unfolded Let_def])
qed

lemma is_literal_start_at_eq:
  assumes "i < length bs"
  shows "is_literal_start_at bs i = is_literal_start (drop i bs)"
proof -
  have b: "at bs i = Some (bs ! i)" using assms by (simp add: at_def)
  have h: "skip_while (\<lambda>c. c = CHR ''#'') bs (i + 1) = i + (1 + hashes_at 1 (drop i bs))"
    by (simp add: skip_while_eq hashes_at_def)
  show ?thesis
    unfolding is_literal_start_at_def is_literal_start_def h by (simp add: at_drop b Let_def)
qed

section \<open>Delimiters\<close>

function delim_loop :: "string \<Rightarrow> char \<Rightarrow> char \<Rightarrow> nat \<Rightarrow> nat \<Rightarrow> nat option" where
  "delim_loop bs open_ch close_ch depth i =
     (if i < length bs then
        (let b = bs ! i in
         if b = open_ch then delim_loop bs open_ch close_ch (depth + 1) (i + 1)
         else if b = close_ch then
           (if depth - 1 = 0 then Some i else delim_loop bs open_ch close_ch (depth - 1) (i + 1))
         else if b \<in> {dquote, squote, CHR ''r'', CHR ''b'', CHR ''c''} \<and> is_literal_start_at bs i then
           delim_loop bs open_ch close_ch depth (i + (literal_len_at bs i - 1) + 1)
         else if b = CHR ''/'' \<and> (at bs (i + 1) = Some (CHR ''/'') \<or> at bs (i + 1) = Some (CHR ''*'')) then
           delim_loop bs open_ch close_ch depth (i + (literal_len_at bs i - 1) + 1)
         else delim_loop bs open_ch close_ch depth (i + 1))
      else None)"
  by auto
termination by (relation "measure (\<lambda>(bs, _, _, _, i). length bs - i)") auto

declare delim_loop.simps [simp del]

definition find_matching_delim_at :: "string \<Rightarrow> nat \<Rightarrow> char \<Rightarrow> char \<Rightarrow> nat option" where
  "find_matching_delim_at bs open_pos open_ch close_ch = delim_loop bs open_ch close_ch 0 open_pos"

definition find_matching_bracket_at :: "string \<Rightarrow> nat \<Rightarrow> nat option" where
  "find_matching_bracket_at bs open_pos = find_matching_delim_at bs open_pos (CHR ''['') (CHR '']'')"

text \<open>The same loop, written out with the braces.\<close>

definition find_matching_brace_at :: "string \<Rightarrow> nat \<Rightarrow> nat option" where
  "find_matching_brace_at bs open_pos = delim_loop bs (CHR ''{'') (CHR ''}'') 0 open_pos"

lemma literal_start_bytes:
  assumes "i < length bs"
  shows "(bs ! i \<in> {dquote, squote, CHR ''r'', CHR ''b'', CHR ''c''} \<and> is_literal_start_at bs i \<or>
      bs ! i = CHR ''/'' \<and> (at bs (i + 1) = Some (CHR ''/'') \<or> at bs (i + 1) = Some (CHR ''*''))) \<longleftrightarrow>
    is_literal_start (drop i bs)"
  unfolding is_literal_start_at_eq [OF assms, symmetric] is_literal_start_at_def Let_def
  by (auto simp: dquote_def squote_def)

lemma delim_loop_eq: "delim_loop bs oc cc d i = map_option ((+) i) (find_close oc cc d (drop i bs))"
proof (induction bs oc cc d i rule: delim_loop.induct)
  case (1 bs oc cc d i)
  show ?case
  proof (cases "i < length bs")
    case False
    then show ?thesis by (simp add: delim_loop.simps find_close.simps)
  next
    case True
    let ?b = "bs ! i"
    have d: "drop i bs = ?b # drop (i + 1) bs" using True by (simp add: Cons_nth_drop_Suc)
    have l: "1 \<le> literal_len (drop i bs)" using literal_len_bound [of "drop i bs"] True by simp
    consider (o) "?b = oc" | (z) "?b \<noteq> oc" "?b = cc" "d - 1 = 0" | (c) "?b \<noteq> oc" "?b = cc" "d - 1 \<noteq> 0"
      | (l) "?b \<noteq> oc" "?b \<noteq> cc" "is_literal_start (drop i bs)" | (n) "?b \<noteq> oc" "?b \<noteq> cc" "\<not> is_literal_start (drop i bs)"
      by blast
    then show ?thesis
    proof cases
      case l
      have n: "i + (literal_len_at bs i - 1) + 1 = i + literal_len (drop i bs)"
        using \<open>1 \<le> literal_len (drop i bs)\<close> literal_len_at_eq [OF True] by simp
      have "delim_loop bs oc cc d i = delim_loop bs oc cc d (i + literal_len (drop i bs))"
        using l literal_start_bytes [OF True] True unfolding n [symmetric]
        by (subst delim_loop.simps) (auto simp: Let_def)
      moreover have "delim_loop bs oc cc d (i + literal_len (drop i bs)) =
          map_option ((+) (i + literal_len (drop i bs))) (find_close oc cc d (drop (literal_len (drop i bs)) (drop i bs)))"
      proof (cases "?b \<in> {dquote, squote, CHR ''r'', CHR ''b'', CHR ''c''} \<and> is_literal_start_at bs i")
        case True
        from 1(3) [OF \<open>i < length bs\<close> refl l(1,2) True] show ?thesis unfolding n drop_drop add.commute [of "literal_len (drop i bs)"] .
      next
        case False
        with l(3) literal_start_bytes [OF True]
        have "?b = CHR ''/'' \<and> (at bs (i + 1) = Some (CHR ''/'') \<or> at bs (i + 1) = Some (CHR ''*''))" by blast
        from 1(4) [OF \<open>i < length bs\<close> refl l(1,2) False this] show ?thesis unfolding n drop_drop add.commute [of "literal_len (drop i bs)"] .
      qed
      moreover have "find_close oc cc d (drop i bs) =
          map_option ((+) (literal_len (drop i bs))) (find_close oc cc d (drop (literal_len (drop i bs)) (drop i bs)))"
        using l d by (subst find_close.simps) simp
      moreover have "(+) i \<circ> (+) (literal_len (drop i bs)) = (+) (i + literal_len (drop i bs))" by (auto simp: fun_eq_iff)
      ultimately show ?thesis by (simp add: option.map_comp)
    next
      case o
      then show ?thesis using 1(1) [OF True refl o] True
        by (subst delim_loop.simps, subst find_close.simps) (simp add: d option.map_comp comp_def)
    next
      case z
      then show ?thesis using True by (subst delim_loop.simps, subst find_close.simps) (simp add: d)
    next
      case c
      then show ?thesis using 1(2) [OF True refl c] True
        by (subst delim_loop.simps, subst find_close.simps) (simp add: d option.map_comp comp_def del: diff_is_0_eq)
    next
      case n
      have m: "\<not> (?b \<in> {dquote, squote, CHR ''r'', CHR ''b'', CHR ''c''} \<and> is_literal_start_at bs i)"
          "\<not> (?b = CHR ''/'' \<and> (at bs (i + 1) = Some (CHR ''/'') \<or> at bs (i + 1) = Some (CHR ''*'')))"
        using n(3) literal_start_bytes [OF True] by blast+
      have "delim_loop bs oc cc d i = delim_loop bs oc cc d (i + 1)"
        by (subst delim_loop.simps) (simp only: Let_def True n m if_True if_False)
      moreover have "\<dots> = map_option ((+) (i + 1)) (find_close oc cc d (drop (i + 1) bs))"
        by (rule 1(5) [OF True refl n(1,2) m])
      moreover have "(+) i \<circ> Suc = (+) (i + 1)" by (auto simp: fun_eq_iff)
      ultimately show ?thesis using n d by (subst find_close.simps) (simp add: option.map_comp)
    qed
  qed
qed

lemma find_matching_eqs:
  "find_matching_delim_at bs i oc cc = map_option ((+) i) (find_matching_delim oc cc (drop i bs))"
  "find_matching_bracket_at bs i = map_option ((+) i) (find_matching_bracket (drop i bs))"
  "find_matching_brace_at bs i = map_option ((+) i) (find_matching_brace (drop i bs))"
  by (simp_all add: find_matching_delim_at_def find_matching_bracket_at_def find_matching_brace_at_def delim_loop_eq
      find_matching_delim_def find_matching_bracket_def find_matching_brace_def)

section \<open>The module\<close>

lemma skip_while_bounds: "i \<le> skip_while P bs i" "i \<le> length bs \<Longrightarrow> skip_while P bs i \<le> length bs"
  using length_takeWhile_le [of P "drop i bs"] by (simp_all add: skip_while_eq)

lemma skip_while_step: "i < length bs \<Longrightarrow> P (bs ! i) \<Longrightarrow> i < skip_while P bs i"
  using skip_while_bounds(1) [of "i + 1" P bs] by (subst skip_while.simps) simp

lemma comment_scan_le: "j \<le> comment_scan bs j"
  by (simp add: comment_scan_eq)

function skip_trivia_at :: "string \<Rightarrow> nat \<Rightarrow> nat" where
  "skip_trivia_at bs i =
     (let i1 = skip_while ascii_ws bs i in
      if at bs i1 = Some (CHR ''/'') \<and> at bs (i1 + 1) = Some (CHR ''/'') then
        skip_trivia_at bs (skip_while (\<lambda>c. c \<noteq> newline) bs i1)
      else if at bs i1 = Some (CHR ''/'') \<and> at bs (i1 + 1) = Some (CHR ''*'') then
        skip_trivia_at bs (min (comment_scan bs (i1 + 2) + 2) (length bs))
      else i1)"
  by auto
termination
proof (relation "measure (\<lambda>(bs, i). length bs - i)", goal_cases)
  case (2 bs i i1)
  then have "i1 < length bs" "bs ! i1 \<noteq> newline" by (auto simp: at_Some newline_def)
  then have "i1 < skip_while (\<lambda>c. c \<noteq> newline) bs i1" by (rule skip_while_step)
  with \<open>i1 < length bs\<close> skip_while_bounds(1) [of i ascii_ws bs] 2(1) show ?case by simp
next
  case (3 bs i i1)
  then have "i1 + 1 < length bs" by (auto simp: at_Some)
  with comment_scan_le [of "i1 + 2" bs] skip_while_bounds(1) [of i ascii_ws bs] 3(1) show ?case by simp
qed simp

declare skip_trivia_at.simps [simp del]

text \<open>The index after the word, if it is there.\<close>

definition consume_word_at :: "string \<Rightarrow> nat \<Rightarrow> string \<Rightarrow> nat option" where
  "consume_word_at bs i word =
     (if \<not> (i + length word \<le> length bs \<and> take (length word) (drop i bs) = word) then None
      else if (case at bs (i + length word) of None \<Rightarrow> False | Some b \<Rightarrow> ident_char b) then None
      else Some (i + length word))"

definition skip_visibility_at :: "string \<Rightarrow> nat \<Rightarrow> nat" where
  "skip_visibility_at bs i =
     (case consume_word_at bs i ''pub'' of
        None \<Rightarrow> i
      | Some i1 \<Rightarrow>
          (let i2 = skip_trivia_at bs i1 in
           if at bs i2 = Some (CHR ''('') then
             (case find_matching_delim_at bs i2 (CHR ''('') (CHR '')'') of Some e \<Rightarrow> e + 1 | None \<Rightarrow> i2)
           else i2))"

text \<open>An index and the suffix that stand for the same position.\<close>

definition same_pos :: "string \<Rightarrow> nat \<Rightarrow> string \<Rightarrow> bool" where
  "same_pos bs i s \<longleftrightarrow> i \<le> length bs \<and> s = drop i bs"

lemma same_pos_skip_while: "same_pos bs i s \<Longrightarrow> same_pos bs (skip_while P bs i) (dropWhile P s)"
  using skip_while_bounds(2) [of i bs P] by (simp add: same_pos_def skip_while_eq dropWhile_eq_drop add.commute)

lemma same_pos_at: "same_pos bs i s \<Longrightarrow> at s k = at bs (i + k)"
  by (simp add: same_pos_def at_drop)

lemma prefix2: "prefix [a, b] s \<longleftrightarrow> at s 0 = Some a \<and> at s 1 = Some b"
  by (cases s; cases "tl s") (auto simp: at_def)

lemma same_pos_trivia: "same_pos bs i s \<Longrightarrow> same_pos bs (skip_trivia_at bs i) (skip_trivia s)"
proof (induction bs i arbitrary: s rule: skip_trivia_at.induct)
  case (1 bs i)
  let ?i = "skip_while ascii_ws bs i" and ?s = "dropWhile ascii_ws s"
  have s: "same_pos bs ?i ?s" using 1(3) by (rule same_pos_skip_while)
  consider (l) "at bs ?i = Some (CHR ''/'') \<and> at bs (?i + 1) = Some (CHR ''/'')"
    | (c) "\<not> (at bs ?i = Some (CHR ''/'') \<and> at bs (?i + 1) = Some (CHR ''/''))"
      "at bs ?i = Some (CHR ''/'') \<and> at bs (?i + 1) = Some (CHR ''*'')"
    | (n) "\<not> (at bs ?i = Some (CHR ''/'') \<and> at bs (?i + 1) = Some (CHR ''/''))"
      "\<not> (at bs ?i = Some (CHR ''/'') \<and> at bs (?i + 1) = Some (CHR ''*''))" by blast
  then show ?case
  proof cases
    case l
    have "skip_trivia_at bs i = skip_trivia_at bs (skip_while (\<lambda>c. c \<noteq> newline) bs ?i)"
      using l by (subst skip_trivia_at.simps) (simp only: Let_def simp_thms if_True)
    moreover have "skip_trivia s = skip_trivia (dropWhile (\<lambda>c. c \<noteq> newline) ?s)"
      using l by (subst skip_trivia.simps) (simp only: Let_def prefix2 same_pos_at [OF s] add_0_right simp_thms if_True)
    ultimately show ?thesis using 1(1) [OF refl l same_pos_skip_while [OF s]] by simp
  next
    case c
    let ?j = "min (comment_scan bs (?i + 2) + 2) (length bs)" and ?t = "drop (comment_end (drop 2 ?s) + 2) (drop 2 ?s)"
    have "skip_trivia_at bs i = skip_trivia_at bs ?j"
      using c by (subst skip_trivia_at.simps) (simp add: Let_def)
    moreover have "skip_trivia s = skip_trivia ?t"
      using c by (subst skip_trivia.simps) (simp add: Let_def prefix2 same_pos_at [OF s])
    moreover have "same_pos bs ?j ?t"
      using s by (auto simp: same_pos_def comment_scan_eq min_def ac_simps)
    ultimately show ?thesis using 1(2) [OF refl c] by simp
  next
    case n
    have "skip_trivia_at bs i = ?i" using n by (subst skip_trivia_at.simps) (simp only: Let_def if_False)
    moreover have "skip_trivia s = ?s"
      using n by (subst skip_trivia.simps) (simp only: Let_def prefix2 same_pos_at [OF s] add_0_right if_False)
    ultimately show ?thesis using s by simp
  qed
qed

text \<open>Results that are positions, or the absence of one.\<close>

definition same_opt :: "string \<Rightarrow> nat option \<Rightarrow> string option \<Rightarrow> bool" where
  "same_opt bs x y \<longleftrightarrow> rel_option (same_pos bs) x y"

lemma same_opt_word:
  assumes "same_pos bs i s"
  shows "same_opt bs (consume_word_at bs i w) (consume_word w s)"
proof -
  have p: "prefix w s \<longleftrightarrow> i + length w \<le> length bs \<and> take (length w) (drop i bs) = w"
  proof -
    have "prefix w s \<longleftrightarrow> take (length w) s = w" by (metis append_eq_conv_conj append_take_drop_id prefix_def)
    moreover have "i + length w \<le> length bs" if "take (length w) (drop i bs) = w"
      using arg_cong [OF that, of length] assms by (simp add: same_pos_def min_def split: if_splits)
    ultimately show ?thesis using assms by (auto simp: same_pos_def)
  qed
  show ?thesis
    unfolding consume_word_at_def consume_word_def p same_pos_at [OF assms]
    using assms by (auto simp: same_opt_def same_pos_def add.commute split: option.splits)
qed

lemma same_pos_visibility:
  assumes "same_pos bs i s"
  shows "same_pos bs (skip_visibility_at bs i) (skip_visibility s)"
proof -
  from same_opt_word [OF assms, of "''pub''"] consider
      (none) "consume_word_at bs i ''pub'' = None" "consume_word ''pub'' s = None"
    | (some) i1 s1 where "consume_word_at bs i ''pub'' = Some i1" "consume_word ''pub'' s = Some s1" "same_pos bs i1 s1"
    unfolding same_opt_def by (cases "consume_word_at bs i ''pub''"; cases "consume_word ''pub'' s") auto
  then show ?thesis
  proof cases
    case none
    then show ?thesis using assms by (simp add: skip_visibility_at_def skip_visibility_def)
  next
    case some
    let ?i = "skip_trivia_at bs i1" and ?s = "skip_trivia s1"
    have s: "same_pos bs ?i ?s" using some(3) by (rule same_pos_trivia)
    have d: "find_matching_delim_at bs ?i (CHR ''('') (CHR '')'') = map_option ((+) ?i) (find_matching_delim (CHR ''('') (CHR '')'') ?s)"
      using s by (simp add: find_matching_eqs same_pos_def)
    have "same_pos bs (?i + e + 1) (drop (e + 1) ?s)" if "find_matching_delim (CHR ''('') (CHR '')'') ?s = Some e" for e
      using that find_close_end [of "CHR ''(''" "CHR '')''" 0 ?s e] s
      by (simp add: find_matching_delim_def same_pos_def ac_simps Suc_le_eq less_diff_conv)
    then show ?thesis
      using s some(1,2) d same_pos_at [OF s, of 0]
      by (auto simp: skip_visibility_at_def skip_visibility_def Let_def split: option.split)
  qed
qed

function skip_attributes_at :: "string \<Rightarrow> nat \<Rightarrow> nat option" where
  "skip_attributes_at bs i =
     (let i1 = skip_trivia_at bs i in
      if at bs i1 = Some (CHR ''#'') \<and> at bs (i1 + 1) = Some (CHR ''['') then
        (case find_matching_bracket_at bs (i1 + 1) of
           None \<Rightarrow> None
         | Some e \<Rightarrow> skip_attributes_at bs (e + 1))
      else Some i1)"
  by auto

lemma skip_trivia_at_ge: "i \<le> skip_trivia_at bs i \<or> length bs \<le> skip_trivia_at bs i"
proof (induction bs i rule: skip_trivia_at.induct)
  case (1 bs i)
  let ?i = "skip_while ascii_ws bs i"
  have i: "i \<le> ?i" by (rule skip_while_bounds)
  show ?case
    using 1 i skip_while_bounds(1) [of ?i "\<lambda>c. c \<noteq> newline" bs] comment_scan_le [of "?i + 2" bs]
    by (subst (1 2) skip_trivia_at.simps) (auto simp: Let_def)
qed

termination skip_attributes_at
proof (relation "measure (\<lambda>(bs, i). length bs - i)", goal_cases)
  case (2 bs i i1 e)
  have "i1 + 1 \<le> e" using 2(3) by (auto simp: find_matching_eqs)
  moreover have "i1 < length bs" using 2(2) by (simp add: at_Some)
  moreover have "i \<le> i1" using skip_trivia_at_ge [of i bs] 2(1) \<open>i1 < length bs\<close> by auto
  ultimately show ?case by simp
qed simp

declare skip_attributes_at.simps [simp del]

definition locate_app_item_at :: "string \<Rightarrow> nat \<Rightarrow> app_item option" where
  "locate_app_item_at bs attr_pos =
     Option.bind (find_matching_bracket_at bs (attr_pos + 1)) (\<lambda>attr_end.
     Option.bind (skip_attributes_at bs (attr_end + 1)) (\<lambda>i0.
       let i1 = skip_trivia_at bs (skip_visibility_at bs i0) in
     Option.bind (consume_word_at bs i1 ''mod'') (\<lambda>i2.
       let i3 = skip_trivia_at bs i2;
           i4 = skip_while ident_char bs i3;
           i5 = skip_trivia_at bs i4
       in if at bs i5 \<noteq> Some (CHR ''{'') then None
          else Option.bind (find_matching_brace_at bs i5) (\<lambda>close. Some \<lparr>attr_start = attr_pos, item_end = close + 1\<rparr>))))"

lemma same_pos_bracket:
  assumes "same_pos bs i s" and "find_matching_bracket (drop k s) = Some e"
  shows "find_matching_bracket_at bs (i + k) = Some (i + k + e)" and "same_pos bs (i + k + e + 1) (drop (k + e + 1) s)"
proof -
  show "find_matching_bracket_at bs (i + k) = Some (i + k + e)"
    using assms by (simp add: find_matching_eqs same_pos_def add.commute)
  show "same_pos bs (i + k + e + 1) (drop (k + e + 1) s)"
    using assms find_close_end [of "CHR ''[''" "CHR '']''" 0 "drop k s" e]
    by (simp add: find_matching_bracket_def find_matching_delim_def same_pos_def ac_simps Suc_le_eq less_diff_conv)
qed

lemma same_opt_attributes: "same_pos bs i s \<Longrightarrow> same_opt bs (skip_attributes_at bs i) (skip_attributes s)"
proof (induction bs i arbitrary: s rule: skip_attributes_at.induct)
  case (1 bs i)
  let ?i = "skip_trivia_at bs i" and ?s = "skip_trivia s"
  have s: "same_pos bs ?i ?s" using 1(2) by (rule same_pos_trivia)
  show ?case
  proof (cases "at bs ?i = Some (CHR ''#'') \<and> at bs (?i + 1) = Some (CHR ''['')")
    case False
    have "skip_attributes_at bs i = Some ?i" using False by (subst skip_attributes_at.simps) (simp only: Let_def if_False)
    moreover have "skip_attributes s = Some ?s"
      using False by (subst skip_attributes.simps) (simp only: Let_def prefix2 same_pos_at [OF s] add_0_right if_False)
    ultimately show ?thesis using s by (simp add: same_opt_def)
  next
    case True
    have a: "skip_attributes_at bs i =
        (case find_matching_bracket_at bs (?i + 1) of None \<Rightarrow> None | Some e \<Rightarrow> skip_attributes_at bs (e + 1))"
      using True by (subst skip_attributes_at.simps) (simp only: Let_def simp_thms if_True)
    have b: "skip_attributes s =
        (case find_matching_bracket (drop 1 ?s) of None \<Rightarrow> None | Some e \<Rightarrow> skip_attributes (drop (1 + e + 1) ?s))"
      using True by (subst skip_attributes.simps) (simp only: Let_def prefix2 same_pos_at [OF s] add_0_right simp_thms if_True)
    show ?thesis
    proof (cases "find_matching_bracket (drop 1 ?s)")
      case None
      then have "find_matching_bracket_at bs (?i + 1) = None" using s by (simp add: find_matching_eqs same_pos_def add.commute)
      with None show ?thesis by (simp add: a b same_opt_def)
    next
      case (Some e)
      note e = same_pos_bracket [OF s Some]
      show ?thesis using 1(1) [OF refl True e(1) e(2)] unfolding a b e(1) Some option.case .
    qed
  qed
qed

lemma same_pos_length: "same_pos bs i s \<Longrightarrow> length bs - length s = i"
  by (simp add: same_pos_def)

lemma same_opt_bind:
  "same_opt bs x y \<Longrightarrow> (\<And>i s. same_pos bs i s \<Longrightarrow> f i = map_option h (g s)) \<Longrightarrow>
    Option.bind x f = map_option h (Option.bind y g)"
  by (cases x; cases y) (auto simp: same_opt_def)

lemma locate_app_item_at_eq:
  "locate_app_item_at bs a =
    map_option (\<lambda>rest. \<lparr>attr_start = a, item_end = length bs - length rest\<rparr>) (locate_app_item (drop a bs))"
proof (cases "find_matching_bracket (drop (a + 1) bs)")
  case None
  then show ?thesis by (simp add: locate_app_item_at_def locate_app_item_def find_matching_eqs)
next
  case (Some e)
  have "a + 1 \<le> length bs"
  proof (rule ccontr)
    assume "\<not> a + 1 \<le> length bs"
    with Some show False by (simp add: find_matching_bracket_def find_matching_delim_def find_close.simps)
  qed
  then have p: "same_pos bs a (drop a bs)" by (simp add: same_pos_def)
  have b: "find_matching_bracket (drop 1 (drop a bs)) = Some e" using Some by (simp add: add.commute)
  let ?item = "\<lambda>i. \<lparr>attr_start = a, item_end = i\<rparr>"
  let ?close = "\<lambda>i. if at bs i \<noteq> Some (CHR ''{'') then None
      else Option.bind (find_matching_brace_at bs i) (\<lambda>c. Some (?item (c + 1)))"
  let ?rest = "\<lambda>s. if at s 0 \<noteq> Some (CHR ''{'') then None else map_option (\<lambda>c. drop (c + 1) s) (find_matching_brace s)"
  have close: "?close i = map_option (\<lambda>rest. ?item (length bs - length rest)) (?rest s)" if s: "same_pos bs i s" for i s
  proof -
    have l: "length bs - length (drop (c + 1) s) = i + c + 1" if "find_matching_brace s = Some c" for c
      using that s find_close_end [of "CHR ''{''" "CHR ''}''" 0 s c]
      by (simp add: find_matching_brace_def find_matching_delim_def same_pos_def less_diff_conv)
    have m: "find_matching_brace_at bs i = map_option ((+) i) (find_matching_brace s)"
      using s by (simp add: find_matching_eqs same_pos_def)
    show ?thesis
      unfolding m using same_pos_at [OF s, of 0] l by (cases "find_matching_brace s") simp_all
  qed
  have mod: "Option.bind (consume_word_at bs i ''mod'')
        (\<lambda>i. ?close (skip_trivia_at bs (skip_while ident_char bs (skip_trivia_at bs i)))) =
      map_option (\<lambda>rest. ?item (length bs - length rest)) (Option.bind (consume_word ''mod'' s)
        (\<lambda>s. ?rest (skip_trivia (dropWhile ident_char (skip_trivia s)))))" if s: "same_pos bs i s" for i s
    by (rule same_opt_bind [OF same_opt_word [OF s]], rule close)
      (intro same_pos_trivia same_pos_skip_while)
  have "find_matching_bracket_at bs (a + 1) = Some (a + 1 + e)" "same_pos bs (a + 1 + e + 1) (drop (1 + e + 1) (drop a bs))"
    using same_pos_bracket [OF p b] by simp_all
  then show ?thesis
    unfolding locate_app_item_at_def locate_app_item_def Let_def b
    by (simp only: option.simps Option.bind.simps)
      (rule same_opt_bind [OF same_opt_attributes], assumption, rule mod, intro same_pos_trivia same_pos_visibility)
qed

section \<open>The search\<close>

fun find_items_at :: "nat \<Rightarrow> string \<Rightarrow> nat \<Rightarrow> app_item list \<Rightarrow> (unit, app_item list) res option" where
  "find_items_at 0 bs search items = None"
| "find_items_at (Suc fuel) bs search items =
     (case find_from bs search of
        Inl e \<Rightarrow> Some (Err e)
      | Inr None \<Rightarrow> Some (Ok items)
      | Inr (Some attr_pos) \<Rightarrow>
          (case locate_app_item_at bs attr_pos of
             None \<Rightarrow> find_items_at fuel bs (attr_pos + 1) items
           | Some item \<Rightarrow> find_items_at fuel bs (item_end item) (items @ [item])))"

definition find_app_items_at :: "nat \<Rightarrow> string \<Rightarrow> (unit, app_item list) res option" where
  "find_app_items_at fuel src = find_items_at fuel src 0 []"

lemma find_items_at_eq: "find_items_at fuel bs search items = find_items fuel bs search items"
proof (induction fuel bs search items rule: find_items.induct)
  case (2 fuel bs search items)
  then show ?case
    by (auto simp: locate_app_item_at_eq Let_def split: sum.split option.split)
qed simp

lemma find_app_items_at_eq: "find_app_items_at fuel src = find_app_items fuel src"
  by (simp add: find_app_items_at_def find_app_items_def find_items_at_eq)



text \<open>
  (C39) When the first \<open>::app\<close> attribute of a file is not followed by a \<open>mod\<close> item that \<open>locate_app_item\<close> can
  delimit, \<open>find_app_items\<close> does not return, whatever the rest of the file: the search restarts one byte after the
  start of the attribute, finds the same \<open>::app\<close> and walks back to the same attribute.
\<close>

theorem find_app_items_at_hangs:
  assumes "find_from src 0 = Ok (Some h)" and "locate_app_item_at src h = None"
  shows "find_app_items_at fuel src = None"
  unfolding find_app_items_at_eq
  by (rule find_app_items_hangs [OF assms(1)]) (use assms(2) in \<open>simp add: locate_app_item_at_eq\<close>)

theorem find_app_items_at_hangs_witness: "\<forall>fuel. find_app_items_at fuel ''#[r::app()] fn f() {}'' = None"
proof
  fix fuel
  show "find_app_items_at fuel ''#[r::app()] fn f() {}'' = None"
    by (rule find_app_items_at_hangs [of _ 0]; code_simp)
qed

end
